(* ===== verification/Weenix_Prelude.thy ===== *)
theory Weenix_Prelude
  imports Main "HOL-Library.Word" "HOL-Library.Monad_Syntax"
begin

section \<open>Shared vocabulary of the development\<close>

text \<open>
  Types, constants and generic lemmas that the component theories share.

  \<^item> A C function that can hit a \<^verbatim>\<open>KASSERT\<close>, dereference \<^verbatim>\<open>NULL\<close> or otherwise leave
    defined behaviour is modelled by a function into \<open>'a option\<close>; \<open>None\<close> is that outcome and
    nothing else.  A negative \<^verbatim>\<open>errno\<close> return is an ordinary value: \<open>Inl e\<close> of the sum
    \<open>errno + 'a\<close>.
  \<^item> Addresses, page numbers and sizes are \<open>32 word\<close>, as \<^verbatim>\<open>uint32_t\<close> is.
  \<^item> The headers that fix the memory layout (\<^verbatim>\<open>mm/mm.h\<close>, \<^verbatim>\<open>mm/page.h\<close>) are not part of the
    repository.  Their constants are the fields of the record \<open>layout\<close>, an argument of every
    definition that uses them.
  \<^item> Bit masks whose numeric encoding lives in such headers are sets of named flags.
\<close>

type_synonym u32 = "32 word"

named_theorems areas "facts about lists of address ranges"
named_theorems monad "rewriting and splitting of option-valued code"

datatype errno =
    EINVAL | ENOMEM | EBADF | EACCES | EFAULT | EINTR | ECHILD | EMFILE | EISDIR | ENOTDIR
  | ENOENT | EEXIST | ENXIO | ENODEV | ENOTSUP | ENOTEMPTY | ENAMETOOLONG | EOVERFLOW | EBUSY
  | ENOSYS

datatype prot_flag = PROT_READ | PROT_WRITE | PROT_EXEC | PROT_OTHER nat

datatype map_flag = MAP_SHARED | MAP_PRIVATE | MAP_FIXED | MAP_ANON | MAP_OTHER nat

datatype vmode = S_IFREG | S_IFDIR | S_IFCHR | S_IFBLK | S_IFOTHER

record layout =
  PAGE_SHIFT :: nat
  USER_MEM_LOW :: u32
  USER_MEM_HIGH :: u32

definition ADDR_TO_PN :: "layout \<Rightarrow> u32 \<Rightarrow> u32" where
  "ADDR_TO_PN L a = drop_bit (PAGE_SHIFT L) a"

definition PN_TO_ADDR :: "layout \<Rightarrow> u32 \<Rightarrow> u32" where
  "PN_TO_ADDR L p = push_bit (PAGE_SHIFT L) p"

definition PAGE_SIZE :: "layout \<Rightarrow> u32" where
  "PAGE_SIZE L = push_bit (PAGE_SHIFT L) 1"

definition PAGE_ALIGNED :: "layout \<Rightarrow> u32 \<Rightarrow> bool" where
  "PAGE_ALIGNED L a \<longleftrightarrow> take_bit (PAGE_SHIFT L) a = 0"

abbreviation low_pn :: "layout \<Rightarrow> u32" where
  "low_pn L \<equiv> ADDR_TO_PN L (USER_MEM_LOW L)"

abbreviation high_pn :: "layout \<Rightarrow> u32" where
  "high_pn L \<equiv> ADDR_TO_PN L (USER_MEM_HIGH L)"

text \<open>A \<^verbatim>\<open>uint32_t\<close> returned as an \<^verbatim>\<open>int\<close>: two's complement.\<close>

definition as_int :: "u32 \<Rightarrow> int" where
  "as_int w = (if unat w < 2 ^ 31 then uint w else uint w - 2 ^ 32)"

text \<open>\<^verbatim>\<open>KASSERT(b)\<close>: a step of the option monad that goes on only when \<open>b\<close> holds.\<close>

definition kassert :: "bool \<Rightarrow> unit option" where
  "kassert b = (if b then Some () else None)"

lemma kassert_True [simp]: "kassert True = Some ()"
  by (simp add: kassert_def)

lemma kassert_False [simp]: "kassert False = None"
  by (simp add: kassert_def)

lemma kassert_Some [monad, simp]: "kassert b = Some u \<longleftrightarrow> b"
  by (simp add: kassert_def)

lemma kassert_bind_Some [monad, simp]: "kassert b \<bind> f = Some y \<longleftrightarrow> b \<and> f () = Some y"
  by (simp add: kassert_def)

lemma kassert_bind_None [monad, simp]: "kassert b \<bind> f = None \<longleftrightarrow> (b \<longrightarrow> f () = None)"
  by (simp add: kassert_def)

lemma map_sum_Inr_iff [monad]: "map_sum f g r = Inr y \<longleftrightarrow> (\<exists>x. r = Inr x \<and> y = g x)"
  by (cases r) auto

lemma case_sum_Inr_iff [monad]:
  "(case r of Inl m \<Rightarrow> Some (Inl m) | Inr x \<Rightarrow> f x) = Some (Inr y) \<longleftrightarrow> (\<exists>x. r = Inr x \<and> f x = Some (Inr y))"
  by (cases r) auto

lemma set_butlast_distinct: "distinct xs \<Longrightarrow> xs \<noteq> [] \<Longrightarrow> set (butlast xs) = set xs - {last xs}"
  by (cases xs rule: rev_cases) auto

lemma drop_all_le: "length xs \<le> n \<Longrightarrow> drop n xs = []"
  by simp

subsection \<open>Machine arithmetic without wrap-around\<close>

text \<open>Where the operands are ordered, the 32-bit operations agree with those on \<open>nat\<close>.\<close>

lemma unat_sub_le: "(b :: u32) \<le> a \<Longrightarrow> unat (a - b) = unat a - unat b"
  by (rule unat_sub)

lemma unat_add_le: "unat (a :: u32) + unat b < 2 ^ 32 \<Longrightarrow> unat (a + b) = unat a + unat b"
  by (simp add: unat_word_ariths)

lemma less_unat: "(a :: u32) < b \<longleftrightarrow> unat a < unat b"
  by (rule word_less_nat_alt)

lemma le_unat: "(a :: u32) \<le> b \<longleftrightarrow> unat a \<le> unat b"
  by (rule word_le_nat_alt)

lemma unat_lt32: "unat (a :: u32) < 4294967296"
  using unsigned_less [of a, where ?'a = nat] by simp

lemma as_int_small: "unat w < 2 ^ 31 \<Longrightarrow> as_int w = uint w"
  by (simp add: as_int_def)

lemma as_int_large: "2 ^ 31 \<le> unat w \<Longrightarrow> as_int w < 0"
  using uint_lt2p [of w] by (simp add: as_int_def)

lemma unat_ADDR_TO_PN: "unat (ADDR_TO_PN L a) = unat a div 2 ^ PAGE_SHIFT L"
  using drop_bit_eq_div [of "PAGE_SHIFT L" "unat a"] by (simp only: ADDR_TO_PN_def unat_drop_bit_eq)

lemma unat_PAGE_SIZE: "PAGE_SHIFT L < 32 \<Longrightarrow> unat (PAGE_SIZE L) = 2 ^ PAGE_SHIFT L"
proof -
  assume "PAGE_SHIFT L < 32"
  moreover have "unat (PAGE_SIZE L) = take_bit 32 (push_bit (PAGE_SHIFT L) 1)"
    unfolding PAGE_SIZE_def unsigned_push_bit_eq by simp
  moreover have "(2 :: nat) ^ PAGE_SHIFT L < 2 ^ 32"
    using calculation(1) by (intro power_strict_increasing) simp_all
  ultimately show ?thesis
    by (simp add: push_bit_eq_mult take_bit_eq_mod)
qed

lemma unat_page_offset: "PAGE_SHIFT L < 32 \<Longrightarrow> unat (a mod PAGE_SIZE L) = unat a mod 2 ^ PAGE_SHIFT L"
  by (simp add: unat_mod_distrib unat_PAGE_SIZE)

lemma same_page:
  assumes "PAGE_SHIFT L < 32" and "unat (a mod PAGE_SIZE L) + unat n < 2 ^ PAGE_SHIFT L"
  shows "ADDR_TO_PN L (a + n) = ADDR_TO_PN L a"
proof -
  let ?p = "2 ^ PAGE_SHIFT L :: nat"
  have off: "unat a mod ?p + unat n < ?p"
    using assms by (simp add: unat_page_offset)
  have split: "unat a = unat a div ?p * ?p + unat a mod ?p" by (rule div_mult_mod_eq [symmetric])
  have "?p dvd 2 ^ 32" using assms(1) by (intro le_imp_power_dvd) simp
  then obtain k where k: "(2 :: nat) ^ 32 = ?p * k" by (rule dvdE)
  have "unat a div ?p < k"
    using unat_lt32 [of a] k by (simp add: div_less_iff_less_mult mult.commute)
  then have "(unat a div ?p + 1) * ?p \<le> 2 ^ 32"
    unfolding k by (metis Suc_eq_plus1 Suc_leI mult.commute mult_le_mono2)
  moreover have "unat a + unat n < unat a div ?p * ?p + ?p"
    using off split by linarith
  ultimately have "unat a + unat n < 2 ^ 32"
    by (simp only: add_mult_distrib mult_1)
  then have "unat (a + n) = unat a + unat n"
    by (rule unat_add_le)
  also have "\<dots> = unat a div ?p * ?p + (unat a mod ?p + unat n)"
    using split by simp
  finally have "unat (a + n) div ?p = unat a div ?p"
    using off by simp
  then show ?thesis
    by (simp add: unat_ADDR_TO_PN word_unat_eq_iff)
qed

lemma word_add_le_mono:
  fixes a n h :: u32
  assumes "a \<le> h" and "n \<le> h - a"
  shows "a + n \<le> h" and "a \<le> a + n" and "unat (a + n) = unat a + unat n"
proof -
  have n: "unat n \<le> unat h - unat a"
    using assms unat_sub_le [of a h] by (simp add: le_unat)
  moreover have "unat a \<le> unat h"
    using assms(1) by (simp add: le_unat)
  ultimately have "unat a + unat n < 2 ^ 32"
    using unat_lt32 [of h] by simp
  then show eq: "unat (a + n) = unat a + unat n"
    by (rule unat_add_le)
  show "a + n \<le> h" and "a \<le> a + n"
    using n \<open>unat a \<le> unat h\<close> by (simp_all add: le_unat eq)
qed

end
