(* ===== verification/My402List.thy ===== *)
theory My402List
  imports Weenix_Prelude
begin

section \<open>The circular doubly linked list of warmup1\<close>

text \<open>
  \<^verbatim>\<open>warmup1/my402list.c\<close>: every function, over an explicit heap of list cells.

  \<^item> A pointer is a natural number and \<^verbatim>\<open>NULL\<close> is \<open>0\<close>.  The heap is a partial function; reading or
    writing a cell that is not allocated (in particular \<^verbatim>\<open>NULL\<close> or a freed cell) is \<open>None\<close>.
  \<^item> The anchor is a cell of the heap at the address of \<^verbatim>\<open>list->anchor\<close>.
  \<^item> \<^verbatim>\<open>malloc\<close> is an argument: the address it returns (\<open>0\<close> on failure) and the garbage it finds
    there.  \<open>fresh\<close> states what it promises.
  \<^item> \<^verbatim>\<open>num_members\<close> is a C \<^verbatim>\<open>int\<close>; an increment past \<^verbatim>\<open>INT_MAX\<close> is undefined and gives \<open>None\<close>.

  \<open>represents l ps xs\<close> says that the heap of \<open>l\<close> holds, from the anchor on, exactly the cells \<open>ps\<close>
  with the objects \<open>xs\<close>, linked correctly in both directions.  The properties show that every
  function implements the list operation its name says, does not fault, and leaves the rest of the
  heap alone.
\<close>

type_synonym addr = nat

record cell =
  obj :: addr
  nxt :: addr
  prv :: addr

type_synonym heap = "addr \<rightharpoonup> cell"

record My402List =
  num_members :: int
  anchor :: addr
  cells :: heap

abbreviation NULL :: addr where
  "NULL \<equiv> 0"

definition set_obj :: "addr \<Rightarrow> addr \<Rightarrow> heap \<Rightarrow> heap option" where
  "set_obj a v h = do { c \<leftarrow> h a; Some (h(a \<mapsto> c\<lparr>obj := v\<rparr>)) }"

definition set_nxt :: "addr \<Rightarrow> addr \<Rightarrow> heap \<Rightarrow> heap option" where
  "set_nxt a v h = do { c \<leftarrow> h a; Some (h(a \<mapsto> c\<lparr>nxt := v\<rparr>)) }"

definition set_prv :: "addr \<Rightarrow> addr \<Rightarrow> heap \<Rightarrow> heap option" where
  "set_prv a v h = do { c \<leftarrow> h a; Some (h(a \<mapsto> c\<lparr>prv := v\<rparr>)) }"

text \<open>\<^verbatim>\<open>free\<close>: freeing a cell that is not allocated is undefined; \<open>free(NULL)\<close> does nothing.\<close>

definition free_cell :: "addr \<Rightarrow> heap \<Rightarrow> heap option" where
  "free_cell a h = (if a = NULL then Some h else do { _ \<leftarrow> h a; Some (h(a := None)) })"

definition INT_MAX :: int where
  "INT_MAX = 2 ^ 31 - 1"

definition int_incr :: "int \<Rightarrow> int option" where
  "int_incr n = (if n < INT_MAX then Some (n + 1) else None)"

definition int_decr :: "int \<Rightarrow> int option" where
  "int_decr n = (if - INT_MAX - 1 < n then Some (n - 1) else None)"

subsection \<open>The operations\<close>

definition My402ListLength :: "My402List \<Rightarrow> int" where
  "My402ListLength l = num_members l"

definition My402ListEmpty :: "My402List \<Rightarrow> bool" where
  "My402ListEmpty l \<longleftrightarrow> num_members l = 0"

definition My402ListInit :: "My402List \<Rightarrow> (bool \<times> My402List) option" where
  "My402ListInit l = do {
     let a = anchor l;
     h1 \<leftarrow> set_obj a NULL (cells l);
     h2 \<leftarrow> set_nxt a a h1;
     h3 \<leftarrow> set_prv a a h2;
     Some (True, l\<lparr>num_members := 0, cells := h3\<rparr>) }"

definition My402ListFirst :: "My402List \<Rightarrow> addr option" where
  "My402ListFirst l =
     (if num_members l = 0 then Some NULL else do { c \<leftarrow> cells l (anchor l); Some (nxt c) })"

definition My402ListLast :: "My402List \<Rightarrow> addr option" where
  "My402ListLast l =
     (if num_members l = 0 then Some NULL else do { c \<leftarrow> cells l (anchor l); Some (prv c) })"

definition My402ListNext :: "My402List \<Rightarrow> addr \<Rightarrow> addr option" where
  "My402ListNext l elem = do {
     c \<leftarrow> cells l elem;
     Some (if nxt c = anchor l then NULL else nxt c) }"

definition My402ListPrev :: "My402List \<Rightarrow> addr \<Rightarrow> addr option" where
  "My402ListPrev l elem = do {
     c \<leftarrow> cells l elem;
     Some (if prv c = anchor l then NULL else prv c) }"

definition My402ListAppend ::
    "addr \<Rightarrow> cell \<Rightarrow> My402List \<Rightarrow> addr \<Rightarrow> (bool \<times> My402List) option" where
  "My402ListAppend newlist junk l ob =
     (if newlist = NULL then Some (False, l)
      else do {
        n \<leftarrow> int_incr (num_members l);
        h1 \<leftarrow> set_obj newlist ob ((cells l)(newlist \<mapsto> junk));
        h2 \<leftarrow> set_nxt newlist (anchor l) h1;
        a \<leftarrow> h2 (anchor l);
        h3 \<leftarrow> set_prv newlist (prv a) h2;
        h4 \<leftarrow> set_prv (anchor l) newlist h3;
        c \<leftarrow> h4 newlist;
        h5 \<leftarrow> set_nxt (prv c) newlist h4;
        Some (True, l\<lparr>num_members := n, cells := h5\<rparr>) })"

definition My402ListPrepend ::
    "addr \<Rightarrow> cell \<Rightarrow> My402List \<Rightarrow> addr \<Rightarrow> (bool \<times> My402List) option" where
  "My402ListPrepend newlist junk l ob =
     (if newlist = NULL then Some (False, l)
      else do {
        n \<leftarrow> int_incr (num_members l);
        h1 \<leftarrow> set_obj newlist ob ((cells l)(newlist \<mapsto> junk));
        a \<leftarrow> h1 (anchor l);
        h2 \<leftarrow> set_nxt newlist (nxt a) h1;
        h3 \<leftarrow> set_prv newlist (anchor l) h2;
        h4 \<leftarrow> set_nxt (anchor l) newlist h3;
        c \<leftarrow> h4 newlist;
        h5 \<leftarrow> set_prv (nxt c) newlist h4;
        Some (True, l\<lparr>num_members := n, cells := h5\<rparr>) })"

definition My402ListUnlink :: "My402List \<Rightarrow> addr \<Rightarrow> My402List option" where
  "My402ListUnlink l elem = do {
     c \<leftarrow> cells l elem;
     h1 \<leftarrow> set_nxt (prv c) (nxt c) (cells l);
     c1 \<leftarrow> h1 elem;
     h2 \<leftarrow> set_prv (nxt c1) (prv c1) h1;
     h3 \<leftarrow> set_nxt elem NULL h2;
     h4 \<leftarrow> set_prv elem NULL h3;
     h5 \<leftarrow> set_obj elem NULL h4;
     h6 \<leftarrow> free_cell elem h5;
     n \<leftarrow> int_decr (num_members l);
     Some (l\<lparr>num_members := n, cells := h6\<rparr>) }"

text \<open>The loop of \<^verbatim>\<open>My402ListUnlinkAll\<close> runs until it meets the anchor.\<close>

partial_function (option) unlink_loop :: "addr \<Rightarrow> heap \<Rightarrow> addr \<Rightarrow> addr \<Rightarrow> heap option" where
  "unlink_loop anc h elem temp =
     (if elem = anc then Some h
      else do {
        h1 \<leftarrow> set_nxt elem NULL h;
        h2 \<leftarrow> set_prv elem NULL h1;
        h3 \<leftarrow> set_obj elem NULL h2;
        h4 \<leftarrow> free_cell elem h3;
        t \<leftarrow> h4 temp;
        unlink_loop anc h4 temp (nxt t) })"

definition My402ListUnlinkAll :: "My402List \<Rightarrow> My402List option" where
  "My402ListUnlinkAll l = do {
     a \<leftarrow> cells l (anchor l);
     c \<leftarrow> cells l (nxt a);
     h \<leftarrow> unlink_loop (anchor l) (cells l) (nxt a) (nxt c);
     (_, l') \<leftarrow> My402ListInit (l\<lparr>cells := h\<rparr>);
     Some l' }"

definition My402ListInsertAfter ::
    "addr \<Rightarrow> cell \<Rightarrow> My402List \<Rightarrow> addr \<Rightarrow> addr \<Rightarrow> (bool \<times> My402List) option" where
  "My402ListInsertAfter newnode junk l ob elem =
     (if elem = NULL then My402ListAppend newnode junk l ob
      else if newnode = NULL then Some (False, l)
      else do {
        n \<leftarrow> int_incr (num_members l);
        h1 \<leftarrow> set_obj newnode ob ((cells l)(newnode \<mapsto> junk));
        c \<leftarrow> h1 elem;
        h2 \<leftarrow> set_nxt newnode (nxt c) h1;
        c2 \<leftarrow> h2 elem;
        d \<leftarrow> h2 (nxt c2);
        h3 \<leftarrow> set_prv newnode (prv d) h2;
        c3 \<leftarrow> h3 elem;
        h4 \<leftarrow> set_prv (nxt c3) newnode h3;
        h5 \<leftarrow> set_nxt elem newnode h4;
        Some (True, l\<lparr>num_members := n, cells := h5\<rparr>) })"

definition My402ListInsertBefore ::
    "addr \<Rightarrow> cell \<Rightarrow> My402List \<Rightarrow> addr \<Rightarrow> addr \<Rightarrow> (bool \<times> My402List) option" where
  "My402ListInsertBefore newnode junk l ob elem =
     (if elem = NULL then My402ListPrepend newnode junk l ob
      else if newnode = NULL then Some (False, l)
      else do {
        n \<leftarrow> int_incr (num_members l);
        h1 \<leftarrow> set_obj newnode ob ((cells l)(newnode \<mapsto> junk));
        h2 \<leftarrow> set_nxt newnode elem h1;
        c \<leftarrow> h2 elem;
        h3 \<leftarrow> set_prv newnode (prv c) h2;
        c3 \<leftarrow> h3 elem;
        h4 \<leftarrow> set_nxt (prv c3) newnode h3;
        h5 \<leftarrow> set_prv elem newnode h4;
        Some (True, l\<lparr>num_members := n, cells := h5\<rparr>) })"

partial_function (option) find_loop :: "heap \<Rightarrow> addr \<Rightarrow> int \<Rightarrow> addr \<Rightarrow> addr option" where
  "find_loop h ob len elem =
     (if len = 0 then Some NULL
      else do {
        c \<leftarrow> h elem;
        if obj c = ob then Some elem else find_loop h ob (len - 1) (nxt c) })"

definition My402ListFind :: "My402List \<Rightarrow> addr \<Rightarrow> addr option" where
  "My402ListFind l ob = do {
     first \<leftarrow> My402ListFirst l;
     find_loop (cells l) ob (My402ListLength l) first }"

text \<open>
  The loop \<^verbatim>\<open>for (e = My402ListFirst(l); e != NULL; e = My402ListNext(l, e)) body\<close> of the clients,
  over a state that contains the list.  A body that leaves the program with \<^verbatim>\<open>exit\<close> gives \<open>Inl\<close>.
\<close>

partial_function (option) for_each ::
    "('s \<Rightarrow> addr \<Rightarrow> addr option) \<Rightarrow> (addr \<Rightarrow> 's \<Rightarrow> ('x + 's) option) \<Rightarrow> addr \<Rightarrow> 's \<Rightarrow> ('x + 's) option"
  where
  "for_each next body e s =
     (if e = NULL then Some (Inr s)
      else do {
        r \<leftarrow> body e s;
        case r of
          Inl x \<Rightarrow> Some (Inl x)
        | Inr s' \<Rightarrow> do { e' \<leftarrow> next s' e; for_each next body e' s' } })"

fun fold_exit :: "('a \<Rightarrow> 's \<Rightarrow> ('x + 's) option) \<Rightarrow> 'a list \<Rightarrow> 's \<Rightarrow> ('x + 's) option" where
  "fold_exit body [] s = Some (Inr s)"
| "fold_exit body (e # es) s = do {
     r \<leftarrow> body e s;
     case r of Inl x \<Rightarrow> Some (Inl x) | Inr s' \<Rightarrow> fold_exit body es s' }"

subsection \<open>What a heap represents\<close>

text \<open>\<open>links h ps\<close>: consecutive cells of \<open>ps\<close> point at each other.\<close>

fun links :: "heap \<Rightarrow> addr list \<Rightarrow> bool" where
  "links h (p # q # ps) \<longleftrightarrow>
     map_option nxt (h p) = Some q \<and> map_option prv (h q) = Some p \<and> links h (q # ps)"
| "links h _ \<longleftrightarrow> True"

definition objs :: "heap \<Rightarrow> addr list \<Rightarrow> addr list \<Rightarrow> bool" where
  "objs h ps xs \<longleftrightarrow> map (\<lambda>p. map_option obj (h p)) ps = map Some xs"

definition represents :: "My402List \<Rightarrow> addr list \<Rightarrow> addr list \<Rightarrow> bool" where
  "represents l ps xs \<longleftrightarrow>
     links (cells l) (anchor l # ps @ [anchor l]) \<and> objs (cells l) ps xs
     \<and> distinct (anchor l # ps) \<and> NULL \<notin> set (anchor l # ps)
     \<and> num_members l = int (length ps) \<and> length ps \<le> nat INT_MAX"

text \<open>What \<^verbatim>\<open>malloc\<close> promises of a non-null result, and what stays the same elsewhere.\<close>

definition fresh :: "My402List \<Rightarrow> addr \<Rightarrow> bool" where
  "fresh l new \<longleftrightarrow> new \<noteq> NULL \<and> cells l new = None"

definition same_outside :: "addr set \<Rightarrow> My402List \<Rightarrow> My402List \<Rightarrow> bool" where
  "same_outside A l l' \<longleftrightarrow> anchor l' = anchor l \<and> (\<forall>a. a \<notin> A \<longrightarrow> cells l' a = cells l a)"

text \<open>The heap after a new cell has been put between \<open>p\<close> and \<open>q\<close>, as one function.\<close>

definition insert_between :: "addr \<Rightarrow> addr \<Rightarrow> addr \<Rightarrow> addr \<Rightarrow> heap \<Rightarrow> heap" where
  "insert_between p n x q h =
     (\<lambda>a. if a = n then Some \<lparr>obj = x, nxt = q, prv = p\<rparr>
          else map_option (\<lambda>c. c\<lparr>nxt := if a = p then n else nxt c,
                                  prv := if a = q then n else prv c\<rparr>) (h a))"

definition bypass :: "addr \<Rightarrow> addr \<Rightarrow> addr \<Rightarrow> heap \<Rightarrow> heap" where
  "bypass p n q h =
     (\<lambda>a. if a = n then None
          else map_option (\<lambda>c. c\<lparr>nxt := if a = p then q else nxt c,
                                  prv := if a = q then p else prv c\<rparr>) (h a))"

definition inserted :: "My402List \<Rightarrow> addr list \<Rightarrow> addr list \<Rightarrow> nat \<Rightarrow> addr \<Rightarrow> addr \<Rightarrow> My402List \<Rightarrow> bool" where
  "inserted l ps xs i n x l' \<longleftrightarrow>
     represents l' (take i ps @ n # drop i ps) (take i xs @ x # drop i xs)
     \<and> same_outside (insert n (set (anchor l # ps))) l l'"

definition head_or_null :: "addr list \<Rightarrow> addr" where
  "head_or_null ps = (case ps of [] \<Rightarrow> NULL | p # _ \<Rightarrow> p)"

text \<open>A list of two objects, \<open>71\<close> and \<open>72\<close>, in the cells \<open>1\<close> and \<open>2\<close>.\<close>

definition demo_list :: My402List where
  "demo_list = \<lparr>num_members = 2, anchor = 9,
     cells = [9 \<mapsto> \<lparr>obj = 0, nxt = 1, prv = 2\<rparr>, 1 \<mapsto> \<lparr>obj = 71, nxt = 2, prv = 9\<rparr>,
              2 \<mapsto> \<lparr>obj = 72, nxt = 9, prv = 1\<rparr>]\<rparr>"

definition demo_empty :: My402List where
  "demo_empty = \<lparr>num_members = 0, anchor = 9, cells = [9 \<mapsto> \<lparr>obj = 0, nxt = 9, prv = 9\<rparr>]\<rparr>"

subsection \<open>Lemmas on linked cells\<close>

lemmas heap_defs = set_obj_def set_nxt_def set_prv_def free_cell_def int_incr_def int_decr_def

lemma in_set_tail: "x \<in> set (tl xs) \<Longrightarrow> x \<in> set xs"
  by (cases xs) simp_all

lemma links_append:
  "links h (A @ p # q # B) \<longleftrightarrow>
     links h (A @ [p]) \<and> map_option nxt (h p) = Some q \<and> map_option prv (h q) = Some p
     \<and> links h (q # B)"
  by (induction h A rule: links.induct) auto

lemma links_cong:
  assumes "\<And>x. x \<in> set (butlast xs) \<Longrightarrow> map_option nxt (h' x) = map_option nxt (h x)"
    and "\<And>x. x \<in> set (tl xs) \<Longrightarrow> map_option prv (h' x) = map_option prv (h x)"
  shows "links h' xs = links h xs"
  using assms
proof (induction h xs rule: links.induct)
  case (1 h p q ps)
  have "links h' (q # ps) = links h (q # ps)"
    using "1.prems" by (intro "1.IH") (auto dest: list.set_sel(2))
  then show ?case
    using "1.prems" by simp
qed simp_all

text \<open>The ring seen from a gap in it: the neighbours \<open>p\<close> and \<open>q\<close> of the gap.\<close>

lemma ring_gap:
  fixes as M bs :: "addr list"
  assumes "distinct (anc # as @ M @ bs)"
  obtains A p q B where "anc # as = A @ [p]" and "bs @ [anc] = q # B"
    and "p \<notin> set A" and "q \<notin> set (tl (A @ [p]))" and "p \<notin> set (butlast (q # B))" and "q \<notin> set B"
    and "p = last (anc # as)" and "q = hd (bs @ [anc])"
proof -
  obtain A p where Ap: "anc # as = A @ [p]"
    by (metis append_butlast_last_id list.distinct(1))
  obtain q B where qB: "bs @ [anc] = q # B"
    by (metis append_is_Nil_conv list.exhaust)
  have 1: "p \<notin> set A" using assms Ap by (metis append_Cons distinct_append disjoint_iff list.set_intros(1))
  have tlA: "tl (A @ [p]) = as" using Ap by (metis list.sel(3))
  have 2: "q \<notin> set (tl (A @ [p]))"
    unfolding tlA using assms qB by (cases bs) auto
  have bb: "butlast (q # B) = bs" using qB by (metis butlast_snoc)
  have "p \<in> set (anc # as)" unfolding Ap by simp
  then have 3: "p \<notin> set (butlast (q # B))" unfolding bb using assms by auto
  have 4: "q \<notin> set B" using assms qB by (cases bs) auto
  from Ap qB 1 2 3 4 show ?thesis
    by (intro that [of A p q B]) (auto dest: arg_cong [of _ _ last] arg_cong [of _ _ hd])
qed

lemma insert_between_fields:
  "map_option nxt (insert_between p n x q h a) =
     (if a = n then Some q else if a = p then map_option (\<lambda>_. n) (h a) else map_option nxt (h a))"
  "map_option prv (insert_between p n x q h a) =
     (if a = n then Some p else if a = q then map_option (\<lambda>_. n) (h a) else map_option prv (h a))"
  "map_option obj (insert_between p n x q h a) = (if a = n then Some x else map_option obj (h a))"
  by (simp_all add: insert_between_def option.map_comp comp_def)

lemma bypass_fields:
  "map_option nxt (bypass p n q h a) =
     (if a = n then None else if a = p then map_option (\<lambda>_. q) (h a) else map_option nxt (h a))"
  "map_option prv (bypass p n q h a) =
     (if a = n then None else if a = q then map_option (\<lambda>_. p) (h a) else map_option prv (h a))"
  "map_option obj (bypass p n q h a) = (if a = n then None else map_option obj (h a))"
  by (simp_all add: bypass_def option.map_comp comp_def)

lemma map_option_const: "map_option f z = Some y \<Longrightarrow> map_option (\<lambda>_. n) z = Some n"
  by auto

text \<open>Changing the links at a gap leaves the chains on both sides of it as they are.\<close>

lemma links_sides:
  assumes "\<And>a. a \<in> set (A @ p # q # B) \<Longrightarrow> a \<noteq> p \<Longrightarrow> map_option nxt (h' a) = map_option nxt (h a)"
    and "\<And>a. a \<in> set (A @ p # q # B) \<Longrightarrow> a \<noteq> q \<Longrightarrow> map_option prv (h' a) = map_option prv (h a)"
    and "p \<notin> set A" and "q \<notin> set (tl (A @ [p]))" and "p \<notin> set (butlast (q # B))" and "q \<notin> set B"
  shows "links h' (A @ [p]) = links h (A @ [p])" and "links h' (q # B) = links h (q # B)"
proof -
  show "links h' (A @ [p]) = links h (A @ [p])"
  proof (rule links_cong)
    fix x assume "x \<in> set (butlast (A @ [p]))"
    then show "map_option nxt (h' x) = map_option nxt (h x)" using assms(3) by (intro assms(1)) auto
  next
    fix x assume x: "x \<in> set (tl (A @ [p]))"
    then have "x \<in> set (A @ [p])" by (rule in_set_tail)
    then show "map_option prv (h' x) = map_option prv (h x)" using x assms(4) by (intro assms(2)) auto
  qed
  show "links h' (q # B) = links h (q # B)"
  proof (rule links_cong)
    fix x assume x: "x \<in> set (butlast (q # B))"
    then have "x \<in> set (q # B)" by (rule in_set_butlastD)
    then show "map_option nxt (h' x) = map_option nxt (h x)" using x assms(5) by (intro assms(1)) auto
  next
    fix x assume "x \<in> set (tl (q # B))"
    then show "map_option prv (h' x) = map_option prv (h x)" using assms(6) by (intro assms(2)) auto
  qed
qed

lemma links_insert_between:
  assumes "links h (A @ p # q # B)" and "n \<notin> set (A @ p # q # B)"
    and "p \<notin> set A" and "q \<notin> set (tl (A @ [p]))" and "p \<notin> set (butlast (q # B))" and "q \<notin> set B"
  shows "links (insert_between p n x q h) (A @ p # n # q # B)"
proof -
  let ?h = "insert_between p n x q h"
  have "links ?h (A @ [p]) = links h (A @ [p])" and "links ?h (q # B) = links h (q # B)"
    using assms(2) by (auto simp: insert_between_fields intro!: links_sides [of A p q B ?h h, OF _ _ assms(3-6)])
  then show ?thesis
    using assms(1,2) by (auto simp: links_append insert_between_fields simp del: map_option_eq_Some intro: map_option_const)
qed

lemma links_bypass:
  assumes "links h (A @ p # n # q # B)" and "n \<notin> set (A @ p # q # B)"
    and "p \<notin> set A" and "q \<notin> set (tl (A @ [p]))" and "p \<notin> set (butlast (q # B))" and "q \<notin> set B"
  shows "links (bypass p n q h) (A @ p # q # B)"
proof -
  let ?h = "bypass p n q h"
  have "links ?h (A @ [p]) = links h (A @ [p])" and "links ?h (q # B) = links h (q # B)"
    using assms(2) by (auto simp: bypass_fields intro!: links_sides [of A p q B ?h h, OF _ _ assms(3-6)])
  then show ?thesis
    using assms(1,2) by (auto simp: links_append bypass_fields simp del: map_option_eq_Some intro: map_option_const)
qed

lemma objs_cong:
  "(\<And>p. p \<in> set ps \<Longrightarrow> map_option obj (h' p) = map_option obj (h p)) \<Longrightarrow> objs h' ps xs = objs h ps xs"
  by (auto simp: objs_def cong: map_cong)

lemma objs_length: "objs h ps xs \<Longrightarrow> length ps = length xs"
  unfolding objs_def by (drule arg_cong [of _ _ length]) simp

lemma objs_append:
  "length as = length xs \<Longrightarrow> objs h (as @ bs) (xs @ ys) \<longleftrightarrow> objs h as xs \<and> objs h bs ys"
  by (simp add: objs_def)

lemma objs_Cons: "objs h (a # as) (x # xs) \<longleftrightarrow> map_option obj (h a) = Some x \<and> objs h as xs"
  by (simp add: objs_def)

lemma represents_length: "represents l ps xs \<Longrightarrow> length ps = length xs"
  by (auto simp: represents_def intro: objs_length)

text \<open>The two cells on either side of a position of a represented list, and the heap around them.\<close>

lemma represents_gap:
  assumes "represents l (as @ bs) xs"
  defines "p \<equiv> last (anchor l # as)" and "q \<equiv> hd (bs @ [anchor l])"
  shows "map_option nxt (cells l p) = Some q" and "map_option prv (cells l q) = Some p"
    and "p \<noteq> NULL" and "q \<noteq> NULL"
    and "p \<in> set (anchor l # as @ bs)" and "q \<in> set (anchor l # as @ bs)"
proof -
  have d: "distinct (anchor l # as @ [] @ bs)" and n: "NULL \<notin> set (anchor l # as @ bs)"
    using assms by (simp_all add: represents_def)
  obtain A B where Ap: "anchor l # as = A @ [p]" and qB: "bs @ [anchor l] = q # B"
    using ring_gap [OF d] unfolding p_def q_def by metis
  have "links (cells l) (A @ p # q # B)"
    using assms Ap qB by (metis append.assoc append_Cons append_Nil represents_def)
  then show "map_option nxt (cells l p) = Some q" "map_option prv (cells l q) = Some p"
    by (simp_all add: links_append)
  have "p \<in> set (anchor l # as)" unfolding Ap by simp
  moreover have "q \<in> set (bs @ [anchor l])" unfolding qB by simp
  ultimately show "p \<in> set (anchor l # as @ bs)" "q \<in> set (anchor l # as @ bs)" by auto
  with n show "p \<noteq> NULL" "q \<noteq> NULL" by metis+
qed

lemma represents_alloc:
  assumes "represents l ps xs" and "a \<in> set (anchor l # ps)"
  shows "cells l a \<noteq> None"
proof -
  obtain us vs where uv: "anchor l # ps = us @ a # vs"
    using assms(2) by (meson split_list)
  then have "(anchor l # ps) @ [anchor l] = us @ a # vs @ [anchor l]" by simp
  then have "links (cells l) (us @ a # vs @ [anchor l])"
    using assms(1) by (simp only: represents_def append_Cons)
  then show ?thesis
    by (cases "vs @ [anchor l]") (auto simp: links_append)
qed

text \<open>Putting a fresh cell into a gap inserts into the represented list.\<close>

lemma represents_insert:
  assumes r: "represents l (as @ bs) (xs @ ys)" and len: "length as = length xs"
    and f: "fresh l n" and small: "int (length (as @ bs)) < INT_MAX"
    and q: "q = hd (bs @ [anchor l])" and p: "p = last (anchor l # as)"
  shows "represents (l\<lparr>num_members := num_members l + 1,
                       cells := insert_between p n x q (cells l)\<rparr>) (as @ n # bs) (xs @ x # ys)"
proof -
  let ?h = "insert_between p n x q (cells l)"
  have d: "distinct (anchor l # as @ [] @ bs)"
    using r by (simp add: represents_def)
  obtain A B where Ap: "anchor l # as = A @ [p]" and qB: "bs @ [anchor l] = q # B"
    and side: "p \<notin> set A" "q \<notin> set (tl (A @ [p]))" "p \<notin> set (butlast (q # B))" "q \<notin> set B"
    using ring_gap [OF d] unfolding p q by metis
  have ring: "A @ p # q # B = anchor l # (as @ bs) @ [anchor l]"
    using Ap qB by (metis append.assoc append_Cons append_Nil)
  have new: "n \<notin> set (anchor l # as @ bs)" and n0: "n \<noteq> NULL"
    using f represents_alloc [OF r, of n] by (auto simp: fresh_def)
  have "links ?h (A @ p # n # q # B)"
    using r side new ring by (intro links_insert_between) (auto simp: represents_def)
  moreover have "A @ p # n # q # B = anchor l # (as @ n # bs) @ [anchor l]"
    using Ap qB by (metis append.assoc append_Cons append_Nil)
  ultimately have "links ?h (anchor l # (as @ n # bs) @ [anchor l])" by simp
  moreover have "objs ?h ps zs = objs (cells l) ps zs" if "n \<notin> set ps" for ps zs
    using that by (intro objs_cong) (auto simp: insert_between_fields)
  then have "objs ?h (as @ n # bs) (xs @ x # ys)"
    using r new len by (simp add: objs_append objs_Cons represents_def insert_between_def)
  ultimately show ?thesis
    using r new n0 small by (simp add: represents_def)
qed

lemma represents_count: "represents l ps xs \<Longrightarrow> num_members l = int (length ps)"
  by (simp add: represents_def)

lemma fresh_neq: "represents l ps xs \<Longrightarrow> fresh l n \<Longrightarrow> a \<in> set (anchor l # ps) \<Longrightarrow> a \<noteq> n"
  using represents_alloc [of l ps xs a] by (auto simp: fresh_def)

lemma cell_all_set: "c\<lparr>obj := x, nxt := y, prv := z\<rparr> = (\<lparr>obj = x, nxt = y, prv = z\<rparr> :: cell)"
  by (cases c) simp

lemma cell_set_swap: "c\<lparr>prv := z, nxt := y\<rparr> = (c\<lparr>nxt := y, prv := z\<rparr> :: cell)"
  by (cases c) simp

lemma insert_between_upd:
  assumes "p \<noteq> n" and "q \<noteq> n" and "h p = Some cp" and "h q = Some cq"
  shows "insert_between p n x q h =
    (if p = q then h(n \<mapsto> \<lparr>obj = x, nxt = q, prv = p\<rparr>, p \<mapsto> cp\<lparr>nxt := n, prv := n\<rparr>)
     else h(n \<mapsto> \<lparr>obj = x, nxt = q, prv = p\<rparr>, p \<mapsto> cp\<lparr>nxt := n\<rparr>, q \<mapsto> cq\<lparr>prv := n\<rparr>))"
proof
  fix a
  show "insert_between p n x q h a = (if p = q then h(n \<mapsto> \<lparr>obj = x, nxt = q, prv = p\<rparr>, p \<mapsto> cp\<lparr>nxt := n, prv := n\<rparr>)
     else h(n \<mapsto> \<lparr>obj = x, nxt = q, prv = p\<rparr>, p \<mapsto> cp\<lparr>nxt := n\<rparr>, q \<mapsto> cq\<lparr>prv := n\<rparr>)) a"
    using assms by (cases "h a") (auto simp: insert_between_def)
qed

lemma Append_heap:
  assumes r: "represents l ps xs" and f: "fresh l n" and s: "int (length ps) < INT_MAX"
  shows "My402ListAppend n junk l x =
    Some (True, l\<lparr>num_members := num_members l + 1,
                  cells := insert_between (last (anchor l # ps)) n x (anchor l) (cells l)\<rparr>)"
proof -
  let ?p = "last (anchor l # ps)" and ?q = "anchor l"
  have r': "represents l (ps @ []) xs" using r by simp
  obtain cp cq where c: "cells l ?p = Some cp" "nxt cp = ?q" "cells l ?q = Some cq" "prv cq = ?p"
    using represents_gap(1,2) [OF r'] by auto
  have "?p \<noteq> n" "?q \<noteq> n" using fresh_neq [OF r f] by auto
  then show ?thesis
    using f c s represents_count [OF r]
    by (auto simp: My402ListAppend_def heap_defs insert_between_upd fresh_def cell_all_set cell_set_swap fun_upd_twist)
qed

lemma Prepend_heap:
  assumes r: "represents l ps xs" and f: "fresh l n" and s: "int (length ps) < INT_MAX"
  shows "My402ListPrepend n junk l x =
    Some (True, l\<lparr>num_members := num_members l + 1,
                  cells := insert_between (anchor l) n x (hd (ps @ [anchor l])) (cells l)\<rparr>)"
proof -
  let ?p = "anchor l" and ?q = "hd (ps @ [anchor l])"
  have r': "represents l ([] @ ps) xs" using r by simp
  obtain cp cq where c: "cells l ?p = Some cp" "nxt cp = ?q" "cells l ?q = Some cq" "prv cq = ?p"
    using represents_gap(1,2) [OF r'] by auto
  have "?p \<noteq> n" "?q \<noteq> n" using fresh_neq [OF r f] by (auto simp: hd_append)
  then show ?thesis
    using f c s represents_count [OF r]
    by (auto simp: My402ListPrepend_def heap_defs insert_between_upd fresh_def cell_all_set cell_set_swap fun_upd_twist)
qed

lemma InsertAfter_heap:
  assumes r: "represents l (as @ e # bs) xs" and f: "fresh l n" and s: "int (length (as @ e # bs)) < INT_MAX"
  shows "My402ListInsertAfter n junk l x e =
    Some (True, l\<lparr>num_members := num_members l + 1,
                  cells := insert_between e n x (hd (bs @ [anchor l])) (cells l)\<rparr>)"
proof -
  let ?q = "hd (bs @ [anchor l])"
  have r': "represents l ((as @ [e]) @ bs) xs" using r by simp
  obtain cp cq where c: "cells l e = Some cp" "nxt cp = ?q" "cells l ?q = Some cq" "prv cq = e"
    using represents_gap(1,2) [OF r'] by auto
  have "e \<noteq> n" "?q \<noteq> n" "e \<noteq> NULL" using fresh_neq [OF r f] r by (auto simp: hd_append represents_def)
  then show ?thesis
    using f c s represents_count [OF r]
    by (auto simp: My402ListInsertAfter_def heap_defs insert_between_upd fresh_def cell_all_set cell_set_swap fun_upd_twist)
qed

lemma InsertBefore_heap:
  assumes r: "represents l (as @ e # bs) xs" and f: "fresh l n" and s: "int (length (as @ e # bs)) < INT_MAX"
  shows "My402ListInsertBefore n junk l x e =
    Some (True, l\<lparr>num_members := num_members l + 1,
                  cells := insert_between (last (anchor l # as)) n x e (cells l)\<rparr>)"
proof -
  let ?p = "last (anchor l # as)"
  obtain cp cq where c: "cells l ?p = Some cp" "nxt cp = e" "cells l e = Some cq" "prv cq = ?p"
    using represents_gap(1,2) [OF r] by auto
  have "?p \<noteq> n" "e \<noteq> n" "e \<noteq> NULL" using fresh_neq [OF r f] r by (auto simp: represents_def)
  then show ?thesis
    using f c s represents_count [OF r]
    by (auto simp: My402ListInsertBefore_def heap_defs insert_between_upd fresh_def cell_all_set cell_set_swap fun_upd_twist)
qed

lemma insert_between_outside: "a \<notin> {p, n, q} \<Longrightarrow> insert_between p n x q h a = h a"
  by (cases "h a") (simp_all add: insert_between_def)

lemma bypass_outside: "a \<notin> {p, n, q} \<Longrightarrow> bypass p n q h a = h a"
  by (cases "h a") (simp_all add: bypass_def)

lemma represents_bypass:
  assumes r: "represents l (as @ n # bs) (xs @ x # ys)" and len: "length as = length xs"
    and q: "q = hd (bs @ [anchor l])" and p: "p = last (anchor l # as)"
  shows "represents (l\<lparr>num_members := num_members l - 1, cells := bypass p n q (cells l)\<rparr>)
           (as @ bs) (xs @ ys)"
proof -
  let ?h = "bypass p n q (cells l)"
  have d: "distinct (anchor l # as @ [n] @ bs)"
    using r by (simp add: represents_def)
  obtain A B where Ap: "anchor l # as = A @ [p]" and qB: "bs @ [anchor l] = q # B"
    and side: "p \<notin> set A" "q \<notin> set (tl (A @ [p]))" "p \<notin> set (butlast (q # B))" "q \<notin> set B"
    using ring_gap [OF d] unfolding p q by metis
  have ring: "A @ p # n # q # B = anchor l # (as @ n # bs) @ [anchor l]"
    and ring': "A @ p # q # B = anchor l # (as @ bs) @ [anchor l]"
    using Ap qB by (metis append.assoc append_Cons append_Nil)+
  have new: "n \<notin> set (anchor l # as @ bs)" using d by auto
  have "links ?h (A @ p # q # B)"
    using r side new ring ring' by (intro links_bypass) (auto simp: represents_def)
  then have "links ?h (anchor l # (as @ bs) @ [anchor l])" by (simp add: ring')
  moreover have "objs ?h ps zs = objs (cells l) ps zs" if "n \<notin> set ps" for ps zs
    using that by (intro objs_cong) (auto simp: bypass_fields)
  then have "objs ?h (as @ bs) (xs @ ys)"
    using r new len by (simp add: objs_append objs_Cons represents_def)
  ultimately show ?thesis
    using r by (simp add: represents_def)
qed

lemma bypass_upd:
  assumes "p \<noteq> n" and "q \<noteq> n" and "h p = Some cp" and "h q = Some cq"
  shows "bypass p n q h =
    (if p = q then h(n := None, p \<mapsto> cp\<lparr>nxt := q, prv := p\<rparr>)
     else h(n := None, p \<mapsto> cp\<lparr>nxt := q\<rparr>, q \<mapsto> cq\<lparr>prv := p\<rparr>))"
proof
  fix a
  show "bypass p n q h a = (if p = q then h(n := None, p \<mapsto> cp\<lparr>nxt := q, prv := p\<rparr>)
     else h(n := None, p \<mapsto> cp\<lparr>nxt := q\<rparr>, q \<mapsto> cq\<lparr>prv := p\<rparr>)) a"
    using assms by (cases "h a") (auto simp: bypass_def)
qed

lemma Unlink_heap:
  assumes r: "represents l (as @ n # bs) xs"
  shows "My402ListUnlink l n =
    Some (l\<lparr>num_members := num_members l - 1,
            cells := bypass (last (anchor l # as)) n (hd (bs @ [anchor l])) (cells l)\<rparr>)"
proof -
  let ?p = "last (anchor l # as)" and ?q = "hd (bs @ [anchor l])"
  have r': "represents l ((as @ [n]) @ bs) xs" using r by simp
  obtain cp cn where c: "cells l ?p = Some cp" "nxt cp = n" "cells l n = Some cn" "prv cn = ?p"
    using represents_gap(1,2) [OF r] by auto
  obtain cq where c': "nxt cn = ?q" "cells l ?q = Some cq" "prv cq = n"
    using represents_gap(1,2) [OF r'] c(3) by auto
  have n: "?p \<noteq> n" "?q \<noteq> n" "n \<noteq> NULL"
    using r last_in_set [of "anchor l # as"] hd_in_set [of "bs @ [anchor l]"]
    by (auto simp: represents_def split: if_splits)
  then show ?thesis
    using c c' represents_count [OF r]
    by (auto simp: My402ListUnlink_def heap_defs bypass_upd fun_upd_twist INT_MAX_def)
qed

lemma Init_heap:
  assumes "cells l (anchor l) \<noteq> None" and "anchor l \<noteq> NULL"
  shows "\<exists>l'. My402ListInit l = Some (True, l') \<and> represents l' [] [] \<and> same_outside {anchor l} l l'"
  using assms by (auto simp: My402ListInit_def heap_defs represents_def objs_def same_outside_def INT_MAX_def Let_def)

lemma First_rep: "represents l ps xs \<Longrightarrow> My402ListFirst l = Some (case ps of [] \<Rightarrow> NULL | p # _ \<Rightarrow> p)"
  by (cases ps) (auto simp: My402ListFirst_def represents_def)

lemma Last_rep:
  assumes "represents l ps xs" shows "My402ListLast l = Some (if ps = [] then NULL else last ps)"
  using represents_gap(2) [of l ps "[]" xs] assms
  by (auto simp: My402ListLast_def represents_count)

lemma Next_rep:
  assumes "represents l (as @ e # bs) xs"
  shows "My402ListNext l e = Some (case bs of [] \<Rightarrow> NULL | b # _ \<Rightarrow> b)"
proof -
  have "represents l ((as @ [e]) @ bs) xs" using assms by simp
  from represents_gap(1) [OF this] assms show ?thesis
    by (cases bs) (auto simp: My402ListNext_def represents_def)
qed

lemma Prev_rep:
  assumes "represents l (as @ e # bs) xs"
  shows "My402ListPrev l e = Some (if as = [] then NULL else last as)"
  using represents_gap(2) [OF assms] assms
  by (cases as rule: rev_cases) (auto simp: My402ListPrev_def represents_def)

lemma unlink_loop_frees:
  assumes "links h (ps @ [anc])" and "distinct (ps @ [anc])" and "NULL \<notin> set ps"
    and "h anc \<noteq> None" and "map_option nxt (h (hd (ps @ [anc]))) = Some t"
  shows "unlink_loop anc h (hd (ps @ [anc])) t = Some (\<lambda>a. if a \<in> set ps then None else h a)"
  using assms
proof (induction ps arbitrary: h t)
  case Nil
  then show ?case by (simp add: unlink_loop.simps)
next
  case (Cons e bs)
  let ?h = "h(e := None)"
  obtain b B where B: "bs @ [anc] = b # B" by (cases bs) auto
  have l: "links h (e # b # B)" using Cons.prems(1) by (simp add: B)
  then have tb: "t = b" and e: "h e \<noteq> None" and hb: "h b \<noteq> None" using Cons.prems(5) by auto
  have bne: "b \<noteq> e" using Cons.prems(2) B by (cases bs) auto
  obtain t' where t': "map_option nxt (?h b) = Some t'" using hb bne by auto
  have "links ?h (bs @ [anc]) = links h (bs @ [anc])"
    using Cons.prems(2) by (intro links_cong) (auto dest: in_set_tail in_set_butlastD)
  then have "links ?h (bs @ [anc])" using l B by simp
  moreover have "distinct (bs @ [anc])" "NULL \<notin> set bs" "?h anc \<noteq> None"
    using Cons.prems(2-4) by auto
  moreover have "map_option nxt (?h (hd (bs @ [anc]))) = Some t'"
    using t' by (simp only: B list.sel(1))
  ultimately have "unlink_loop anc ?h (hd (bs @ [anc])) t' = Some (\<lambda>a. if a \<in> set bs then None else ?h a)"
    by (rule Cons.IH)
  moreover have "unlink_loop anc h e t = unlink_loop anc ?h b t'"
    using e t' tb bne Cons.prems(2,3)
    by (subst unlink_loop.simps) (auto simp: heap_defs)
  moreover have "(\<lambda>a. if a \<in> set bs then None else ?h a) = (\<lambda>a. if a \<in> set (e # bs) then None else h a)"
    by auto
  ultimately show ?case by (simp add: B)
qed

lemma UnlinkAll_heap:
  assumes r: "represents l ps xs"
  shows "\<exists>l'. My402ListUnlinkAll l = Some l' \<and> represents l' [] []
           \<and> (\<forall>p\<in>set ps. cells l' p = None) \<and> same_outside (set (anchor l # ps)) l l'"
proof -
  let ?h = "\<lambda>a. if a \<in> set ps then None else cells l a"
  have r': "represents l ([] @ ps) xs" using r by simp
  obtain a where a: "cells l (anchor l) = Some a" "nxt a = hd (ps @ [anchor l])"
    using represents_gap(1) [OF r'] by auto
  obtain c where c: "cells l (nxt a) = Some c"
    using represents_gap(2) [OF r'] a by auto
  have out: "anchor l \<notin> set ps" "anchor l \<noteq> NULL" using r by (auto simp: represents_def)
  have "unlink_loop (anchor l) (cells l) (nxt a) (nxt c) = Some ?h"
    using r a c unfolding a(2)
    by (intro unlink_loop_frees) (auto simp: represents_def links.simps(1) neq_Nil_conv elim: links.elims)
  moreover obtain l' where l': "My402ListInit (l\<lparr>cells := ?h\<rparr>) = Some (True, l')" "represents l' [] []"
    "same_outside {anchor l} (l\<lparr>cells := ?h\<rparr>) l'"
    using Init_heap [of "l\<lparr>cells := ?h\<rparr>"] a out by auto
  moreover have "cells l' p = None" if "p \<in> set ps" for p
    using that l'(3) out by (cases "p = anchor l") (simp_all add: same_outside_def)
  moreover have "same_outside (set (anchor l # ps)) l l'"
    using l'(3) by (auto simp: same_outside_def)
  ultimately show ?thesis
    using a c by (auto simp: My402ListUnlinkAll_def)
qed

lemma find_loop_first:
  assumes "links h (ps @ [z])" and "objs h ps xs"
  shows "find_loop h ob (int (length ps)) (hd (ps @ [z])) =
    Some (case List.find (\<lambda>(p, x). x = ob) (zip ps xs) of None \<Rightarrow> NULL | Some (p, _) \<Rightarrow> p)"
  using assms
proof (induction ps arbitrary: xs)
  case Nil
  then show ?case by (simp add: find_loop.simps)
next
  case (Cons e bs)
  obtain x ys where xs: "xs = x # ys" using Cons.prems(2) by (auto simp: objs_def)
  obtain b B where B: "bs @ [z] = b # B" by (cases bs) auto
  have l: "links h (e # b # B)" using Cons.prems(1) by (simp add: B)
  then obtain c where c: "h e = Some c" "nxt c = b" by auto
  have o: "obj c = x" "objs h bs ys" using Cons.prems(2) c by (auto simp: xs objs_Cons)
  have "links h (bs @ [z])" using l B by simp
  from Cons.IH [OF this o(2)]
  have IH: "find_loop h ob (int (length bs)) b =
    Some (case List.find (\<lambda>(p, x). x = ob) (zip bs ys) of None \<Rightarrow> NULL | Some (p, _) \<Rightarrow> p)"
    by (simp add: B)
  have "find_loop h ob (int (length (e # bs))) e =
    (if obj c = ob then Some e else find_loop h ob (int (length bs)) b)"
    using c by (subst find_loop.simps) simp
  then show ?case
    using IH o(1) by (simp add: xs)
qed

subsection \<open>The interface of the list's clients\<close>

text \<open>
  What a client that only walks the list relies on: a first cell, a successor and no null cells.
  Under these laws a \<^verbatim>\<open>for\<close> loop over the list is a fold over its cells, even when the body
  changes the objects on the way.
\<close>

locale cursor =
  fixes rep :: "'l \<Rightarrow> addr list \<Rightarrow> addr list \<Rightarrow> bool"
    and first :: "'l \<Rightarrow> addr option"
    and succ :: "'l \<Rightarrow> addr \<Rightarrow> addr option"
  assumes first_rep: "rep l ps xs \<Longrightarrow> first l = Some (head_or_null ps)"
    and succ_rep: "rep l (as @ e # bs) xs \<Longrightarrow> succ l e = Some (head_or_null bs)"
    and no_null: "rep l ps xs \<Longrightarrow> NULL \<notin> set ps"
begin

lemma for_each_fold:
  assumes inv: "\<And>s. P s \<Longrightarrow> \<exists>xs. rep (lst s) (as @ bs) xs"
    and step: "\<And>e s s'. e \<in> set bs \<Longrightarrow> P s \<Longrightarrow> body e s = Some (Inr s') \<Longrightarrow> P s'"
    and start: "P s"
  shows "for_each (\<lambda>s. succ (lst s)) body (head_or_null bs) s = fold_exit body bs s"
  using assms
proof (induction bs arbitrary: as s)
  case Nil
  then show ?case by (simp add: for_each.simps head_or_null_def)
next
  case (Cons e bs)
  have "e \<noteq> NULL" using no_null Cons.prems(1,3) by fastforce
  moreover have "for_each (\<lambda>s. succ (lst s)) body (head_or_null bs) s' = fold_exit body bs s'"
    and "succ (lst s') e = Some (head_or_null bs)" if "body e s = Some (Inr s')" for s'
  proof -
    have "P s'" using that Cons.prems(2,3) by (metis list.set_intros(1))
    then show "succ (lst s') e = Some (head_or_null bs)" using Cons.prems(1) succ_rep by metis
    show "for_each (\<lambda>s. succ (lst s)) body (head_or_null bs) s' = fold_exit body bs s'"
      using Cons.prems(1,2) \<open>P s'\<close> by (intro Cons.IH [of "as @ [e]"]) auto
  qed
  ultimately show ?case
    by (subst for_each.simps)
      (simp add: head_or_null_def [of "e # bs"] bind_eq_Some_conv split: Option.bind_splits sum.splits)
qed

lemma for_each_from_first:
  assumes "\<And>s. P s \<Longrightarrow> \<exists>xs. rep (lst s) ps xs"
    and "\<And>e s s'. e \<in> set ps \<Longrightarrow> P s \<Longrightarrow> body e s = Some (Inr s') \<Longrightarrow> P s'" and "P s"
  shows "do { e \<leftarrow> first (lst s); for_each (\<lambda>s. succ (lst s)) body e s } = fold_exit body ps s"
proof -
  have "first (lst s) = Some (head_or_null ps)" using assms(1,3) first_rep by metis
  then show ?thesis
    using for_each_fold [of P lst "[]" ps body s] assms by simp
qed

end

interpretation my402: cursor represents My402ListFirst My402ListNext
proof
  show "My402ListFirst l = Some (head_or_null ps)" if "represents l ps xs" for l ps xs
    using First_rep [OF that] by (simp add: head_or_null_def)
  show "My402ListNext l e = Some (head_or_null bs)" if "represents l (as @ e # bs) xs" for l as e bs xs
    using Next_rep [OF that] by (simp add: head_or_null_def)
  show "NULL \<notin> set ps" if "represents l ps xs" for l ps xs
    using that by (simp add: represents_def)
qed

subsection \<open>Properties\<close>

lemma insert_result:
  assumes r: "represents l (as @ bs) (xs @ ys)" and "length as = length xs"
    and "fresh l n" and "int (length (as @ bs)) < INT_MAX"
    and q: "q = hd (bs @ [anchor l])" and p: "p = last (anchor l # as)"
    and l': "l' = l\<lparr>num_members := num_members l + 1, cells := insert_between p n x q (cells l)\<rparr>"
  shows "represents l' (as @ n # bs) (xs @ x # ys)
       \<and> same_outside (insert n (set (anchor l # as @ bs))) l l'"
proof -
  have "p \<in> set (anchor l # as @ bs)" "q \<in> set (anchor l # as @ bs)"
    using represents_gap(5,6) [OF r] by (simp_all only: p q)
  then have "same_outside (insert n (set (anchor l # as @ bs))) l l'"
    unfolding l' same_outside_def
    by (auto intro!: insert_between_outside)
  then show ?thesis
    using represents_insert [OF assms(1-4) q p] by (simp only: l')
qed

lemma inserted_at:
  assumes r: "represents l ps xs" and f: "fresh l n" and s: "int (length ps) < INT_MAX"
    and i: "i \<le> length ps"
  shows "inserted l ps xs i n x
    (l\<lparr>num_members := num_members l + 1,
       cells := insert_between (last (anchor l # take i ps)) n x (hd (drop i ps @ [anchor l])) (cells l)\<rparr>)"
proof -
  have len: "length (take i ps) = length (take i xs)" using represents_length [OF r] by simp
  have "represents l (take i ps @ drop i ps) (take i xs @ drop i xs)" using r by simp
  from insert_result [OF this len f _ refl refl refl, of x] show ?thesis
    using s i unfolding inserted_def by (simp only: append_take_drop_id)
qed

text \<open>Inserting next to a member cell.\<close>

lemma insert_at_member:
  assumes r: "represents l ps xs" and f: "fresh l n" and s: "int (length ps) < INT_MAX" and i: "i < length ps"
  shows "(\<exists>l'. My402ListInsertAfter n junk l x (ps ! i) = Some (True, l') \<and> inserted l ps xs (i + 1) n x l')
       \<and> (\<exists>l'. My402ListInsertBefore n junk l x (ps ! i) = Some (True, l') \<and> inserted l ps xs i n x l')"
proof -
  have cut: "ps = take i ps @ ps ! i # drop (Suc i) ps" by (rule id_take_nth_drop [OF i])
  have r': "represents l (take i ps @ ps ! i # drop (Suc i) ps) xs" using r cut by simp
  have s': "int (length (take i ps @ ps ! i # drop (Suc i) ps)) < INT_MAX" using s cut by simp
  have last: "last (anchor l # take (i + 1) ps) = ps ! i" by (simp add: take_Suc_conv_app_nth [OF i])
  have hd: "hd (drop i ps @ [anchor l]) = ps ! i" by (simp add: Cons_nth_drop_Suc [OF i, symmetric])
  show ?thesis
    using InsertAfter_heap [OF r' f s', of junk x] InsertBefore_heap [OF r' f s', of junk x]
      inserted_at [OF r f s, of "i + 1" x, unfolded last] inserted_at [OF r f s, of i x, unfolded hd] i
    by simp
qed

text \<open>C15: Each of the four insertion functions, on any represented list, also an empty one, with room for one more
  member and with a successful allocation, returns TRUE and inserts the object at the place its name
  says (append at the end, prepend at the front, after or before a member cell, and at the end or
  front when that cell is \<^verbatim>\<open>NULL\<close>), in both link directions and in the count, and writes no cell
  outside the list and the new one.  When \<^verbatim>\<open>malloc\<close> fails all four return FALSE and leave the
  list as it was.\<close>

theorem My402List_insert:
  assumes r: "represents l ps xs" and f: "fresh l n" and s: "int (length ps) < INT_MAX"
  shows "(\<exists>l'. My402ListAppend n junk l x = Some (True, l') \<and> inserted l ps xs (length ps) n x l'
              \<and> My402ListInsertAfter n junk l x NULL = Some (True, l'))
       \<and> (\<exists>l'. My402ListPrepend n junk l x = Some (True, l') \<and> inserted l ps xs 0 n x l'
              \<and> My402ListInsertBefore n junk l x NULL = Some (True, l'))
       \<and> (\<forall>i < length ps. (\<exists>l'. My402ListInsertAfter n junk l x (ps ! i) = Some (True, l') \<and> inserted l ps xs (i + 1) n x l')
            \<and> (\<exists>l'. My402ListInsertBefore n junk l x (ps ! i) = Some (True, l') \<and> inserted l ps xs i n x l'))
       \<and> My402ListAppend NULL junk l x = Some (False, l) \<and> My402ListPrepend NULL junk l x = Some (False, l)
       \<and> (\<forall>p. My402ListInsertAfter NULL junk l x p = Some (False, l) \<and> My402ListInsertBefore NULL junk l x p = Some (False, l))"
proof -
  have null: "My402ListInsertAfter m junk l x NULL = My402ListAppend m junk l x"
    "My402ListInsertBefore m junk l x NULL = My402ListPrepend m junk l x" for m
    by (simp_all add: My402ListInsertAfter_def My402ListInsertBefore_def)
  have fail: "My402ListAppend NULL junk l x = Some (False, l)" "My402ListPrepend NULL junk l x = Some (False, l)"
    by (simp_all add: My402ListAppend_def My402ListPrepend_def)
  have "My402ListInsertAfter NULL junk l x p = Some (False, l)" "My402ListInsertBefore NULL junk l x p = Some (False, l)" for p
    using fail by (simp_all add: My402ListInsertAfter_def My402ListInsertBefore_def)
  then show ?thesis
    using Append_heap [OF r f s, of junk x] Prepend_heap [OF r f s, of junk x]
      inserted_at [OF r f s, of "length ps" x] inserted_at [OF r f s, of 0 x] insert_at_member [OF r f s] null fail
    by simp
qed

lemma demo_list_represents: "represents demo_list [1, 2] [71, 72]"
  by (simp add: represents_def demo_list_def objs_def INT_MAX_def)

theorem My402List_insert_witness:
  "(\<exists>l'. My402ListInsertBefore 3 \<lparr>obj = 5, nxt = 6, prv = 7\<rparr> demo_list 73 2 = Some (True, l')
        \<and> represents l' [1, 3, 2] [71, 73, 72])
   \<and> (\<exists>l'. My402ListAppend 3 \<lparr>obj = 5, nxt = 6, prv = 7\<rparr> demo_empty 73 = Some (True, l') \<and> represents l' [3] [73])"
proof -
  have f: "fresh demo_list 3" "fresh demo_empty 3" by (simp_all add: fresh_def demo_list_def demo_empty_def)
  have s: "int (length [1 :: nat, 2]) < INT_MAX" "int (length ([] :: nat list)) < INT_MAX" by (simp_all add: INT_MAX_def)
  have e: "represents demo_empty [] []" by (simp add: represents_def demo_empty_def objs_def INT_MAX_def)
  have "(1 :: nat) < length [1 :: nat, 2]" by simp
  then show ?thesis
    using My402List_insert [OF demo_list_represents f(1) s(1), of "\<lparr>obj = 5, nxt = 6, prv = 7\<rparr>" 73]
      My402List_insert [OF e f(2) s(2), of "\<lparr>obj = 5, nxt = 6, prv = 7\<rparr>" 73]
    by (fastforce simp: inserted_def)
qed

text \<open>C16: \<^verbatim>\<open>My402ListUnlink\<close> takes exactly the given member out of the list, frees its cell and
  leaves every other member in its place; \<^verbatim>\<open>My402ListUnlinkAll\<close> terminates without touching a
  freed cell, frees every member and leaves an empty list; both leave the rest of the heap alone.\<close>

theorem My402List_unlink:
  assumes r: "represents l ps xs"
  shows "(\<forall>i < length ps. \<exists>l'. My402ListUnlink l (ps ! i) = Some l'
            \<and> represents l' (take i ps @ drop (i + 1) ps) (take i xs @ drop (i + 1) xs)
            \<and> cells l' (ps ! i) = None \<and> same_outside (set (anchor l # ps)) l l')
       \<and> (\<exists>l'. My402ListUnlinkAll l = Some l' \<and> represents l' [] []
            \<and> (\<forall>p\<in>set ps. cells l' p = None) \<and> same_outside (set (anchor l # ps)) l l')"
proof (intro conjI allI impI)
  fix i assume i: "i < length ps"
  let ?p = "last (anchor l # take i ps)" and ?q = "hd (drop (Suc i) ps @ [anchor l])"
  have i': "i < length xs" using i represents_length [OF r] by simp
  have r': "represents l (take i ps @ ps ! i # drop (Suc i) ps) (take i xs @ xs ! i # drop (Suc i) xs)"
    using r id_take_nth_drop [OF i] id_take_nth_drop [OF i'] by simp
  have r2: "represents l ((take i ps @ [ps ! i]) @ drop (Suc i) ps) (take i xs @ xs ! i # drop (Suc i) xs)"
    using r' by simp
  have "{?p, ps ! i, ?q} \<subseteq> set (anchor l # ps)"
    using represents_gap(5) [OF r'] represents_gap(6) [OF r2] id_take_nth_drop [OF i]
    by (metis append.assoc append_Cons append_Nil i insert_subset empty_subsetI list.set_intros(2) nth_mem)
  then have "same_outside (set (anchor l # ps)) l
      (l\<lparr>num_members := num_members l - 1, cells := bypass ?p (ps ! i) ?q (cells l)\<rparr>)"
    by (auto simp: same_outside_def intro!: bypass_outside)
  moreover have "bypass ?p (ps ! i) ?q (cells l) (ps ! i) = None" by (simp add: bypass_def)
  moreover have "length (take i ps) = length (take i xs)" using i i' by simp
  ultimately show "\<exists>l'. My402ListUnlink l (ps ! i) = Some l'
            \<and> represents l' (take i ps @ drop (i + 1) ps) (take i xs @ drop (i + 1) xs)
            \<and> cells l' (ps ! i) = None \<and> same_outside (set (anchor l # ps)) l l'"
    using Unlink_heap [OF r'] represents_bypass [OF r' _ refl refl] by simp
next
  show "\<exists>l'. My402ListUnlinkAll l = Some l' \<and> represents l' [] []
            \<and> (\<forall>p\<in>set ps. cells l' p = None) \<and> same_outside (set (anchor l # ps)) l l'"
    using UnlinkAll_heap [OF r] .
qed

theorem My402List_unlink_witness:
  "(\<exists>l'. My402ListUnlink demo_list 1 = Some l' \<and> represents l' [2] [72] \<and> cells l' 1 = None)
   \<and> (\<exists>l'. My402ListUnlinkAll demo_list = Some l' \<and> represents l' [] [])"
  using My402List_unlink [OF demo_list_represents] by fastforce

text \<open>On a represented list the queries answer as on the list of its objects: the length and the
  emptiness test, the first and last cell (\<^verbatim>\<open>NULL\<close> when empty), the successor and predecessor of
  each member (\<^verbatim>\<open>NULL\<close> at the ends) and the search, which terminates with the first cell that
  holds the object, or \<^verbatim>\<open>NULL\<close> when none does.\<close>

theorem My402List_queries:
  assumes r: "represents l ps xs"
  shows "My402ListLength l = int (length xs) \<and> (My402ListEmpty l \<longleftrightarrow> xs = [])
       \<and> My402ListFirst l = Some (if ps = [] then NULL else hd ps)
       \<and> My402ListLast l = Some (if ps = [] then NULL else last ps)
       \<and> (\<forall>i < length ps. My402ListNext l (ps ! i) = Some (if i + 1 < length ps then ps ! (i + 1) else NULL)
                        \<and> My402ListPrev l (ps ! i) = Some (if 0 < i then ps ! (i - 1) else NULL))
       \<and> My402ListFind l ob = Some (case List.find (\<lambda>(p, x). x = ob) (zip ps xs) of
                                      None \<Rightarrow> NULL | Some (p, _) \<Rightarrow> p)"
proof (intro conjI allI impI)
  show "My402ListLength l = int (length xs)" "My402ListEmpty l \<longleftrightarrow> xs = []"
    using represents_count [OF r] represents_length [OF r]
    by (auto simp: My402ListLength_def My402ListEmpty_def)
  show first: "My402ListFirst l = Some (if ps = [] then NULL else hd ps)"
    using First_rep [OF r] by (simp split: list.splits)
  show "My402ListLast l = Some (if ps = [] then NULL else last ps)"
    using Last_rep [OF r] .
  fix i assume i: "i < length ps"
  have r': "represents l (take i ps @ ps ! i # drop (Suc i) ps) xs"
    using r id_take_nth_drop [OF i] by simp
  show "My402ListNext l (ps ! i) = Some (if i + 1 < length ps then ps ! (i + 1) else NULL)"
    using Next_rep [OF r'] i Cons_nth_drop_Suc [of "Suc i" ps, symmetric] by (auto split: list.splits)
  show "My402ListPrev l (ps ! i) = Some (if 0 < i then ps ! (i - 1) else NULL)"
    using Prev_rep [OF r'] i by (auto simp: last_conv_nth)
next
  have "links (cells l) (ps @ [anchor l])" "objs (cells l) ps xs"
    using r by (auto simp: represents_def elim: links.elims)
  from find_loop_first [OF this, of ob] First_rep [OF r]
  show "My402ListFind l ob = Some (case List.find (\<lambda>(p, x). x = ob) (zip ps xs) of
                                      None \<Rightarrow> NULL | Some (p, _) \<Rightarrow> p)"
    using represents_count [OF r]
    by (cases ps) (simp_all add: My402ListFind_def My402ListLength_def find_loop.simps [of _ _ 0])
qed

theorem My402List_queries_witness:
  "My402ListFind demo_list 72 = Some 2 \<and> My402ListNext demo_list 1 = Some 2 \<and> My402ListPrev demo_list 1 = Some 0"
  using My402List_queries [OF demo_list_represents, of 72] by (fastforce simp: less_Suc_eq)

end
