(* ===== verification/Sort402.thy ===== *)
theory Sort402
  imports My402List "HOL-Library.Multiset"
begin

section \<open>The transaction sorter of warmup1\<close>

text \<open>
  \<^verbatim>\<open>warmup1/my402sort.c\<close>: reading a file of transactions, sorting them by time on the linked list
  of \<open>My402List\<close> and printing the statement.

  \<^item> The transactions live in a second heap, \<open>addr \<rightharpoonup> transaction\<close>; the list's objects are their
    addresses.
  \<^item> \<^verbatim>\<open>exit\<close> after a message is \<open>Inl message\<close>; leaving defined behaviour is \<open>None\<close>.
  \<^item> \<^verbatim>\<open>time(NULL)\<close> and \<^verbatim>\<open>ctime\<close> depend on the clock and the time zone and are arguments, as are
    the results of \<^verbatim>\<open>malloc\<close> and \<^verbatim>\<open>strdup\<close> (one record \<open>alloc\<close> per input line).
  \<^item> \<^verbatim>\<open>atoi(&ch1)\<close> is called on the address of a single \<^verbatim>\<open>char\<close>: what it reads after that byte is
    whatever the stack holds, the argument \<open>beyond\<close>.

  The properties: the exchange sort returns the sorted permutation exactly when the timestamps are
  distinct; amounts are read and printed exactly, with the exceptions the code has; the printed
  table is the statement with running balances; and the whole program on a well-formed file.
\<close>

type_synonym u64 = "64 word"

record transaction =
  ttype :: char
  ttime :: int
  amount :: u64
  description :: string

type_synonym transactions = "addr \<rightharpoonup> transaction"

definition NUL :: char where "NUL = CHR 0x00"
definition TAB :: char where "TAB = CHR 0x09"
definition NEWLINE :: char where "NEWLINE = CHR 0x0A"

definition isspace :: "char \<Rightarrow> bool" where
  "isspace c \<longleftrightarrow> c \<in> {CHR '' '', CHR 0x09, CHR 0x0A, CHR 0x0B, CHR 0x0C, CHR 0x0D}"

definition isdigit :: "char \<Rightarrow> bool" where
  "isdigit c \<longleftrightarrow> of_char CHR ''0'' \<le> (of_char c :: nat) \<and> (of_char c :: nat) \<le> of_char CHR ''9''"

definition digit_value :: "char \<Rightarrow> nat" where
  "digit_value c = of_char c - of_char CHR ''0''"

subsection \<open>Printing\<close>

text \<open>\<^verbatim>\<open>(char)(((int)'0')+(amount%10))\<close>\<close>

definition digit_char :: "int \<Rightarrow> char" where
  "digit_char d = char_of (of_char CHR ''0'' + nat d)"

text \<open>
  The \<^verbatim>\<open>for\<close> loop that fills the buffer from the right; it occurs four times in the source.  The
  result is the buffer and the value of \<^verbatim>\<open>i\<close> after the loop.
\<close>

fun fill_digits :: "nat \<Rightarrow> int \<Rightarrow> string \<Rightarrow> nat \<times> string" where
  "fill_digits i a b =
     (if i = 0 then (0, b)
      else if i = 10 then fill_digits (i - 1) a (b[i := CHR ''.''])
      else if i = 6 \<or> i = 2 then fill_digits (i - 1) a (b[i := CHR '',''])
      else let b' = b[i := digit_char (a mod 10)]; a' = a div 10 in
        if a' = 0 then (i - 1, b') else fill_digits (i - 1) a' b')"

fun fill_blanks :: "nat \<Rightarrow> string \<Rightarrow> string" where
  "fill_blanks 0 b = b"
| "fill_blanks (Suc i) b = fill_blanks i (b[Suc i := CHR '' ''])"

definition format_amount :: "char \<Rightarrow> char \<Rightarrow> int \<Rightarrow> string \<Rightarrow> string" where
  "format_amount open_char close_char a buf =
     (let b0 = buf[0 := open_char, 13 := close_char];
          (i1, b1) = fill_digits 12 a b0;
          (i2, b2) = (if i1 = 10 then (8, b1[10 := CHR ''.'', 9 := CHR ''0'']) else (i1, b1));
          b3 = fill_blanks i2 b2
      in takeWhile (\<lambda>c. c \<noteq> NUL) (b3[14 := NUL]))"

text \<open>The date column: characters 0 to 10 and 20 to 23 of what \<^verbatim>\<open>ctime\<close> returns.\<close>

fun date_loop :: "string \<Rightarrow> nat \<Rightarrow> nat \<Rightarrow> nat \<Rightarrow> string" where
  "date_loop t 0 i j = []"
| "date_loop t (Suc n) i j =
     (let j' = (if 10 < i then i + 9 else j) in t ! j' # date_loop t n (i + 1) (j' + 1))"

definition format_date :: "string \<Rightarrow> string" where
  "format_date t = date_loop t 15 0 0"

text \<open>
  The description column.  \<^verbatim>\<open>strncpy(desc, s, 24)\<close> writes 24 bytes and leaves the last byte of the
  buffer, \<open>g\<close>, as it was; the \<^verbatim>\<open>while\<close> loop looks for the end of the string and stops behind it.
\<close>

definition strncpy24 :: "string \<Rightarrow> string" where
  "strncpy24 s = take 24 (takeWhile (\<lambda>c. c \<noteq> NUL) s @ replicate 24 NUL)"

fun end_loop :: "string \<Rightarrow> nat \<Rightarrow> nat \<Rightarrow> nat" where
  "end_loop d 0 i = i"
| "end_loop d (Suc n) i = (if d ! i = NUL then i else if 24 < i + 1 then i + 1 else end_loop d n (i + 1))"

fun pad_loop :: "nat \<Rightarrow> nat \<Rightarrow> string \<Rightarrow> string" where
  "pad_loop 0 j d = d"
| "pad_loop (Suc n) j d = (if j < 24 then pad_loop n (j + 1) (d[j := CHR '' '']) else d)"

definition format_desc :: "char \<Rightarrow> string \<Rightarrow> string" where
  "format_desc g s =
     (let d0 = strncpy24 s @ [g];
          i = end_loop d0 25 0;
          d1 = pad_loop 25 i d0
      in takeWhile (\<lambda>c. c \<noteq> NUL) (d1[24 := NUL]))"

definition rule_line :: string where
  "rule_line = ''+-----------------+--------------------------+----------------+----------------+'' @ [NEWLINE]"

definition head_line :: string where
  "head_line = ''|       Date      | Description              |         Amount |        Balance |'' @ [NEWLINE]"

definition amount_column :: "char \<Rightarrow> int \<Rightarrow> string \<Rightarrow> string" where
  "amount_column ty a buf =
     (if ty = CHR ''+'' then
        (if 1000000000 \<le> a then '' ?,???,???.?? | '' else format_amount CHR '' '' CHR '' '' a buf @ '' | '')
      else
        (if 1000000000 \<le> a then ''(?,???,???.??) |'' else format_amount CHR ''('' CHR '')'' a buf @ '' | ''))"

definition balance_column :: "int \<Rightarrow> string \<Rightarrow> string" where
  "balance_column bal buf =
     (if 0 \<le> bal then
        (if 1000000000 \<le> bal then '' ?,???,???.?? |'' else format_amount CHR '' '' CHR '' '' bal buf @ '' |'') @ [NEWLINE]
      else
        (let bal' = bal * (-1) in
         if 1000000000 \<le> bal' then ''(?,???,???.??) |'' else format_amount CHR ''('' CHR '')'' bal' buf @ '' |'')
        @ [NEWLINE])"

text \<open>The stack buffers of one row before it is printed, and the row itself.\<close>

record row_buffers =
  amt_buf :: string
  balance_buf :: string
  desc_last :: char

definition in_long :: "int \<Rightarrow> bool" where
  "in_long x \<longleftrightarrow> - (2 ^ 63) \<le> x \<and> x < 2 ^ 63"

definition print_row :: "(int \<Rightarrow> string) \<Rightarrow> row_buffers \<Rightarrow> transactions \<Rightarrow> addr
    \<Rightarrow> My402List \<times> int \<times> string \<Rightarrow> (string + My402List \<times> int \<times> string) option" where
  "print_row ctime bufs tr elem s = (case s of (l, balanceMain, out) \<Rightarrow> do {
     c \<leftarrow> cells l elem;
     t \<leftarrow> tr (obj c);
     let a = sint (amount t);
     let bal = (if ttype t = CHR ''+'' then balanceMain + a else balanceMain - a);
     kassert (in_long bal);
     Some (Inr (l, bal, out @ ''| '' @ format_date (ctime (ttime t)) @ '' | ''
                          @ format_desc (desc_last bufs) (description t) @ '' | ''
                          @ amount_column (ttype t) a (amt_buf bufs)
                          @ balance_column bal (balance_buf bufs))) })"

definition PrintList :: "(int \<Rightarrow> string) \<Rightarrow> row_buffers \<Rightarrow> transactions \<Rightarrow> My402List \<Rightarrow> string option" where
  "PrintList ctime bufs tr mylist = do {
     elem \<leftarrow> My402ListFirst mylist;
     r \<leftarrow> for_each (\<lambda>(l, _). My402ListNext l) (print_row ctime bufs tr) elem
            (mylist, 0, rule_line @ head_line @ rule_line);
     case r of Inl m \<Rightarrow> None | Inr (_, _, out) \<Rightarrow> Some (out @ rule_line) }"

subsection \<open>Sorting\<close>

definition compare_swap :: "transactions \<Rightarrow> addr \<Rightarrow> addr \<Rightarrow> My402List \<Rightarrow> (string + My402List) option" where
  "compare_swap tr elem nextelem l = do {
     c \<leftarrow> cells l elem;
     t \<leftarrow> tr (obj c);
     d \<leftarrow> cells l nextelem;
     u \<leftarrow> tr (obj d);
     if ttime u < ttime t then do {
       h1 \<leftarrow> set_obj elem (obj d) (cells l);
       h2 \<leftarrow> set_obj nextelem (obj c) h1;
       Some (Inr (l\<lparr>cells := h2\<rparr>)) }
     else if ttime t = ttime u then Some (Inl ''Duplicate timestamp values'')
     else Some (Inr l) }"

partial_function (option) sort_loop :: "transactions \<Rightarrow> addr \<Rightarrow> My402List \<Rightarrow> (string + My402List) option" where
  "sort_loop tr elem l = do {
     n \<leftarrow> My402ListNext l elem;
     if n = NULL then Some (Inr l)
     else do {
       r \<leftarrow> for_each My402ListNext (compare_swap tr elem) n l;
       case r of
         Inl m \<Rightarrow> Some (Inl m)
       | Inr l' \<Rightarrow> do { e' \<leftarrow> My402ListNext l' elem; sort_loop tr e' l' } } }"

definition sorting :: "transactions \<Rightarrow> My402List \<Rightarrow> (string + My402List) option" where
  "sorting tr mylist = do { elem \<leftarrow> My402ListFirst mylist; sort_loop tr elem mylist }"

subsection \<open>Reading\<close>

text \<open>\<^verbatim>\<open>removespace\<close> returns a pointer into its argument: the offset of that pointer and the string there.\<close>

fun strip_end :: "string \<Rightarrow> nat \<Rightarrow> nat" where
  "strip_end s 0 = 0"
| "strip_end s (Suc n) = (if isspace (s ! Suc n) \<or> s ! Suc n = NEWLINE then strip_end s n else Suc n)"

definition removespace :: "string \<Rightarrow> nat \<times> string" where
  "removespace s =
     (let off = length (takeWhile isspace s); str = drop off s
      in if str = [] then (off, str)
         else (off, take (strip_end str (length str - 1) + 1) str))"

fun split_on :: "char \<Rightarrow> string \<Rightarrow> string list" where
  "split_on d [] = [[]]"
| "split_on d (c # cs) =
     (if c = d then [] # split_on d cs
      else case split_on d cs of [] \<Rightarrow> [[c]] | w # ws \<Rightarrow> (c # w) # ws)"

text \<open>The tokens that repeated calls of \<^verbatim>\<open>strtok(s, "\t")\<close> return.\<close>

definition strtok_all :: "string \<Rightarrow> string list" where
  "strtok_all s = filter (\<lambda>t. t \<noteq> []) (split_on TAB s)"

text \<open>\<^verbatim>\<open>strtoul(s, NULL, 0)\<close>: blanks, a sign, a base prefix and the longest run of digits.\<close>

definition digit_in :: "nat \<Rightarrow> char \<Rightarrow> nat option" where
  "digit_in base c =
     (let n = of_char c;
          v = (if isdigit c then digit_value c
               else if of_char CHR ''a'' \<le> n \<and> n \<le> of_char CHR ''f'' then n - of_char CHR ''a'' + 10
               else if of_char CHR ''A'' \<le> n \<and> n \<le> of_char CHR ''F'' then n - of_char CHR ''A'' + 10
               else 99)
      in if v < base then Some v else None)"

fun digits_value :: "nat \<Rightarrow> nat \<Rightarrow> string \<Rightarrow> nat" where
  "digits_value base a [] = a"
| "digits_value base a (c # cs) =
     (case digit_in base c of None \<Rightarrow> a | Some v \<Rightarrow> digits_value base (a * base + v) cs)"

definition unsigned_prefix :: "string \<Rightarrow> nat" where
  "unsigned_prefix s =
     (case s of
        CHR ''0'' # x # c # cs \<Rightarrow>
          if (x = CHR ''x'' \<or> x = CHR ''X'') \<and> digit_in 16 c \<noteq> None then digits_value 16 0 (c # cs)
          else digits_value 8 0 s
      | CHR ''0'' # _ \<Rightarrow> digits_value 8 0 s
      | _ \<Rightarrow> digits_value 10 0 s)"

definition strtoul :: "string \<Rightarrow> u64" where
  "strtoul s =
     (let s' = dropWhile isspace s;
          clamp = (\<lambda>n. if int n < 2 ^ 64 then (of_nat n :: u64) else - 1)
      in case s' of
           CHR ''-'' # r \<Rightarrow>
             if int (unsigned_prefix r) < 2 ^ 64 then - of_nat (unsigned_prefix r) else - 1
         | CHR ''+'' # r \<Rightarrow> clamp (unsigned_prefix r)
         | _ \<Rightarrow> clamp (unsigned_prefix s'))"

text \<open>\<^verbatim>\<open>(unsigned long) atoi(&ch1)\<close>, where \<open>beyond\<close> is what follows \<^verbatim>\<open>ch1\<close> in memory.\<close>

definition atoi_ch :: "string \<Rightarrow> char \<Rightarrow> u64" where
  "atoi_ch beyond ch1 = of_nat (digits_value 10 0 (ch1 # beyond))"

fun read_dollars :: "string \<Rightarrow> u64 \<Rightarrow> string \<Rightarrow> string + u64 \<times> string" where
  "read_dollars beyond a [] = Inl ''Transaction amount not numeric''"
| "read_dollars beyond a (c # cs) =
     (if c = CHR ''.'' then Inr (a, cs)
      else if \<not> isdigit c then Inl ''Transaction amount not numeric''
      else read_dollars beyond (a * 10 + atoi_ch beyond c) cs)"

fun read_cents :: "string \<Rightarrow> u64 \<Rightarrow> nat \<Rightarrow> string \<Rightarrow> string + u64 \<times> nat" where
  "read_cents beyond a checkLen [] = Inr (a, checkLen)"
| "read_cents beyond a checkLen (c # cs) =
     (if \<not> isdigit c then Inl ''Transaction amount is not numeric''
      else read_cents beyond (a * 10 + atoi_ch beyond c) (checkLen + 1) cs)"

definition read_amount :: "string \<Rightarrow> string \<Rightarrow> string + u64" where
  "read_amount beyond tok =
     (case read_dollars beyond 0 tok of
        Inl m \<Rightarrow> Inl m
      | Inr (a, rest) \<Rightarrow>
          if 10000000 \<le> a then Inl ''Transaction amount too large''
          else case read_cents beyond a 0 rest of
                 Inl m \<Rightarrow> Inl m
               | Inr (a', checkLen) \<Rightarrow>
                   if checkLen \<noteq> 2 then Inl ''Transaction amount is too long'' else Inr a')"

definition read_type :: "string \<Rightarrow> string + char" where
  "read_type tok =
     (if 1 < length tok \<or> (tok \<noteq> ''+'' \<and> tok \<noteq> ''-'')
      then Inl ''Transaction type should be 1 character or + or - only''
      else if tok = ''+'' then Inr CHR ''+'' else Inr CHR ''-'')"

definition read_time :: "u64 \<Rightarrow> string \<Rightarrow> string + int" where
  "read_time now tok =
     (if 10 < length tok then Inl ''Transaction timestamp is bad''
      else let transtime = strtoul tok in
        if \<not> (0 \<le> transtime \<and> transtime \<le> now)
        then Inl ''Timestamp should be between 0 and current time''
        else Inr (sint transtime))"

text \<open>The four fields of a line; the transaction is written field by field through \<^verbatim>\<open>trans\<close>.\<close>

definition read_fields :: "u64 \<Rightarrow> string \<Rightarrow> addr \<Rightarrow> string list \<Rightarrow> (string + transaction) option" where
  "read_fields now beyond tptr token = do {
     kassert (length token \<le> 4);
     if length token \<noteq> 4 then Some (Inl ''Transaction must have 4 fields'')
     else case read_type (token ! 0) of
       Inl m \<Rightarrow> Some (Inl m)
     | Inr ty \<Rightarrow> do {
         kassert (tptr \<noteq> NULL);
         case read_time now (token ! 1) of
           Inl m \<Rightarrow> Some (Inl m)
         | Inr tm \<Rightarrow>
             (case read_amount beyond (token ! 2) of
                Inl m \<Rightarrow> Some (Inl m)
              | Inr am \<Rightarrow>
                  if length (token ! 3) = 0 then Some (Inl ''Transaction description cannot be empty'')
                  else Some (Inr \<lparr>ttype = ty, ttime = tm, amount = am, description = token ! 3\<rparr>)) } }"

record alloc =
  trans_ptr :: addr
  dup_ok :: bool
  cell_ptr :: addr
  cell_junk :: cell

datatype read_state = Return bool | Continue

text \<open>The body of the loop for one line.  \<^verbatim>\<open>free(tempstr)\<close> needs the pointer \<^verbatim>\<open>strdup\<close> returned.\<close>

definition read_line :: "u64 \<Rightarrow> string \<Rightarrow> alloc \<Rightarrow> string \<Rightarrow> My402List \<times> transactions
    \<Rightarrow> (string + read_state \<times> My402List \<times> transactions) option" where
  "read_line now beyond al buf s = (case s of (l, tr) \<Rightarrow>
     if buf = [NEWLINE] then Some (Inr (Continue, l, tr))
     else if 1024 < length buf then Some (Inl ''Transaction length cannot be more than 1024'')
     else if \<not> dup_ok al then Some (Inr (Return False, l, tr))
     else do {
       let (off, str) = removespace buf;
       kassert (off = 0);
       r \<leftarrow> read_fields now beyond (trans_ptr al) (strtok_all str);
       case r of
         Inl m \<Rightarrow> Some (Inl m)
       | Inr t \<Rightarrow> do {
           (_, l') \<leftarrow> My402ListAppend (cell_ptr al) (cell_junk al) l (trans_ptr al);
           Some (Inr (Continue, l', tr(trans_ptr al \<mapsto> t))) } })"

text \<open>\<^verbatim>\<open>fgets(buf, 1026, file)\<close>: at most 1025 characters, up to and with the newline.\<close>

definition fgets_len :: "string \<Rightarrow> nat" where
  "fgets_len inp = min 1025 (length (takeWhile (\<lambda>c. c \<noteq> NEWLINE) inp) + 1)"

definition fgets_buf :: "string \<Rightarrow> string" where
  "fgets_buf inp = takeWhile (\<lambda>c. c \<noteq> NUL) (take (fgets_len inp) inp)"

function read_file :: "u64 \<Rightarrow> string \<Rightarrow> (nat \<Rightarrow> alloc) \<Rightarrow> nat \<Rightarrow> string \<Rightarrow> My402List \<times> transactions
    \<Rightarrow> (string + bool \<times> My402List \<times> transactions) option" where
  "read_file now beyond env k inp s =
     (if inp = [] then Some (Inr (True, s))
      else do {
        r \<leftarrow> read_line now beyond (env k) (fgets_buf inp) s;
        case r of
          Inl m \<Rightarrow> Some (Inl m)
        | Inr (Return b, s') \<Rightarrow> Some (Inr (b, s'))
        | Inr (Continue, s') \<Rightarrow> read_file now beyond env (k + 1) (drop (fgets_len inp) inp) s' })"
  by pat_completeness auto

termination
  by (relation "measure (\<lambda>(_, _, _, _, inp, _). length inp)") (auto simp: fgets_len_def)

text \<open>
  \<^verbatim>\<open>main\<close>: the arguments, what \<^verbatim>\<open>stdin\<close> or the named file holds (\<open>None\<close>: cannot be opened), and
  whether the name is a directory.  The result is what goes to standard output and to standard error.
\<close>

record world =
  stdin_contents :: string
  file_contents :: "string option"
  is_directory :: bool
  open_error :: string
  now_time :: u64
  ctime_fun :: "int \<Rightarrow> string"
  beyond_ch1 :: string
  allocs :: "nat \<Rightarrow> alloc"
  buffers :: row_buffers
  stack_list :: My402List

datatype run_result = Stderr string | Stdout string

definition sort_run :: "world \<Rightarrow> string \<Rightarrow> run_result option" where
  "sort_run w inp = do {
     (_, mylist) \<leftarrow> My402ListInit (stack_list w);
     r \<leftarrow> read_file (now_time w) (beyond_ch1 w) (allocs w) 0 inp (mylist, Map.empty);
     case r of
       Inl m \<Rightarrow> Some (Stderr m)
     | Inr (readresult, l, tr) \<Rightarrow>
         if \<not> readresult then Some (Stderr ''Cannot read the file'')
         else do {
           r2 \<leftarrow> sorting tr l;
           case r2 of
             Inl m \<Rightarrow> Some (Stderr m)
           | Inr l' \<Rightarrow> map_option Stdout (PrintList (ctime_fun w) (buffers w) tr l') } }"

definition main :: "world \<Rightarrow> string list \<Rightarrow> run_result option" where
  "main w argv =
     (let argc = length argv in
      if argc < 2 \<or> 3 < argc then Some (Stderr ''Invalid number of command line arguments.'')
      else if argc = 2 \<and> argv ! 1 = ''sort'' then sort_run w (stdin_contents w)
      else if argv ! 1 \<noteq> ''sort''
        then Some (Stderr ''Invalid command line argument, expected sort as second argument.'')
      else if is_directory w then Some (Stderr ''Input argument is a Directory'')
      else case file_contents w of
             None \<Rightarrow> Some (Stderr (open_error w))
           | Some inp \<Rightarrow> sort_run w inp)"

subsection \<open>Reference definitions\<close>

text \<open>One pass of the exchange sort on a list of keys: \<open>None\<close> when it meets two equal keys.\<close>

fun bubble :: "('a \<Rightarrow> int) \<Rightarrow> 'a \<Rightarrow> 'a list \<Rightarrow> ('a \<times> 'a list) option" where
  "bubble k x [] = Some (x, [])"
| "bubble k x (y # ys) =
     (if k y < k x then map_option (\<lambda>(m, zs). (m, x # zs)) (bubble k y ys)
      else if k x = k y then None
      else map_option (\<lambda>(m, zs). (m, y # zs)) (bubble k x ys))"

definition tkey :: "transactions \<Rightarrow> addr \<Rightarrow> int" where
  "tkey tr p = (case tr p of None \<Rightarrow> 0 | Some t \<Rightarrow> ttime t)"

text \<open>How an amount in cents should read: dollars in groups of three, a point, two digits.\<close>

fun show_nat :: "nat \<Rightarrow> string" where
  "show_nat n = (if n < 10 then [digit_char (int n)] else show_nat (n div 10) @ [digit_char (int (n mod 10))])"

fun group3 :: "nat \<Rightarrow> string" where
  "group3 n = (if n < 1000 then show_nat n
     else group3 (n div 1000) @ [CHR '','', digit_char (int (n div 100 mod 10)),
            digit_char (int (n div 10 mod 10)), digit_char (int (n mod 10))])"

definition money :: "nat \<Rightarrow> string" where
  "money a = group3 (a div 100) @ [CHR ''.'', digit_char (int (a div 10 mod 10)), digit_char (int (a mod 10))]"

text \<open>What the code prints: it leaves out the point and the zeros of an amount below ten cents.\<close>

definition printed_amount :: "nat \<Rightarrow> string" where
  "printed_amount a = (if a < 10 then [digit_char (int a)] else money a)"

definition right_justified :: "nat \<Rightarrow> string \<Rightarrow> string" where
  "right_justified n s = replicate (n - length s) CHR '' '' @ s"

definition amount_text :: "transaction \<Rightarrow> string" where
  "amount_text t =
     (if ttype t = CHR ''+'' then '' '' @ right_justified 12 (printed_amount (unat (amount t))) @ ''  | ''
      else ''('' @ right_justified 12 (printed_amount (unat (amount t))) @ '') | '')"

definition balance_text :: "int \<Rightarrow> string" where
  "balance_text bal =
     (if 1000000000 \<le> bal then '' ?,???,???.?? |''
      else if 0 \<le> bal then '' '' @ right_justified 12 (printed_amount (nat bal)) @ ''  |''
      else if - 1000000000 < bal then ''('' @ right_justified 12 (printed_amount (nat (- bal))) @ '') |''
      else ''(?,???,???.??) |'')"

definition signed_amount :: "transaction \<Rightarrow> int" where
  "signed_amount t = (if ttype t = CHR ''+'' then int (unat (amount t)) else - int (unat (amount t)))"

text \<open>The rows of the statement, with the balance before the first of them.\<close>

fun statement_rows :: "(int \<Rightarrow> string) \<Rightarrow> int \<Rightarrow> transaction list \<Rightarrow> string" where
  "statement_rows ctime bal [] = []"
| "statement_rows ctime bal (t # ts) =
     (let d = ctime (ttime t); bal' = bal + signed_amount t in
      ''| '' @ map (\<lambda>i. d ! i) ([0..<11] @ [20..<24]) @ '' | ''
      @ take 24 (description t @ replicate 24 CHR '' '') @ '' | ''
      @ amount_text t @ balance_text bal' @ [NEWLINE] @ statement_rows ctime bal' ts)"

definition statement_table :: "(int \<Rightarrow> string) \<Rightarrow> transaction list \<Rightarrow> string" where
  "statement_table ctime ts = rule_line @ head_line @ rule_line @ statement_rows ctime 0 ts @ rule_line"

text \<open>What reading a file establishes of a transaction and what \<^verbatim>\<open>PrintList\<close> needs of it.\<close>

definition printable :: "transaction \<Rightarrow> bool" where
  "printable t \<longleftrightarrow> unat (amount t) < 1000000000 \<and> NUL \<notin> set (description t)"

text \<open>What the lines of a file mean, without pointers: \<open>Inr None\<close> for a blank line.\<close>

definition spec_line :: "u64 \<Rightarrow> string \<Rightarrow> string \<Rightarrow> (string + transaction option) option" where
  "spec_line now beyond buf =
     (if buf = [NEWLINE] then Some (Inr None)
      else if 1024 < length buf then Some (Inl ''Transaction length cannot be more than 1024'')
      else do {
        let (off, str) = removespace buf;
        kassert (off = 0);
        r \<leftarrow> read_fields now beyond 1 (strtok_all str);
        Some (map_sum id Some r) })"

function spec_file :: "u64 \<Rightarrow> string \<Rightarrow> string \<Rightarrow> (string + transaction list) option" where
  "spec_file now beyond inp =
     (if inp = [] then Some (Inr [])
      else do {
        r \<leftarrow> spec_line now beyond (fgets_buf inp);
        case r of
          Inl m \<Rightarrow> Some (Inl m)
        | Inr ot \<Rightarrow> do {
            rest \<leftarrow> spec_file now beyond (drop (fgets_len inp) inp);
            Some (map_sum id (\<lambda>ts. case ot of None \<Rightarrow> ts | Some t \<Rightarrow> t # ts) rest) } })"
  by pat_completeness auto

termination
  by (relation "measure (\<lambda>(_, _, inp). length inp)") (auto simp: fgets_len_def)

text \<open>\<^verbatim>\<open>malloc\<close> and \<^verbatim>\<open>strdup\<close> always succeed and \<^verbatim>\<open>malloc\<close> never returns memory that is in use.\<close>

definition good_env :: "(nat \<Rightarrow> alloc) \<Rightarrow> My402List \<Rightarrow> bool" where
  "good_env env l \<longleftrightarrow>
     (\<forall>k. dup_ok (env k) \<and> trans_ptr (env k) \<noteq> NULL \<and> fresh l (cell_ptr (env k)))
     \<and> inj (\<lambda>k. cell_ptr (env k)) \<and> inj (\<lambda>k. trans_ptr (env k))"

text \<open>\<^verbatim>\<open>atoi(&ch1)\<close> reads one digit only when the byte after \<^verbatim>\<open>ch1\<close> is not a digit.\<close>

definition digit_alone :: "string \<Rightarrow> bool" where
  "digit_alone beyond \<longleftrightarrow> beyond = [] \<or> \<not> isdigit (hd beyond)"

text \<open>The stack before \<^verbatim>\<open>main\<close> sets up its list, and the hypotheses on the environment.\<close>

definition good_world :: "world \<Rightarrow> bool" where
  "good_world w \<longleftrightarrow>
     good_env (allocs w) (stack_list w) \<and> digit_alone (beyond_ch1 w)
     \<and> length (amt_buf (buffers w)) = 15 \<and> length (balance_buf (buffers w)) = 15
     \<and> anchor (stack_list w) \<noteq> NULL \<and> cells (stack_list w) (anchor (stack_list w)) \<noteq> None
     \<and> cells (stack_list w) NULL = None"

text \<open>The state of the reader before line \<open>k\<close>, with the transactions read so far.\<close>

definition reading :: "(nat \<Rightarrow> alloc) \<Rightarrow> nat \<Rightarrow> addr list \<Rightarrow> addr list \<Rightarrow> transaction list
    \<Rightarrow> My402List \<times> transactions \<Rightarrow> bool" where
  "reading env k ps xs ts s \<longleftrightarrow> (case s of (l, tr) \<Rightarrow>
     represents l ps xs \<and> map tr xs = map Some ts
     \<and> (\<forall>j \<ge> k. cells l (cell_ptr (env j)) = None \<and> trans_ptr (env j) \<notin> set xs) \<and> cells l NULL = None)"

text \<open>Two transactions out of order, at the objects of the list \<open>demo_list\<close>.\<close>

definition demo_trans :: transactions where
  "demo_trans = [71 \<mapsto> \<lparr>ttype = CHR ''+'', ttime = 300, amount = 123456, description = ''salary''\<rparr>,
                 72 \<mapsto> \<lparr>ttype = CHR ''-'', ttime = 200, amount = 50, description = ''coffee''\<rparr>]"

text \<open>A world with a two-line file whose transactions are out of order.\<close>

definition demo_input :: string where
  "demo_input = ''+'' @ [TAB] @ ''300'' @ [TAB] @ ''1234.56'' @ [TAB] @ ''salary'' @ [NEWLINE]
              @ ''-'' @ [TAB] @ ''200'' @ [TAB] @ ''0.50'' @ [TAB] @ ''coffee'' @ [NEWLINE]"

definition demo_world :: world where
  "demo_world = \<lparr>stdin_contents = demo_input, file_contents = None, is_directory = False,
     open_error = [], now_time = 1000, ctime_fun = (\<lambda>_. ''Wed Dec 31 17:00:00 1969''),
     beyond_ch1 = [NUL],
     allocs = (\<lambda>k. \<lparr>trans_ptr = k + 1, dup_ok = True, cell_ptr = k + 10,
                     cell_junk = \<lparr>obj = 5, nxt = 6, prv = 7\<rparr>\<rparr>),
     buffers = \<lparr>amt_buf = replicate 15 CHR ''x'', balance_buf = replicate 15 CHR ''x'', desc_last = CHR ''x''\<rparr>,
     stack_list = \<lparr>num_members = 77, anchor = 9, cells = [9 \<mapsto> \<lparr>obj = 5, nxt = 6, prv = 7\<rparr>]\<rparr>\<rparr>"

subsection \<open>The sort\<close>

lemma bubble_Some:
  "bubble k x ys = Some (m, zs) \<Longrightarrow>
     mset (m # zs) = mset (x # ys) \<and> (\<forall>z\<in>set zs. k m < k z) \<and> k m \<le> k x \<and> length zs = length ys"
proof (induction k x ys arbitrary: m zs rule: bubble.induct)
  case (2 k x y ys)
  consider (less) zs' where "k y < k x" "bubble k y ys = Some (m, zs')" "zs = x # zs'"
    | (greater) zs' where "k x < k y" "bubble k x ys = Some (m, zs')" "zs = y # zs'"
    using "2.prems" by (auto split: if_splits)
  then show ?case
  proof cases
    case less
    from "2.IH"(1) [OF less(1,2)] less show ?thesis
      by (auto simp: add_mset_commute)
  next
    case greater
    from "2.IH"(2) [OF _ _ greater(2)] greater show ?thesis
      by (auto simp: add_mset_commute)
  qed
qed simp

lemma bubble_distinct:
  assumes "bubble k x ys = Some (m, zs)"
  shows "distinct (map k (x # ys)) \<longleftrightarrow> distinct (map k zs)"
proof -
  note b = bubble_Some [OF assms]
  have "distinct (map k (x # ys)) \<longleftrightarrow> distinct (map k (m # zs))"
    using b by (intro mset_eq_imp_distinct_iff) (metis mset_map)
  also have "\<dots> \<longleftrightarrow> distinct (map k zs)" using b by auto
  finally show ?thesis .
qed

lemma bubble_None: "bubble k x ys = None \<Longrightarrow> \<not> distinct (map k (x # ys))"
  by (induction k x ys rule: bubble.induct) (auto split: if_splits)

lemma represents_swap_obj:
  assumes r: "represents l (as @ e # bs) (us @ x # ys)" and len: "length as = length us"
  shows "\<exists>h. set_obj e v (cells l) = Some h \<and> represents (l\<lparr>cells := h\<rparr>) (as @ e # bs) (us @ v # ys)
           \<and> map_option obj (cells l e) = Some x"
proof -
  obtain c where c: "cells l e = Some c" using represents_alloc [OF r, of e] by auto
  let ?h = "(cells l)(e \<mapsto> c\<lparr>obj := v\<rparr>)"
  have "links ?h ps = links (cells l) ps" for ps
    by (rule links_cong) (auto simp: c)
  moreover have "objs ?h (as @ e # bs) (us @ v # ys)" and "obj c = x"
  proof -
    have d: "e \<notin> set as" "e \<notin> set bs" using r by (auto simp: represents_def)
    have "objs ?h as zs = objs (cells l) as zs" "objs ?h bs zs = objs (cells l) bs zs" for zs
      using d by (auto intro!: objs_cong)
    then show "objs ?h (as @ e # bs) (us @ v # ys)" "obj c = x"
      using r len c by (auto simp: represents_def objs_append objs_Cons)
  qed
  ultimately show ?thesis
    using r c by (auto simp: set_obj_def represents_def)
qed

lemma compare_swap_step:
  assumes r: "represents l (as @ e # cs @ f # bs) (us @ x # vs @ y # ys)"
    and len: "length as = length us" "length cs = length vs"
    and tr: "x \<in> dom tr" "y \<in> dom tr"
  shows "tkey tr y < tkey tr x \<Longrightarrow>
      \<exists>l'. compare_swap tr e f l = Some (Inr l') \<and> represents l' (as @ e # cs @ f # bs) (us @ y # vs @ x # ys)"
    and "tkey tr x = tkey tr y \<Longrightarrow> compare_swap tr e f l = Some (Inl ''Duplicate timestamp values'')"
    and "tkey tr x < tkey tr y \<Longrightarrow> compare_swap tr e f l = Some (Inr l)"
proof -
  obtain h where h: "set_obj e y (cells l) = Some h" "map_option obj (cells l e) = Some x"
    and r1: "represents (l\<lparr>cells := h\<rparr>) (as @ e # cs @ f # bs) (us @ y # vs @ y # ys)"
    using represents_swap_obj [OF r len(1), of y] by auto
  have r1': "represents (l\<lparr>cells := h\<rparr>) ((as @ e # cs) @ f # bs) ((us @ y # vs) @ y # ys)"
    using r1 by simp
  obtain h2 where h2: "set_obj f x h = Some h2"
    and r2: "represents (l\<lparr>cells := h2\<rparr>) (as @ e # cs @ f # bs) (us @ y # vs @ x # ys)"
    using represents_swap_obj [OF r1', of x] len by auto
  have r': "represents l ((as @ e # cs) @ f # bs) ((us @ x # vs) @ y # ys)"
    using r by simp
  have f: "map_option obj (cells l f) = Some y"
    using represents_swap_obj [OF r', of y] len by auto
  show "tkey tr y < tkey tr x \<Longrightarrow>
      \<exists>l'. compare_swap tr e f l = Some (Inr l') \<and> represents l' (as @ e # cs @ f # bs) (us @ y # vs @ x # ys)"
    using h h2 r2 f tr by (auto simp: compare_swap_def tkey_def)
  show "tkey tr x = tkey tr y \<Longrightarrow> compare_swap tr e f l = Some (Inl ''Duplicate timestamp values'')"
    and "tkey tr x < tkey tr y \<Longrightarrow> compare_swap tr e f l = Some (Inr l)"
    using h f tr by (auto simp: compare_swap_def tkey_def)
qed

lemma inner_loop:
  assumes "represents l (as @ e # cs @ bs) (us @ x # vs @ ys)"
    and "length as = length us" and "length cs = length vs" and "set (x # ys) \<subseteq> dom tr"
  shows "(case bubble (tkey tr) x ys of
            None \<Rightarrow> fold_exit (compare_swap tr e) bs l = Some (Inl ''Duplicate timestamp values'')
          | Some (m, zs) \<Rightarrow> \<exists>l'. fold_exit (compare_swap tr e) bs l = Some (Inr l')
                               \<and> represents l' (as @ e # cs @ bs) (us @ m # vs @ zs))"
  using assms
proof (induction bs arbitrary: cs vs x ys l)
  case Nil
  then have "ys = []" using represents_length [OF Nil(1)] by simp
  with Nil show ?case by auto
next
  case (Cons f bs)
  obtain y ys' where ys: "ys = y # ys'"
    using represents_length [OF Cons.prems(1)] Cons.prems(2,3) by (cases ys) auto
  note r = Cons.prems(1) [unfolded ys]
  note step = compare_swap_step [OF r Cons.prems(2,3)]
  have dom: "x \<in> dom tr" "y \<in> dom tr" "set ys' \<subseteq> dom tr" using Cons.prems(4) ys by auto
  have IH: "represents l' (as @ e # cs @ f # bs) (us @ z # vs @ w # ys') \<Longrightarrow> z \<in> dom tr \<Longrightarrow>
      (case bubble (tkey tr) z ys' of
            None \<Rightarrow> fold_exit (compare_swap tr e) bs l' = Some (Inl ''Duplicate timestamp values'')
          | Some (m, zs) \<Rightarrow> \<exists>l''. fold_exit (compare_swap tr e) bs l' = Some (Inr l'')
                               \<and> represents l'' (as @ e # cs @ f # bs) (us @ m # vs @ w # zs))" for l' z w
    using Cons.IH [of l' "cs @ [f]" z "vs @ [w]" ys'] Cons.prems(2,3) dom(3) by (auto split: option.splits)
  consider "tkey tr y < tkey tr x" | "tkey tr x = tkey tr y" | "tkey tr x < tkey tr y" by linarith
  then show ?case
  proof cases
    case 1
    from step(1) [OF dom(1,2) 1] obtain l' where l': "compare_swap tr e f l = Some (Inr l')"
      "represents l' (as @ e # cs @ f # bs) (us @ y # vs @ x # ys')" by auto
    from IH [OF l'(2) dom(2)] l'(1) 1 show ?thesis
      by (auto simp: ys split: option.splits)
  next
    case 2
    from step(2) [OF dom(1,2) 2] 2 show ?thesis by (simp add: ys)
  next
    case 3
    from step(3) [OF dom(1,2) 3] IH [OF r dom(1)] 3 show ?thesis
      by (auto simp: ys split: option.splits)
  qed
qed

lemma set_obj_keeps:
  assumes r: "represents l ps xs" and e: "e \<in> set ps" and h: "set_obj e v (cells l) = Some h"
  shows "\<exists>xs'. represents (l\<lparr>cells := h\<rparr>) ps xs'"
proof -
  obtain as bs where ps: "ps = as @ e # bs" using e by (meson split_list)
  let ?n = "length as"
  have n: "?n < length xs" using represents_length [OF r] by (simp add: ps)
  have "represents l (as @ e # bs) (take ?n xs @ xs ! ?n # drop (Suc ?n) xs)"
    using r id_take_nth_drop [OF n] by (simp add: ps)
  from represents_swap_obj [OF this, of v] n h show ?thesis
    by (auto simp: ps)
qed

lemma compare_swap_keeps:
  assumes r: "represents l ps xs" and "e \<in> set ps" and "f \<in> set ps"
    and c: "compare_swap tr e f l = Some (Inr l')"
  shows "\<exists>xs'. represents l' ps xs'"
proof -
  consider "l' = l"
    | h1 h2 a b where "set_obj e a (cells l) = Some h1" "set_obj f b h1 = Some h2" "l' = l\<lparr>cells := h2\<rparr>"
    using c by (auto simp: compare_swap_def bind_eq_Some_conv split: if_splits)
  then show ?thesis
  proof cases
    case 2
    obtain xs1 where "represents (l\<lparr>cells := h1\<rparr>) ps xs1"
      using set_obj_keeps [OF r assms(2) 2(1)] by auto
    from set_obj_keeps [OF this assms(3)] 2 show ?thesis by auto
  qed (use r in auto)
qed

text \<open>One round of the outer loop, with the inner loop as a fold over the cells that follow.\<close>

lemma sort_loop_unfold:
  assumes r: "represents l (as @ e # f # bs) xs"
  shows "sort_loop tr e l = do {
      r \<leftarrow> fold_exit (compare_swap tr e) (f # bs) l;
      case r of Inl m \<Rightarrow> Some (Inl m)
        | Inr l' \<Rightarrow> do { e' \<leftarrow> My402ListNext l' e; sort_loop tr e' l' } }"
proof -
  let ?ps = "as @ e # f # bs"
  have nxt: "My402ListNext l e = Some f" and nn: "f \<noteq> NULL"
    using Next_rep [OF r] r by (auto simp: represents_def)
  have keep: "\<exists>xs. represents s' ?ps xs"
    if "g \<in> set (f # bs)" "\<exists>xs. represents s ?ps xs" "compare_swap tr e g s = Some (Inr s')" for g s s'
    using that compare_swap_keeps [of s ?ps _ e g tr s'] by auto
  have "for_each My402ListNext (compare_swap tr e) (head_or_null (f # bs)) l
      = fold_exit (compare_swap tr e) (f # bs) l"
    using keep r
    by (intro my402.for_each_fold [where P = "\<lambda>l. \<exists>xs. represents l ?ps xs" and lst = "\<lambda>l. l" and as = "as @ [e]"]) auto
  then have walk: "for_each My402ListNext (compare_swap tr e) f l = fold_exit (compare_swap tr e) (f # bs) l"
    by (simp add: head_or_null_def)
  then show ?thesis
    using nxt nn by (subst sort_loop.simps) simp
qed

lemma sort_loop_correct:
  assumes "represents l (as @ e # bs) (us @ x # ys)" and "length as = length us" and "set (x # ys) \<subseteq> dom tr"
  shows "if distinct (map (tkey tr) (x # ys))
         then \<exists>l' zs. sort_loop tr e l = Some (Inr l') \<and> represents l' (as @ e # bs) (us @ zs)
                    \<and> mset zs = mset (x # ys) \<and> sorted_wrt (<) (map (tkey tr) zs)
         else sort_loop tr e l = Some (Inl ''Duplicate timestamp values'')"
  using assms
proof (induction bs arbitrary: as us e x ys l)
  case Nil
  then have "ys = []" using represents_length [OF Nil(1)] by simp
  moreover have "My402ListNext l e = Some NULL" using Next_rep [OF Nil(1)] by simp
  ultimately show ?case using Nil(1)
    by (subst sort_loop.simps) (auto intro!: exI [of _ "[x]"])
next
  case (Cons f bs)
  let ?ps = "as @ e # f # bs"
  note unfold = sort_loop_unfold [OF Cons.prems(1)]
  note inner = inner_loop [of l as e "[]" "f # bs" us x "[]" ys tr]
  show ?case
  proof (cases "bubble (tkey tr) x ys")
    case None
    then have "fold_exit (compare_swap tr e) (f # bs) l = Some (Inl ''Duplicate timestamp values'')"
      using inner Cons.prems by simp
    then have "sort_loop tr e l = Some (Inl ''Duplicate timestamp values'')"
      unfolding unfold by simp
    then show ?thesis
      using bubble_None [OF None] by (simp only: if_False)
  next
    case (Some mz)
    obtain m zs where mz: "mz = (m, zs)" by (cases mz)
    note b = bubble_Some [OF Some [unfolded mz]]
    obtain l' where l': "fold_exit (compare_swap tr e) (f # bs) l = Some (Inr l')"
      and r': "represents l' ?ps (us @ m # zs)"
      using inner Cons.prems Some mz by auto
    obtain z zs' where zs: "zs = z # zs'"
      using represents_length [OF r'] Cons.prems(2) by (cases zs) auto
    have r2: "represents l' ((as @ [e]) @ f # bs) ((us @ [m]) @ z # zs')" using r' zs by simp
    have len: "length (as @ [e]) = length (us @ [m])" using Cons.prems(2) by simp
    have step: "sort_loop tr e l = sort_loop tr f l'"
      using Next_rep [OF r'] unfolding unfold l' by simp
    have same: "mset (x # ys) = mset (m # zs)" using b by simp
    have dom: "set (z # zs') \<subseteq> dom tr"
      using Cons.prems(3) mset_eq_setD [OF same] zs by auto
    have dist: "distinct (map (tkey tr) (x # ys)) \<longleftrightarrow> distinct (map (tkey tr) (z # zs'))"
      using bubble_distinct [OF Some [unfolded mz]] by (simp only: zs)
    note IH = Cons.IH [OF r2 len dom]
    show ?thesis
    proof (cases "distinct (map (tkey tr) (x # ys))")
      case True
      then obtain l'' ws where l'': "sort_loop tr f l' = Some (Inr l'')"
        "represents l'' ?ps (us @ m # ws)" "mset ws = mset zs" "sorted_wrt (<) (map (tkey tr) ws)"
        using IH dist zs by auto
      have "sorted_wrt (<) (map (tkey tr) (m # ws))"
        using b l''(4) mset_eq_setD [OF l''(3)] by simp
      moreover have "mset (m # ws) = mset (x # ys)" using same l''(3) by simp
      ultimately show ?thesis using True l''(1,2) step by auto
    next
      case False
      then have "\<not> distinct (map (tkey tr) (z # zs'))" unfolding dist .
      then show ?thesis using IH False step by (simp only: if_False)
    qed
  qed
qed

lemma sorting_result:
  assumes r: "represents l ps xs" and dom: "set xs \<subseteq> dom tr" and null: "cells l NULL = None"
  shows "if xs = [] then sorting tr l = None
         else if distinct (map (tkey tr) xs)
         then \<exists>l' zs. sorting tr l = Some (Inr l') \<and> represents l' ps zs
                    \<and> mset zs = mset xs \<and> sorted_wrt (<) (map (tkey tr) zs)
         else sorting tr l = Some (Inl ''Duplicate timestamp values'')"
proof (cases ps)
  case Nil
  then have "xs = []" using represents_length [OF r] by simp
  then show ?thesis
    using First_rep [OF r] Nil null by (simp add: sorting_def sort_loop.simps My402ListNext_def)
next
  case (Cons e bs)
  then obtain x ys where xs: "xs = x # ys" using represents_length [OF r] by (cases xs) auto
  have "represents l ([] @ e # bs) ([] @ x # ys)" using r by (simp add: Cons xs)
  from sort_loop_correct [OF this _ dom [unfolded xs]] First_rep [OF r] show ?thesis
    by (auto simp: sorting_def Cons xs split: if_splits)
qed

text \<open>C17: Sorting a non-empty list of transactions with pairwise distinct timestamps terminates and
  leaves the same cells holding a permutation of the same transactions in strictly increasing order
  of time; with two equal timestamps it always ends with the message about duplicates, wherever they
  stand; an empty list is dereferenced at \<^verbatim>\<open>NULL\<close>.\<close>

theorem sorting_correct:
  assumes r: "represents l ps xs" and dom: "set xs \<subseteq> dom tr" and null: "cells l NULL = None"
  shows "if xs = [] then sorting tr l = None
         else if distinct (map (tkey tr) xs)
         then \<exists>l' zs. sorting tr l = Some (Inr l') \<and> represents l' ps zs
                    \<and> mset zs = mset xs \<and> sorted_wrt (<) (map (tkey tr) zs)
         else sorting tr l = Some (Inl ''Duplicate timestamp values'')"
  using sorting_result [OF assms] .

theorem sorting_correct_witness:
  "\<exists>l' zs. sorting demo_trans demo_list = Some (Inr l') \<and> represents l' [1, 2] zs \<and> mset zs = {#71, 72#}
         \<and> sorted_wrt (<) (map (tkey demo_trans) zs)"
proof -
  have "set [71, 72 :: nat] \<subseteq> dom demo_trans" "distinct (map (tkey demo_trans) [71, 72])"
    and "cells demo_list NULL = None"
    by (simp_all add: demo_trans_def demo_list_def tkey_def)
  with sorting_correct [OF demo_list_represents, of demo_trans] show ?thesis by simp
qed

subsection \<open>Amounts\<close>

declare fill_digits.simps [simp del]

lemma fill_more:
  assumes "i \<notin> {0, 2, 6, 10}" and "10 \<le> a"
  shows "fill_digits i (int a) b = fill_digits (i - 1) (int (a div 10)) (b[i := digit_char (int (a mod 10))])"
  using assms by (subst fill_digits.simps) (auto simp: Let_def of_nat_div of_nat_mod)

lemma fill_last:
  assumes "i \<notin> {0, 2, 6, 10}" and "a < 10"
  shows "fill_digits i (int a) b = (i - 1, b[i := digit_char (int a)])"
  using assms by (subst fill_digits.simps) (auto simp: Let_def)

lemma fill_separator:
  "fill_digits 10 a b = fill_digits 9 a (b[10 := CHR ''.''])"
  "fill_digits 6 a b = fill_digits 5 a (b[6 := CHR '',''])"
  "fill_digits 2 a b = fill_digits 1 a (b[2 := CHR '',''])"
  by (simp_all add: fill_digits.simps [of 10] fill_digits.simps [of 6] fill_digits.simps [of 2])

lemma list15:
  "length b = 15 \<Longrightarrow>
     \<exists>b0 b1 b2 b3 b4 b5 b6 b7 b8 b9 b10 b11 b12 b13 b14.
       b = [b0, b1, b2, b3, b4, b5, b6, b7, b8, b9, b10, b11, b12, b13, b14]"
  by (auto simp: length_Suc_conv numeral_eq_Suc)

lemma list_update_Cons_numeral: "(x # xs)[numeral v := y] = x # xs[pred_numeral v := y]"
  by (simp add: numeral_eq_Suc)

lemma fill_blanks_numeral: "fill_blanks (numeral v) b = fill_blanks (pred_numeral v) (b[numeral v := CHR '' ''])"
  by (simp add: numeral_eq_Suc)

lemma of_char_digit_char: "d < 10 \<Longrightarrow> of_char (digit_char (int d)) = 48 + d"
  by (simp add: digit_char_def)

lemma digit_char_NUL: "d < 10 \<Longrightarrow> digit_char (int d) \<noteq> NUL"
  using of_char_digit_char [of d] by (auto simp: NUL_def)

lemma punctuation_NUL: "CHR ''.'' \<noteq> NUL" "CHR '','' \<noteq> NUL" "CHR '' '' \<noteq> NUL" "CHR ''0'' \<noteq> NUL"
  by (simp_all add: NUL_def)

lemmas format_eval = format_amount_def fill_more fill_last fill_separator list_update_Cons_numeral
  fill_blanks_numeral digit_char_NUL punctuation_NUL

lemmas div_eval = div_mult2_eq [symmetric] div_less_iff_less_mult less_eq_div_iff_mult_less_eq

declare show_nat.simps [simp del] group3.simps [simp del]

lemma show_nat_cases:
  "n < 10 \<Longrightarrow> show_nat n = [digit_char (int n)]"
  "10 \<le> n \<Longrightarrow> show_nat n = show_nat (n div 10) @ [digit_char (int (n mod 10))]"
  by (simp_all add: show_nat.simps [of n])

lemma group3_cases:
  "n < 1000 \<Longrightarrow> group3 n = show_nat n"
  "1000 \<le> n \<Longrightarrow> group3 n = group3 (n div 1000) @ [CHR '','', digit_char (int (n div 100 mod 10)),
            digit_char (int (n div 10 mod 10)), digit_char (int (n mod 10))]"
  by (simp_all add: group3.simps [of n])

lemma replicate_numeral: "replicate (numeral v) x = x # replicate (pred_numeral v) x"
  by (simp add: numeral_eq_Suc)

lemma digit_chars:
  "digit_char 0 = CHR ''0''" "digit_char 1 = CHR ''1''" "digit_char 2 = CHR ''2''" "digit_char 3 = CHR ''3''"
  "digit_char 4 = CHR ''4''" "digit_char 5 = CHR ''5''" "digit_char 6 = CHR ''6''" "digit_char 7 = CHR ''7''"
  "digit_char 8 = CHR ''8''" "digit_char 9 = CHR ''9''"
  by (simp_all add: digit_char_def char_of_def bit_Suc_0_iff)

lemmas money_eval = digit_chars(1) money_def group3_cases show_nat_cases replicate_numeral

lemma digit_count:
  assumes "10 \<le> a" and "a < (1000000000 :: nat)"
  obtains "10 \<le> a" "a < 100" | "100 \<le> a" "a < 1000" | "1000 \<le> a" "a < 10000" | "10000 \<le> a" "a < 100000"
    | "100000 \<le> a" "a < 1000000" | "1000000 \<le> a" "a < 10000000" | "10000000 \<le> a" "a < 100000000"
    | "100000000 \<le> a" "a < 1000000000"
  using assms by linarith

lemma format_amount_money:
  assumes "length buf = 15" and "10 \<le> a" and "a < 1000000000" and "p \<noteq> NUL" and "c \<noteq> NUL"
  shows "format_amount p c (int a) buf = p # replicate (12 - length (money a)) CHR '' '' @ money a @ [c]"
proof -
  obtain b0 b1 b2 b3 b4 b5 b6 b7 b8 b9 b10 b11 b12 b13 b14 where
    b: "buf = [b0, b1, b2, b3, b4, b5, b6, b7, b8, b9, b10, b11, b12, b13, b14]"
    using list15 [OF assms(1)] by blast
  from assms(2,3) show ?thesis
    by (cases rule: digit_count)
      (use assms(4,5) in \<open>simp_all add: b format_eval div_eval\<close>,
       simp_all add: money_eval div_eval)
qed

lemma format_amount_small:
  assumes "length buf = 15" and "a < 10" and "p \<noteq> NUL" and "c \<noteq> NUL"
  shows "format_amount p c (int a) buf = p # replicate 11 CHR '' '' @ [digit_char (int a), c]"
proof -
  obtain b0 b1 b2 b3 b4 b5 b6 b7 b8 b9 b10 b11 b12 b13 b14 where
    b: "buf = [b0, b1, b2, b3, b4, b5, b6, b7, b8, b9, b10, b11, b12, b13, b14]"
    using list15 [OF assms(1)] by blast
  show ?thesis
    using assms(2-4) by (simp add: b format_eval replicate_numeral)
qed

lemma format_amount_printed:
  assumes "length buf = 15" and "a < 1000000000" and "p \<noteq> NUL" and "c \<noteq> NUL"
  shows "format_amount p c (int a) buf = [p] @ right_justified 12 (printed_amount a) @ [c]"
proof (cases "a < 10")
  case True
  with format_amount_small [OF assms(1) True assms(3,4)] show ?thesis
    by (simp add: printed_amount_def right_justified_def)
next
  case False
  with format_amount_money [OF assms(1) _ assms(2-4)] show ?thesis
    by (simp add: printed_amount_def right_justified_def)
qed

text \<open>For every amount from ten cents up to just under ten million dollars, and whatever the
  buffer held before, the formatting loop writes the amount with its thousands separators, its point
  and two digits, right-justified in twelve columns between the two delimiters.\<close>

theorem format_amount_correct:
  assumes "length buf = 15" and "10 \<le> a" and "a < 1000000000" and "p \<noteq> NUL" and "c \<noteq> NUL"
  shows "format_amount p c (int a) buf = [p] @ right_justified 12 (money a) @ [c]"
  using format_amount_printed [OF assms(1,3,4,5)] assms(2) by (simp add: printed_amount_def)

theorem format_amount_correct_witness:
  "format_amount CHR ''('' CHR '')'' 123456 (replicate 15 CHR ''x'') = ''(    1,234.56)''"
proof -
  have "format_amount CHR ''('' CHR '')'' (int 123456) (replicate 15 CHR ''x'')
      = ''('' @ right_justified 12 (money 123456) @ '')''"
    by (rule format_amount_correct) (simp_all add: NUL_def)
  then show ?thesis
    by (simp add: right_justified_def money_eval digit_chars)
qed

text \<open>Amounts below ten cents (a balance of zero among them) are printed as a single digit in the
  last column: without the point and the zeros, so that five cents read as five.\<close>

theorem format_amount_below_ten_cents:
  assumes "length buf = 15" and "a < 10" and "p \<noteq> NUL" and "c \<noteq> NUL"
  shows "format_amount p c (int a) buf = [p] @ replicate 11 CHR '' '' @ [digit_char (int a)] @ [c]
       \<and> format_amount p c (int a) buf \<noteq> [p] @ right_justified 12 (money a) @ [c]"
proof
  show *: "format_amount p c (int a) buf = [p] @ replicate 11 CHR '' '' @ [digit_char (int a)] @ [c]"
    using format_amount_small [OF assms] by simp
  show "format_amount p c (int a) buf \<noteq> [p] @ right_justified 12 (money a) @ [c]"
    unfolding * using assms(2) by (simp add: right_justified_def money_eval)
qed

theorem format_amount_below_ten_cents_witness:
  "format_amount CHR '' '' CHR '' '' 5 (replicate 15 CHR ''x'') = ''            5 ''"
proof -
  have "format_amount CHR '' '' CHR '' '' (int 5) (replicate 15 CHR ''x'')
      = '' '' @ replicate 11 CHR '' '' @ [digit_char (int 5)] @ '' ''"
    using format_amount_below_ten_cents [of "replicate 15 CHR ''x''" 5 "CHR '' ''" "CHR '' ''"]
    by (simp add: NUL_def)
  then show ?thesis by (simp add: replicate_numeral digit_chars)
qed

subsection \<open>The other columns\<close>

lemma format_date_text: "format_date t = map (\<lambda>i. t ! i) ([0..<11] @ [20..<24])"
  by (simp add: format_date_def numeral_eq_Suc upt_rec)

lemma end_loop_stop:
  assumes "\<And>j. i \<le> j \<Longrightarrow> j < m \<Longrightarrow> d ! j \<noteq> NUL" and "i \<le> m" and "m \<le> 24"
    and "m < 24 \<Longrightarrow> d ! m = NUL" and "m - i < n"
  shows "end_loop d n i = m \<or> 24 \<le> m \<and> 24 \<le> end_loop d n i"
  using assms
proof (induction d n i rule: end_loop.induct)
  case (2 d n i)
  show ?case
  proof (cases "i = m")
    case True
    then show ?thesis using "2.prems"(3,4) by (cases "m < 24") auto
  next
    case False
    then have "d ! i \<noteq> NUL" "\<not> 24 < i + 1" using "2.prems" by auto
    moreover have "end_loop d n (i + 1) = m \<or> 24 \<le> m \<and> 24 \<le> end_loop d n (i + 1)"
      using "2.IH" [OF calculation] "2.prems" False by auto
    ultimately show ?thesis by simp
  qed
qed auto

lemma pad_loop_fill:
  "j \<le> 24 \<Longrightarrow> length d = 25 \<Longrightarrow> 24 - j < n \<Longrightarrow>
     pad_loop n j d = take j d @ replicate (24 - j) CHR '' '' @ drop 24 d"
proof (induction n j d rule: pad_loop.induct)
  case (2 n j d)
  show ?case
  proof (cases "j < 24")
    case True
    have "take (j + 1) (d[j := CHR '' '']) = take j d @ [CHR '' '']"
      using True "2.prems" by (simp add: take_Suc_conv_app_nth)
    moreover have "replicate (24 - j) CHR '' '' = CHR '' '' # replicate (24 - (j + 1)) CHR '' ''"
      using True by (metis Suc_diff_Suc Suc_eq_plus1 replicate_Suc)
    ultimately show ?thesis
      using "2.IH" [OF True] "2.prems" True by simp
  next
    case False
    then have "j = 24" using "2.prems"(1) by simp
    then show ?thesis by simp
  qed
qed simp

lemma pad_loop_id: "24 \<le> j \<Longrightarrow> pad_loop n j d = d"
  by (cases n) simp_all

lemma takeWhile_NUL: "NUL \<notin> set s \<Longrightarrow> takeWhile (\<lambda>c. c \<noteq> NUL) s = s"
  by (auto simp: takeWhile_eq_all_conv)

lemma takeWhile_NUL_end: "NUL \<notin> set s \<Longrightarrow> takeWhile (\<lambda>c. c \<noteq> NUL) (s @ [NUL]) = s"
  by (induction s) auto

lemma format_desc_text:
  assumes "NUL \<notin> set s"
  shows "format_desc g s = take 24 (s @ replicate 24 CHR '' '')"
proof -
  let ?d = "strncpy24 s @ [g]" and ?m = "min 24 (length s)"
  have d: "strncpy24 s = take 24 s @ replicate (24 - length s) NUL"
    using assms by (auto simp: strncpy24_def takeWhile_NUL min_def)
  have len: "length ?d = 25" by (simp add: d)
  have "?d ! j \<noteq> NUL" if "j < ?m" for j
    using that assms by (auto simp: d nth_append) (metis nth_mem)
  moreover have "?d ! ?m = NUL" if "?m < 24"
    using that by (auto simp: d nth_append)
  ultimately have stop: "end_loop ?d 25 0 = ?m \<or> 24 \<le> ?m \<and> 24 \<le> end_loop ?d 25 0"
    by (intro end_loop_stop) auto
  have "pad_loop 25 (end_loop ?d 25 0) ?d = take 24 (s @ replicate 24 CHR '' '') @ [g]"
  proof (cases "length s < 24")
    case True
    then have "end_loop ?d 25 0 = length s" using stop by auto
    then show ?thesis using True len pad_loop_fill [of "length s" ?d 25] by (simp add: d)
  next
    case False
    then have "24 \<le> end_loop ?d 25 0" using stop by auto
    then show ?thesis using False by (simp add: pad_loop_id d)
  qed
  moreover have "NUL \<notin> set (take 24 (s @ replicate 24 CHR '' ''))"
    using assms punctuation_NUL(3) by (auto dest!: in_set_takeD)
  ultimately show ?thesis
    by (simp add: format_desc_def Let_def list_update_append takeWhile_NUL_end del: take_append)
qed

lemma amount_column_text:
  assumes "length buf = 15" and "unat (amount t) < 1000000000"
  shows "amount_column (ttype t) (int (unat (amount t))) buf = amount_text t"
  using assms by (simp add: amount_column_def amount_text_def format_amount_printed NUL_def del: of_nat_unat)

lemma balance_column_text:
  assumes "length buf = 15"
  shows "balance_column bal buf = balance_text bal @ [NEWLINE]"
proof -
  have "format_amount p c (int (nat bal)) buf = [p] @ right_justified 12 (printed_amount (nat bal)) @ [c]"
    if "bal < 1000000000" "p \<noteq> NUL" "c \<noteq> NUL" for p c and bal
    using format_amount_printed [OF assms _ that(2,3), of "nat bal"] that(1) by simp
  from this [of bal "CHR '' ''" "CHR '' ''"] this [of "- bal" "CHR ''(''" "CHR '')''"]
  show ?thesis
    by (auto simp: balance_column_def balance_text_def Let_def NUL_def)
qed

lemma sint_small: "unat (w :: u64) < 2 ^ 63 \<Longrightarrow> sint w = int (unat w)"
proof -
  assume "unat w < 2 ^ 63"
  then have "int (unat w) < int (2 ^ 63)" by (simp only: of_nat_less_iff)
  then have "uint w < 2 ^ 63" by simp
  moreover have "- (2 ^ 63) \<le> uint w"
    by (rule order_trans [OF _ uint_nonnegative]) simp
  ultimately show ?thesis
    using signed_take_bit_int_eq_self [of 63 "uint w"] by (simp add: sint_uint)
qed

lemma print_row_text:
  assumes "cells l e = Some c" and "tr (obj c) = Some t" and "in_long (bal + signed_amount t)"
    and "length (amt_buf bufs) = 15" and "length (balance_buf bufs) = 15"
    and a: "unat (amount t) < 1000000000" and "NUL \<notin> set (description t)"
  shows "print_row ctime bufs tr e (l, bal, out) =
    Some (Inr (l, bal + signed_amount t, out @ statement_rows ctime bal [t]))"
proof -
  have s: "sint (amount t) = int (unat (amount t))"
    using a by (intro sint_small) simp
  have b: "(if ttype t = CHR ''+'' then bal + sint (amount t) else bal - sint (amount t)) = bal + signed_amount t"
    by (simp add: s signed_amount_def)
  show ?thesis
    using assms(1,2,3) unfolding print_row_def
    by (simp add: Let_def s b format_date_text format_desc_text [OF assms(7)]
        amount_column_text [OF assms(4) a] balance_column_text [OF assms(5)]
        del: of_nat_unat split del: if_split)
qed

lemma statement_rows_append:
  "statement_rows ctime bal (ts @ us) =
     statement_rows ctime bal ts @ statement_rows ctime (bal + (\<Sum>t\<leftarrow>ts. signed_amount t)) us"
  by (induction ts arbitrary: bal) (simp_all add: Let_def algebra_simps)

lemma signed_amount_bound: "printable t \<Longrightarrow> \<bar>signed_amount t\<bar> \<le> 1000000000"
proof -
  assume "printable t"
  then have "unat (amount t) \<le> 1000000000" by (simp add: printable_def)
  then have "int (unat (amount t)) \<le> int 1000000000" by (simp only: of_nat_le_iff)
  then show ?thesis by (simp add: signed_amount_def del: of_nat_unat)
qed

lemma print_rows_text:
  assumes "objs (cells l) ps xs" and "map tr xs = map Some ts" and "\<forall>t\<in>set ts. printable t"
    and "length (amt_buf bufs) = 15" and "length (balance_buf bufs) = 15"
    and "\<bar>bal\<bar> + 1000000000 * int (length ts) < 2 ^ 63"
  shows "\<exists>bal'. fold_exit (print_row ctime bufs tr) ps (l, bal, out)
                 = Some (Inr (l, bal', out @ statement_rows ctime bal ts))"
  using assms
proof (induction ps arbitrary: xs ts bal out)
  case Nil
  then show ?case by (simp add: objs_def)
next
  case (Cons p ps)
  obtain x xs' where xs: "xs = x # xs'" using Cons.prems(1) by (auto simp: objs_def)
  then obtain t ts' where ts: "ts = t # ts'" using Cons.prems(2) by auto
  obtain c where c: "cells l p = Some c" "obj c = x" "objs (cells l) ps xs'"
    using Cons.prems(1) by (auto simp: xs objs_Cons)
  have t: "tr (obj c) = Some t" "map tr xs' = map Some ts'" using Cons.prems(2) c by (simp_all add: xs ts)
  have pt: "printable t" "\<forall>t\<in>set ts'. printable t" using Cons.prems(3) ts by simp_all
  have bound: "\<bar>bal + signed_amount t\<bar> + 1000000000 * int (length ts') < 2 ^ 63"
    using signed_amount_bound [OF pt(1)] Cons.prems(6) by (simp add: ts)
  moreover have "0 \<le> 1000000000 * int (length ts')" by simp
  ultimately have "in_long (bal + signed_amount t)" unfolding in_long_def by linarith
  with print_row_text [of l p c tr t bal bufs ctime out] c(1) t(1) pt(1) Cons.prems(4,5)
  have "print_row ctime bufs tr p (l, bal, out)
      = Some (Inr (l, bal + signed_amount t, out @ statement_rows ctime bal [t]))"
    by (simp add: printable_def)
  moreover have "statement_rows ctime bal ts
      = statement_rows ctime bal [t] @ statement_rows ctime (bal + signed_amount t) ts'"
    using statement_rows_append [of ctime bal "[t]" ts'] by (simp add: ts del: statement_rows.simps)
  ultimately show ?case
    using Cons.IH [OF c(3) t(2) pt(2) Cons.prems(4,5) bound, of "out @ statement_rows ctime bal [t]"]
    by (simp del: statement_rows.simps)
qed

lemma PrintList_text:
  assumes r: "represents l ps xs" and tr: "map tr xs = map Some ts" and pt: "\<forall>t\<in>set ts. printable t"
    and b: "length (amt_buf bufs) = 15" "length (balance_buf bufs) = 15"
  shows "PrintList ctime bufs tr l = Some (statement_table ctime ts)"
proof -
  let ?s = "(l, 0 :: int, rule_line @ head_line @ rule_line)"
  have len: "length ts = length ps"
    using arg_cong [OF tr, of length] represents_length [OF r] by simp
  have "int (length ts) \<le> INT_MAX" using r len by (simp add: represents_def INT_MAX_def)
  then have "\<bar>0\<bar> + 1000000000 * int (length ts) < 2 ^ 63" by (simp add: INT_MAX_def)
  from print_rows_text [OF _ tr pt b this] r obtain bal' where
    rows: "fold_exit (print_row ctime bufs tr) ps ?s
         = Some (Inr (l, bal', (rule_line @ head_line @ rule_line) @ statement_rows ctime 0 ts))"
    unfolding represents_def by metis
  have "do { e \<leftarrow> My402ListFirst (fst ?s);
             for_each (\<lambda>s. My402ListNext (fst s)) (print_row ctime bufs tr) e ?s }
        = fold_exit (print_row ctime bufs tr) ps ?s"
    using r by (intro my402.for_each_from_first [where P = "\<lambda>s. fst s = l"])
      (auto simp: print_row_def bind_eq_Some_conv Let_def)
  moreover have "(\<lambda>(l, _). My402ListNext l) = (\<lambda>s :: My402List \<times> int \<times> string. My402ListNext (fst s))"
    by (auto simp: fun_eq_iff)
  ultimately show ?thesis
    using rows First_rep [OF r] by (simp add: PrintList_def statement_table_def)
qed

subsection \<open>Reading a file\<close>

lemma read_fields_ptr: "p \<noteq> NULL \<Longrightarrow> read_fields now beyond p toks = read_fields now beyond 1 toks"
  by (simp add: read_fields_def split: sum.split)

lemma reading_append:
  assumes st: "reading env k ps xs ts (l, tr)" and env: "good_env env l0" and small: "int (length ps) < INT_MAX"
  shows "\<exists>l'. My402ListAppend (cell_ptr (env k)) (cell_junk (env k)) l (trans_ptr (env k)) = Some (True, l')
            \<and> reading env (k + 1) (ps @ [cell_ptr (env k)]) (xs @ [trans_ptr (env k)]) (ts @ [t])
                (l', tr(trans_ptr (env k) \<mapsto> t))"
proof -
  let ?n = "cell_ptr (env k)" and ?x = "trans_ptr (env k)"
  have r: "represents l ps xs" and tr: "map tr xs = map Some ts"
    using st by (simp_all add: reading_def)
  have free: "cells l (cell_ptr (env j)) = None" "trans_ptr (env j) \<notin> set xs" if "k \<le> j" for j
    using st that by (auto simp: reading_def)
  have inj: "cell_ptr (env j) \<noteq> ?n" "trans_ptr (env j) \<noteq> ?x" if "k < j" for j
    using env that injD [of "\<lambda>k. cell_ptr (env k)" j k] injD [of "\<lambda>k. trans_ptr (env k)" j k]
    by (auto simp only: good_env_def)
  have f: "fresh l ?n" using free [of k] env by (simp add: good_env_def fresh_def)
  let ?l' = "l\<lparr>num_members := num_members l + 1,
               cells := insert_between (last (anchor l # ps)) ?n ?x (anchor l) (cells l)\<rparr>"
  have ins: "represents ?l' (ps @ [?n]) (xs @ [?x])" "same_outside (insert ?n (set (anchor l # ps))) l ?l'"
    using inserted_at [OF r f small, where i = "length ps" and x = ?x] represents_length [OF r] by (simp_all add: inserted_def)
  have out: "a \<notin> set (anchor l # ps)" if "cells l a = None" for a
    using represents_alloc [OF r, of a] that by auto
  have keep: "cells ?l' a = None" if "cells l a = None" "a \<noteq> ?n" for a
    using ins(2) that out [OF that(1)] by (simp add: same_outside_def)
  have "map (tr(?x \<mapsto> t)) (xs @ [?x]) = map Some (ts @ [t])"
    using tr free(2) [of k] by (simp add: map_fun_upd)
  moreover have "cells ?l' (cell_ptr (env j)) = None \<and> trans_ptr (env j) \<notin> set (xs @ [?x])" if "k + 1 \<le> j" for j
    using keep free [of j] inj [of j] that by simp
  moreover have "cells ?l' NULL = None"
    using st f by (intro keep) (auto simp: reading_def fresh_def)
  ultimately have "reading env (k + 1) (ps @ [?n]) (xs @ [?x]) (ts @ [t]) (?l', tr(?x \<mapsto> t))"
    using ins(1) unfolding reading_def by blast
  then show ?thesis
    using Append_heap [OF r f small] by blast
qed

lemma reading_later: "reading env k ps xs ts s \<Longrightarrow> k \<le> k' \<Longrightarrow> reading env k' ps xs ts s"
  by (auto simp: reading_def)

lemma read_line_spec:
  assumes st: "reading env k ps xs ts (l, tr)" and env: "good_env env l0" and small: "int (length ps) < INT_MAX"
  shows "case spec_line now beyond buf of
      None \<Rightarrow> read_line now beyond (env k) buf (l, tr) = None
    | Some (Inl m) \<Rightarrow> read_line now beyond (env k) buf (l, tr) = Some (Inl m)
    | Some (Inr ot) \<Rightarrow> \<exists>s' ps' xs'. read_line now beyond (env k) buf (l, tr) = Some (Inr (Continue, s'))
        \<and> reading env (k + 1) ps' xs' (case ot of None \<Rightarrow> ts | Some t \<Rightarrow> ts @ [t]) s'
        \<and> length ps' \<le> length ps + 1"
proof -
  have dup: "dup_ok (env k)" and tp: "trans_ptr (env k) \<noteq> NULL" using env by (auto simp: good_env_def)
  note defs = read_line_def spec_line_def Let_def
  have same: "\<exists>ps' xs'. reading env (k + 1) ps' xs' ts (l, tr) \<and> length ps' \<le> length ps + 1"
    using reading_later [OF st, of "k + 1"] by (intro exI [of _ ps] exI [of _ xs]) simp
  obtain off str where rs: "removespace buf = (off, str)" by (cases "removespace buf")
  consider "buf = [NEWLINE]" | "buf \<noteq> [NEWLINE]" "1024 < length buf"
    | "buf \<noteq> [NEWLINE]" "\<not> 1024 < length buf" "off \<noteq> 0"
    | "buf \<noteq> [NEWLINE]" "\<not> 1024 < length buf" "off = 0" by blast
  then show ?thesis
  proof cases
    case 1
    then show ?thesis using same by (auto simp: defs)
  next
    case 4
    let ?f = "read_fields now beyond 1 (strtok_all str)"
    have spec: "spec_line now beyond buf = do { r \<leftarrow> ?f; Some (map_sum id Some r) }"
      using 4 by (simp add: spec_line_def Let_def rs)
    have line: "read_line now beyond (env k) buf (l, tr) = do { r \<leftarrow> ?f; case r of
           Inl m \<Rightarrow> Some (Inl m)
         | Inr t \<Rightarrow> do {
             (_, l') \<leftarrow> My402ListAppend (cell_ptr (env k)) (cell_junk (env k)) l (trans_ptr (env k));
             Some (Inr (Continue, l', tr(trans_ptr (env k) \<mapsto> t))) } }"
      using 4 by (simp add: read_line_def Let_def rs dup read_fields_ptr [OF tp])
    show ?thesis
    proof (cases "\<exists>t. ?f = Some (Inr t)")
      case True
      then obtain t where t: "?f = Some (Inr t)" by blast
      obtain l' where l': "My402ListAppend (cell_ptr (env k)) (cell_junk (env k)) l (trans_ptr (env k)) = Some (True, l')"
        "reading env (k + 1) (ps @ [cell_ptr (env k)]) (xs @ [trans_ptr (env k)]) (ts @ [t])
           (l', tr(trans_ptr (env k) \<mapsto> t))"
        using reading_append [OF st env small, of t] by blast
      have "read_line now beyond (env k) buf (l, tr) = Some (Inr (Continue, l', tr(trans_ptr (env k) \<mapsto> t)))"
        unfolding line t by (simp add: l'(1))
      moreover have "length (ps @ [cell_ptr (env k)]) \<le> length ps + 1" by simp
      ultimately show ?thesis
        unfolding spec t using l'(2) by (auto simp del: length_append)
    next
      case False
      then show ?thesis unfolding spec line by (cases ?f; cases "the ?f") auto
    qed
  qed (simp_all add: defs rs dup)
qed

declare read_file.simps [simp del] spec_file.simps [simp del]

lemma fgets_len_pos: "inp \<noteq> [] \<Longrightarrow> 0 < fgets_len inp"
  by (simp add: fgets_len_def)

lemma read_file_spec:
  assumes "reading env k ps xs ts s" and env: "good_env env l0"
    and "int (length ps) + int (length inp) < INT_MAX"
  shows "case spec_file now beyond inp of
      None \<Rightarrow> read_file now beyond env k inp s = None
    | Some (Inl m) \<Rightarrow> read_file now beyond env k inp s = Some (Inl m)
    | Some (Inr us) \<Rightarrow> \<exists>s' k' ps' xs'. read_file now beyond env k inp s = Some (Inr (True, s'))
        \<and> reading env k' ps' xs' (ts @ us) s'"
  using assms(1,3)
proof (induction "length inp" arbitrary: k ps xs ts s inp rule: less_induct)
  case less
  obtain l tr where s: "s = (l, tr)" by (cases s)
  show ?case
  proof (cases "inp = []")
    case True
    then show ?thesis using less.prems(1) by (auto simp: read_file.simps spec_file.simps)
  next
    case False
    let ?rest = "drop (fgets_len inp) inp"
    have shorter: "length ?rest < length inp" using False fgets_len_pos [OF False] by simp
    have small: "int (length ps) < INT_MAX" using less.prems(2) by linarith
    note line = read_line_spec [OF less.prems(1) [unfolded s] env small, of now beyond "fgets_buf inp"]
    show ?thesis
    proof (cases "spec_line now beyond (fgets_buf inp)")
      case None
      then show ?thesis using line False
        by (simp add: read_file.simps [of _ _ _ _ inp] spec_file.simps [of _ _ inp] s)
    next
      case (Some r)
      show ?thesis
      proof (cases r)
        case (Inl m)
        then show ?thesis using line False Some
          by (simp add: read_file.simps [of _ _ _ _ inp] spec_file.simps [of _ _ inp] s)
      next
        case (Inr ot)
        then obtain s' ps' xs' where
          step: "read_line now beyond (env k) (fgets_buf inp) (l, tr) = Some (Inr (Continue, s'))"
          and st: "reading env (k + 1) ps' xs' (case ot of None \<Rightarrow> ts | Some t \<Rightarrow> ts @ [t]) s'"
          and len: "length ps' \<le> length ps + 1"
          using line Some by auto
        have "int (length ps') + int (length ?rest) < INT_MAX"
          using len shorter less.prems(2) by linarith
        note IH = less.hyps [OF shorter st this]
        have "read_file now beyond env k inp s = read_file now beyond env (k + 1) ?rest s'"
          using False step by (simp add: read_file.simps [of _ _ _ _ inp] s)
        moreover have "spec_file now beyond inp = do { rest \<leftarrow> spec_file now beyond ?rest;
            Some (map_sum id (\<lambda>ts. case ot of None \<Rightarrow> ts | Some t \<Rightarrow> t # ts) rest) }"
          using False Some Inr by (simp add: spec_file.simps [of _ _ inp])
        ultimately show ?thesis
          using IH by (cases "spec_file now beyond ?rest"; cases "the (spec_file now beyond ?rest)")
            (auto split: option.splits)
      qed
    qed
  qed
qed

subsection \<open>Amounts that are read\<close>

lemma digit_in_10: "digit_in 10 c = (if isdigit c then Some (digit_value c) else None)"
  by (auto simp: digit_in_def Let_def isdigit_def digit_value_def)

lemma digit_value_less: "isdigit c \<Longrightarrow> digit_value c < 10"
  by (auto simp: isdigit_def digit_value_def)

lemma atoi_ch_digit: "isdigit c \<Longrightarrow> digit_alone beyond \<Longrightarrow> atoi_ch beyond c = of_nat (digit_value c)"
  by (cases beyond) (auto simp: atoi_ch_def digit_in_10 digit_alone_def)

lemma read_dollars_digits:
  assumes "digit_alone beyond"
  shows "\<forall>c\<in>set ds. isdigit c \<Longrightarrow>
     read_dollars beyond (of_nat n) (ds @ CHR ''.'' # rest) = Inr (of_nat (digits_value 10 n ds), rest)"
proof (induction ds arbitrary: n)
  case (Cons c ds)
  have "c \<noteq> CHR ''.''" using Cons.prems by (auto simp: isdigit_def)
  moreover have "(of_nat n * 10 + atoi_ch beyond c :: u64) = of_nat (n * 10 + digit_value c)"
    using Cons.prems assms by (simp add: atoi_ch_digit)
  ultimately show ?case
    using Cons.prems Cons.IH [of "n * 10 + digit_value c"] by (simp add: digit_in_10)
qed simp

lemma read_cents_length: "read_cents beyond a n cs = Inr (a', m) \<Longrightarrow> m = n + length cs"
  by (induction beyond a n cs rule: read_cents.induct) (auto split: if_splits)

lemma u64_step:
  assumes "unat (a :: u64) < 100000000" and "d < 10"
  shows "unat (a * 10 + of_nat d) = unat a * 10 + d"
proof -
  have "a * 10 + of_nat d = (of_nat (unat a * 10 + d) :: u64)" by simp
  then have "unat (a * 10 + of_nat d) = (unat a * 10 + d) mod 2 ^ 64"
    by (simp only: unat_of_nat) simp
  then show ?thesis using assms by simp
qed

lemma read_amount_bound:
  assumes "read_amount beyond tok = Inr a" and alone: "digit_alone beyond"
  shows "unat a < 1000000000"
proof -
  obtain a0 rest where d: "read_dollars beyond 0 tok = Inr (a0, rest)" "\<not> 10000000 \<le> a0"
    and c: "read_cents beyond a0 0 rest = Inr (a, 2)"
    using assms(1) by (auto simp: read_amount_def split: sum.splits prod.splits if_splits)
  have "length rest = 2" using read_cents_length [OF c] by simp
  then obtain c1 c2 where rest: "rest = [c1, c2]" by (auto simp: length_Suc_conv numeral_2_eq_2)
  have dig: "isdigit c1" "isdigit c2" and a: "a = (a0 * 10 + atoi_ch beyond c1) * 10 + atoi_ch beyond c2"
    using c by (auto simp: rest split: if_splits)
  have a0: "unat a0 < 10000000" using d(2) by (simp add: word_le_nat_alt)
  have "unat (a0 * 10 + of_nat (digit_value c1)) = unat a0 * 10 + digit_value c1"
    using a0 by (intro u64_step digit_value_less dig) simp
  moreover from this have "unat ((a0 * 10 + of_nat (digit_value c1)) * 10 + of_nat (digit_value c2))
      = unat (a0 * 10 + of_nat (digit_value c1)) * 10 + digit_value c2"
    using a0 digit_value_less [OF dig(1)] by (intro u64_step digit_value_less dig) simp
  ultimately show ?thesis
    using a0 digit_value_less [OF dig(1)] digit_value_less [OF dig(2)]
    by (simp add: a atoi_ch_digit dig alone)
qed

lemma split_on_set: "t \<in> set (split_on d s) \<Longrightarrow> set t \<subseteq> set s"
  by (induction d s arbitrary: t rule: split_on.induct) (fastforce split: if_splits list.splits)+

lemma removespace_set: "set (snd (removespace s)) \<subseteq> set s"
  by (auto simp: removespace_def Let_def dest: in_set_takeD in_set_dropD)

lemma read_fields_printable:
  assumes "read_fields now beyond p toks = Some (Inr t)" and "digit_alone beyond"
    and "\<forall>tok\<in>set toks. NUL \<notin> set tok"
  shows "printable t"
  using assms read_amount_bound [OF _ assms(2)] nth_mem [of 3 toks]
  by (auto simp: read_fields_def printable_def split: sum.splits if_splits)

lemma spec_line_printable:
  assumes "spec_line now beyond buf = Some (Inr (Some t))" and "digit_alone beyond" and "NUL \<notin> set buf"
  shows "printable t"
proof -
  have "read_fields now beyond 1 (strtok_all (snd (removespace buf))) = Some (Inr t)"
    using assms(1) by (auto simp: spec_line_def Let_def monad bind_eq_Some_conv split: if_splits prod.splits)
  moreover have "\<forall>tok\<in>set (strtok_all (snd (removespace buf))). NUL \<notin> set tok"
    using split_on_set removespace_set assms(3) by (fastforce simp: strtok_all_def)
  ultimately show ?thesis using read_fields_printable assms(2) by blast
qed

lemma fgets_buf_NUL: "NUL \<notin> set (fgets_buf inp)"
  by (auto simp: fgets_buf_def dest: set_takeWhileD)

lemma spec_file_printable:
  assumes "spec_file now beyond inp = Some (Inr ts)" and "digit_alone beyond"
  shows "\<forall>t\<in>set ts. printable t"
  using assms(1)
proof (induction "length inp" arbitrary: inp ts rule: less_induct)
  case less
  show ?case
  proof (cases "inp = []")
    case False
    obtain ot us where l: "spec_line now beyond (fgets_buf inp) = Some (Inr ot)"
      and r: "spec_file now beyond (drop (fgets_len inp) inp) = Some (Inr us)"
      and ts: "ts = (case ot of None \<Rightarrow> us | Some t \<Rightarrow> t # us)"
      using less.prems False
      by (auto simp: spec_file.simps [of _ _ inp] bind_eq_Some_conv monad)
    have "\<forall>t\<in>set us. printable t"
      using less.hyps [OF _ r] False fgets_len_pos [OF False] by simp
    moreover have "printable t" if "ot = Some t" for t
      using spec_line_printable [OF _ assms(2) fgets_buf_NUL] l that by blast
    ultimately show ?thesis by (auto simp: ts split: option.splits)
  qed (use less.prems in \<open>simp add: spec_file.simps\<close>)
qed

lemma reading_start:
  assumes "good_world w"
  shows "\<exists>l. My402ListInit (stack_list w) = Some (True, l) \<and> reading (allocs w) 0 [] [] [] (l, Map.empty)"
proof -
  obtain l where l: "My402ListInit (stack_list w) = Some (True, l)" "represents l [] []"
    "same_outside {anchor (stack_list w)} (stack_list w) l"
    using Init_heap [of "stack_list w"] assms by (auto simp: good_world_def)
  have "cells l a = None" if "cells (stack_list w) a = None" for a
    using l(3) that assms by (cases "a = anchor (stack_list w)") (auto simp: same_outside_def good_world_def)
  then show ?thesis
    using l(1,2) assms by (auto simp: reading_def good_world_def good_env_def fresh_def)
qed

lemma keys_of:
  "map tr xs = map Some ts \<Longrightarrow> map (tkey tr) xs = map ttime ts \<and> map (\<lambda>x. the (tr x)) xs = ts \<and> set xs \<subseteq> dom tr"
  by (induction xs arbitrary: ts) (auto simp: tkey_def Cons_eq_map_conv)

text \<open>The second half of \<^verbatim>\<open>main\<close>, from a list that has been read to the output.\<close>

lemma sort_and_print:
  fixes ctime :: "int \<Rightarrow> string"
  assumes rep: "represents l ps xs" and tr: "map tr xs = map Some ts" and null: "cells l NULL = None"
    and pt: "\<forall>t\<in>set ts. printable t"
    and b: "length (amt_buf bufs) = 15" "length (balance_buf bufs) = 15"
  defines "run \<equiv> do { r \<leftarrow> sorting tr l; case r of Inl m \<Rightarrow> Some (Stderr m)
                      | Inr l' \<Rightarrow> map_option Stdout (PrintList ctime bufs tr l') }"
  shows "if ts = [] then run = None
         else if distinct (map ttime ts)
         then \<exists>us. mset us = mset ts \<and> sorted_wrt (<) (map ttime us)
                 \<and> run = Some (Stdout (statement_table ctime us))
         else run = Some (Stderr ''Duplicate timestamp values'')"
proof -
  have keys: "map (tkey tr) xs = map ttime ts" "map (\<lambda>x. the (tr x)) xs = ts" "set xs \<subseteq> dom tr"
    using keys_of [OF tr] by auto
  have empty: "xs = [] \<longleftrightarrow> ts = []" using keys(2) by auto
  note srt = sorting_result [OF rep keys(3) null, unfolded keys(1) empty]
  show ?thesis
  proof (cases "ts \<noteq> [] \<and> distinct (map ttime ts)")
    case True
    then obtain l' zs where l': "sorting tr l = Some (Inr l')" "represents l' ps zs" "mset zs = mset xs"
      "sorted_wrt (<) (map (tkey tr) zs)"
      using srt by auto
    define us where "us = map (\<lambda>x. the (tr x)) zs"
    have "set zs \<subseteq> dom tr" using keys(3) mset_eq_setD [OF l'(3)] by simp
    then have us: "map tr zs = map Some us" by (auto simp: us_def)
    have perm: "mset us = mset ts" using l'(3) keys(2) unfolding us_def by (metis mset_map)
    have "\<forall>t\<in>set us. printable t" using pt mset_eq_setD [OF perm] by simp
    then have "PrintList ctime bufs tr l' = Some (statement_table ctime us)"
      by (intro PrintList_text [OF l'(2) us _ b])
    then show ?thesis
      using True keys_of [OF us] l'(1,4) perm by (auto simp: run_def)
  next
    case False
    then show ?thesis using srt by (auto simp: run_def)
  qed
qed

text \<open>C14: The whole program on an input file, from standard input or a named file, is a pure function
  of its contents: an error message when a line is malformed, the message about duplicates when two
  timestamps agree, and otherwise the table of exactly the transactions of the file in increasing
  order of time, with their running balances.  A file without transactions and a line that starts
  with white space leave defined behaviour (the specification's \<open>None\<close>).\<close>

theorem sort_program_correct:
  assumes w: "good_world w" and len: "int (length inp) < INT_MAX"
    and argv: "argv = [prog, ''sort''] \<and> stdin_contents w = inp
             \<or> argv = [prog, ''sort'', name] \<and> \<not> is_directory w \<and> file_contents w = Some inp"
  shows "case spec_file (now_time w) (beyond_ch1 w) inp of
      None \<Rightarrow> main w argv = None
    | Some (Inl m) \<Rightarrow> main w argv = Some (Stderr m)
    | Some (Inr ts) \<Rightarrow>
        if ts = [] then main w argv = None
        else if distinct (map ttime ts)
        then \<exists>us. mset us = mset ts \<and> sorted_wrt (<) (map ttime us)
                \<and> main w argv = Some (Stdout (statement_table (ctime_fun w) us))
        else main w argv = Some (Stderr ''Duplicate timestamp values'')"
proof -
  have run: "main w argv = sort_run w inp" using argv by (auto simp: main_def)
  obtain l0 where l0: "My402ListInit (stack_list w) = Some (True, l0)"
    and st: "reading (allocs w) 0 [] [] [] (l0, Map.empty)"
    using reading_start [OF w] by blast
  have env: "good_env (allocs w) (stack_list w)" using w by (simp add: good_world_def)
  have "int (length ([] :: addr list)) + int (length inp) < INT_MAX" using len by simp
  note rfile = read_file_spec [OF st env this, of "now_time w" "beyond_ch1 w"]
  show ?thesis
  proof (cases "\<exists>ts. spec_file (now_time w) (beyond_ch1 w) inp = Some (Inr ts)")
    case False
    then show ?thesis
      using rfile by (auto simp: run sort_run_def l0 split: option.splits sum.splits)
  next
    case True
    then obtain ts where ts: "spec_file (now_time w) (beyond_ch1 w) inp = Some (Inr ts)" by blast
    then obtain l tr k ps xs where
      r: "read_file (now_time w) (beyond_ch1 w) (allocs w) 0 inp (l0, Map.empty) = Some (Inr (True, l, tr))"
      and rd: "reading (allocs w) k ps xs ts (l, tr)"
      using rfile by auto
    have "main w argv = do { r2 \<leftarrow> sorting tr l; case r2 of Inl m \<Rightarrow> Some (Stderr m)
           | Inr l' \<Rightarrow> map_option Stdout (PrintList (ctime_fun w) (buffers w) tr l') }"
      by (simp add: run sort_run_def l0 r)
    moreover have "\<forall>t\<in>set ts. printable t"
      using spec_file_printable [OF ts] w by (simp add: good_world_def)
    ultimately show ?thesis
      using sort_and_print [of l ps xs tr ts "buffers w" "ctime_fun w"] rd w
      by (simp add: ts reading_def good_world_def)
  qed
qed

lemma demo_world_good: "good_world demo_world"
  by (auto simp: good_world_def demo_world_def good_env_def fresh_def digit_alone_def isdigit_def NUL_def inj_def)

lemma demo_spec_file:
  "spec_file (now_time demo_world) (beyond_ch1 demo_world) demo_input =
     Some (Inr [\<lparr>ttype = CHR ''+'', ttime = 300, amount = 123456, description = ''salary''\<rparr>,
                \<lparr>ttype = CHR ''-'', ttime = 200, amount = 50, description = ''coffee''\<rparr>])"
  by code_simp

theorem sort_program_correct_witness:
  "\<exists>us. mset (map ttime us) = {#200, 300#} \<and> sorted_wrt (<) (map ttime us)
      \<and> main demo_world [''warmup1'', ''sort''] = Some (Stdout (statement_table (ctime_fun demo_world) us))"
proof -
  have "int (length demo_input) < INT_MAX" by (simp add: demo_input_def INT_MAX_def)
  moreover have "stdin_contents demo_world = demo_input" by (simp add: demo_world_def)
  ultimately obtain us where us: "mset us = mset [\<lparr>ttype = CHR ''+'', ttime = 300, amount = 123456, description = ''salary''\<rparr>,
                \<lparr>ttype = CHR ''-'', ttime = 200, amount = 50, description = ''coffee''\<rparr>]"
    "sorted_wrt (<) (map ttime us)"
    "main demo_world [''warmup1'', ''sort''] = Some (Stdout (statement_table (ctime_fun demo_world) us))"
    using sort_program_correct [OF demo_world_good, of demo_input "[''warmup1'', ''sort'']" "''warmup1''" "[]"]
      demo_spec_file by auto
  moreover have "mset (map ttime us) = {#200, 300#}" unfolding mset_map us(1) by simp
  ultimately show ?thesis by blast
qed

text \<open>C18: When the byte after \<^verbatim>\<open>ch1\<close> is not a digit, an amount with a point, two digits after it
  and less than ten million dollars is read as its exact number of cents, and every amount the
  reader accepts, well-formed or not, is below \<^verbatim>\<open>1000000000\<close> cents.\<close>

theorem read_amount_correct:
  assumes alone: "digit_alone beyond" and ds: "\<forall>c\<in>set ds. isdigit c" and cs: "isdigit c1" "isdigit c2"
    and small: "digits_value 10 0 ds < 10000000"
  shows "(\<exists>a. read_amount beyond (ds @ ''.'' @ [c1, c2]) = Inr a
            \<and> unat a = digits_value 10 0 ds * 100 + digit_value c1 * 10 + digit_value c2)
       \<and> (\<forall>tok a. read_amount beyond tok = Inr a \<longrightarrow> unat a < 1000000000)"
proof
  let ?n = "digits_value 10 0 ds" and ?d1 = "digit_value c1" and ?d2 = "digit_value c2"
  let ?a = "of_nat ?n :: u64"
  have n: "unat ?a = ?n" using small by (simp add: unat_of_nat)
  have d: "?d1 < 10" "?d2 < 10" using cs digit_value_less by auto
  have one: "unat (?a * 10 + of_nat ?d1) = ?n * 10 + ?d1"
    using u64_step [of ?a ?d1] n small d by simp
  then have two: "unat ((?a * 10 + of_nat ?d1) * 10 + of_nat ?d2) = (?n * 10 + ?d1) * 10 + ?d2"
    using u64_step [of "?a * 10 + of_nat ?d1" ?d2] small d by simp
  have "read_dollars beyond 0 (ds @ CHR ''.'' # [c1, c2]) = Inr (?a, [c1, c2])"
    using read_dollars_digits [OF alone ds, of 0 "[c1, c2]"] by simp
  moreover have "\<not> 10000000 \<le> ?a" using small by (simp add: word_le_nat_alt n)
  ultimately have "read_amount beyond (ds @ ''.'' @ [c1, c2]) = Inr ((?a * 10 + of_nat ?d1) * 10 + of_nat ?d2)"
    using cs by (simp add: read_amount_def atoi_ch_digit alone)
  then show "\<exists>a. read_amount beyond (ds @ ''.'' @ [c1, c2]) = Inr a \<and> unat a = ?n * 100 + ?d1 * 10 + ?d2"
    using two by simp
next
  show "\<forall>tok a. read_amount beyond tok = Inr a \<longrightarrow> unat a < 1000000000"
    using read_amount_bound [OF _ alone] by blast
qed

theorem read_amount_correct_witness:
  "\<exists>a. read_amount [NUL] ''1234.56'' = Inr a \<and> unat a = 123456"
proof -
  have "digit_alone [NUL]" "\<forall>c\<in>set ''1234''. isdigit c" "isdigit CHR ''5''" "isdigit CHR ''6''"
    and v: "digits_value 10 0 ''1234'' = 1234"
    by (simp_all add: digit_alone_def isdigit_def NUL_def digit_in_10 digit_value_def)
  with read_amount_correct [of "[NUL]" "''1234''" "CHR ''5''" "CHR ''6''"] show ?thesis
    by (simp add: v digit_value_def del: digits_value.simps)
qed

text \<open>The size check of an amount comes after the digits have been summed up modulo two to the
  power 64: an amount of more than eighteen quintillion dollars is accepted as one dollar.\<close>

theorem read_amount_wraps_around:
  "read_amount [NUL] ''18446744073709551617.00'' = Inr 100"
  by code_simp

end
