(* ===== verification/Sched.thy ===== *)
theory Sched
  imports Weenix_Prelude
begin

section \<open>The scheduler\<close>

text \<open>
  \<^verbatim>\<open>vm-submit/kernel/proc/sched.c\<close>: thread queues, sleeping, waking, cancelling and switching.

  \<^item> Threads and queues are numbers; \<open>kt_runq\<close> is the run queue.  The state holds the threads, the
    queues, the current thread and the interrupt priority level.
  \<^item> The kernel's intrusive lists (\<^verbatim>\<open>util/list.h\<close>) are HOL lists: \<^verbatim>\<open>list_insert_head\<close> is \<open>#\<close>, and
    \<^verbatim>\<open>l_prev\<close> of the list head is the last element.  A thread's \<^verbatim>\<open>kt_qlink\<close> is linked iff the
    thread is in some queue.
  \<^item> \<^verbatim>\<open>context_switch\<close> makes another thread run: an operation ends there for the calling thread and
    goes on when the thread is chosen again.  The local \<^verbatim>\<open>oIPL\<close> of a thread that waits inside
    \<^verbatim>\<open>sched_switch\<close> is its field \<open>kt_saved_ipl\<close>.
  \<^item> \<^verbatim>\<open>intr_wait\<close> runs the next of the interrupts that will arrive, a list given as an argument.
    What an interrupt handler may do to the scheduler is to wake up or broadcast on a queue.  When
    none arrives any more the processor halts.

  The properties: the queues are first-in first-out and consistent with the threads' \<^verbatim>\<open>kt_wchan\<close>,
  every operation keeps the scheduler's invariant, no thread is lost, and switching runs the thread
  that has been waiting longest.
\<close>

type_synonym tid = nat
type_synonym qid = nat
type_synonym proc_ptr = nat

datatype kt_state = KT_NO_STATE | KT_RUN | KT_SLEEP | KT_SLEEP_CANCELLABLE | KT_EXITED

datatype ipl = IPL_LOW | IPL_HIGH | IPL_OTHER nat

record kcontext =
  c_eip :: u32
  c_esp :: u32
  c_pdptr :: nat
  c_kstack :: u32
  c_kstacksz :: u32

record kthread =
  kt_state :: kt_state
  kt_cancelled :: bool
  kt_wchan :: "qid option"
  kt_retval :: int
  kt_proc :: proc_ptr
  kt_saved_ipl :: "ipl option"
  kt_kstack :: u32
  kt_errno :: int
  kt_ctx :: kcontext

record ktqueue =
  tq_list :: "tid list"
  tq_size :: int

record sched =
  threads :: "tid \<rightharpoonup> kthread"
  queues :: "qid \<Rightarrow> ktqueue"
  curthr :: tid
  curproc :: proc_ptr
  cur_ipl :: ipl

definition kt_runq :: qid where "kt_runq = 0"

abbreviation qlist :: "sched \<Rightarrow> qid \<Rightarrow> tid list" where
  "qlist s q \<equiv> tq_list (queues s q)"

definition upd_thread :: "tid \<Rightarrow> (kthread \<Rightarrow> kthread) \<Rightarrow> sched \<Rightarrow> sched option" where
  "upd_thread t f s = do { thr \<leftarrow> threads s t; Some (s\<lparr>threads := (threads s)(t \<mapsto> f thr)\<rparr>) }"

definition upd_queue :: "qid \<Rightarrow> (ktqueue \<Rightarrow> ktqueue) \<Rightarrow> sched \<Rightarrow> sched" where
  "upd_queue q f s = s\<lparr>queues := (queues s)(q := f (queues s q))\<rparr>"

subsection \<open>Thread queues\<close>

definition ktqueue_enqueue :: "qid \<Rightarrow> tid \<Rightarrow> sched \<Rightarrow> sched option" where
  "ktqueue_enqueue q t s = do {
     thr \<leftarrow> threads s t;
     kassert (kt_wchan thr = None);
     s1 \<leftarrow> upd_thread t (\<lambda>thr. thr\<lparr>kt_wchan := Some q\<rparr>)
            (upd_queue q (\<lambda>k. k\<lparr>tq_list := t # tq_list k\<rparr>) s);
     Some (upd_queue q (\<lambda>k. k\<lparr>tq_size := tq_size k + 1\<rparr>) s1) }"

definition ktqueue_dequeue :: "qid \<Rightarrow> sched \<Rightarrow> (tid option \<times> sched) option" where
  "ktqueue_dequeue q s =
     (if qlist s q = [] then Some (None, s)
      else do {
        let t = last (qlist s q);
        s1 \<leftarrow> upd_thread t (\<lambda>thr. thr\<lparr>kt_wchan := None\<rparr>)
               (upd_queue q (\<lambda>k. k\<lparr>tq_list := butlast (tq_list k)\<rparr>) s);
        Some (Some t, upd_queue q (\<lambda>k. k\<lparr>tq_size := tq_size k - 1\<rparr>) s1) })"

text \<open>The only caller passes the queue the thread waits on, so the thread's link is in its list.\<close>

definition ktqueue_remove :: "qid \<Rightarrow> tid \<Rightarrow> sched \<Rightarrow> sched option" where
  "ktqueue_remove q t s = do {
     kassert (t \<in> set (qlist s q));
     s1 \<leftarrow> upd_thread t (\<lambda>thr. thr\<lparr>kt_wchan := None\<rparr>)
            (upd_queue q (\<lambda>k. k\<lparr>tq_list := remove1 t (tq_list k)\<rparr>) s);
     Some (upd_queue q (\<lambda>k. k\<lparr>tq_size := tq_size k - 1\<rparr>) s1) }"

definition sched_queue_init :: "qid \<Rightarrow> sched \<Rightarrow> sched" where
  "sched_queue_init q = upd_queue q (\<lambda>k. k\<lparr>tq_list := [], tq_size := 0\<rparr>)"

definition sched_queue_empty :: "qid \<Rightarrow> sched \<Rightarrow> bool" where
  "sched_queue_empty q s \<longleftrightarrow> qlist s q = []"

definition sched_init :: "sched \<Rightarrow> sched" where
  "sched_init = sched_queue_init kt_runq"

subsection \<open>Waking and cancelling\<close>

definition sched_make_runnable :: "tid \<Rightarrow> sched \<Rightarrow> sched option" where
  "sched_make_runnable t s = do {
     thr \<leftarrow> threads s t;
     kassert (kt_wchan thr \<noteq> Some kt_runq);
     let oIPL = cur_ipl s;
     s1 \<leftarrow> upd_thread t (\<lambda>thr. thr\<lparr>kt_state := KT_RUN\<rparr>) (s\<lparr>cur_ipl := IPL_HIGH\<rparr>);
     s2 \<leftarrow> ktqueue_enqueue kt_runq t s1;
     Some (s2\<lparr>cur_ipl := oIPL\<rparr>) }"

definition sched_wakeup_on :: "qid \<Rightarrow> sched \<Rightarrow> (tid option \<times> sched) option" where
  "sched_wakeup_on q s =
     (if sched_queue_empty q s then Some (None, s)
      else do {
        (ot, s1) \<leftarrow> ktqueue_dequeue q s;
        t \<leftarrow> ot;
        thr \<leftarrow> threads s1 t;
        kassert (kt_state thr = KT_SLEEP \<or> kt_state thr = KT_SLEEP_CANCELLABLE);
        s2 \<leftarrow> sched_make_runnable t s1;
        Some (Some t, s2) })"

partial_function (option) sched_broadcast_on :: "qid \<Rightarrow> sched \<Rightarrow> sched option" where
  "sched_broadcast_on q s =
     (if sched_queue_empty q s then Some s
      else do {
        (ot, s1) \<leftarrow> ktqueue_dequeue q s;
        t \<leftarrow> ot;
        s2 \<leftarrow> sched_make_runnable t s1;
        sched_broadcast_on q s2 })"

definition sched_cancel :: "tid \<Rightarrow> sched \<Rightarrow> sched option" where
  "sched_cancel t s = do {
     thr \<leftarrow> threads s t;
     kassert (kt_state thr \<noteq> KT_NO_STATE \<and> kt_state thr \<noteq> KT_EXITED);
     wchan \<leftarrow> kt_wchan thr;
     if kt_state thr = KT_SLEEP_CANCELLABLE \<and> wchan \<noteq> kt_runq then do {
       s1 \<leftarrow> upd_thread t (\<lambda>thr. thr\<lparr>kt_cancelled := True\<rparr>) s;
       s2 \<leftarrow> ktqueue_remove wchan t s1;
       sched_make_runnable t s2 }
     else upd_thread t (\<lambda>thr. thr\<lparr>kt_cancelled := True\<rparr>) s }"

subsection \<open>Switching\<close>

datatype interrupt = Wakeup_intr qid | Broadcast_intr qid | Other_intr

definition handle_interrupt :: "interrupt \<Rightarrow> sched \<Rightarrow> sched option" where
  "handle_interrupt i s =
     (case i of
        Wakeup_intr q \<Rightarrow> map_option snd (sched_wakeup_on q s)
      | Broadcast_intr q \<Rightarrow> sched_broadcast_on q s
      | Other_intr \<Rightarrow> Some s)"

text \<open>\<open>Halted\<close>: the run queue is empty and no interrupt arrives any more.\<close>

datatype switched = Running sched "interrupt list" | Halted sched

fun wait_loop :: "interrupt list \<Rightarrow> sched \<Rightarrow> switched option" where
  "wait_loop [] s = Some (if sched_queue_empty kt_runq s then Halted (s\<lparr>cur_ipl := IPL_LOW\<rparr>) else Running s [])"
| "wait_loop (i # is) s =
     (if sched_queue_empty kt_runq s then do {
        s1 \<leftarrow> handle_interrupt i (s\<lparr>cur_ipl := IPL_LOW\<rparr>);
        wait_loop is (s1\<lparr>cur_ipl := IPL_HIGH\<rparr>) }
      else Some (Running s (i # is)))"

text \<open>The part of \<^verbatim>\<open>sched_switch\<close> after the loop: the next thread runs, from where it left off.\<close>

definition switch_next :: "sched \<Rightarrow> sched option" where
  "switch_next s = do {
     (ot, s2) \<leftarrow> ktqueue_dequeue kt_runq s;
     t \<leftarrow> ot;
     thr \<leftarrow> threads s2 t;
     s3 \<leftarrow> upd_thread t (\<lambda>thr. thr\<lparr>kt_saved_ipl := None\<rparr>) s2;
     Some (s3\<lparr>curthr := t, curproc := kt_proc thr,
             cur_ipl := (case kt_saved_ipl thr of None \<Rightarrow> cur_ipl s3 | Some i \<Rightarrow> i)\<rparr>) }"

definition sched_switch :: "interrupt list \<Rightarrow> sched \<Rightarrow> switched option" where
  "sched_switch is s = do {
     s0 \<leftarrow> upd_thread (curthr s) (\<lambda>thr. thr\<lparr>kt_saved_ipl := Some (cur_ipl s)\<rparr>) s;
     r \<leftarrow> wait_loop is (s0\<lparr>cur_ipl := IPL_HIGH\<rparr>);
     case r of
       Halted s1 \<Rightarrow> Some (Halted s1)
     | Running s1 is1 \<Rightarrow> do { s2 \<leftarrow> switch_next s1; Some (Running s2 is1) } }"

definition sched_sleep_on :: "interrupt list \<Rightarrow> qid \<Rightarrow> sched \<Rightarrow> switched option" where
  "sched_sleep_on is q s = do {
     thr \<leftarrow> threads s (curthr s);
     kassert (kt_state thr = KT_RUN);
     s1 \<leftarrow> upd_thread (curthr s) (\<lambda>thr. thr\<lparr>kt_state := KT_SLEEP\<rparr>) s;
     s2 \<leftarrow> ktqueue_enqueue q (curthr s) s1;
     sched_switch is s2 }"

text \<open>\<open>Inl\<close> is the immediate \<^verbatim>\<open>-EINTR\<close>; after the switch the function will return 0.\<close>

definition sched_cancellable_sleep_on :: "interrupt list \<Rightarrow> qid \<Rightarrow> sched \<Rightarrow> (errno + switched) option" where
  "sched_cancellable_sleep_on is q s = do {
     thr \<leftarrow> threads s (curthr s);
     if kt_cancelled thr then Some (Inl EINTR)
     else do {
       s1 \<leftarrow> upd_thread (curthr s) (\<lambda>thr. thr\<lparr>kt_state := KT_SLEEP_CANCELLABLE\<rparr>) s;
       s2 \<leftarrow> ktqueue_enqueue q (curthr s) s1;
       r \<leftarrow> sched_switch is s2;
       Some (Inr r) } }"

subsection \<open>The invariant\<close>

text \<open>
  A queue holds exactly the threads whose \<^verbatim>\<open>kt_wchan\<close> is that queue, once each, and knows how many
  they are.
\<close>

definition queues_ok :: "sched \<Rightarrow> bool" where
  "queues_ok s \<longleftrightarrow> (\<forall>q. distinct (qlist s q) \<and> tq_size (queues s q) = int (length (qlist s q))
     \<and> (\<forall>t. t \<in> set (qlist s q) \<longleftrightarrow> (\<exists>thr. threads s t = Some thr \<and> kt_wchan thr = Some q)))"

definition state_fits :: "qid \<Rightarrow> kt_state \<Rightarrow> bool" where
  "state_fits q st \<longleftrightarrow> (if q = kt_runq then st = KT_RUN else st = KT_SLEEP \<or> st = KT_SLEEP_CANCELLABLE)"

text \<open>
  A thread on the run queue is runnable, one on another queue sleeps, and a thread on no queue is
  new or has exited, unless it is one of \<open>X\<close> (the thread that runs, or one in transit).
\<close>

definition thread_ok :: "tid set \<Rightarrow> tid \<Rightarrow> kthread \<Rightarrow> bool" where
  "thread_ok X t thr \<longleftrightarrow>
     (case kt_wchan thr of
        Some q \<Rightarrow> state_fits q (kt_state thr)
      | None \<Rightarrow> t \<in> X \<or> kt_state thr = KT_NO_STATE \<or> kt_state thr = KT_EXITED)"

definition threads_ok :: "tid set \<Rightarrow> sched \<Rightarrow> bool" where
  "threads_ok X s \<longleftrightarrow> (\<forall>t thr. threads s t = Some thr \<longrightarrow> thread_ok X t thr)"

definition transit_ok :: "tid set \<Rightarrow> sched \<Rightarrow> bool" where
  "transit_ok X s \<longleftrightarrow> queues_ok s \<and> threads_ok X s"

definition sched_inv :: "sched \<Rightarrow> bool" where
  "sched_inv s \<longleftrightarrow> transit_ok {curthr s} s
     \<and> (\<exists>thr. threads s (curthr s) = Some thr \<and> kt_wchan thr = None \<and> kt_state thr \<noteq> KT_NO_STATE)"

text \<open>Interrupt handlers wake up sleepers; they never take a thread off the run queue.\<close>

definition intr_queues :: "interrupt list \<Rightarrow> qid set" where
  "intr_queues is = (\<Union>i\<in>set is. case i of Wakeup_intr q \<Rightarrow> {q} | Broadcast_intr q \<Rightarrow> {q} | Other_intr \<Rightarrow> {})"

text \<open>What a switch promises about the queues it must leave alone and about who runs next.\<close>

definition same_sleepers :: "qid set \<Rightarrow> sched \<Rightarrow> sched \<Rightarrow> bool" where
  "same_sleepers Q s s' \<longleftrightarrow> (\<forall>q. q \<noteq> kt_runq \<longrightarrow> q \<notin> Q \<longrightarrow> qlist s' q = qlist s q
     \<and> (\<forall>t\<in>set (qlist s q). map_option kt_state (threads s' t) = map_option kt_state (threads s t)))"

definition switched_ok :: "tid set \<Rightarrow> qid set \<Rightarrow> sched \<Rightarrow> switched \<Rightarrow> bool" where
  "switched_ok X Q s r \<longleftrightarrow> (case r of
     Halted s' \<Rightarrow> transit_ok X s' \<and> qlist s' kt_runq = [] \<and> curthr s' = curthr s
       \<and> same_sleepers Q s s'
   | Running s' _ \<Rightarrow> transit_ok (insert (curthr s') X) s'
       \<and> (\<exists>thr. threads s' (curthr s') = Some thr \<and> kt_wchan thr = None \<and> kt_state thr = KT_RUN
              \<and> curproc s' = kt_proc thr)
       \<and> (qlist s kt_runq \<noteq> [] \<longrightarrow> curthr s' = last (qlist s kt_runq))
       \<and> same_sleepers Q s s')"

definition waited_ok :: "tid set \<Rightarrow> qid set \<Rightarrow> sched \<Rightarrow> switched \<Rightarrow> bool" where
  "waited_ok X Q s r \<longleftrightarrow> (case r of
     Halted s' \<Rightarrow> transit_ok X s' \<and> qlist s' kt_runq = [] \<and> curthr s' = curthr s
       \<and> same_sleepers Q s s'
   | Running s' _ \<Rightarrow> transit_ok X s' \<and> qlist s' kt_runq \<noteq> [] \<and> (qlist s kt_runq \<noteq> [] \<longrightarrow> s' = s)
       \<and> same_sleepers Q s s')"

text \<open>
  One step of a kernel: the running thread, or an interrupt, calls one of the operations.  A thread
  that is created is off every queue until it is made runnable; a thread that exits leaves the
  processor for good.  \<open>Q\<close> are the queues, the run queue among them, that these steps do not wake,
  wait on or receive interrupts for.
\<close>

inductive sched_step :: "qid set \<Rightarrow> sched \<Rightarrow> sched \<Rightarrow> bool" for Q where
  wakeup: "sched_wakeup_on q s = Some (r, s') \<Longrightarrow> q \<notin> Q \<Longrightarrow> sched_step Q s s'"
| broadcast: "sched_broadcast_on q s = Some s' \<Longrightarrow> q \<notin> Q \<Longrightarrow> sched_step Q s s'"
| cancel: "sched_cancel t s = Some s' \<Longrightarrow> sched_step Q s s'"
| create: "threads s t = None \<Longrightarrow> kt_state thr = KT_NO_STATE \<Longrightarrow> kt_wchan thr = None \<Longrightarrow>
    sched_step Q s (s\<lparr>threads := (threads s)(t \<mapsto> thr)\<rparr>)"
| start: "threads s t = Some thr \<Longrightarrow> kt_state thr = KT_NO_STATE \<Longrightarrow> sched_make_runnable t s = Some s' \<Longrightarrow> sched_step Q s s'"
| sleep: "sched_sleep_on is q s = Some (Running s' is') \<Longrightarrow> q \<notin> Q \<Longrightarrow> intr_queues is \<inter> Q = {} \<Longrightarrow> sched_step Q s s'"
| csleep: "sched_cancellable_sleep_on is q s = Some (Inr (Running s' is')) \<Longrightarrow> q \<notin> Q \<Longrightarrow>
    intr_queues is \<inter> Q = {} \<Longrightarrow> sched_step Q s s'"
| exit: "threads s (curthr s) = Some thr \<Longrightarrow>
    sched_switch is (s\<lparr>threads := (threads s)(curthr s \<mapsto> thr\<lparr>kt_state := KT_EXITED\<rparr>)\<rparr>) = Some (Running s' is') \<Longrightarrow>
    intr_queues is \<inter> Q = {} \<Longrightarrow> sched_step Q s s'"

text \<open>Taking up to \<open>n\<close> threads off a queue, one after the other.\<close>

fun dequeue_many :: "('s \<Rightarrow> ('e option \<times> 's) option) \<Rightarrow> nat \<Rightarrow> 's \<Rightarrow> ('e list \<times> 's) option" where
  "dequeue_many deq 0 s = Some ([], s)"
| "dequeue_many deq (Suc n) s = do {
     (ot, s1) \<leftarrow> deq s;
     case ot of
       None \<Rightarrow> Some ([], s1)
     | Some t \<Rightarrow> do { (ts, s2) \<leftarrow> dequeue_many deq n s1; Some (t # ts, s2) } }"

fun enqueue_many :: "('e \<Rightarrow> 's \<Rightarrow> 's option) \<Rightarrow> 'e list \<Rightarrow> 's \<Rightarrow> 's option" where
  "enqueue_many enq [] s = Some s"
| "enqueue_many enq (t # ts) s = do { s1 \<leftarrow> enq t s; enqueue_many enq ts s1 }"

text \<open>Distinct threads that exist and are on no queue.\<close>

definition idle_threads :: "tid list \<Rightarrow> sched \<Rightarrow> bool" where
  "idle_threads ts s \<longleftrightarrow> distinct ts \<and> (\<forall>t\<in>set ts. \<exists>thr. threads s t = Some thr \<and> kt_wchan thr = None)"

text \<open>Thread 1 runs, 2 and 3 are runnable (3 has waited longer), 4 and 6 sleep on queue 5.\<close>

definition demo_thread :: "kt_state \<Rightarrow> qid option \<Rightarrow> kthread" where
  "demo_thread st q = \<lparr>kt_state = st, kt_cancelled = False, kt_wchan = q, kt_retval = 0, kt_proc = 7, kt_saved_ipl = None,
     kt_kstack = 0xC0000000, kt_errno = 0,
     kt_ctx = \<lparr>c_eip = 0, c_esp = 0, c_pdptr = 0, c_kstack = 0xC0000000, c_kstacksz = 0x4000\<rparr>\<rparr>"

definition demo_sched :: sched where
  "demo_sched = \<lparr>threads = [1 \<mapsto> demo_thread KT_RUN None, 2 \<mapsto> demo_thread KT_RUN (Some kt_runq),
       3 \<mapsto> demo_thread KT_RUN (Some kt_runq), 4 \<mapsto> demo_thread KT_SLEEP (Some 5),
       6 \<mapsto> demo_thread KT_SLEEP_CANCELLABLE (Some 5)],
     queues = (\<lambda>_. \<lparr>tq_list = [], tq_size = 0\<rparr>)(kt_runq := \<lparr>tq_list = [2, 3], tq_size = 2\<rparr>, 5 := \<lparr>tq_list = [6, 4], tq_size = 2\<rparr>),
     curthr = 1, curproc = 7, cur_ipl = IPL_LOW\<rparr>"

subsection \<open>What each operation does\<close>

lemma enqueue_eq:
  assumes "threads s t = Some thr" and "kt_wchan thr = None"
  shows "ktqueue_enqueue q t s = Some (s\<lparr>threads := (threads s)(t \<mapsto> thr\<lparr>kt_wchan := Some q\<rparr>),
     queues := (queues s)(q := (queues s q)\<lparr>tq_list := t # qlist s q, tq_size := tq_size (queues s q) + 1\<rparr>)\<rparr>)"
  using assms by (simp add: ktqueue_enqueue_def upd_thread_def upd_queue_def)

lemma dequeue_eq:
  assumes "qlist s q \<noteq> []" and "threads s (last (qlist s q)) = Some thr"
  shows "ktqueue_dequeue q s = Some (Some (last (qlist s q)),
     s\<lparr>threads := (threads s)(last (qlist s q) \<mapsto> thr\<lparr>kt_wchan := None\<rparr>),
       queues := (queues s)(q := (queues s q)\<lparr>tq_list := butlast (qlist s q), tq_size := tq_size (queues s q) - 1\<rparr>)\<rparr>)"
  using assms by (simp add: ktqueue_dequeue_def upd_thread_def upd_queue_def Let_def)

lemma remove_eq:
  assumes "t \<in> set (qlist s q)" and "threads s t = Some thr"
  shows "ktqueue_remove q t s = Some (s\<lparr>threads := (threads s)(t \<mapsto> thr\<lparr>kt_wchan := None\<rparr>),
     queues := (queues s)(q := (queues s q)\<lparr>tq_list := remove1 t (qlist s q), tq_size := tq_size (queues s q) - 1\<rparr>)\<rparr>)"
  using assms by (simp add: ktqueue_remove_def upd_thread_def upd_queue_def)

lemma make_runnable_eq:
  assumes "threads s t = Some thr" and "kt_wchan thr = None"
  shows "sched_make_runnable t s = Some (s\<lparr>threads := (threads s)(t \<mapsto> thr\<lparr>kt_state := KT_RUN, kt_wchan := Some kt_runq\<rparr>),
     queues := (queues s)(kt_runq := (queues s kt_runq)\<lparr>tq_list := t # qlist s kt_runq, tq_size := tq_size (queues s kt_runq) + 1\<rparr>)\<rparr>)"
  using assms by (simp add: sched_make_runnable_def upd_thread_def enqueue_eq Let_def)

lemma on_queue_thread:
  "queues_ok s \<Longrightarrow> t \<in> set (qlist s q) \<Longrightarrow> \<exists>thr. threads s t = Some thr \<and> kt_wchan thr = Some q"
  by (auto simp: queues_ok_def)

lemma off_queue: "queues_ok s \<Longrightarrow> threads s t = Some thr \<Longrightarrow> kt_wchan thr = None \<Longrightarrow> t \<notin> set (qlist s q)"
  by (auto simp: queues_ok_def)

lemma queues_ok_enqueue:
  assumes ok: "queues_ok s" and "threads s t = Some thr" and "kt_wchan thr = None" and "kt_wchan thr' = Some q"
  shows "queues_ok (s\<lparr>threads := (threads s)(t \<mapsto> thr'),
     queues := (queues s)(q := (queues s q)\<lparr>tq_list := t # qlist s q, tq_size := tq_size (queues s q) + 1\<rparr>)\<rparr>)"
  using assms off_queue [OF assms(1-3)] unfolding queues_ok_def by auto

lemma only_queue: "queues_ok s \<Longrightarrow> t \<in> set (qlist s q) \<Longrightarrow> t \<in> set (qlist s q') \<Longrightarrow> q' = q"
  by (auto simp: queues_ok_def)

lemma queues_ok_leave:
  assumes ok: "queues_ok s" and t: "t \<in> set (qlist s q)" and w: "kt_wchan thr' = None"
    and l: "distinct l" "set l = set (qlist s q) - {t}"
  shows "queues_ok (s\<lparr>threads := (threads s)(t \<mapsto> thr'),
     queues := (queues s)(q := (queues s q)\<lparr>tq_list := l, tq_size := tq_size (queues s q) - 1\<rparr>)\<rparr>)"
proof -
  have d: "distinct (qlist s q)" using ok by (simp add: queues_ok_def)
  have "length l = length (qlist s q) - 1"
    using distinct_card [OF l(1)] distinct_card [OF d] l(2) t by simp
  moreover have "0 < length (qlist s q)" using t by (cases "qlist s q") auto
  ultimately have "int (length l) = int (length (qlist s q)) - 1" by linarith
  moreover have "t \<notin> set (qlist s q')" if "q' \<noteq> q" for q'
    using that on_queue_thread [OF ok t] on_queue_thread [OF ok, of t q'] by auto
  ultimately show ?thesis
    using ok l w unfolding queues_ok_def by auto
qed

lemma queues_ok_dequeue:
  assumes "queues_ok s" and "qlist s q \<noteq> []" and "kt_wchan thr' = None"
  shows "queues_ok (s\<lparr>threads := (threads s)(last (qlist s q) \<mapsto> thr'),
     queues := (queues s)(q := (queues s q)\<lparr>tq_list := butlast (qlist s q), tq_size := tq_size (queues s q) - 1\<rparr>)\<rparr>)"
proof (rule queues_ok_leave [OF assms(1) _ assms(3)])
  have d: "distinct (qlist s q)" using assms(1) by (simp add: queues_ok_def)
  show "last (qlist s q) \<in> set (qlist s q)" using assms(2) by simp
  show "distinct (butlast (qlist s q))" using d by (rule distinct_butlast)
  show "set (butlast (qlist s q)) = set (qlist s q) - {last (qlist s q)}"
    using d assms(2) by (rule set_butlast_distinct)
qed

lemma thread_ok_mono: "thread_ok X t thr \<Longrightarrow> X \<subseteq> insert u Y \<Longrightarrow> t \<noteq> u \<Longrightarrow> thread_ok Y t thr"
  by (auto simp: thread_ok_def split: option.splits)

lemma threads_ok_upd:
  assumes "threads_ok X s" and "thread_ok Y t thr'" and "X \<subseteq> insert t Y"
  shows "threads_ok Y (s\<lparr>threads := (threads s)(t \<mapsto> thr'), queues := k\<rparr>)"
  using assms by (auto simp: threads_ok_def intro: thread_ok_mono)

text \<open>The three ways a thread moves: onto a queue, off its queue, and from a queue to the run queue.\<close>

lemma transit_enqueue:
  assumes "transit_ok (insert t X) s" and "threads s t = Some thr" and "kt_wchan thr = None"
    and "state_fits q st"
  shows "transit_ok X (s\<lparr>threads := (threads s)(t \<mapsto> thr\<lparr>kt_state := st, kt_wchan := Some q\<rparr>),
     queues := (queues s)(q := (queues s q)\<lparr>tq_list := t # qlist s q, tq_size := tq_size (queues s q) + 1\<rparr>)\<rparr>)"
  using assms queues_ok_enqueue [of s t thr "thr\<lparr>kt_state := st, kt_wchan := Some q\<rparr>" q]
  by (auto simp: transit_ok_def thread_ok_def intro!: threads_ok_upd [of "insert t X"])

lemma transit_dequeue:
  assumes ok: "transit_ok X s" and ne: "qlist s q \<noteq> []"
  obtains thr where "threads s (last (qlist s q)) = Some thr" and "kt_wchan thr = Some q"
    and "state_fits q (kt_state thr)"
    and "transit_ok (insert (last (qlist s q)) X) (s\<lparr>threads := (threads s)(last (qlist s q) \<mapsto> thr\<lparr>kt_wchan := None\<rparr>),
       queues := (queues s)(q := (queues s q)\<lparr>tq_list := butlast (qlist s q), tq_size := tq_size (queues s q) - 1\<rparr>)\<rparr>)"
proof -
  have q: "queues_ok s" using ok by (simp add: transit_ok_def)
  obtain thr where thr: "threads s (last (qlist s q)) = Some thr" "kt_wchan thr = Some q"
    using on_queue_thread [OF q last_in_set [OF ne]] by blast
  then have "state_fits q (kt_state thr)"
    using ok by (fastforce simp: transit_ok_def threads_ok_def thread_ok_def)
  with thr show ?thesis
    using queues_ok_dequeue [OF q ne, of "thr\<lparr>kt_wchan := None\<rparr>"] ok
    by (intro that [of thr]) (auto simp: transit_ok_def thread_ok_def intro!: threads_ok_upd [of X])
qed

lemma transit_remove:
  assumes ok: "transit_ok X s" and t: "t \<in> set (qlist s q)" and thr: "threads s t = Some thr"
  shows "transit_ok (insert t X) (s\<lparr>threads := (threads s)(t \<mapsto> thr\<lparr>kt_wchan := None\<rparr>),
     queues := (queues s)(q := (queues s q)\<lparr>tq_list := remove1 t (qlist s q), tq_size := tq_size (queues s q) - 1\<rparr>)\<rparr>)"
proof -
  have q: "queues_ok s" using ok by (simp add: transit_ok_def)
  then have "distinct (qlist s q)" by (simp add: queues_ok_def)
  then show ?thesis
    using queues_ok_leave [OF q t, of "thr\<lparr>kt_wchan := None\<rparr>" "remove1 t (qlist s q)"] ok
    by (auto simp: transit_ok_def thread_ok_def intro!: threads_ok_upd [of X])
qed

lemma transit_ipl [simp]: "transit_ok X (s\<lparr>cur_ipl := i\<rparr>) = transit_ok X s"
  by (simp add: transit_ok_def queues_ok_def threads_ok_def)

lemma transit_curthr [simp]: "transit_ok X (s\<lparr>curthr := t\<rparr>) = transit_ok X s"
  by (simp add: transit_ok_def queues_ok_def threads_ok_def)

lemma transit_curproc [simp]: "transit_ok X (s\<lparr>curproc := p\<rparr>) = transit_ok X s"
  by (simp add: transit_ok_def queues_ok_def threads_ok_def)

lemma transit_mono: "transit_ok X s \<Longrightarrow> X \<subseteq> Y \<Longrightarrow> transit_ok Y s"
  by (fastforce simp: transit_ok_def threads_ok_def thread_ok_def split: option.splits)

lemma make_runnable_ok:
  assumes "transit_ok (insert t X) s" and "threads s t = Some thr" and "kt_wchan thr = None"
  shows "\<exists>s'. sched_make_runnable t s = Some s' \<and> transit_ok X s'
     \<and> threads s' = (threads s)(t \<mapsto> thr\<lparr>kt_state := KT_RUN, kt_wchan := Some kt_runq\<rparr>)
     \<and> qlist s' kt_runq = t # qlist s kt_runq \<and> (\<forall>q. q \<noteq> kt_runq \<longrightarrow> qlist s' q = qlist s q)
     \<and> curthr s' = curthr s \<and> curproc s' = curproc s \<and> cur_ipl s' = cur_ipl s"
  using make_runnable_eq [OF assms(2,3)] transit_enqueue [OF assms, of kt_runq KT_RUN]
  by (simp add: state_fits_def)

lemma wakeup_ok:
  assumes ok: "transit_ok X s" and q: "q \<noteq> kt_runq" and ne: "qlist s q \<noteq> []"
  defines "t \<equiv> last (qlist s q)"
  shows "\<exists>s' thr. sched_wakeup_on q s = Some (Some t, s') \<and> transit_ok X s'
     \<and> threads s t = Some thr
     \<and> threads s' = (threads s)(t \<mapsto> thr\<lparr>kt_state := KT_RUN, kt_wchan := Some kt_runq\<rparr>)
     \<and> qlist s' q = butlast (qlist s q) \<and> qlist s' kt_runq = t # qlist s kt_runq
     \<and> (\<forall>q'. q' \<noteq> kt_runq \<longrightarrow> q' \<noteq> q \<longrightarrow> qlist s' q' = qlist s q')
     \<and> curthr s' = curthr s \<and> curproc s' = curproc s \<and> cur_ipl s' = cur_ipl s"
proof -
  let ?s1 = "\<lambda>thr. s\<lparr>threads := (threads s)(t \<mapsto> thr\<lparr>kt_wchan := None\<rparr>),
       queues := (queues s)(q := (queues s q)\<lparr>tq_list := butlast (qlist s q), tq_size := tq_size (queues s q) - 1\<rparr>)\<rparr>"
  obtain thr where thr: "threads s t = Some thr" "state_fits q (kt_state thr)"
    and ok1: "transit_ok (insert t X) (?s1 thr)"
    using transit_dequeue [OF ok ne] unfolding t_def by metis
  have deq: "ktqueue_dequeue q s = Some (Some t, ?s1 thr)"
    using dequeue_eq [OF ne, folded t_def, OF thr(1)] .
  obtain s' where s': "sched_make_runnable t (?s1 thr) = Some s'" "transit_ok X s'"
    "threads s' = (threads s)(t \<mapsto> thr\<lparr>kt_state := KT_RUN, kt_wchan := Some kt_runq\<rparr>)"
    "qlist s' kt_runq = t # qlist s kt_runq"
    "\<forall>q'. q' \<noteq> kt_runq \<longrightarrow> qlist s' q' = qlist (?s1 thr) q'"
    "curthr s' = curthr s" "curproc s' = curproc s" "cur_ipl s' = cur_ipl s"
    using make_runnable_ok [OF ok1, of "thr\<lparr>kt_wchan := None\<rparr>"] q by auto
  have "sched_wakeup_on q s = Some (Some t, s')"
    using ne deq s'(1) thr(2) q by (auto simp: sched_wakeup_on_def sched_queue_empty_def state_fits_def)
  then show ?thesis using s' thr(1) q by auto
qed

lemma broadcast_ok:
  assumes "transit_ok X s" and q: "q \<noteq> kt_runq"
  shows "\<exists>s'. sched_broadcast_on q s = Some s' \<and> transit_ok X s' \<and> qlist s' q = []
     \<and> qlist s' kt_runq = qlist s q @ qlist s kt_runq
     \<and> (\<forall>q'. q' \<noteq> kt_runq \<longrightarrow> q' \<noteq> q \<longrightarrow> qlist s' q' = qlist s q')
     \<and> (\<forall>t. t \<notin> set (qlist s q) \<longrightarrow> threads s' t = threads s t)
     \<and> curthr s' = curthr s \<and> curproc s' = curproc s \<and> cur_ipl s' = cur_ipl s"
  using assms(1)
proof (induction "length (qlist s q)" arbitrary: s)
  case 0
  then show ?case by (subst sched_broadcast_on.simps) (simp add: sched_queue_empty_def)
next
  case (Suc n)
  let ?t = "last (qlist s q)"
  have ne: "qlist s q \<noteq> []" using Suc.hyps(2) by auto
  have in_q: "?t \<in> set (qlist s q)" using ne by simp
  obtain s1 thr where s1: "sched_wakeup_on q s = Some (Some ?t, s1)" "transit_ok X s1"
    "threads s1 = (threads s)(?t \<mapsto> thr\<lparr>kt_state := KT_RUN, kt_wchan := Some kt_runq\<rparr>)"
    "qlist s1 q = butlast (qlist s q)" "qlist s1 kt_runq = ?t # qlist s kt_runq"
    "\<forall>q'. q' \<noteq> kt_runq \<longrightarrow> q' \<noteq> q \<longrightarrow> qlist s1 q' = qlist s q'"
    "curthr s1 = curthr s" "curproc s1 = curproc s" "cur_ipl s1 = cur_ipl s"
    using wakeup_ok [OF Suc.prems q ne] by blast
  have "n = length (qlist s1 q)" using Suc.hyps(2) s1(4) by simp
  from Suc.hyps(1) [OF this s1(2)] obtain s' where s': "sched_broadcast_on q s1 = Some s'" "transit_ok X s'"
    "qlist s' q = []" "qlist s' kt_runq = qlist s1 q @ qlist s1 kt_runq"
    "\<forall>q'. q' \<noteq> kt_runq \<longrightarrow> q' \<noteq> q \<longrightarrow> qlist s' q' = qlist s1 q'"
    "\<forall>t. t \<notin> set (qlist s1 q) \<longrightarrow> threads s' t = threads s1 t"
    "curthr s' = curthr s1" "curproc s' = curproc s1" "cur_ipl s' = cur_ipl s1"
    by blast
  have "sched_broadcast_on q s = Some s'"
    using s1(1) s'(1) ne
    by (subst sched_broadcast_on.simps)
      (auto simp: sched_wakeup_on_def sched_queue_empty_def bind_eq_Some_conv split: if_splits)
  moreover have "qlist s' kt_runq = qlist s q @ qlist s kt_runq"
    using ne by (simp add: s'(4) s1(4,5))
  moreover have "threads s' t = threads s t" if "t \<notin> set (qlist s q)" for t
    using that s'(6) s1(3,4) in_q by (metis fun_upd_other in_set_butlastD)
  ultimately show ?case using s' s1 by simp
qed

lemma transit_same_wchan:
  assumes "transit_ok X s" and "threads s t = Some thr"
    and "kt_wchan thr' = kt_wchan thr" and "kt_state thr' = kt_state thr"
  shows "transit_ok X (s\<lparr>threads := (threads s)(t \<mapsto> thr')\<rparr>)"
proof -
  have "thread_ok X t thr' = thread_ok X t thr" using assms(3,4) by (simp add: thread_ok_def split: option.split)
  then show ?thesis
    using assms by (auto simp: transit_ok_def queues_ok_def threads_ok_def)
qed

lemma cancel_ok:
  assumes ok: "transit_ok X s" and thr: "threads s t = Some thr"
    and st: "kt_state thr \<noteq> KT_NO_STATE" "kt_state thr \<noteq> KT_EXITED" "kt_wchan thr \<noteq> None"
  shows "\<exists>s' thr'. sched_cancel t s = Some s' \<and> transit_ok X s' \<and> threads s' = (threads s)(t \<mapsto> thr')
     \<and> kt_cancelled thr' \<and> curthr s' = curthr s
     \<and> (if kt_state thr = KT_SLEEP_CANCELLABLE
        then kt_wchan thr' = Some kt_runq \<and> kt_state thr' = KT_RUN \<and> qlist s' kt_runq = t # qlist s kt_runq
          \<and> (\<forall>q. q \<noteq> kt_runq \<longrightarrow> qlist s' q = remove1 t (qlist s q))
        else thr' = thr\<lparr>kt_cancelled := True\<rparr> \<and> queues s' = queues s)"
proof -
  obtain q where q: "kt_wchan thr = Some q" using st(3) by auto
  have qok: "queues_ok s" using ok by (simp add: transit_ok_def)
  have t: "t \<in> set (qlist s q)" using qok thr q by (auto simp: queues_ok_def)
  have fits: "state_fits q (kt_state thr)"
    using ok thr q by (fastforce simp: transit_ok_def threads_ok_def thread_ok_def)
  define thr1 where "thr1 = thr\<lparr>kt_cancelled := True\<rparr>"
  define s1 where "s1 = s\<lparr>threads := (threads s)(t \<mapsto> thr1)\<rparr>"
  have flag: "upd_thread t (\<lambda>thr. thr\<lparr>kt_cancelled := True\<rparr>) s = Some s1"
    using thr by (simp add: upd_thread_def s1_def thr1_def)
  have ok1: "transit_ok X s1"
    unfolding s1_def by (rule transit_same_wchan [OF ok thr]) (simp_all add: thr1_def)
  show ?thesis
  proof (cases "kt_state thr = KT_SLEEP_CANCELLABLE")
    case False
    then show ?thesis using thr st q flag ok1 by (auto simp: sched_cancel_def s1_def thr1_def)
  next
    case True
    then have nq: "q \<noteq> kt_runq" using fits by (auto simp: state_fits_def)
    let ?s2 = "s1\<lparr>threads := (threads s1)(t \<mapsto> thr1\<lparr>kt_wchan := None\<rparr>),
       queues := (queues s1)(q := (queues s1 q)\<lparr>tq_list := remove1 t (qlist s1 q), tq_size := tq_size (queues s1 q) - 1\<rparr>)\<rparr>"
    have t1: "t \<in> set (qlist s1 q)" "threads s1 t = Some thr1" using t by (simp_all add: s1_def)
    obtain s' where s': "sched_make_runnable t ?s2 = Some s'" "transit_ok X s'"
      "threads s' = (threads s)(t \<mapsto> thr1\<lparr>kt_state := KT_RUN, kt_wchan := Some kt_runq\<rparr>)"
      "qlist s' kt_runq = t # qlist s kt_runq"
      "\<forall>q'. q' \<noteq> kt_runq \<longrightarrow> qlist s' q' = qlist ?s2 q'" "curthr s' = curthr s"
      using make_runnable_ok [OF transit_remove [OF ok1 t1], of "thr1\<lparr>kt_wchan := None\<rparr>"] nq
      by (auto simp: s1_def)
    have "sched_cancel t s = Some s'"
      using thr st(1,2) q nq True flag remove_eq [OF t1] s'(1) by (simp add: sched_cancel_def)
    moreover have "qlist s' q' = remove1 t (qlist s q')" if "q' \<noteq> kt_runq" for q'
    proof (cases "q' = q")
      case False
      then have "t \<notin> set (qlist s q')" using qok thr q by (auto simp: queues_ok_def)
      then show ?thesis using that s'(5) False by (simp add: s1_def remove1_idem)
    qed (use that s'(5) in \<open>simp add: s1_def\<close>)
    ultimately show ?thesis using s' True by (auto simp: thr1_def)
  qed
qed

lemma handle_interrupt_ok:
  assumes "transit_ok X s" and "kt_runq \<notin> intr_queues [i]"
  shows "\<exists>s'. handle_interrupt i s = Some s' \<and> transit_ok X s' \<and> curthr s' = curthr s
     \<and> same_sleepers (intr_queues [i]) s s'"
proof (cases i)
  case (Wakeup_intr q)
  then have q: "q \<noteq> kt_runq" and Q: "intr_queues [i] = {q}" using assms(2) by (auto simp: intr_queues_def)
  have qok: "queues_ok s" using assms(1) by (simp add: transit_ok_def)
  show ?thesis
  proof (cases "qlist s q = []")
    case True
    then show ?thesis
      using Wakeup_intr assms(1)
      by (simp add: handle_interrupt_def sched_wakeup_on_def sched_queue_empty_def same_sleepers_def)
  next
    case False
    from wakeup_ok [OF assms(1) q False] obtain s' thr where
      s': "sched_wakeup_on q s = Some (Some (last (qlist s q)), s')" "transit_ok X s'" "curthr s' = curthr s"
      "\<forall>q'. q' \<noteq> kt_runq \<longrightarrow> q' \<noteq> q \<longrightarrow> qlist s' q' = qlist s q'"
      "threads s' = (threads s)(last (qlist s q) \<mapsto> thr\<lparr>kt_state := KT_RUN, kt_wchan := Some kt_runq\<rparr>)" by blast
    have "same_sleepers {q} s s'"
      unfolding same_sleepers_def using s'(4,5) only_queue [OF qok last_in_set [OF False]] by auto
    then show ?thesis using s' Wakeup_intr Q by (simp add: handle_interrupt_def)
  qed
next
  case (Broadcast_intr q)
  then have q: "q \<noteq> kt_runq" and Q: "intr_queues [i] = {q}" using assms(2) by (auto simp: intr_queues_def)
  have qok: "queues_ok s" using assms(1) by (simp add: transit_ok_def)
  from broadcast_ok [OF assms(1) q] obtain s' where
    s': "sched_broadcast_on q s = Some s'" "transit_ok X s'" "curthr s' = curthr s"
    "\<forall>q'. q' \<noteq> kt_runq \<longrightarrow> q' \<noteq> q \<longrightarrow> qlist s' q' = qlist s q'"
    "\<forall>t. t \<notin> set (qlist s q) \<longrightarrow> threads s' t = threads s t" by blast
  have "same_sleepers {q} s s'"
    unfolding same_sleepers_def
  proof (intro allI impI conjI ballI)
    fix q' assume "q' \<noteq> kt_runq" and nq: "q' \<notin> {q}"
    then show "qlist s' q' = qlist s q'" using s'(4) by simp
    fix t assume "t \<in> set (qlist s q')"
    then have "t \<notin> set (qlist s q)" using only_queue [OF qok, of t q' q] nq by auto
    then show "map_option kt_state (threads s' t) = map_option kt_state (threads s t)" using s'(5) by simp
  qed
  then show ?thesis using s' Broadcast_intr Q by (simp add: handle_interrupt_def)
qed (use assms(1) in \<open>simp add: handle_interrupt_def same_sleepers_def\<close>)

lemma same_sleepers_trans:
  assumes "same_sleepers Q s s1" and "same_sleepers R s1 s2"
  shows "same_sleepers (Q \<union> R) s s2"
  using assms unfolding same_sleepers_def by (metis UnI1 UnI2)

lemma same_sleepers_mono: "same_sleepers Q s s' \<Longrightarrow> Q \<subseteq> R \<Longrightarrow> same_sleepers R s s'"
  by (auto simp: same_sleepers_def)

lemma same_states:
  assumes "\<And>t. map_option kt_state (threads s1 t) = map_option kt_state (threads s t)" and "queues s1 = queues s"
  shows "same_sleepers Q s1 s' = same_sleepers Q s s'"
  by (simp only: same_sleepers_def assms)

lemma same_sleepers_ipl [simp]:
  "same_sleepers Q (s\<lparr>cur_ipl := i\<rparr>) s' = same_sleepers Q s s'"
  "same_sleepers Q s (s'\<lparr>cur_ipl := i\<rparr>) = same_sleepers Q s s'"
  by (simp_all add: same_sleepers_def)

lemma wait_loop_ok:
  assumes "transit_ok X s" and "kt_runq \<notin> intr_queues is"
  shows "\<exists>r. wait_loop is s = Some r \<and> waited_ok X (intr_queues is) s r"
  using assms
proof (induction "is" arbitrary: s)
  case Nil
  then show ?case by (auto simp: sched_queue_empty_def waited_ok_def same_sleepers_def)
next
  case (Cons i "is")
  show ?case
  proof (cases "qlist s kt_runq = []")
    case False
    then show ?thesis using Cons.prems by (auto simp: sched_queue_empty_def waited_ok_def same_sleepers_def)
  next
    case True
    have qs: "intr_queues (i # is) = intr_queues [i] \<union> intr_queues is" by (simp add: intr_queues_def)
    have step: "transit_ok X (s\<lparr>cur_ipl := IPL_LOW\<rparr>)" "kt_runq \<notin> intr_queues [i]" "kt_runq \<notin> intr_queues is"
      using Cons.prems qs by auto
    obtain s1 where s1: "handle_interrupt i (s\<lparr>cur_ipl := IPL_LOW\<rparr>) = Some s1" "transit_ok X s1"
      "curthr s1 = curthr s" "same_sleepers (intr_queues [i]) s s1"
      using handle_interrupt_ok [OF step(1,2)] by auto
    have "transit_ok X (s1\<lparr>cur_ipl := IPL_HIGH\<rparr>)" using s1(2) by simp
    from Cons.IH [OF this step(3)] obtain r where r: "wait_loop is (s1\<lparr>cur_ipl := IPL_HIGH\<rparr>) = Some r"
      and rr: "waited_ok X (intr_queues is) (s1\<lparr>cur_ipl := IPL_HIGH\<rparr>) r" by blast
    have "wait_loop (i # is) s = Some r" using True s1(1) r by (simp add: sched_queue_empty_def)
    then show ?thesis
      using rr s1(3) same_sleepers_trans [OF s1(4)] True by (cases r) (simp_all add: qs waited_ok_def)
  qed
qed

lemma switch_next_ok:
  assumes ok: "transit_ok X s" and ne: "qlist s kt_runq \<noteq> []"
  shows "\<exists>s' thr. switch_next s = Some s' \<and> transit_ok (insert (curthr s') X) s'
     \<and> curthr s' = last (qlist s kt_runq)
     \<and> threads s' (curthr s') = Some thr \<and> kt_wchan thr = None \<and> kt_state thr = KT_RUN \<and> curproc s' = kt_proc thr
     \<and> same_sleepers {} s s'"
proof -
  define t where "t = last (qlist s kt_runq)"
  obtain thr where thr: "threads s t = Some thr" "kt_state thr = KT_RUN"
    and ok2: "transit_ok (insert t X) (s\<lparr>threads := (threads s)(t \<mapsto> thr\<lparr>kt_wchan := None\<rparr>),
       queues := (queues s)(kt_runq := (queues s kt_runq)\<lparr>tq_list := butlast (qlist s kt_runq), tq_size := tq_size (queues s kt_runq) - 1\<rparr>)\<rparr>)"
    (is "transit_ok _ ?s2")
    using transit_dequeue [OF ok ne] unfolding t_def state_fits_def by metis
  have deq: "ktqueue_dequeue kt_runq s = Some (Some t, ?s2)"
    using dequeue_eq [OF ne, folded t_def, OF thr(1)] .
  have "transit_ok (insert t X) (?s2\<lparr>threads := (threads ?s2)(t \<mapsto> thr\<lparr>kt_wchan := None, kt_saved_ipl := None\<rparr>)\<rparr>)"
    by (rule transit_same_wchan [OF ok2, where thr = "thr\<lparr>kt_wchan := None\<rparr>"]) simp_all
  moreover have "t \<notin> set (qlist s q)" if "q \<noteq> kt_runq" for q
    using that only_queue [of s t kt_runq q] ok ne by (auto simp: transit_ok_def t_def)
  ultimately show ?thesis
    using deq thr by (auto simp: switch_next_def upd_thread_def t_def same_sleepers_def)
qed

lemma switch_ok:
  assumes ok: "transit_ok X s" and cur: "threads s (curthr s) \<noteq> None" and intr: "kt_runq \<notin> intr_queues is"
  shows "\<exists>r. sched_switch is s = Some r \<and> switched_ok X (intr_queues is) s r"
proof -
  obtain thr where thr: "threads s (curthr s) = Some thr" using cur by auto
  define s0 where "s0 = s\<lparr>threads := (threads s)(curthr s \<mapsto> thr\<lparr>kt_saved_ipl := Some (cur_ipl s)\<rparr>), cur_ipl := IPL_HIGH\<rparr>"
  have ok0: "transit_ok X s0"
    unfolding s0_def transit_ipl by (rule transit_same_wchan [OF ok thr]) simp_all
  have s0: "queues s0 = queues s" "curthr s0 = curthr s" "same_sleepers Q s0 s' = same_sleepers Q s s'" for Q s'
    using same_states [of s s0] thr by (auto simp: s0_def)
  obtain r where r: "wait_loop is s0 = Some r" and rr: "waited_ok X (intr_queues is) s0 r"
    using wait_loop_ok [OF ok0 intr] by blast
  have sw: "sched_switch is s = (case r of Halted s1 \<Rightarrow> Some (Halted s1)
     | Running s1 is1 \<Rightarrow> do { s2 \<leftarrow> switch_next s1; Some (Running s2 is1) })"
    using thr r by (simp add: sched_switch_def upd_thread_def s0_def)
  show ?thesis
  proof (cases r)
    case (Halted s1)
    then show ?thesis using rr sw by (simp add: waited_ok_def switched_ok_def s0)
  next
    case (Running s1 is1)
    then have s1: "transit_ok X s1" "qlist s1 kt_runq \<noteq> []" "qlist s kt_runq \<noteq> [] \<longrightarrow> s1 = s0"
      "same_sleepers (intr_queues is) s0 s1"
      using rr by (simp_all add: waited_ok_def s0)
    from switch_next_ok [OF s1(1,2)] obtain s' where s': "switch_next s1 = Some s'"
      "transit_ok (insert (curthr s') X) s'" "curthr s' = last (qlist s1 kt_runq)"
      "\<exists>thr. threads s' (curthr s') = Some thr \<and> kt_wchan thr = None \<and> kt_state thr = KT_RUN \<and> curproc s' = kt_proc thr"
      "same_sleepers {} s1 s'"
      by blast
    have "sched_switch is s = Some (Running s' is1)" using sw Running s'(1) by simp
    moreover have "same_sleepers (intr_queues is) s s'"
      using same_sleepers_trans [OF s1(4) s'(5)] by (simp add: s0)
    ultimately show ?thesis using s' s1(3) s0(1) by (auto simp: switched_ok_def)
  qed
qed

lemma cur_not_queued: "sched_inv s \<Longrightarrow> curthr s \<notin> set (qlist s q)"
  by (auto simp: sched_inv_def transit_ok_def queues_ok_def)

lemma sleep_ok:
  assumes inv: "sched_inv s" and thr: "threads s (curthr s) = Some thr"
    and q: "q \<noteq> kt_runq" and intr: "kt_runq \<notin> intr_queues is" and st: "st = KT_SLEEP \<or> st = KT_SLEEP_CANCELLABLE"
  shows "\<exists>s2 r. do { s1 \<leftarrow> upd_thread (curthr s) (\<lambda>thr. thr\<lparr>kt_state := st\<rparr>) s;
                     ktqueue_enqueue q (curthr s) s1 } = Some s2
     \<and> sched_switch is s2 = Some r \<and> switched_ok {} (intr_queues is) s2 r
     \<and> qlist s2 q = curthr s # qlist s q \<and> (\<forall>q'. q' \<noteq> q \<longrightarrow> qlist s2 q' = qlist s q')
     \<and> same_sleepers {q} s s2"
proof -
  have ok: "transit_ok (insert (curthr s) {}) s" and w: "kt_wchan thr = None"
    using inv thr by (auto simp: sched_inv_def)
  let ?s2 = "s\<lparr>threads := (threads s)(curthr s \<mapsto> thr\<lparr>kt_state := st, kt_wchan := Some q\<rparr>),
     queues := (queues s)(q := (queues s q)\<lparr>tq_list := curthr s # qlist s q, tq_size := tq_size (queues s q) + 1\<rparr>)\<rparr>"
  have enq: "do { s1 \<leftarrow> upd_thread (curthr s) (\<lambda>thr. thr\<lparr>kt_state := st\<rparr>) s;
                     ktqueue_enqueue q (curthr s) s1 } = Some ?s2"
    using thr w by (simp add: upd_thread_def enqueue_eq)
  have "transit_ok {} ?s2"
    using transit_enqueue [OF ok thr w, of q st] q st by (auto simp: state_fits_def)
  moreover have "same_sleepers {q} s ?s2"
    using cur_not_queued [OF inv] by (auto simp: same_sleepers_def)
  ultimately show ?thesis
    using switch_ok [of "{}" ?s2 "is"] intr enq by auto
qed

text \<open>After a switch to another thread the invariant holds again.\<close>

lemma switched_inv: "switched_ok {} Q s (Running s' is') \<Longrightarrow> sched_inv s'"
  by (auto simp: switched_ok_def sched_inv_def)

lemma inv_transit: "sched_inv s \<Longrightarrow> transit_ok {curthr s} s"
  by (simp add: sched_inv_def)

lemma sched_inv_keep_cur:
  assumes "sched_inv s" and "transit_ok {curthr s'} s'" and "curthr s' = curthr s"
    and "threads s' (curthr s) = threads s (curthr s)"
  shows "sched_inv s'"
  using assms by (simp add: sched_inv_def)

lemma sched_inv_wakeup:
  assumes inv: "sched_inv s" and q: "q \<noteq> kt_runq"
  shows "\<exists>r s'. sched_wakeup_on q s = Some (r, s') \<and> sched_inv s'
     \<and> r = (if qlist s q = [] then None else Some (last (qlist s q)))"
proof (cases "qlist s q = []")
  case True
  then show ?thesis using inv by (simp add: sched_wakeup_on_def sched_queue_empty_def)
next
  case False
  have "last (qlist s q) \<noteq> curthr s" using cur_not_queued [OF inv] False by (metis last_in_set)
  with wakeup_ok [OF inv_transit [OF inv] q False] sched_inv_keep_cur [OF inv] False show ?thesis
    by (metis fun_upd_other)
qed

lemma sched_inv_broadcast:
  assumes inv: "sched_inv s" and q: "q \<noteq> kt_runq"
  shows "\<exists>s'. sched_broadcast_on q s = Some s' \<and> sched_inv s' \<and> qlist s' q = []
     \<and> qlist s' kt_runq = qlist s q @ qlist s kt_runq"
  using broadcast_ok [OF inv_transit [OF inv] q] sched_inv_keep_cur [OF inv] cur_not_queued [OF inv, of q]
  by metis

lemma sched_inv_cancel:
  assumes inv: "sched_inv s" and thr: "threads s t = Some thr" "kt_state thr \<noteq> KT_NO_STATE"
    "kt_state thr \<noteq> KT_EXITED" "kt_wchan thr \<noteq> None"
  shows "\<exists>s'. sched_cancel t s = Some s' \<and> sched_inv s'"
proof -
  have "t \<noteq> curthr s" using inv thr by (auto simp: sched_inv_def)
  with cancel_ok [OF inv_transit [OF inv] thr] sched_inv_keep_cur [OF inv] show ?thesis
    by (metis fun_upd_other)
qed

lemma sched_inv_start:
  assumes inv: "sched_inv s" and thr: "threads s t = Some thr" "kt_state thr = KT_NO_STATE"
  shows "\<exists>s'. sched_make_runnable t s = Some s' \<and> sched_inv s'"
proof -
  have "thread_ok {curthr s} t thr" using inv thr by (auto simp: sched_inv_def transit_ok_def threads_ok_def)
  then have w: "kt_wchan thr = None"
    using thr(2) by (cases "kt_wchan thr") (auto simp: thread_ok_def state_fits_def split: if_splits)
  have ne: "t \<noteq> curthr s" using inv thr by (auto simp: sched_inv_def)
  have "transit_ok (insert t {curthr s}) s" using inv_transit [OF inv] by (rule transit_mono) auto
  from make_runnable_ok [OF this thr(1) w] ne sched_inv_keep_cur [OF inv] show ?thesis
    by (metis fun_upd_other)
qed

lemma sched_inv_create:
  assumes "sched_inv s" and "threads s t = None" and "kt_state thr = KT_NO_STATE" and "kt_wchan thr = None"
  shows "sched_inv (s\<lparr>threads := (threads s)(t \<mapsto> thr)\<rparr>)"
  using assms by (auto simp: sched_inv_def transit_ok_def queues_ok_def threads_ok_def thread_ok_def)

lemma sched_inv_sleep:
  assumes inv: "sched_inv s" and q: "q \<noteq> kt_runq" and intr: "kt_runq \<notin> intr_queues is"
    and thr: "threads s (curthr s) = Some thr"
  shows "kt_state thr = KT_RUN \<Longrightarrow> \<exists>s2 r. sched_sleep_on is q s = Some r \<and> switched_ok {} (intr_queues is) s2 r
           \<and> qlist s2 q = curthr s # qlist s q \<and> (\<forall>q'. q' \<noteq> q \<longrightarrow> qlist s2 q' = qlist s q')
           \<and> same_sleepers {q} s s2"
    and "\<not> kt_cancelled thr \<Longrightarrow> \<exists>s2 r. sched_cancellable_sleep_on is q s = Some (Inr r)
           \<and> switched_ok {} (intr_queues is) s2 r
           \<and> qlist s2 q = curthr s # qlist s q \<and> (\<forall>q'. q' \<noteq> q \<longrightarrow> qlist s2 q' = qlist s q')
           \<and> same_sleepers {q} s s2"
    and "kt_cancelled thr \<Longrightarrow> sched_cancellable_sleep_on is q s = Some (Inl EINTR)"
  using sleep_ok [OF inv thr q intr, of KT_SLEEP] sleep_ok [OF inv thr q intr, of KT_SLEEP_CANCELLABLE] thr
  by (auto simp: sched_sleep_on_def sched_cancellable_sleep_on_def bind_eq_Some_conv)

lemma sched_inv_exit:
  assumes inv: "sched_inv s" and thr: "threads s (curthr s) = Some thr" and intr: "kt_runq \<notin> intr_queues is"
  shows "\<exists>r. sched_switch is (s\<lparr>threads := (threads s)(curthr s \<mapsto> thr\<lparr>kt_state := KT_EXITED\<rparr>)\<rparr>) = Some r
     \<and> switched_ok {} (intr_queues is) (s\<lparr>threads := (threads s)(curthr s \<mapsto> thr\<lparr>kt_state := KT_EXITED\<rparr>)\<rparr>) r"
proof -
  let ?s = "s\<lparr>threads := (threads s)(curthr s \<mapsto> thr\<lparr>kt_state := KT_EXITED\<rparr>)\<rparr>"
  have "queues_ok s" "threads_ok {curthr s} s" "kt_wchan thr = None"
    using inv thr by (auto simp: sched_inv_def transit_ok_def)
  then have "transit_ok {} ?s"
    using threads_ok_upd [of "{curthr s}" s "{}" "curthr s" "thr\<lparr>kt_state := KT_EXITED\<rparr>" "queues s"] thr
    by (auto simp: transit_ok_def queues_ok_def thread_ok_def)
  from switch_ok [OF this _ intr] show ?thesis by simp
qed

lemma sched_step_inv:
  assumes "sched_step Q s s'" and run: "kt_runq \<in> Q" and inv: "sched_inv s"
  shows "sched_inv s'"
  using assms(1)
proof cases
  case (wakeup q r)
  then have "q \<noteq> kt_runq" using run by auto
  with sched_inv_wakeup [OF inv this] wakeup(1) show ?thesis by auto
next
  case (broadcast q)
  then have "q \<noteq> kt_runq" using run by auto
  with sched_inv_broadcast [OF inv this] broadcast(1) show ?thesis by auto
next
  case (cancel t)
  then obtain thr where "threads s t = Some thr" "kt_state thr \<noteq> KT_NO_STATE" "kt_state thr \<noteq> KT_EXITED"
    "kt_wchan thr \<noteq> None"
    by (auto simp: sched_cancel_def bind_eq_Some_conv)
  with sched_inv_cancel [OF inv this] cancel show ?thesis by auto
next
  case (create t thr)
  then show ?thesis using sched_inv_create [OF inv] by simp
next
  case (start t thr)
  with sched_inv_start [OF inv start(1,2)] show ?thesis by auto
next
  case (sleep "is" q is')
  then have q: "q \<noteq> kt_runq" "kt_runq \<notin> intr_queues is" using run by auto
  obtain thr where thr: "threads s (curthr s) = Some thr" "kt_state thr = KT_RUN"
    using sleep(1) by (auto simp: sched_sleep_on_def bind_eq_Some_conv)
  from sched_inv_sleep(1) [OF inv q thr] sleep(1) switched_inv show ?thesis by auto
next
  case (csleep "is" q is')
  then have q: "q \<noteq> kt_runq" "kt_runq \<notin> intr_queues is" using run by auto
  obtain thr where thr: "threads s (curthr s) = Some thr" "\<not> kt_cancelled thr"
    using csleep(1) by (auto simp: sched_cancellable_sleep_on_def bind_eq_Some_conv split: if_splits)
  from sched_inv_sleep(2) [OF inv q thr] csleep(1) switched_inv show ?thesis by auto
next
  case (exit thr "is" is')
  then have "kt_runq \<notin> intr_queues is" using run by auto
  from sched_inv_exit [OF inv exit(1) this] exit(2) switched_inv show ?thesis by auto
qed

lemma sched_sleep_effect:
  assumes inv: "sched_inv s" and thr: "threads s (curthr s) = Some thr" "kt_state thr = KT_RUN"
    and q: "q \<noteq> kt_runq" and intr: "kt_runq \<notin> intr_queues is" "q \<notin> intr_queues is"
    and sl: "sched_sleep_on is q s = Some (Running s' is')"
  shows "sched_inv s' \<and> qlist s' q = curthr s # qlist s q
     \<and> map_option kt_state (threads s' (curthr s)) = Some KT_SLEEP
     \<and> (\<forall>t\<in>set (qlist s q). map_option kt_state (threads s' t) = map_option kt_state (threads s t))"
proof -
  have w: "kt_wchan thr = None" using inv thr by (auto simp: sched_inv_def)
  let ?s2 = "s\<lparr>threads := (threads s)(curthr s \<mapsto> thr\<lparr>kt_state := KT_SLEEP, kt_wchan := Some q\<rparr>),
     queues := (queues s)(q := (queues s q)\<lparr>tq_list := curthr s # qlist s q, tq_size := tq_size (queues s q) + 1\<rparr>)\<rparr>"
  obtain r where r: "sched_switch is ?s2 = Some r" "switched_ok {} (intr_queues is) ?s2 r"
    using sleep_ok [OF inv thr(1) q intr(1), of KT_SLEEP] thr w by (auto simp: upd_thread_def enqueue_eq)
  have "sched_sleep_on is q s = Some r"
    using r(1) thr w by (simp add: sched_sleep_on_def upd_thread_def enqueue_eq)
  then have r': "switched_ok {} (intr_queues is) ?s2 (Running s' is')" using r(2) sl by simp
  then have "same_sleepers (intr_queues is) ?s2 s'" by (simp add: switched_ok_def)
  then have q2: "qlist s' q = qlist ?s2 q"
    and st: "\<forall>t\<in>set (qlist ?s2 q). map_option kt_state (threads s' t) = map_option kt_state (threads ?s2 t)"
    using q intr(2) unfolding same_sleepers_def by blast+
  moreover have "t \<noteq> curthr s" if "t \<in> set (qlist s q)" for t using that cur_not_queued [OF inv] by auto
  ultimately show ?thesis using switched_inv [OF r'] by auto
qed

text \<open>
  Steps that stay away from a queue leave it as it is, as long as nobody on it sleeps cancellably.
\<close>

lemma sched_step_sleepers:
  assumes "sched_step Q s s'" and run: "kt_runq \<in> Q" and inv: "sched_inv s" and q: "q \<in> Q" "q \<noteq> kt_runq"
    and hard: "\<And>t thr. t \<in> set (qlist s q) \<Longrightarrow> threads s t = Some thr \<Longrightarrow> kt_state thr \<noteq> KT_SLEEP_CANCELLABLE"
  shows "qlist s' q = qlist s q
       \<and> (\<forall>t\<in>set (qlist s q). map_option kt_state (threads s' t) = map_option kt_state (threads s t))"
proof -
  have qok: "queues_ok s" using inv by (simp add: sched_inv_def transit_ok_def)
  have keep: "qlist s' q = qlist s q
       \<and> (\<forall>t\<in>set (qlist s q). map_option kt_state (threads s' t) = map_option kt_state (threads s t))"
    if "same_sleepers R s s'" "q \<notin> R" for R
    using that q(2) by (auto simp: same_sleepers_def)
  from assms(1) show ?thesis
  proof cases
    case (wakeup q' r)
    then have i: "intr_queues [Wakeup_intr q'] = {q'}" "kt_runq \<notin> {q'}" "q \<notin> {q'}"
      using run q by (auto simp: intr_queues_def)
    with handle_interrupt_ok [OF inv_transit [OF inv], of "Wakeup_intr q'"] wakeup(1) keep show ?thesis
      by (fastforce simp: handle_interrupt_def)
  next
    case (broadcast q')
    then have i: "intr_queues [Broadcast_intr q'] = {q'}" "kt_runq \<notin> {q'}" "q \<notin> {q'}"
      using run q by (auto simp: intr_queues_def)
    with handle_interrupt_ok [OF inv_transit [OF inv], of "Broadcast_intr q'"] broadcast(1) keep show ?thesis
      by (fastforce simp: handle_interrupt_def)
  next
    case (cancel t)
    then obtain thr where thr: "threads s t = Some thr" "kt_state thr \<noteq> KT_NO_STATE" "kt_state thr \<noteq> KT_EXITED"
      "kt_wchan thr \<noteq> None"
      by (auto simp: sched_cancel_def bind_eq_Some_conv)
    show ?thesis
    proof (cases "kt_state thr = KT_SLEEP_CANCELLABLE")
      case True
      then have "t \<notin> set (qlist s q)" using hard thr(1) by auto
      then show ?thesis using cancel_ok [OF inv_transit [OF inv] thr] cancel True q(2) by (auto simp: remove1_idem)
    next
      case False
      then show ?thesis using cancel_ok [OF inv_transit [OF inv] thr] cancel thr(1) by auto
    qed
  next
    case (create t thr)
    then have "t \<notin> set (qlist s q)" using qok by (auto simp: queues_ok_def)
    then show ?thesis using create by auto
  next
    case (start t thr)
    have "thread_ok {curthr s} t thr" using inv start(1) by (auto simp: sched_inv_def transit_ok_def threads_ok_def)
    then have w: "kt_wchan thr = None"
      using start(2) by (cases "kt_wchan thr") (auto simp: thread_ok_def state_fits_def split: if_splits)
    then have "t \<notin> set (qlist s q)" using off_queue [OF qok start(1)] by simp
    then show ?thesis using start(3) make_runnable_eq [OF start(1) w] q(2) by auto
  next
    case (sleep "is" q' is')
    then have q': "q' \<noteq> kt_runq" "kt_runq \<notin> intr_queues is" "q \<notin> {q'} \<union> intr_queues is" using run q by auto
    obtain thr where thr: "threads s (curthr s) = Some thr" "kt_state thr = KT_RUN"
      using sleep(1) by (auto simp: sched_sleep_on_def bind_eq_Some_conv)
    from sched_inv_sleep(1) [OF inv q'(1,2) thr] sleep(1) obtain s2 where
      "same_sleepers {q'} s s2" "same_sleepers (intr_queues is) s2 s'" by (auto simp: switched_ok_def)
    with same_sleepers_trans keep q'(3) show ?thesis by blast
  next
    case (csleep "is" q' is')
    then have q': "q' \<noteq> kt_runq" "kt_runq \<notin> intr_queues is" "q \<notin> {q'} \<union> intr_queues is" using run q by auto
    obtain thr where thr: "threads s (curthr s) = Some thr" "\<not> kt_cancelled thr"
      using csleep(1) by (auto simp: sched_cancellable_sleep_on_def bind_eq_Some_conv split: if_splits)
    from sched_inv_sleep(2) [OF inv q'(1,2) thr] csleep(1) obtain s2 where
      "same_sleepers {q'} s s2" "same_sleepers (intr_queues is) s2 s'" by (auto simp: switched_ok_def)
    with same_sleepers_trans keep q'(3) show ?thesis by blast
  next
    case (exit thr "is" is')
    then have i: "kt_runq \<notin> intr_queues is" "q \<notin> intr_queues is" using run q by auto
    let ?s = "s\<lparr>threads := (threads s)(curthr s \<mapsto> thr\<lparr>kt_state := KT_EXITED\<rparr>)\<rparr>"
    have "same_sleepers {} s ?s" using cur_not_queued [OF inv] by (auto simp: same_sleepers_def)
    moreover have "same_sleepers (intr_queues is) ?s s'"
      using sched_inv_exit [OF inv exit(1) i(1)] exit(2) by (auto simp: switched_ok_def)
    ultimately show ?thesis using same_sleepers_trans [of "{}" s ?s] keep i(2) by fastforce
  qed
qed

subsection \<open>Queues as first-in first-out buffers\<close>

text \<open>
  The contract of a thread queue: \<open>waiting\<close> lists who waits, longest first; entering puts an idle
  element at its end and leaving takes its head.  Its clients see whole groups enter and leave in
  order.
\<close>

locale fifo =
  fixes enter :: "'e \<Rightarrow> 's \<Rightarrow> 's option"
    and leave :: "'s \<Rightarrow> ('e option \<times> 's) option"
    and waiting :: "'s \<Rightarrow> 'e list"
    and idle :: "'e list \<Rightarrow> 's \<Rightarrow> bool"
    and ok :: "'s \<Rightarrow> bool"
  assumes enter_law: "ok s \<Longrightarrow> idle (t # ts) s \<Longrightarrow>
      \<exists>s'. enter t s = Some s' \<and> ok s' \<and> waiting s' = waiting s @ [t] \<and> idle ts s'"
    and leave_empty: "ok s \<Longrightarrow> waiting s = [] \<Longrightarrow> leave s = Some (None, s)"
    and leave_law: "ok s \<Longrightarrow> waiting s = t # ts \<Longrightarrow> \<exists>s'. leave s = Some (Some t, s') \<and> ok s' \<and> waiting s' = ts"
begin

lemma enter_all:
  "ok s \<Longrightarrow> idle ts s \<Longrightarrow> \<exists>s'. enqueue_many enter ts s = Some s' \<and> ok s' \<and> waiting s' = waiting s @ ts"
proof (induction ts arbitrary: s)
  case (Cons t ts)
  from enter_law [OF Cons.prems] obtain s1 where "enter t s = Some s1" "ok s1" "waiting s1 = waiting s @ [t]" "idle ts s1"
    by blast
  with Cons.IH [of s1] show ?case by auto
qed simp

lemma leave_all:
  "ok s \<Longrightarrow> \<exists>s'. dequeue_many leave n s = Some (take n (waiting s), s') \<and> ok s' \<and> waiting s' = drop n (waiting s)"
proof (induction n arbitrary: s)
  case (Suc n)
  show ?case
  proof (cases "waiting s")
    case Nil
    then show ?thesis using Suc.prems leave_empty by simp
  next
    case (Cons t ts)
    from leave_law [OF Suc.prems Cons] obtain s1 where "leave s = Some (Some t, s1)" "ok s1" "waiting s1 = ts" by blast
    with Suc.IH [of s1] Cons show ?thesis by auto
  qed
qed simp

lemma through_in_order:
  assumes "ok s" and "idle ts s"
  shows "\<exists>s1 s2. enqueue_many enter ts s = Some s1
     \<and> dequeue_many leave (length (waiting s) + length ts) s1 = Some (waiting s @ ts, s2) \<and> waiting s2 = []"
proof -
  obtain s1 where s1: "enqueue_many enter ts s = Some s1" "ok s1" "waiting s1 = waiting s @ ts"
    using enter_all [OF assms] by blast
  from leave_all [OF s1(2), of "length (waiting s) + length ts"] s1 show ?thesis by auto
qed

end

interpretation ktq: fifo "ktqueue_enqueue q" "ktqueue_dequeue q" "\<lambda>s. rev (qlist s q)" idle_threads queues_ok for q
proof
  fix s t ts assume ok: "queues_ok s" and idle: "idle_threads (t # ts) s"
  then obtain thr where thr: "threads s t = Some thr" "kt_wchan thr = None" by (auto simp: idle_threads_def)
  show "\<exists>s'. ktqueue_enqueue q t s = Some s' \<and> queues_ok s' \<and> rev (qlist s' q) = rev (qlist s q) @ [t] \<and> idle_threads ts s'"
    using enqueue_eq [OF thr, of q] queues_ok_enqueue [OF ok thr, of "thr\<lparr>kt_wchan := Some q\<rparr>" q] idle
    by (auto simp: idle_threads_def)
next
  fix s assume "queues_ok s" and "rev (qlist s q) = []"
  then show "ktqueue_dequeue q s = Some (None, s)" by (simp add: ktqueue_dequeue_def)
next
  fix s t ts assume ok: "queues_ok s" and w: "rev (qlist s q) = t # ts"
  then have l: "qlist s q = rev ts @ [t]" by (metis rev.simps(2) rev_rev_ident)
  then have ne: "qlist s q \<noteq> []" and last: "last (qlist s q) = t" and bl: "butlast (qlist s q) = rev ts" by simp_all
  obtain thr where thr: "threads s t = Some thr" using on_queue_thread [OF ok, of t q] l by auto
  show "\<exists>s'. ktqueue_dequeue q s = Some (Some t, s') \<and> queues_ok s' \<and> rev (qlist s' q) = ts"
    using dequeue_eq [OF ne] queues_ok_dequeue [OF ok ne, of "thr\<lparr>kt_wchan := None\<rparr>"] thr last bl by auto
qed

subsection \<open>Properties\<close>

text \<open>C8: In every state the kernel can reach from one that satisfies the invariant, by any sequence
  of waking, broadcasting, cancelling, creating, starting, sleeping and exiting threads and under any
  interrupts, the queues agree with the threads and no thread is lost: a thread that is neither new
  nor exited is the one that runs or waits on exactly one queue, once, in a state that fits it.\<close>

theorem no_thread_is_lost:
  assumes reach: "(sched_step {kt_runq})\<^sup>*\<^sup>* s s'" and inv: "sched_inv s"
    and thr: "threads s' t = Some thr" "kt_state thr \<noteq> KT_NO_STATE" "kt_state thr \<noteq> KT_EXITED"
  shows "sched_inv s' \<and> (if t = curthr s' then \<forall>q. t \<notin> set (qlist s' q)
     else \<exists>q. kt_wchan thr = Some q \<and> state_fits q (kt_state thr) \<and> t \<in> set (qlist s' q)
            \<and> distinct (qlist s' q) \<and> (\<forall>q'. q' \<noteq> q \<longrightarrow> t \<notin> set (qlist s' q')))"
proof -
  from reach inv have inv': "sched_inv s'" by (induction rule: rtranclp_induct) (auto intro: sched_step_inv [of "{kt_runq}"])
  then have ok: "thread_ok {curthr s'} t thr" and q: "queues_ok s'"
    using thr(1) by (auto simp: sched_inv_def transit_ok_def threads_ok_def)
  show ?thesis
  proof (cases "t = curthr s'")
    case True
    then show ?thesis using inv' cur_not_queued by auto
  next
    case False
    then obtain qq where w: "kt_wchan thr = Some qq" "state_fits qq (kt_state thr)"
      using ok thr(2,3) by (auto simp: thread_ok_def split: option.splits)
    then have "t \<in> set (qlist s' qq)" "distinct (qlist s' qq)" "\<forall>q'. q' \<noteq> qq \<longrightarrow> t \<notin> set (qlist s' q')"
      using q thr(1) by (auto simp: queues_ok_def)
    then show ?thesis using False inv' w by auto
  qed
qed

lemma demo_sched_inv: "sched_inv demo_sched"
  by (auto simp: sched_inv_def transit_ok_def queues_ok_def threads_ok_def thread_ok_def state_fits_def
      demo_sched_def demo_thread_def kt_runq_def)

lemma demo_sched_step: "\<exists>s'. sched_step {kt_runq} demo_sched s' \<and> threads s' 4 = Some (demo_thread KT_RUN (Some kt_runq))"
proof -
  have "\<exists>s'. sched_wakeup_on 5 demo_sched = Some (Some 4, s') \<and> threads s' 4 = Some (demo_thread KT_RUN (Some kt_runq))"
    by (simp add: sched_wakeup_on_def sched_queue_empty_def ktqueue_dequeue_def upd_thread_def upd_queue_def
        sched_make_runnable_def ktqueue_enqueue_def demo_sched_def demo_thread_def kt_runq_def Let_def)
  then show ?thesis by (metis sched_step.wakeup kt_runq_def zero_neq_numeral singletonD)
qed

theorem no_thread_is_lost_witness:
  "\<exists>s'. sched_step {kt_runq} demo_sched s' \<and> sched_inv s' \<and> (4 \<in> set (qlist s' kt_runq) \<or> curthr s' = 4)"
proof -
  obtain s' where s': "sched_step {kt_runq} demo_sched s'" "threads s' 4 = Some (demo_thread KT_RUN (Some kt_runq))"
    using demo_sched_step by blast
  then show ?thesis
    using no_thread_is_lost [of demo_sched s' 4 "demo_thread KT_RUN (Some kt_runq)"] demo_sched_inv
    by (cases "4 = curthr s'") (auto simp: demo_thread_def)
qed

text \<open>A thread queue is first-in first-out: threads that enter it behind those already waiting
  leave it in exactly the order of their arrival, none lost and none doubled.\<close>

theorem ktqueue_first_in_first_out:
  assumes "queues_ok s" and "idle_threads ts s"
  shows "\<exists>s1 s2. enqueue_many (ktqueue_enqueue q) ts s = Some s1
     \<and> dequeue_many (ktqueue_dequeue q) (length (qlist s q) + length ts) s1 = Some (rev (qlist s q) @ ts, s2)
     \<and> qlist s2 q = []"
  using ktq.through_in_order [OF assms, of q] by simp

theorem ktqueue_first_in_first_out_witness:
  "\<exists>s1 s2. enqueue_many (ktqueue_enqueue 5) [1] demo_sched = Some s1
     \<and> dequeue_many (ktqueue_dequeue 5) 3 s1 = Some ([4, 6, 1], s2)"
proof -
  have "queues_ok demo_sched" using demo_sched_inv by (simp add: sched_inv_def transit_ok_def)
  moreover have "idle_threads [1] demo_sched" by (simp add: idle_threads_def demo_sched_def demo_thread_def)
  ultimately show ?thesis
    using ktqueue_first_in_first_out [of demo_sched "[1]" 5] by (simp add: demo_sched_def numeral_3_eq_3) blast
qed

text \<open>Sleeping never fails an assertion: the running thread goes to the end of the queue, every
  other queue that no interrupt touches stays as it is, and the processor goes to the thread that has
  waited longest on the run queue, with the current process set to its process; with an empty run
  queue and no interrupt to come the processor halts.  A cancellable sleep of a cancelled thread
  returns at once.\<close>

theorem sched_sleep_on_correct:
  assumes inv: "sched_inv s" and thr: "threads s (curthr s) = Some thr" "kt_state thr = KT_RUN"
    and q: "q \<noteq> kt_runq" and intr: "kt_runq \<notin> intr_queues is" "q \<notin> intr_queues is"
  shows "(\<exists>r. sched_sleep_on is q s = Some r \<and> (case r of
            Running s' _ \<Rightarrow> sched_inv s' \<and> qlist s' q = curthr s # qlist s q
              \<and> (qlist s kt_runq \<noteq> [] \<longrightarrow> curthr s' = last (qlist s kt_runq))
              \<and> (\<forall>q'. q' \<notin> {q, kt_runq} \<union> intr_queues is \<longrightarrow> qlist s' q' = qlist s q')
          | Halted s' \<Rightarrow> qlist s' kt_runq = [] \<and> qlist s' q = curthr s # qlist s q))
       \<and> (if kt_cancelled thr then sched_cancellable_sleep_on is q s = Some (Inl EINTR)
          else \<exists>r. sched_cancellable_sleep_on is q s = Some (Inr r)
                 \<and> (\<forall>s' is'. r = Running s' is' \<longrightarrow> sched_inv s' \<and> qlist s' q = curthr s # qlist s q))"
proof -
  have eff: "case r of
            Running s' _ \<Rightarrow> sched_inv s' \<and> qlist s' q = curthr s # qlist s q
              \<and> (qlist s kt_runq \<noteq> [] \<longrightarrow> curthr s' = last (qlist s kt_runq))
              \<and> (\<forall>q'. q' \<notin> {q, kt_runq} \<union> intr_queues is \<longrightarrow> qlist s' q' = qlist s q')
          | Halted s' \<Rightarrow> qlist s' kt_runq = [] \<and> qlist s' q = curthr s # qlist s q"
    if "switched_ok {} (intr_queues is) s2 r" "qlist s2 q = curthr s # qlist s q"
      "\<forall>q'. q' \<noteq> q \<longrightarrow> qlist s2 q' = qlist s q'" for s2 r
    using that q intr(2) switched_inv [of _ s2] by (cases r) (fastforce simp: switched_ok_def same_sleepers_def)+
  note sl = sched_inv_sleep [OF inv q intr(1) thr(1)]
  show ?thesis
  proof (intro conjI)
    show "\<exists>r. sched_sleep_on is q s = Some r \<and> (case r of
            Running s' _ \<Rightarrow> sched_inv s' \<and> qlist s' q = curthr s # qlist s q
              \<and> (qlist s kt_runq \<noteq> [] \<longrightarrow> curthr s' = last (qlist s kt_runq))
              \<and> (\<forall>q'. q' \<notin> {q, kt_runq} \<union> intr_queues is \<longrightarrow> qlist s' q' = qlist s q')
          | Halted s' \<Rightarrow> qlist s' kt_runq = [] \<and> qlist s' q = curthr s # qlist s q)"
      using sl(1) [OF thr(2)] eff by blast
    show "if kt_cancelled thr then sched_cancellable_sleep_on is q s = Some (Inl EINTR)
          else \<exists>r. sched_cancellable_sleep_on is q s = Some (Inr r)
                 \<and> (\<forall>s' is'. r = Running s' is' \<longrightarrow> sched_inv s' \<and> qlist s' q = curthr s # qlist s q)"
      using sl(2,3) eff by (cases "kt_cancelled thr") fastforce+
  qed
qed

theorem sched_sleep_on_correct_witness:
  "\<exists>s' is'. sched_sleep_on [] 5 demo_sched = Some (Running s' is') \<and> curthr s' = 3 \<and> qlist s' 5 = [1, 6, 4]"
proof -
  have "threads demo_sched (curthr demo_sched) = Some (demo_thread KT_RUN None)" "kt_state (demo_thread KT_RUN None) = KT_RUN"
    and q: "qlist demo_sched kt_runq = [2, 3]" "qlist demo_sched 5 = [6, 4]" "curthr demo_sched = 1" "(5 :: nat) \<noteq> kt_runq"
    by (simp_all add: demo_sched_def demo_thread_def kt_runq_def)
  moreover have "sched_sleep_on [] 5 demo_sched = Some r \<Longrightarrow> \<exists>s' is'. r = Running s' is'" for r
    by (auto simp: sched_sleep_on_def sched_switch_def switch_next_def ktqueue_dequeue_def ktqueue_enqueue_def
        upd_thread_def upd_queue_def demo_sched_def demo_thread_def kt_runq_def sched_queue_empty_def Let_def)
  ultimately show ?thesis
    using sched_sleep_on_correct [OF demo_sched_inv, of "demo_thread KT_RUN None" 5 "[]"]
    by (fastforce simp: intr_queues_def)
qed

end
