(* ===== verification/Kmutex.thy ===== *)
theory Kmutex
  imports Sched
begin

section \<open>Kernel mutexes\<close>

text \<open>
  \<^verbatim>\<open>vm-submit/kernel/proc/kmutex.c\<close> on top of the scheduler.

  A lock operation either finishes at once or puts the calling thread to sleep; in the second case
  it returns when the thread runs again.  \<open>lock_step\<close> makes this explicit: \<open>pc\<close> records which threads
  are inside a lock operation, and \<open>owns\<close> those for which the last lock operation has returned
  success and that have not unlocked since.  The properties: with \<^verbatim>\<open>kmutex_lock\<close> at most one
  thread owns the mutex, under every interleaving with other activity of the kernel; unlocking hands
  the mutex to the thread that has waited longest; and the cancellable variant breaks this, since it
  reports success to a thread that was only cancelled.
\<close>

record kmutex =
  km_waitq :: qid
  km_holder :: "tid option"

definition kmutex_init :: "kmutex \<Rightarrow> sched \<Rightarrow> kmutex \<times> sched" where
  "kmutex_init mtx s = (mtx\<lparr>km_holder := None\<rparr>, sched_queue_init (km_waitq mtx) s)"

datatype lock_result = Acquired kmutex | Asleep switched | Refused errno

definition kmutex_lock :: "interrupt list \<Rightarrow> kmutex \<Rightarrow> sched \<Rightarrow> lock_result option" where
  "kmutex_lock is mtx s = do {
     kassert (km_holder mtx \<noteq> Some (curthr s));
     if km_holder mtx \<noteq> None then do {
       r \<leftarrow> sched_sleep_on is (km_waitq mtx) s;
       Some (Asleep r) }
     else Some (Acquired (mtx\<lparr>km_holder := Some (curthr s)\<rparr>)) }"

definition kmutex_lock_cancellable :: "interrupt list \<Rightarrow> kmutex \<Rightarrow> sched \<Rightarrow> lock_result option" where
  "kmutex_lock_cancellable is mtx s = do {
     kassert (km_holder mtx \<noteq> Some (curthr s));
     if km_holder mtx \<noteq> None then do {
       result \<leftarrow> sched_cancellable_sleep_on is (km_waitq mtx) s;
       Some (case result of Inl e \<Rightarrow> Refused e | Inr r \<Rightarrow> Asleep r) }
     else Some (Acquired (mtx\<lparr>km_holder := Some (curthr s)\<rparr>)) }"

definition kmutex_unlock :: "kmutex \<Rightarrow> sched \<Rightarrow> (kmutex \<times> sched) option" where
  "kmutex_unlock mtx s = do {
     kassert (km_holder mtx = Some (curthr s));
     let mtx1 = mtx\<lparr>km_holder := None\<rparr>;
     kassert (km_holder mtx1 \<noteq> Some (curthr s));
     if \<not> sched_queue_empty (km_waitq mtx1) s then do {
       (t, s1) \<leftarrow> sched_wakeup_on (km_waitq mtx1) s;
       Some (mtx1\<lparr>km_holder := t\<rparr>, s1) }
     else Some (mtx1, s) }"

subsection \<open>A kernel with one mutex\<close>

datatype activity = Outside | In_lock

record msys =
  msched :: sched
  mutex :: kmutex
  pc :: "tid \<Rightarrow> activity"
  owns :: "tid set"

text \<open>
  The steps of the running thread: it locks, returns from a lock operation that had to sleep,
  unlocks a mutex it owns, or does anything else that leaves the mutex alone.  \<open>c\<close> tells whether
  the cancellable lock is used as well.
\<close>

inductive lock_step :: "bool \<Rightarrow> msys \<Rightarrow> msys \<Rightarrow> bool" for c where
  lock_now: "pc k (curthr (msched k)) = Outside \<Longrightarrow> kmutex_lock is (mutex k) (msched k) = Some (Acquired m) \<Longrightarrow>
    lock_step c k (k\<lparr>mutex := m, owns := insert (curthr (msched k)) (owns k)\<rparr>)"
| lock_sleep: "pc k (curthr (msched k)) = Outside \<Longrightarrow>
    kmutex_lock is (mutex k) (msched k) = Some (Asleep (Running s' is')) \<Longrightarrow>
    intr_queues is \<inter> {kt_runq, km_waitq (mutex k)} = {} \<Longrightarrow>
    lock_step c k (k\<lparr>msched := s', pc := (pc k)(curthr (msched k) := In_lock)\<rparr>)"
| clock_now: "c \<Longrightarrow> pc k (curthr (msched k)) = Outside \<Longrightarrow>
    kmutex_lock_cancellable is (mutex k) (msched k) = Some (Acquired m) \<Longrightarrow>
    lock_step c k (k\<lparr>mutex := m, owns := insert (curthr (msched k)) (owns k)\<rparr>)"
| clock_sleep: "c \<Longrightarrow> pc k (curthr (msched k)) = Outside \<Longrightarrow>
    kmutex_lock_cancellable is (mutex k) (msched k) = Some (Asleep (Running s' is')) \<Longrightarrow>
    intr_queues is \<inter> {kt_runq, km_waitq (mutex k)} = {} \<Longrightarrow>
    lock_step c k (k\<lparr>msched := s', pc := (pc k)(curthr (msched k) := In_lock)\<rparr>)"
| lock_return: "pc k (curthr (msched k)) = In_lock \<Longrightarrow>
    lock_step c k (k\<lparr>pc := (pc k)(curthr (msched k) := Outside), owns := insert (curthr (msched k)) (owns k)\<rparr>)"
| unlock: "pc k (curthr (msched k)) = Outside \<Longrightarrow> curthr (msched k) \<in> owns k \<Longrightarrow>
    kmutex_unlock (mutex k) (msched k) = Some (m, s') \<Longrightarrow>
    lock_step c k (k\<lparr>msched := s', mutex := m, owns := owns k - {curthr (msched k)}\<rparr>)"
| other: "pc k (curthr (msched k)) = Outside \<Longrightarrow> sched_step {kt_runq, km_waitq (mutex k)} (msched k) s' \<Longrightarrow>
    lock_step c k (k\<lparr>msched := s'\<rparr>)"

definition unlocked :: "msys \<Rightarrow> bool" where
  "unlocked k \<longleftrightarrow> sched_inv (msched k) \<and> km_waitq (mutex k) \<noteq> kt_runq \<and> km_holder (mutex k) = None
     \<and> qlist (msched k) (km_waitq (mutex k)) = [] \<and> (\<forall>t. pc k t = Outside) \<and> owns k = {}"

text \<open>The invariant of a kernel in which only the plain lock is used.\<close>

definition mutex_inv :: "msys \<Rightarrow> bool" where
  "mutex_inv k \<longleftrightarrow> (let s = msched k; q = km_waitq (mutex k); h = km_holder (mutex k) in
     sched_inv s \<and> q \<noteq> kt_runq
     \<and> (\<forall>t\<in>set (qlist s q). pc k t = In_lock \<and> h \<noteq> Some t \<and> map_option kt_state (threads s t) = Some KT_SLEEP)
     \<and> (\<forall>t. pc k t = In_lock \<longrightarrow> t \<in> set (qlist s q) \<or> h = Some t)
     \<and> (\<forall>t\<in>owns k. h = Some t \<and> pc k t = Outside)
     \<and> (qlist s q \<noteq> [] \<longrightarrow> h \<noteq> None))"

text \<open>
  A run in which thread 2 asks for the mutex with the cancellable lock while thread 1 has it and is
  cancelled while it waits; thread 1 sleeps on queue 8 in between.
\<close>

definition run_of :: "sched \<Rightarrow> switched option \<Rightarrow> sched" where
  "run_of s r = (case r of Some (Running s' _) \<Rightarrow> s' | _ \<Rightarrow> s)"

definition race0 :: sched where
  "race0 = \<lparr>threads = [1 \<mapsto> demo_thread KT_RUN None, 2 \<mapsto> demo_thread KT_RUN (Some kt_runq)],
     queues = (\<lambda>_. \<lparr>tq_list = [], tq_size = 0\<rparr>)(kt_runq := \<lparr>tq_list = [2], tq_size = 1\<rparr>),
     curthr = 1, curproc = 7, cur_ipl = IPL_LOW\<rparr>"

definition race_mutex :: kmutex where
  "race_mutex = \<lparr>km_waitq = 5, km_holder = None\<rparr>"

definition race1 :: sched where
  "race1 = run_of race0 (sched_sleep_on [] 8 race0)"

definition race2 :: sched where
  "race2 = (case sched_wakeup_on 8 race1 of Some (_, s) \<Rightarrow> s | None \<Rightarrow> race1)"

definition race3 :: sched where
  "race3 = (case sched_cancellable_sleep_on [] 5 race2 of Some (Inr r) \<Rightarrow> run_of race2 (Some r) | _ \<Rightarrow> race2)"

definition race4 :: sched where
  "race4 = (case sched_cancel 2 race3 of Some s \<Rightarrow> s | None \<Rightarrow> race3)"

definition race5 :: sched where
  "race5 = run_of race4 (sched_sleep_on [] 8 race4)"

definition race_start :: msys where
  "race_start = \<lparr>msched = race0, mutex = race_mutex, pc = (\<lambda>_. Outside), owns = {}\<rparr>"

lemma mutex_invI:
  assumes "sched_inv s" and "q \<noteq> kt_runq"
    and "\<And>t. t \<in> set (qlist s q) \<Longrightarrow> pc k t = In_lock \<and> h \<noteq> Some t \<and> map_option kt_state (threads s t) = Some KT_SLEEP"
    and "\<And>t. pc k t = In_lock \<Longrightarrow> t \<in> set (qlist s q) \<or> h = Some t"
    and "\<And>t. t \<in> owns k \<Longrightarrow> h = Some t \<and> pc k t = Outside"
    and "qlist s q \<noteq> [] \<Longrightarrow> h \<noteq> None"
    and "s = msched k" and "q = km_waitq (mutex k)" and "h = km_holder (mutex k)"
  shows "mutex_inv k"
  unfolding mutex_inv_def Let_def using assms by auto

lemma mutex_invD:
  assumes "mutex_inv k" and "s = msched k" and "q = km_waitq (mutex k)" and "h = km_holder (mutex k)"
  shows "sched_inv s" and "q \<noteq> kt_runq"
    and "\<And>t. t \<in> set (qlist s q) \<Longrightarrow> pc k t = In_lock \<and> h \<noteq> Some t \<and> map_option kt_state (threads s t) = Some KT_SLEEP"
    and "\<And>t. pc k t = In_lock \<Longrightarrow> t \<in> set (qlist s q) \<or> h = Some t"
    and "\<And>t. t \<in> owns k \<Longrightarrow> h = Some t \<and> pc k t = Outside"
    and "qlist s q \<noteq> [] \<Longrightarrow> h \<noteq> None"
  using assms unfolding mutex_inv_def Let_def by auto

lemma unlocked_inv: "unlocked k \<Longrightarrow> mutex_inv k"
  by (auto simp: unlocked_def mutex_inv_def)

lemma lock_sleep_inv:
  assumes inv: "mutex_inv k" and out: "pc k (curthr (msched k)) = Outside"
    and l: "kmutex_lock is (mutex k) (msched k) = Some (Asleep (Running s' is'))"
    and i: "intr_queues is \<inter> {kt_runq, km_waitq (mutex k)} = {}"
  shows "mutex_inv (k\<lparr>msched := s', pc := (pc k)(curthr (msched k) := In_lock)\<rparr>)"
proof -
  define s where "s = msched k"
  define q where "q = km_waitq (mutex k)"
  define h where "h = km_holder (mutex k)"
  note I = mutex_invD [OF inv s_def q_def h_def]
  have h: "h \<noteq> Some (curthr s)" "h \<noteq> None" and sl: "sched_sleep_on is q s = Some (Running s' is')"
    using l by (auto simp: kmutex_lock_def s_def q_def h_def bind_eq_Some_conv split: if_splits)
  obtain thr where thr: "threads s (curthr s) = Some thr" "kt_state thr = KT_RUN"
    using sl by (auto simp: sched_sleep_on_def bind_eq_Some_conv)
  have i': "kt_runq \<notin> intr_queues is" "q \<notin> intr_queues is" using i by (auto simp: q_def)
  from sched_sleep_effect [OF I(1) thr I(2) i' sl]
  have s': "sched_inv s'" "qlist s' q = curthr s # qlist s q"
    and st: "map_option kt_state (threads s' (curthr s)) = Some KT_SLEEP"
    "\<And>t. t \<in> set (qlist s q) \<Longrightarrow> map_option kt_state (threads s' t) = map_option kt_state (threads s t)"
    by auto
  have st': "map_option kt_state (threads s' t) = Some KT_SLEEP" if "t \<in> set (qlist s q)" for t
    using st(2) I(3) that by simp
  show ?thesis
    by (rule mutex_invI [OF s'(1) I(2), where h = h])
      (use s'(2) st(1) st' I(3-5) h out in
        \<open>auto simp: s_def q_def h_def simp del: map_option_eq_Some split: if_splits\<close>)
qed

lemma unlock_inv:
  assumes inv: "mutex_inv k" and own: "curthr (msched k) \<in> owns k"
    and u: "kmutex_unlock (mutex k) (msched k) = Some (m, s')"
  shows "mutex_inv (k\<lparr>msched := s', mutex := m, owns := owns k - {curthr (msched k)}\<rparr>)"
proof -
  define s where "s = msched k"
  define q where "q = km_waitq (mutex k)"
  define h where "h = km_holder (mutex k)"
  note I = mutex_invD [OF inv s_def q_def h_def]
  have h: "h = Some (curthr s)" and out: "pc k (curthr s) = Outside"
    using I(5) [of "curthr s"] own by (simp_all add: s_def)
  have none: "owns k - {curthr s} = {}"
  proof -
    have "t = curthr s" if "t \<in> owns k" for t using I(5) [OF that] h by simp
    then show ?thesis by blast
  qed
  show ?thesis
  proof (cases "qlist s q = []")
    case True
    then have "m = (mutex k)\<lparr>km_holder := None\<rparr>" "s' = s"
      using u by (auto simp: kmutex_unlock_def Let_def sched_queue_empty_def s_def q_def)
    moreover have "pc k t \<noteq> In_lock" for t
    proof
      assume "pc k t = In_lock"
      then have "h = Some t" using I(4) [of t] True by simp
      then show False using h out \<open>pc k t = In_lock\<close> by simp
    qed
    ultimately show ?thesis
      using I(1,2) none True by (intro mutex_invI [where s = s and q = q and h = None]) (auto simp: q_def s_def)
  next
    case False
    let ?t = "last (qlist s q)"
    from wakeup_ok [OF inv_transit [OF I(1)] I(2) False] obtain s1 thr where
      s1: "sched_wakeup_on q s = Some (Some ?t, s1)" "threads s ?t = Some thr"
      "threads s1 = (threads s)(?t \<mapsto> thr\<lparr>kt_state := KT_RUN, kt_wchan := Some kt_runq\<rparr>)"
      "qlist s1 q = butlast (qlist s q)" by blast
    have m: "m = (mutex k)\<lparr>km_holder := Some ?t\<rparr>" "s' = s1"
      using u False s1(1) by (auto simp: kmutex_unlock_def Let_def sched_queue_empty_def s_def q_def)
    have "sched_inv s1" using sched_inv_wakeup [OF I(1,2)] s1(1) by auto
    moreover have "set (butlast (qlist s q)) = set (qlist s q) - {?t}"
      using I(1) False by (intro set_butlast_distinct) (simp_all add: sched_inv_def transit_ok_def queues_ok_def)
    moreover have "pc k t = In_lock \<Longrightarrow> t \<in> set (qlist s q)" for t
      using I(4) [of t] h out by auto
    ultimately show ?thesis
      using I(2,3) none m s1(3,4)
      by (intro mutex_invI [where s = s1 and q = q and h = "Some ?t"])
        (auto simp: q_def s_def simp del: map_option_eq_Some split: if_splits)
  qed
qed

lemma lock_step_inv:
  assumes "lock_step False k k'" and inv: "mutex_inv k"
  shows "mutex_inv k'"
  using assms(1)
proof cases
  case (lock_now "is" m)
  define s where "s = msched k"
  define q where "q = km_waitq (mutex k)"
  define h where "h = km_holder (mutex k)"
  note I = mutex_invD [OF inv s_def q_def h_def]
  have "h = None" "m = (mutex k)\<lparr>km_holder := Some (curthr s)\<rparr>"
    using lock_now(3) by (auto simp: kmutex_lock_def h_def s_def bind_eq_Some_conv split: if_splits)
  moreover from this have "owns k = {}" "qlist s q = []" "\<And>t. pc k t \<noteq> In_lock"
    using I(4-6) by fastforce+
  ultimately show ?thesis
    using I(1,2) lock_now(1,2)
    by (intro mutex_invI [where s = s and q = q and h = "Some (curthr s)"]) (auto simp: s_def q_def)
next
  case (lock_sleep "is" s' is')
  then show ?thesis using lock_sleep_inv [OF inv] by simp
next
  case lock_return
  define s where "s = msched k"
  define q where "q = km_waitq (mutex k)"
  define h where "h = km_holder (mutex k)"
  note I = mutex_invD [OF inv s_def q_def h_def]
  have nq: "curthr s \<notin> set (qlist s q)" using cur_not_queued [OF I(1)] .
  then have "h = Some (curthr s)" using I(4) lock_return(2) by (auto simp: s_def)
  then show ?thesis
    using I nq lock_return(1)
    by (intro mutex_invI [where s = s and q = q and h = h])
      (auto simp: s_def q_def h_def simp del: map_option_eq_Some split: if_splits)
next
  case (unlock m s')
  then show ?thesis using unlock_inv [OF inv] by simp
next
  case (other s')
  define s where "s = msched k"
  define q where "q = km_waitq (mutex k)"
  define h where "h = km_holder (mutex k)"
  note I = mutex_invD [OF inv s_def q_def h_def]
  have step: "sched_step {kt_runq, q} s s'" using other by (simp add: s_def q_def)
  have "kt_state thr \<noteq> KT_SLEEP_CANCELLABLE" if "t \<in> set (qlist s q)" "threads s t = Some thr" for t thr
    using I(3) [OF that(1)] that(2) by auto
  with sched_step_sleepers [OF step _ I(1) _ I(2)]
  have "qlist s' q = qlist s q" "\<forall>t\<in>set (qlist s q). map_option kt_state (threads s' t) = map_option kt_state (threads s t)"
    by auto
  moreover have "sched_inv s'" using sched_step_inv [OF step _ I(1)] by simp
  ultimately show ?thesis
    using I(2-6) other(1) by (intro mutex_invI [where s = s' and q = q and h = h])
      (auto simp: s_def q_def h_def simp del: map_option_eq_Some)
qed auto

lemmas sched_eval = sched_sleep_on_def sched_cancellable_sleep_on_def sched_switch_def switch_next_def
  ktqueue_dequeue_def ktqueue_enqueue_def ktqueue_remove_def upd_thread_def upd_queue_def sched_queue_empty_def
  sched_wakeup_on_def sched_make_runnable_def sched_cancel_def Let_def

lemma race1_eq: "sched_sleep_on [] 8 race0 = Some (Running race1 [])"
  by (simp add: race1_def run_of_def sched_eval race0_def demo_thread_def kt_runq_def)

lemma race2_eq: "sched_wakeup_on 8 race1 = Some (Some 1, race2)"
  by (simp add: race1_def race2_def run_of_def sched_eval race0_def demo_thread_def kt_runq_def)

lemma race3_eq: "sched_cancellable_sleep_on [] 5 race2 = Some (Inr (Running race3 []))"
  by (simp add: race1_def race2_def race3_def run_of_def sched_eval race0_def demo_thread_def kt_runq_def)

lemma race4_eq: "sched_cancel 2 race3 = Some race4"
  by (simp add: race1_def race2_def race3_def race4_def run_of_def sched_eval race0_def demo_thread_def kt_runq_def)

lemma race5_eq: "sched_sleep_on [] 8 race4 = Some (Running race5 [])"
  by (simp add: race1_def race2_def race3_def race4_def race5_def run_of_def sched_eval race0_def demo_thread_def kt_runq_def)

lemma race_cur: "curthr race0 = 1" "curthr race1 = 2" "curthr race2 = 2" "curthr race3 = 1" "curthr race4 = 1" "curthr race5 = 2"
  by (simp_all add: race1_def race2_def race3_def race4_def race5_def run_of_def sched_eval race0_def demo_thread_def kt_runq_def)

lemma race_run:
  "\<exists>k. (lock_step True)\<^sup>*\<^sup>* race_start k \<and> owns k = {1, 2} \<and> km_holder (mutex k) = Some 1"
proof -
  define m where "m = race_mutex\<lparr>km_holder := Some 1\<rparr>"
  define K where "K = (\<lambda>s p Own. \<lparr>msched = s, mutex = m, pc = p, owns = Own\<rparr>)"
  define out where "out = (\<lambda>_ :: tid. Outside)"
  define p2 where "p2 = out(2 := In_lock)"
  have Ksel [simp]: "msched (K s p A) = s" "mutex (K s p A) = m" "pc (K s p A) = p" "owns (K s p A) = A"
    "(K s p A)\<lparr>msched := s'\<rparr> = K s' p A" "(K s p A)\<lparr>pc := p'\<rparr> = K s p' A" "(K s p A)\<lparr>owns := A'\<rparr> = K s p A'" for s p A s' p' A'
    by (simp_all add: K_def)
  have q: "km_waitq m = 5" "(8 :: nat) \<notin> {kt_runq, 5}" by (simp_all add: m_def race_mutex_def kt_runq_def)
  have s1: "lock_step True race_start (K race0 out {1})"
    using lock_step.lock_now [of race_start "[]" m True]
    by (simp add: race_start_def kmutex_lock_def race_mutex_def m_def race_cur K_def out_def)
  have s2: "lock_step True (K race0 out {1}) (K race1 out {1})"
    using lock_step.other [of "K race0 out {1}" race1 True] sched_step.sleep [OF race1_eq, of "{kt_runq, 5}"] q
    by (simp add: out_def intr_queues_def)
  have s3: "lock_step True (K race1 out {1}) (K race2 out {1})"
    using lock_step.other [of "K race1 out {1}" race2 True] sched_step.wakeup [OF race2_eq, of "{kt_runq, 5}"] q
    by (simp add: out_def)
  have s4: "lock_step True (K race2 out {1}) (K race3 p2 {1})"
    using lock_step.clock_sleep [of True "K race2 out {1}" "[]" race3 "[]"] race3_eq q
    by (simp add: kmutex_lock_cancellable_def race_cur out_def p2_def intr_queues_def m_def)
  have s5: "lock_step True (K race3 p2 {1}) (K race4 p2 {1})"
    using lock_step.other [of "K race3 p2 {1}" race4 True] sched_step.cancel [OF race4_eq, of "{kt_runq, 5}"] q
    by (simp add: out_def p2_def race_cur)
  have s6: "lock_step True (K race4 p2 {1}) (K race5 p2 {1})"
    using lock_step.other [of "K race4 p2 {1}" race5 True] sched_step.sleep [OF race5_eq, of "{kt_runq, 5}"] q
    by (simp add: out_def p2_def race_cur intr_queues_def)
  have s7: "lock_step True (K race5 p2 {1}) (K race5 (p2(2 := Outside)) {2, 1})"
    using lock_step.lock_return [of "K race5 p2 {1}" True] by (simp add: p2_def race_cur)
  have "(lock_step True)\<^sup>*\<^sup>* race_start (K race5 (p2(2 := Outside)) {2, 1})"
    using s1 s2 s3 s4 s5 s6 s7 by (meson rtranclp.rtrancl_refl rtranclp.rtrancl_into_rtrancl)
  moreover have "km_holder m = Some 1" by (simp add: m_def)
  ultimately show ?thesis by (metis Ksel(2,4) insert_commute)
qed

lemma race_start_unlocked: "unlocked race_start"
  by (auto simp: unlocked_def race_start_def race_mutex_def race0_def sched_inv_def transit_ok_def queues_ok_def
      threads_ok_def thread_ok_def state_fits_def demo_thread_def kt_runq_def)

subsection \<open>Properties\<close>

text \<open>C4: Mutual exclusion.  Starting from a free mutex, under every interleaving of locking,
  sleeping, waking, cancelling, unlocking and other activity of the kernel and its interrupts, at
  most one thread owns a mutex that is taken with \<^verbatim>\<open>kmutex_lock\<close>, it is the thread the mutex names
  as its holder, and no thread waits for a mutex that is free.\<close>

theorem kmutex_mutual_exclusion:
  assumes "(lock_step False)\<^sup>*\<^sup>* k k'" and "unlocked k" and "t \<in> owns k'" and "u \<in> owns k'"
  shows "t = u \<and> km_holder (mutex k') = Some t
     \<and> (\<forall>v. pc k' v = In_lock \<longrightarrow> v \<in> set (qlist (msched k') (km_waitq (mutex k'))))"
proof -
  have "mutex_inv k'"
    using assms(1) unlocked_inv [OF assms(2)] by (induction rule: rtranclp_induct) (auto intro: lock_step_inv)
  note I = mutex_invD [OF this refl refl refl]
  have "v \<in> set (qlist (msched k') (km_waitq (mutex k')))" if "pc k' v = In_lock" for v
    using I(4) [OF that] I(5) [OF assms(3)] that by auto
  then show ?thesis using I(5) [OF assms(3)] I(5) [OF assms(4)] by auto
qed

theorem kmutex_mutual_exclusion_witness:
  "\<exists>k. lock_step False race_start k \<and> 1 \<in> owns k \<and> km_holder (mutex k) = Some 1"
proof -
  let ?k = "race_start\<lparr>mutex := race_mutex\<lparr>km_holder := Some 1\<rparr>, owns := {1}\<rparr>"
  have "lock_step False race_start ?k"
    using lock_step.lock_now [of race_start "[]" "race_mutex\<lparr>km_holder := Some 1\<rparr>" False]
    by (simp add: race_start_def kmutex_lock_def race_mutex_def race_cur)
  moreover from this have "(lock_step False)\<^sup>*\<^sup>* race_start ?k" by (rule r_into_rtranclp [of "lock_step False"])
  ultimately show ?thesis
    using kmutex_mutual_exclusion [of race_start ?k 1 1] race_start_unlocked by auto
qed

text \<open>C19: Unlocking never blocks: the mutex passes to the thread that has waited longest, which
  becomes runnable and leaves the wait queue, while the others stay in their order; with nobody
  waiting the mutex becomes free.  Locking a free mutex makes the running thread its holder, and
  unlocking a mutex one does not hold, or locking one that one holds, is an assertion failure.\<close>

theorem kmutex_unlock_hands_over:
  assumes inv: "sched_inv s" and q: "km_waitq mtx \<noteq> kt_runq" and h: "km_holder mtx = Some (curthr s)"
  shows "(\<exists>mtx' s'. kmutex_unlock mtx s = Some (mtx', s') \<and> sched_inv s' \<and> curthr s' = curthr s
       \<and> (let w = qlist s (km_waitq mtx) in
          if w = [] then km_holder mtx' = None \<and> s' = s
          else km_holder mtx' = Some (last w) \<and> qlist s' (km_waitq mtx) = butlast w
             \<and> qlist s' kt_runq = last w # qlist s kt_runq))
     \<and> kmutex_lock is mtx s = None
     \<and> (\<forall>mtx. km_holder mtx \<noteq> Some (curthr s) \<longrightarrow> kmutex_unlock mtx s = None)
     \<and> (\<forall>mtx. km_holder mtx = None \<longrightarrow> kmutex_lock is mtx s = Some (Acquired (mtx\<lparr>km_holder := Some (curthr s)\<rparr>)))"
proof (intro conjI allI impI)
  show "\<exists>mtx' s'. kmutex_unlock mtx s = Some (mtx', s') \<and> sched_inv s' \<and> curthr s' = curthr s
       \<and> (let w = qlist s (km_waitq mtx) in
          if w = [] then km_holder mtx' = None \<and> s' = s
          else km_holder mtx' = Some (last w) \<and> qlist s' (km_waitq mtx) = butlast w
             \<and> qlist s' kt_runq = last w # qlist s kt_runq)"
  proof (cases "qlist s (km_waitq mtx) = []")
    case True
    then show ?thesis using inv h by (simp add: kmutex_unlock_def sched_queue_empty_def Let_def)
  next
    case False
    then show ?thesis
      using wakeup_ok [OF inv_transit [OF inv] q False] sched_inv_wakeup [OF inv q] h
      by (auto simp: kmutex_unlock_def sched_queue_empty_def Let_def)
  qed
qed (auto simp: kmutex_lock_def kmutex_unlock_def h)

theorem kmutex_unlock_hands_over_witness:
  "\<exists>mtx' s'. kmutex_unlock \<lparr>km_waitq = 5, km_holder = Some 1\<rparr> demo_sched = Some (mtx', s')
     \<and> km_holder mtx' = Some 4 \<and> qlist s' 5 = [6]"
proof -
  have "(5 :: nat) \<noteq> kt_runq" "curthr demo_sched = 1" "qlist demo_sched 5 = [6, 4]"
    by (simp_all add: kt_runq_def demo_sched_def)
  with kmutex_unlock_hands_over [OF demo_sched_inv, of "\<lparr>km_waitq = 5, km_holder = Some 1\<rparr>" "[]"] show ?thesis
    by auto
qed

text \<open>With the cancellable lock mutual exclusion fails: a thread that is cancelled while it waits is
  made runnable without being given the mutex, and its lock operation returns 0 all the same, so that
  two threads own the mutex.\<close>

theorem kmutex_cancellable_two_owners:
  "\<exists>k k'. unlocked k \<and> (lock_step True)\<^sup>*\<^sup>* k k' \<and> owns k' = {1, 2} \<and> km_holder (mutex k') = Some 1"
  using race_run race_start_unlocked by blast

end
