(* ===== verification/Proc.thy ===== *)
theory Proc
  imports Sched
begin

section \<open>Processes and kernel threads\<close>

text \<open>
  \<^verbatim>\<open>vm-submit/kernel/proc/proc.c\<close> and \<^verbatim>\<open>kthread.c\<close>: process identifiers, creation, exit, the process
  tree, waiting for children, and the threads of a process.

  \<^item> A process is a record at an address (\<open>proc_ptr\<close>); the kernel state holds them together with the
    list of all processes, the init process and the scheduler.
  \<^item> References to files, vnodes, address spaces and page directories are recorded as events; the
    functions that take them are other components or are not part of the repository.
  \<^item> A thread that goes to sleep or exits does not return to its caller now: \<open>Gone\<close>.  A process that
    waits for a child repeats \<open>wait_any\<close> or \<open>wait_for\<close> each time it is woken up.
  \<^item> \<^verbatim>\<open>PROC_MAX_COUNT\<close>, \<^verbatim>\<open>NFILES\<close>, \<^verbatim>\<open>PROC_NAME_LEN\<close>, \<^verbatim>\<open>DEFAULT_STACK_SIZE\<close> and the root vnode are
    fields of \<open>kconfig\<close>; what the allocators return and what \<^verbatim>\<open>context_setup\<close> builds are arguments.

  The properties: \<^verbatim>\<open>_proc_getid\<close> terminates with a free identifier whenever there is one; creation,
  exit and reaping keep the process tree consistent; \<^verbatim>\<open>do_waitpid\<close> answers, blocks or fails exactly
  as it should; an exiting child wakes its waiting parent; and the status given to \<^verbatim>\<open>do_exit\<close> never
  reaches it.
\<close>

datatype p_state = PROC_RUNNING | PROC_DEAD

record proc =
  p_pid :: int
  p_comm :: string
  p_threads :: "tid list"
  p_children :: "proc_ptr list"
  p_pproc :: "proc_ptr option"
  p_status :: int
  p_state :: p_state
  p_wait :: qid
  p_pagedir :: nat
  p_files :: "nat option list"
  p_cwd :: nat
  p_brk :: u32
  p_start_brk :: u32
  p_vmmap :: "nat option"

datatype kevent = Fput nat | Vput nat | Vref nat | Vmmap_destroyed "nat option" | Pagedir_destroyed nat
  | Stack_freed u32

record kernel =
  ksched :: sched
  procs :: "proc_ptr \<rightharpoonup> proc"
  proc_list :: "proc_ptr list"
  next_pid :: int
  initproc :: "proc_ptr option"
  kevents :: "kevent list"

record kconfig =
  PROC_MAX_COUNT :: int
  NFILES :: nat
  PROC_NAME_LEN :: nat
  DEFAULT_STACK_SIZE :: u32
  vfs_root_vn :: nat

definition PID_IDLE :: int where "PID_IDLE = 0"
definition PID_INIT :: int where "PID_INIT = 1"

abbreviation kcur :: "kernel \<Rightarrow> proc_ptr" where
  "kcur k \<equiv> curproc (ksched k)"

definition upd_proc :: "proc_ptr \<Rightarrow> (proc \<Rightarrow> proc) \<Rightarrow> kernel \<Rightarrow> kernel option" where
  "upd_proc p f k = do { pr \<leftarrow> procs k p; Some (k\<lparr>procs := (procs k)(p \<mapsto> f pr)\<rparr>) }"

definition log_event :: "kevent \<Rightarrow> kernel \<Rightarrow> kernel" where
  "log_event e k = k\<lparr>kevents := kevents k @ [e]\<rparr>"

definition pid_of :: "kernel \<Rightarrow> proc_ptr \<Rightarrow> int option" where
  "pid_of k p = map_option p_pid (procs k p)"

definition all_pids :: "kernel \<Rightarrow> int list" where
  "all_pids k = map (\<lambda>p. case procs k p of None \<Rightarrow> - 2 | Some pr \<Rightarrow> p_pid pr) (proc_list k)"

definition proc_init :: "kernel \<Rightarrow> kernel" where
  "proc_init k = k\<lparr>proc_list := []\<rparr>"

subsection \<open>Process identifiers\<close>

partial_function (option) getid_loop :: "int \<Rightarrow> int list \<Rightarrow> int \<Rightarrow> int \<Rightarrow> int option" where
  "getid_loop mx pids next pid =
     (if pid \<in> set pids then
        (let pid' = (pid + 1) mod mx in if pid' = next then Some (- 1) else getid_loop mx pids next pid')
      else Some pid)"

definition proc_getid :: "int \<Rightarrow> int list \<Rightarrow> int \<Rightarrow> (int \<times> int) option" where
  "proc_getid mx pids next = do {
     pid \<leftarrow> getid_loop mx pids next next;
     Some (if pid = - 1 then (- 1, next) else (pid, (pid + 1) mod mx)) }"

subsection \<open>Creating a process\<close>

record proc_alloc =
  new_ptr :: "proc_ptr option"
  new_wait :: qid
  new_pagedir :: nat
  boot_pagedir :: nat
  new_vmmap :: "nat option"

definition proc_create :: "kconfig \<Rightarrow> proc_alloc \<Rightarrow> string \<Rightarrow> kernel \<Rightarrow> (proc_ptr \<times> kernel) option" where
  "proc_create cfg al name k = do {
     ptr \<leftarrow> new_ptr al;
     (pid, nxt) \<leftarrow> proc_getid (PROC_MAX_COUNT cfg) (all_pids k) (next_pid k);
     kassert (PID_IDLE \<noteq> pid \<or> proc_list k = []);
     _ \<leftarrow> (if PID_INIT \<noteq> pid then Some () else do { c \<leftarrow> procs k (kcur k); kassert (PID_IDLE = p_pid c) });
     let parent = (if PID_IDLE = pid then ptr else kcur k);
     (cwd, evs) \<leftarrow> (if pid = 0 then Some (vfs_root_vn cfg, [])
       else do {
         pp \<leftarrow> procs k parent;
         if p_pid pp = 0 then Some (vfs_root_vn cfg, [])
         else do { c \<leftarrow> procs k (kcur k); Some (p_cwd c, [Vref (p_cwd c)]) } });
     vm \<leftarrow> new_vmmap al;
     let pObj = \<lparr>p_pid = pid, p_comm = take (PROC_NAME_LEN cfg) name, p_threads = [], p_children = [],
       p_pproc = Some parent, p_status = 0, p_state = PROC_RUNNING, p_wait = new_wait al,
       p_pagedir = (if PID_IDLE \<noteq> pid then new_pagedir al else boot_pagedir al),
       p_files = replicate (NFILES cfg) None, p_cwd = cwd, p_brk = 0, p_start_brk = 0, p_vmmap = Some vm\<rparr>;
     let k1 = k\<lparr>next_pid := nxt, procs := (procs k)(ptr \<mapsto> pObj), kevents := kevents k @ evs,
       ksched := sched_queue_init (new_wait al) (ksched k),
       initproc := (if PID_INIT = pid then Some ptr else initproc k),
       proc_list := proc_list k @ [ptr]\<rparr>;
     k2 \<leftarrow> (if PID_IDLE \<noteq> pid
       then upd_proc parent (\<lambda>pr. pr\<lparr>p_children := p_children pr @ [ptr]\<rparr>) k1 else Some k1);
     Some (ptr, k2) }"

definition proc_lookup :: "int \<Rightarrow> kernel \<Rightarrow> proc_ptr option" where
  "proc_lookup pid k = List.find (\<lambda>p. pid_of k p = Some pid) (proc_list k)"

subsection \<open>Exit\<close>

fun put_files :: "nat option list \<Rightarrow> kernel \<Rightarrow> kernel" where
  "put_files [] k = k"
| "put_files (f # fs) k = put_files fs (case f of None \<Rightarrow> k | Some n \<Rightarrow> log_event (Fput n) k)"

text \<open>The loop that gives the children of \<open>c\<close> to the init process \<open>i\<close>.\<close>

fun reparent :: "proc_ptr list \<Rightarrow> proc_ptr \<Rightarrow> proc_ptr \<Rightarrow> kernel \<Rightarrow> kernel option" where
  "reparent [] c i k = Some k"
| "reparent (ch # chs) c i k = do {
     k1 \<leftarrow> upd_proc c (\<lambda>pr. pr\<lparr>p_children := remove1 ch (p_children pr)\<rparr>) k;
     k2 \<leftarrow> upd_proc ch (\<lambda>pr. pr\<lparr>p_pproc := Some i\<rparr>) k1;
     k3 \<leftarrow> upd_proc i (\<lambda>pr. pr\<lparr>p_children := p_children pr @ [ch]\<rparr>) k2;
     reparent chs c i k3 }"

definition proc_cleanup :: "int \<Rightarrow> kernel \<Rightarrow> kernel option" where
  "proc_cleanup status k = do {
     init \<leftarrow> initproc k;
     c \<leftarrow> procs k (kcur k);
     kassert (0 < p_pid c);
     parent \<leftarrow> p_pproc c;
     let k1 = put_files (p_files c) k;
     let k2 = log_event (Vmmap_destroyed (p_vmmap c)) (log_event (Vput (p_cwd c)) k1);
     pp \<leftarrow> procs k2 parent;
     (_, s1) \<leftarrow> sched_wakeup_on (p_wait pp) (ksched k2);
     k3 \<leftarrow> reparent (p_children c) (kcur k) init (k2\<lparr>ksched := s1\<rparr>);
     upd_proc (kcur k) (\<lambda>pr. pr\<lparr>p_state := PROC_DEAD\<rparr>) k3 }"

datatype kswitched = KRunning kernel "interrupt list" | KHalted kernel

datatype 'a kresult = Ret 'a kernel | Gone kswitched

definition lift_switch :: "kernel \<Rightarrow> switched \<Rightarrow> kswitched" where
  "lift_switch k r = (case r of
     Running s is \<Rightarrow> KRunning (k\<lparr>ksched := s\<rparr>) is
   | Halted s \<Rightarrow> KHalted (k\<lparr>ksched := s\<rparr>))"

definition proc_thread_exited :: "interrupt list \<Rightarrow> int \<Rightarrow> kernel \<Rightarrow> kswitched option" where
  "proc_thread_exited is retval k = do {
     k1 \<leftarrow> proc_cleanup retval k;
     r \<leftarrow> sched_switch is (ksched k1);
     Some (lift_switch k1 r) }"

subsection \<open>Kernel threads\<close>

definition kthread_create :: "kconfig \<Rightarrow> (u32 \<Rightarrow> nat \<Rightarrow> kcontext) \<Rightarrow> tid option \<Rightarrow> u32 \<Rightarrow> proc_ptr \<Rightarrow> kernel
    \<Rightarrow> (tid \<times> kernel) option" where
  "kthread_create cfg context_setup new stack p k = do {
     pr \<leftarrow> procs k p;
     t \<leftarrow> new;
     let thr = \<lparr>kt_state = KT_NO_STATE, kt_cancelled = False, kt_wchan = None, kt_retval = 0, kt_proc = p,
       kt_saved_ipl = None, kt_kstack = stack, kt_errno = 0, kt_ctx = context_setup stack (p_pagedir pr)\<rparr>;
     let s1 = (ksched k)\<lparr>threads := (threads (ksched k))(t \<mapsto> thr)\<rparr>;
     k1 \<leftarrow> upd_proc p (\<lambda>pr. pr\<lparr>p_threads := p_threads pr @ [t]\<rparr>) (k\<lparr>ksched := s1\<rparr>);
     Some (t, k1) }"

definition kthread_destroy :: "tid \<Rightarrow> kernel \<Rightarrow> kernel option" where
  "kthread_destroy t k = do {
     thr \<leftarrow> threads (ksched k) t;
     kassert (kt_kstack thr \<noteq> 0);
     let k1 = log_event (Stack_freed (kt_kstack thr)) k;
     k2 \<leftarrow> (case procs k1 (kt_proc thr) of
       Some pr \<Rightarrow> if t \<in> set (p_threads pr)
         then upd_proc (kt_proc thr) (\<lambda>pr. pr\<lparr>p_threads := remove1 t (p_threads pr)\<rparr>) k1 else Some k1
     | None \<Rightarrow> Some k1);
     Some (k2\<lparr>ksched := (ksched k2)\<lparr>threads := (threads (ksched k2))(t := None)\<rparr>\<rparr>) }"

definition kthread_exit :: "interrupt list \<Rightarrow> int \<Rightarrow> kernel \<Rightarrow> kswitched option" where
  "kthread_exit is retval k = do {
     let t = curthr (ksched k);
     thr \<leftarrow> threads (ksched k) t;
     kassert (kt_wchan thr = None);
     kassert (kt_proc thr = kcur k);
     s1 \<leftarrow> upd_thread t (\<lambda>thr. thr\<lparr>kt_retval := retval, kt_state := KT_EXITED\<rparr>) (ksched k);
     proc_thread_exited is retval (k\<lparr>ksched := s1\<rparr>) }"

definition kthread_cancel :: "interrupt list \<Rightarrow> tid \<Rightarrow> int \<Rightarrow> kernel \<Rightarrow> unit kresult option" where
  "kthread_cancel is t retval k =
     (if curthr (ksched k) = t then map_option Gone (kthread_exit is retval k)
      else do {
        s1 \<leftarrow> upd_thread t (\<lambda>thr. thr\<lparr>kt_retval := retval\<rparr>) (ksched k);
        s2 \<leftarrow> sched_cancel t s1;
        Some (Ret () (k\<lparr>ksched := s2\<rparr>)) })"

text \<open>\<^verbatim>\<open>kthread_clone\<close>: \<open>junk\<close> is what the new thread's \<^verbatim>\<open>kt_proc\<close> holds before the caller sets it.\<close>

definition kthread_clone :: "tid option \<Rightarrow> u32 \<Rightarrow> proc_ptr \<Rightarrow> tid \<Rightarrow> kernel \<Rightarrow> (tid \<times> kernel) option" where
  "kthread_clone new stack junk t k = do {
     thr \<leftarrow> threads (ksched k) t;
     c \<leftarrow> new;
     let cthread = thr\<lparr>kt_proc := junk, kt_kstack := stack, kt_saved_ipl := None,
       kt_ctx := (kt_ctx thr)\<lparr>c_kstack := stack\<rparr>\<rparr>;
     let s1 = (ksched k)\<lparr>threads := (threads (ksched k))(c \<mapsto> cthread)\<rparr>;
     let s2 = (case kt_wchan thr of
       None \<Rightarrow> s1
     | Some q \<Rightarrow> upd_queue q (\<lambda>w. w\<lparr>tq_list := c # tq_list w, tq_size := tq_size w + 1\<rparr>) s1);
     kassert (kt_state thr = KT_RUN);
     Some (c, k\<lparr>ksched := s2\<rparr>) }"

fun cancel_all :: "interrupt list \<Rightarrow> tid list \<Rightarrow> int \<Rightarrow> kernel \<Rightarrow> unit kresult option" where
  "cancel_all is [] retval k = Some (Ret () k)"
| "cancel_all is (t # ts) retval k = do {
     r \<leftarrow> kthread_cancel is t retval k;
     case r of Gone g \<Rightarrow> Some (Gone g) | Ret _ k1 \<Rightarrow> cancel_all is ts retval k1 }"

text \<open>\<^verbatim>\<open>do_exit\<close> passes the address of its argument, \<open>addr\<close>, on as the threads' return value.\<close>

definition do_exit :: "interrupt list \<Rightarrow> int \<Rightarrow> int \<Rightarrow> kernel \<Rightarrow> unit kresult option" where
  "do_exit is addr status k = do {
     c \<leftarrow> procs k (kcur k);
     r \<leftarrow> cancel_all is (filter (\<lambda>t. t \<noteq> curthr (ksched k)) (p_threads c)) addr k;
     case r of
       Gone g \<Rightarrow> Some (Gone g)
     | Ret _ k1 \<Rightarrow> kthread_cancel is (curthr (ksched k1)) addr k1 }"

definition proc_kill :: "interrupt list \<Rightarrow> int \<Rightarrow> proc_ptr \<Rightarrow> int \<Rightarrow> kernel \<Rightarrow> unit kresult option" where
  "proc_kill is addr p status k = do {
     pr \<leftarrow> procs k p;
     if kcur k = p then do_exit is addr status k else cancel_all is (p_threads pr) status k }"

subsection \<open>Waiting for children\<close>

definition disposeZombie :: "proc_ptr \<Rightarrow> kernel \<Rightarrow> kernel option" where
  "disposeZombie z k = do {
     pr \<leftarrow> procs k z;
     t \<leftarrow> (case p_threads pr of [] \<Rightarrow> None | t # _ \<Rightarrow> Some t);
     thr \<leftarrow> threads (ksched k) t;
     kassert (kt_state thr = KT_EXITED);
     k1 \<leftarrow> kthread_destroy t k;
     parent \<leftarrow> p_pproc pr;
     kassert (p_pagedir pr \<noteq> 0);
     let k2 = log_event (Pagedir_destroyed (p_pagedir pr)) k1;
     k3 \<leftarrow> upd_proc parent (\<lambda>q. q\<lparr>p_children := remove1 z (p_children q)\<rparr>) k2;
     Some (k3\<lparr>proc_list := remove1 z (proc_list k3), procs := (procs k3)(z := None)\<rparr>) }"

definition is_dead :: "kernel \<Rightarrow> proc_ptr \<Rightarrow> bool" where
  "is_dead k p \<longleftrightarrow> map_option p_state (procs k p) = Some PROC_DEAD"

definition reap :: "proc_ptr \<Rightarrow> kernel \<Rightarrow> ((errno + int \<times> int) kresult) option" where
  "reap z k = do {
     pr \<leftarrow> procs k z;
     k1 \<leftarrow> disposeZombie z k;
     Some (Ret (Inr (p_pid pr, p_status pr)) k1) }"

definition wait_sleep :: "interrupt list \<Rightarrow> kernel \<Rightarrow> ((errno + int \<times> int) kresult) option" where
  "wait_sleep is k = do {
     c \<leftarrow> procs k (kcur k);
     r \<leftarrow> sched_sleep_on is (p_wait c) (ksched k);
     Some (Gone (lift_switch k r)) }"

text \<open>One turn of the loop for \<open>pid = -1\<close>, and of the loop for a given child.\<close>

definition wait_any :: "interrupt list \<Rightarrow> kernel \<Rightarrow> ((errno + int \<times> int) kresult) option" where
  "wait_any is k = do {
     c \<leftarrow> procs k (kcur k);
     case List.find (is_dead k) (p_children c) of
       Some z \<Rightarrow> reap z k
     | None \<Rightarrow> wait_sleep is k }"

definition wait_for :: "interrupt list \<Rightarrow> proc_ptr \<Rightarrow> kernel \<Rightarrow> ((errno + int \<times> int) kresult) option" where
  "wait_for is ch k = do {
     pr \<leftarrow> procs k ch;
     if p_state pr = PROC_DEAD then reap ch k else wait_sleep is k }"

text \<open>
  \<^verbatim>\<open>do_waitpid\<close>: the result is the pid and the status that is stored through a non-null
  \<^verbatim>\<open>status\<close>.  The loop over the children keeps the last one with the pid.
\<close>

definition do_waitpid :: "interrupt list \<Rightarrow> int \<Rightarrow> int \<Rightarrow> kernel \<Rightarrow> ((errno + int \<times> int) kresult) option" where
  "do_waitpid is pid options k = do {
     kassert (options = 0);
     kassert (pid = - 1 \<or> 0 < pid);
     c \<leftarrow> procs k (kcur k);
     if p_children c = [] then Some (Ret (Inl ECHILD) k)
     else if pid = - 1 then wait_any is k
     else case List.find (\<lambda>ch. pid_of k ch = Some pid) (rev (p_children c)) of
            None \<Rightarrow> Some (Ret (Inl ECHILD) k)
          | Some ch \<Rightarrow> wait_for is ch k }"

subsection \<open>Halting\<close>

fun kill_others :: "interrupt list \<Rightarrow> int \<Rightarrow> proc_ptr list \<Rightarrow> kernel \<Rightarrow> unit kresult option" where
  "kill_others is addr [] k = Some (Ret () k)"
| "kill_others is addr (p # ps) k = do {
     pr \<leftarrow> procs k p;
     parent \<leftarrow> p_pproc pr;
     pp \<leftarrow> procs k parent;
     if kcur k \<noteq> p \<and> PID_IDLE \<noteq> p_pid pp \<and> PID_IDLE \<noteq> p_pid pr then do {
       r \<leftarrow> proc_kill is addr p (p_status pr) k;
       case r of Gone g \<Rightarrow> Some (Gone g) | Ret _ k1 \<Rightarrow> kill_others is addr ps k1 }
     else kill_others is addr ps k }"

text \<open>Waiting for the children one after the other; a wait that sleeps is resumed with the rest.\<close>

fun wait_children :: "interrupt list \<Rightarrow> proc_ptr list \<Rightarrow> kernel \<Rightarrow> (proc_ptr list kresult) option" where
  "wait_children is [] k = Some (Ret [] k)"
| "wait_children is (c # cs) k = do {
     pr \<leftarrow> procs k c;
     r \<leftarrow> do_waitpid is (p_pid pr) 0 k;
     case r of Gone g \<Rightarrow> Some (Gone g) | Ret _ k1 \<Rightarrow> wait_children is cs k1 }"

definition proc_kill_all :: "interrupt list \<Rightarrow> int \<Rightarrow> kernel \<Rightarrow> unit kresult option" where
  "proc_kill_all is addr k = do {
     r \<leftarrow> kill_others is addr (proc_list k) k;
     case r of
       Gone g \<Rightarrow> Some (Gone g)
     | Ret _ k1 \<Rightarrow> do {
         c \<leftarrow> procs k1 (kcur k1);
         r2 \<leftarrow> wait_children is (p_children c) k1;
         case r2 of Gone g \<Rightarrow> Some (Gone g) | Ret _ k2 \<Rightarrow> do_exit is addr 0 k2 } }"

subsection \<open>The process tree\<close>

text \<open>
  What the process operations do, seen from outside: a tree of processes with their identifiers,
  whether they have exited, and who their parent and children are.
\<close>

record tnode =
  t_pid :: int
  t_children :: "proc_ptr list"
  t_parent :: "proc_ptr option"
  t_dead :: bool

record ptree =
  nodes :: "proc_ptr \<rightharpoonup> tnode"
  order :: "proc_ptr list"
  init_node :: "proc_ptr option"

definition node_of :: "proc \<Rightarrow> tnode" where
  "node_of pr = \<lparr>t_pid = p_pid pr, t_children = p_children pr, t_parent = p_pproc pr, t_dead = (p_state pr = PROC_DEAD)\<rparr>"

definition tree_of :: "kernel \<Rightarrow> ptree" where
  "tree_of k = \<lparr>nodes = (\<lambda>p. map_option node_of (procs k p)), order = proc_list k, init_node = initproc k\<rparr>"

definition tree_create :: "proc_ptr \<Rightarrow> int \<Rightarrow> proc_ptr \<Rightarrow> ptree \<Rightarrow> ptree" where
  "tree_create p pid parent T = T\<lparr>
     nodes := (\<lambda>x. if x = p then Some \<lparr>t_pid = pid, t_children = [], t_parent = Some parent, t_dead = False\<rparr>
                   else if x = parent then map_option (\<lambda>n. n\<lparr>t_children := t_children n @ [p]\<rparr>) (nodes T x)
                   else nodes T x),
     order := order T @ [p],
     init_node := (if pid = PID_INIT then Some p else init_node T)\<rparr>"

definition tree_exit :: "proc_ptr \<Rightarrow> proc_ptr \<Rightarrow> ptree \<Rightarrow> ptree" where
  "tree_exit c i T = (let chs = (case nodes T c of None \<Rightarrow> [] | Some n \<Rightarrow> t_children n) in
     T\<lparr>nodes := (\<lambda>x.
       if x = c then map_option (\<lambda>n. n\<lparr>t_children := [], t_dead := True\<rparr>) (nodes T x)
       else if x = i then map_option (\<lambda>n. n\<lparr>t_children := t_children n @ chs\<rparr>) (nodes T x)
       else if x \<in> set chs then map_option (\<lambda>n. n\<lparr>t_parent := Some i\<rparr>) (nodes T x)
       else nodes T x)\<rparr>)"

definition tree_reap :: "proc_ptr \<Rightarrow> ptree \<Rightarrow> ptree" where
  "tree_reap z T = T\<lparr>
     nodes := (\<lambda>x. if x = z then None
       else if Some x = Option.bind (nodes T z) t_parent
       then map_option (\<lambda>n. n\<lparr>t_children := remove1 z (t_children n)\<rparr>) (nodes T x) else nodes T x),
     order := remove1 z (order T)\<rparr>"

inductive descends :: "ptree \<Rightarrow> proc_ptr \<Rightarrow> bool" for T where
  idle: "nodes T p = Some n \<Longrightarrow> t_pid n = PID_IDLE \<Longrightarrow> descends T p"
| child: "nodes T p = Some n \<Longrightarrow> t_parent n = Some q \<Longrightarrow> descends T q \<Longrightarrow> descends T p"

text \<open>
  The tree is well formed: the list holds each process once; identifiers are unique and not
  negative; every process but the idle process is listed exactly once by the parent it names, which
  exists; following the parents leads to the idle process; an exited process has no children; and the
  init process is a child of the idle process that has not exited.
\<close>

definition tree_inv :: "ptree \<Rightarrow> bool" where
  "tree_inv T \<longleftrightarrow> distinct (order T) \<and> set (order T) = dom (nodes T)
     \<and> (\<forall>p q n m. nodes T p = Some n \<and> nodes T q = Some m \<and> t_pid n = t_pid m \<longrightarrow> p = q)
     \<and> (\<forall>p n. nodes T p = Some n \<longrightarrow> 0 \<le> t_pid n \<and> distinct (t_children n)
          \<and> (\<exists>q. t_parent n = Some q \<and> q \<in> dom (nodes T))
          \<and> (t_dead n \<longrightarrow> t_children n = []) \<and> descends T p \<and> (t_pid n = PID_IDLE \<longrightarrow> t_parent n = Some p))
     \<and> (\<forall>p n c. nodes T p = Some n \<longrightarrow>
          (c \<in> set (t_children n) \<longleftrightarrow> (\<exists>m. nodes T c = Some m \<and> t_parent m = Some p \<and> t_pid m \<noteq> PID_IDLE)))
     \<and> (\<forall>i. init_node T = Some i \<longrightarrow> (\<exists>n q m. nodes T i = Some n \<and> \<not> t_dead n \<and> t_pid n = PID_INIT
          \<and> t_parent n = Some q \<and> nodes T q = Some m \<and> t_pid m = PID_IDLE))"

text \<open>The steps of the process system; \<open>sched\<close> is anything that only concerns the scheduler.\<close>

inductive proc_step :: "kconfig \<Rightarrow> kernel \<Rightarrow> kernel \<Rightarrow> bool" for cfg where
  create: "proc_create cfg al name k = Some (p, k') \<Longrightarrow> procs k (kcur k) = Some c \<Longrightarrow> p_state c = PROC_RUNNING \<Longrightarrow>
    new_ptr al = Some p' \<Longrightarrow> procs k p' = None \<Longrightarrow> 0 \<le> next_pid k \<Longrightarrow> next_pid k < PROC_MAX_COUNT cfg \<Longrightarrow>
    \<not> {0..<PROC_MAX_COUNT cfg} \<subseteq> set (all_pids k) \<Longrightarrow> proc_step cfg k k'"
| exit: "proc_cleanup status k = Some k' \<Longrightarrow> initproc k \<noteq> Some (kcur k) \<Longrightarrow> proc_step cfg k k'"
| reap: "disposeZombie z k = Some k' \<Longrightarrow> is_dead k z \<Longrightarrow> initproc k \<noteq> Some z \<Longrightarrow> pid_of k z \<noteq> Some PID_IDLE \<Longrightarrow>
    proc_step cfg k k'"
| new_thread: "kthread_create cfg cs new stack p k = Some (t, k') \<Longrightarrow> proc_step cfg k k'"
| sched: "proc_step cfg k (k\<lparr>ksched := s\<rparr>)"

text \<open>A zombie that can be reaped: its thread has exited and still has its stack, and it has a parent.\<close>

definition zombie_ok :: "kernel \<Rightarrow> proc_ptr \<Rightarrow> bool" where
  "zombie_ok k z = (case procs k z of
     None \<Rightarrow> False
   | Some pr \<Rightarrow> p_pagedir pr \<noteq> 0 \<and> (case p_threads pr of
       [] \<Rightarrow> False
     | t # _ \<Rightarrow> (case threads (ksched k) t of
         None \<Rightarrow> False
       | Some thr \<Rightarrow> kt_state thr = KT_EXITED \<and> kt_kstack thr \<noteq> 0)))"

text \<open>A small system: the idle process 1 with the init process 2, and what the allocators return.\<close>

definition demo_cfg :: kconfig where
  "demo_cfg = \<lparr>PROC_MAX_COUNT = 8, NFILES = 2, PROC_NAME_LEN = 8, DEFAULT_STACK_SIZE = 0x4000, vfs_root_vn = 1\<rparr>"

definition demo_alloc :: "proc_ptr \<Rightarrow> proc_alloc" where
  "demo_alloc p = \<lparr>new_ptr = Some p, new_wait = p + 10, new_pagedir = p, boot_pagedir = 9, new_vmmap = Some p\<rparr>"

definition demo_kernel :: kernel where
  "demo_kernel = \<lparr>ksched = demo_sched\<lparr>curproc := 1\<rparr>, procs = Map.empty, proc_list = [], next_pid = 0,
     initproc = None, kevents = []\<rparr>"

definition demo_proc :: "int \<Rightarrow> proc_ptr list \<Rightarrow> proc_ptr \<Rightarrow> p_state \<Rightarrow> tid list \<Rightarrow> qid \<Rightarrow> proc" where
  "demo_proc pid chs par st ts w = \<lparr>p_pid = pid, p_comm = ''p'', p_threads = ts, p_children = chs, p_pproc = Some par,
     p_status = 0, p_state = st, p_wait = w, p_pagedir = 1, p_files = [None, Some 4], p_cwd = 1, p_brk = 0,
     p_start_brk = 0, p_vmmap = Some 1\<rparr>"

text \<open>
  A run of the system: the idle process creates init, init creates process 3 with thread 9, process 3
  exits with the given status, and init runs again.
\<close>

definition demo_run :: "int \<Rightarrow> kernel option" where
  "demo_run status = do {
     (_, k1) \<leftarrow> proc_create demo_cfg (demo_alloc 1) ''idle'' demo_kernel;
     (_, k2) \<leftarrow> proc_create demo_cfg (demo_alloc 2) ''init'' k1;
     (_, k3) \<leftarrow> proc_create demo_cfg (demo_alloc 3) ''child'' (k2\<lparr>ksched := (ksched k2)\<lparr>curproc := 2\<rparr>\<rparr>);
     (_, k4) \<leftarrow> kthread_create demo_cfg (\<lambda>_ _. kt_ctx (demo_thread KT_RUN None)) (Some 9) 0xC0008000 3 k3;
     k5 \<leftarrow> proc_cleanup status (k4\<lparr>ksched := (ksched k4)\<lparr>curproc := 3, curthr := 9,
       threads := (threads (ksched k4))(9 \<mapsto> demo_thread KT_EXITED None)\<rparr>\<rparr>);
     Some (k5\<lparr>ksched := (ksched k5)\<lparr>curproc := 2, curthr := 2\<rparr>\<rparr>) }"

text \<open>Idle 1, init 2 with two threads asleep on its queue 5, and its child 3, whose thread 9 has exited.\<close>

definition demo_family :: "proc_ptr \<Rightarrow> p_state \<Rightarrow> kernel" where
  "demo_family cur st = \<lparr>ksched = demo_sched\<lparr>threads := (threads demo_sched)(9 \<mapsto> demo_thread KT_EXITED None), curproc := cur\<rparr>,
     procs = [1 \<mapsto> demo_proc 0 [2] 1 PROC_RUNNING [2] 8, 2 \<mapsto> demo_proc 1 [3] 1 PROC_RUNNING [4, 6] 5,
       3 \<mapsto> demo_proc 2 [] 2 st [9] 7],
     proc_list = [1, 2, 3], next_pid = 3, initproc = Some 2, kevents = []\<rparr>"

subsection \<open>Identifiers\<close>

lemma mod_step_distinct:
  fixes n :: int
  assumes "0 \<le> n" and "n < mx" and "0 \<le> i" and "i < mx" and "(n + i) mod mx = n"
  shows "i = 0"
proof -
  have "(n + i) mod mx = n mod mx" using assms by simp
  then have "mx dvd i" by (simp add: mod_eq_dvd_iff)
  then show ?thesis using assms(3,4) by (auto dest: zdvd_imp_le)
qed

lemma getid_loop_result:
  assumes "0 \<le> n" and "n < mx" and "0 \<le> i" and "i < mx"
    and "\<forall>j. 0 \<le> j \<and> j < i \<longrightarrow> (n + j) mod mx \<in> set pids"
  shows "\<exists>pid. getid_loop mx pids n ((n + i) mod mx) = Some pid
     \<and> (if pid = - 1 then \<forall>j. 0 \<le> j \<and> j < mx \<longrightarrow> (n + j) mod mx \<in> set pids
        else pid \<notin> set pids \<and> 0 \<le> pid \<and> pid < mx)"
  using assms(3-5)
proof (induction "nat (mx - i)" arbitrary: i rule: less_induct)
  case less
  let ?p = "(n + i) mod mx"
  have pos: "0 < mx" using assms(1,2) by simp
  show ?case
  proof (cases "?p \<in> set pids")
    case False
    moreover have "0 \<le> ?p" "?p < mx" using pos by simp_all
    moreover from this have "?p \<noteq> - 1" by simp
    ultimately show ?thesis by (subst getid_loop.simps) auto
  next
    case True
    have nxt: "(?p + 1) mod mx = (n + (i + 1)) mod mx" by (simp add: mod_add_left_eq add.assoc)
    have all: "\<forall>j. 0 \<le> j \<and> j < i + 1 \<longrightarrow> (n + j) mod mx \<in> set pids"
    proof (intro allI impI)
      fix j assume "0 \<le> j \<and> j < i + 1"
      then show "(n + j) mod mx \<in> set pids" using less.prems(3) True by (cases "j = i") auto
    qed
    show ?thesis
    proof (cases "i + 1 = mx")
      case last: True
      then have "(?p + 1) mod mx = n" using nxt assms(1,2) by (simp add: mod_add_self2)
      moreover have "\<forall>j. 0 \<le> j \<and> j < mx \<longrightarrow> (n + j) mod mx \<in> set pids" using all last by simp
      ultimately show ?thesis using True by (subst getid_loop.simps) (simp add: Let_def)
    next
      case False
      have i: "0 \<le> i + 1" "i + 1 < mx" using less.prems(1,2) False by auto
      then have "(n + (i + 1)) mod mx \<noteq> n"
        using mod_step_distinct [OF assms(1,2), of "i + 1"] less.prems(1) by auto
      then have "getid_loop mx pids n ?p = getid_loop mx pids n ((n + (i + 1)) mod mx)"
        using True nxt by (subst getid_loop.simps) (simp add: Let_def)
      with less.hyps [of "i + 1"] i all less.prems(2) show ?thesis by simp
    qed
  qed
qed

lemma all_residues:
  fixes n :: int
  assumes "0 \<le> n" and "n < mx" and "\<forall>j. 0 \<le> j \<and> j < mx \<longrightarrow> (n + j) mod mx \<in> A"
  shows "{0..<mx} \<subseteq> A"
proof
  fix p assume p: "p \<in> {0..<mx}"
  have "(n + (p - n) mod mx) mod mx = p" using p by (simp add: mod_add_right_eq)
  moreover have "0 \<le> (p - n) mod mx" "(p - n) mod mx < mx" using assms(1,2) by simp_all
  ultimately show "p \<in> A" using assms(3) by metis
qed

lemma proc_getid_spec:
  assumes "0 \<le> next" and "next < mx"
  shows "\<exists>pid next'. proc_getid mx pids next = Some (pid, next') \<and> 0 \<le> next' \<and> next' < mx
     \<and> (if {0..<mx} \<subseteq> set pids then pid = - 1 \<and> next' = next
        else 0 \<le> pid \<and> pid < mx \<and> pid \<notin> set pids \<and> next' = (pid + 1) mod mx)"
proof -
  have "\<exists>pid. getid_loop mx pids next ((next + 0) mod mx) = Some pid
     \<and> (if pid = - 1 then \<forall>j. 0 \<le> j \<and> j < mx \<longrightarrow> (next + j) mod mx \<in> set pids
        else pid \<notin> set pids \<and> 0 \<le> pid \<and> pid < mx)"
    by (rule getid_loop_result [OF assms]) (use assms in auto)
  moreover have "(next + 0) mod mx = next" using assms by simp
  ultimately obtain pid where pid: "getid_loop mx pids next next = Some pid"
    and res: "if pid = - 1 then \<forall>j. 0 \<le> j \<and> j < mx \<longrightarrow> (next + j) mod mx \<in> set pids
        else pid \<notin> set pids \<and> 0 \<le> pid \<and> pid < mx"
    by auto
  have "pid = - 1 \<longleftrightarrow> {0..<mx} \<subseteq> set pids"
    using res all_residues [OF assms, of "set pids"] by (auto split: if_splits)
  then show ?thesis using pid res assms by (auto simp: proc_getid_def split: if_splits)
qed

text \<open>Identifier allocation terminates after at most \<^verbatim>\<open>PROC_MAX_COUNT\<close> probes, returns an identifier
  in range that no process has, and moves the starting point of the next search behind it; it returns
  -1 exactly when every identifier is taken.\<close>

theorem proc_getid_correct:
  assumes "0 \<le> next" and "next < mx"
  shows "\<exists>pid next'. proc_getid mx pids next = Some (pid, next') \<and> 0 \<le> next' \<and> next' < mx
     \<and> (if {0..<mx} \<subseteq> set pids then pid = - 1 \<and> next' = next
        else 0 \<le> pid \<and> pid < mx \<and> pid \<notin> set pids \<and> next' = (pid + 1) mod mx)"
  by (rule proc_getid_spec [OF assms])

theorem proc_getid_correct_witness:
  "\<exists>pid next'. proc_getid 4 [3, 0, 1] 3 = Some (pid, next') \<and> pid \<notin> set [3, 0, 1 :: int]"
proof -
  have "(2 :: int) \<in> {0..<4}" "(2 :: int) \<notin> set [3, 0, 1]" by simp_all
  then have no: "\<not> {0..<4} \<subseteq> set [3, 0, 1 :: int]" by blast
  show ?thesis using proc_getid_correct [of 3 4 "[3, 0, 1]", unfolded if_not_P [OF no]] by auto
qed

subsection \<open>The tree operations keep the tree well formed\<close>

lemma tree_invI:
  assumes "distinct (order T)" and "set (order T) = dom (nodes T)"
    and "\<And>p q n m. nodes T p = Some n \<Longrightarrow> nodes T q = Some m \<Longrightarrow> t_pid n = t_pid m \<Longrightarrow> p = q"
    and "\<And>p n. nodes T p = Some n \<Longrightarrow> 0 \<le> t_pid n \<and> distinct (t_children n)
          \<and> (\<exists>q. t_parent n = Some q \<and> q \<in> dom (nodes T)) \<and> (t_dead n \<longrightarrow> t_children n = [])
          \<and> descends T p \<and> (t_pid n = PID_IDLE \<longrightarrow> t_parent n = Some p)"
    and "\<And>p n c. nodes T p = Some n \<Longrightarrow>
          c \<in> set (t_children n) \<longleftrightarrow> (\<exists>m. nodes T c = Some m \<and> t_parent m = Some p \<and> t_pid m \<noteq> PID_IDLE)"
    and "\<And>i. init_node T = Some i \<Longrightarrow> \<exists>n q m. nodes T i = Some n \<and> \<not> t_dead n \<and> t_pid n = PID_INIT
          \<and> t_parent n = Some q \<and> nodes T q = Some m \<and> t_pid m = PID_IDLE"
  shows "tree_inv T"
  unfolding tree_inv_def
proof (intro conjI allI impI; (elim conjE)?)
  fix p n assume "nodes T p = Some n"
  from assms(4) [OF this] show "0 \<le> t_pid n" "distinct (t_children n)"
    "\<exists>q. t_parent n = Some q \<and> q \<in> dom (nodes T)" "t_dead n \<Longrightarrow> t_children n = []" "descends T p"
    "t_pid n = PID_IDLE \<Longrightarrow> t_parent n = Some p" by simp_all
qed (rule assms; assumption)+

lemma tree_facts:
  assumes "tree_inv T"
  shows tree_order: "distinct (order T)" "set (order T) = dom (nodes T)"
    and tree_pid_inj: "nodes T p = Some n \<Longrightarrow> nodes T q = Some m \<Longrightarrow> t_pid n = t_pid m \<Longrightarrow> p = q"
    and tree_node: "nodes T p = Some n \<Longrightarrow> 0 \<le> t_pid n" "nodes T p = Some n \<Longrightarrow> distinct (t_children n)"
      "nodes T p = Some n \<Longrightarrow> \<exists>q. t_parent n = Some q \<and> q \<in> dom (nodes T)"
      "nodes T p = Some n \<Longrightarrow> t_dead n \<Longrightarrow> t_children n = []" "nodes T p = Some n \<Longrightarrow> descends T p"
      "nodes T p = Some n \<Longrightarrow> t_pid n = PID_IDLE \<Longrightarrow> t_parent n = Some p"
    and tree_child: "nodes T p = Some n \<Longrightarrow>
          c \<in> set (t_children n) \<longleftrightarrow> (\<exists>m. nodes T c = Some m \<and> t_parent m = Some p \<and> t_pid m \<noteq> PID_IDLE)"
    and tree_init: "init_node T = Some i \<Longrightarrow> \<exists>n q m. nodes T i = Some n \<and> \<not> t_dead n \<and> t_pid n = PID_INIT
          \<and> t_parent n = Some q \<and> nodes T q = Some m \<and> t_pid m = PID_IDLE"
  using assms unfolding tree_inv_def by simp_all

lemma descends_no_self:
  assumes "descends T p" and "nodes T p = Some n" and "t_pid n \<noteq> PID_IDLE"
  shows "t_parent n \<noteq> Some p"
  using assms by (induction arbitrary: n) auto

text \<open>Descent carries over to a tree in which every node keeps its parent or gets one that descends.\<close>

lemma descends_transfer:
  assumes "descends T p" and "nodes T' p \<noteq> None"
    and "\<And>x n. nodes T x = Some n \<Longrightarrow> nodes T' x \<noteq> None \<Longrightarrow>
      descends T' x \<or> (\<exists>n'. nodes T' x = Some n' \<and> t_pid n' = t_pid n \<and> t_parent n' = t_parent n
        \<and> (t_pid n \<noteq> PID_IDLE \<longrightarrow> (\<forall>q. t_parent n = Some q \<longrightarrow> nodes T' q \<noteq> None)))"
  shows "descends T' p"
  using assms(1,2)
proof (induction)
  case (idle p n)
  then show ?case using assms(3) [of p n] by (auto intro: descends.idle)
next
  case (child p n q)
  then show ?case using assms(3) [of p n]
    by (cases "t_pid n = PID_IDLE") (auto intro: descends.idle descends.child)
qed

lemma tree_create_inv:
  assumes inv: "tree_inv T" and new: "nodes T p = None" and par: "nodes T parent = Some n" "\<not> t_dead n"
    and pid: "0 < pid" "\<And>q m. nodes T q = Some m \<Longrightarrow> t_pid m \<noteq> pid"
    and init: "pid = PID_INIT \<Longrightarrow> t_pid n = PID_IDLE"
  shows "tree_inv (tree_create p pid parent T)"
proof (rule tree_invI)
  let ?T = "tree_create p pid parent T"
  have np: "p \<noteq> parent" using new par by auto
  have unlisted: "p \<notin> set (t_children m)" if "nodes T q = Some m" for q m
    using tree_child [OF inv that, of p] new by simp
  have old: "x = p \<and> t_pid a = pid \<and> t_children a = [] \<and> t_parent a = Some parent \<and> \<not> t_dead a
      \<or> x \<noteq> p \<and> (\<exists>a0. nodes T x = Some a0 \<and> t_pid a = t_pid a0 \<and> t_parent a = t_parent a0 \<and> t_dead a = t_dead a0
        \<and> t_children a = t_children a0 @ (if x = parent then [p] else []))" if "nodes ?T x = Some a" for x a
    using that by (auto simp: tree_create_def split: if_splits)
  have fwd: "\<exists>a. nodes ?T x = Some a \<and> t_pid a = t_pid a0 \<and> t_parent a = t_parent a0 \<and> t_dead a = t_dead a0"
    if "nodes T x = Some a0" for x and a0 :: tnode
    using that new by (auto simp: tree_create_def)
  have newp: "\<exists>a. nodes ?T p = Some a \<and> t_pid a = pid \<and> t_parent a = Some parent \<and> \<not> t_dead a"
    by (simp add: tree_create_def)
  show "distinct (order ?T)" and dom: "set (order ?T) = dom (nodes ?T)"
    using tree_order [OF inv] new par np by (auto simp: tree_create_def split: if_splits)
  show "x = y" if "nodes ?T x = Some a" "nodes ?T y = Some b" "t_pid a = t_pid b" for x y a b
    using old [OF that(1)] old [OF that(2)] that(3) pid(2) tree_pid_inj [OF inv, of x _ y] by metis
  have keep: "descends ?T x" if "nodes T x = Some a" for x a
  proof (rule descends_transfer [OF tree_node(5) [OF inv that]])
    show "nodes ?T x \<noteq> None" using fwd [OF that] by auto
    show "descends ?T y \<or> (\<exists>b'. nodes ?T y = Some b' \<and> t_pid b' = t_pid b \<and> t_parent b' = t_parent b
        \<and> (t_pid b \<noteq> PID_IDLE \<longrightarrow> (\<forall>q. t_parent b = Some q \<longrightarrow> nodes ?T q \<noteq> None)))"
      if "nodes T y = Some b" for y b
      using fwd [OF that] tree_node(3) [OF inv that] fwd by force
  qed
  show "0 \<le> t_pid a \<and> distinct (t_children a) \<and> (\<exists>q. t_parent a = Some q \<and> q \<in> dom (nodes ?T))
      \<and> (t_dead a \<longrightarrow> t_children a = []) \<and> descends ?T x
      \<and> (t_pid a = PID_IDLE \<longrightarrow> t_parent a = Some x)" if x: "nodes ?T x = Some a" for x a
  proof (cases "x = p")
    case True
    then show ?thesis using old [OF x] pid(1) fwd [OF par(1)] x descends.child [OF x _ keep [OF par(1)]]
      by (auto simp: PID_IDLE_def)
  next
    case False
    then obtain a0 where a0: "nodes T x = Some a0" "t_pid a = t_pid a0" "t_parent a = t_parent a0"
      "t_dead a = t_dead a0" "t_children a = t_children a0 @ (if x = parent then [p] else [])"
      using old [OF x] by auto
    obtain q m where "t_parent a0 = Some q" "nodes T q = Some m" using tree_node(3) [OF inv a0(1)] by auto
    moreover from this fwd obtain b where "nodes ?T q = Some b" by blast
    ultimately show ?thesis
      using a0 tree_node(1,2,4,6) [OF inv a0(1)] unlisted [OF a0(1)] par keep [OF a0(1)] by auto
  qed
  show "c \<in> set (t_children a) \<longleftrightarrow> (\<exists>m. nodes ?T c = Some m \<and> t_parent m = Some x \<and> t_pid m \<noteq> PID_IDLE)"
    if x: "nodes ?T x = Some a" for x a c
  proof (cases "x = p")
    case True
    have "t_parent m \<noteq> Some p" if "nodes ?T c = Some m" for m
      using old [OF that] tree_node(3) [OF inv, of c] new np by auto
    then show ?thesis using old [OF x] True by auto
  next
    case False
    then obtain a0 where a0: "nodes T x = Some a0" "t_children a = t_children a0 @ (if x = parent then [p] else [])"
      using old [OF x] by auto
    show ?thesis
    proof (cases "c = p")
      case True
      then show ?thesis using a0 unlisted [OF a0(1)] newp pid(1) by (auto simp: PID_IDLE_def)
    next
      case c: False
      then have "c \<in> set (t_children a) \<longleftrightarrow> c \<in> set (t_children a0)" using a0(2) by auto
      also note tree_child [OF inv a0(1)]
      also have "(\<exists>m. nodes T c = Some m \<and> t_parent m = Some x \<and> t_pid m \<noteq> PID_IDLE)
        \<longleftrightarrow> (\<exists>m. nodes ?T c = Some m \<and> t_parent m = Some x \<and> t_pid m \<noteq> PID_IDLE)"
        using c by (auto simp: tree_create_def)
      finally show ?thesis .
    qed
  qed
  show "\<exists>a q m. nodes ?T i = Some a \<and> \<not> t_dead a \<and> t_pid a = PID_INIT \<and> t_parent a = Some q
      \<and> nodes ?T q = Some m \<and> t_pid m = PID_IDLE" if i: "init_node ?T = Some i" for i
  proof (cases "pid = PID_INIT")
    case True
    then have "i = p" using i by (simp add: tree_create_def)
    then show ?thesis using newp fwd [OF par(1)] init True by metis
  next
    case False
    then have "init_node T = Some i" using i by (simp add: tree_create_def)
    then show ?thesis using tree_init [OF inv, of i] fwd by metis
  qed
qed


lemma exit_children:
  assumes inv: "tree_inv T" and i: "init_node T = Some i" and c: "nodes T c = Some n" "0 < t_pid n"
  shows "i \<notin> set (t_children n)" and "c \<notin> set (t_children n)"
proof -
  obtain ni qi mi where ni: "nodes T i = Some ni" "t_parent ni = Some qi" "nodes T qi = Some mi" "t_pid mi = PID_IDLE"
    using tree_init [OF inv i] by blast
  have "qi \<noteq> c" using c ni(3,4) by (auto simp: PID_IDLE_def)
  then show "i \<notin> set (t_children n)" using tree_child [OF inv c(1), of i] ni by auto
  show "c \<notin> set (t_children n)"
    using tree_child [OF inv c(1), of c] descends_no_self [OF tree_node(5) [OF inv c(1)] c(1)] c by auto
qed

lemma tree_exit_inv:
  assumes inv: "tree_inv T" and i: "init_node T = Some i" and c: "nodes T c = Some n" "0 < t_pid n" "c \<noteq> i"
  shows "tree_inv (tree_exit c i T)"
proof (rule tree_invI)
  let ?T = "tree_exit c i T" and ?chs = "t_children n"
  obtain ni qi mi where ni: "nodes T i = Some ni" "\<not> t_dead ni" "t_pid ni = PID_INIT" "t_parent ni = Some qi"
    "nodes T qi = Some mi" "t_pid mi = PID_IDLE"
    using tree_init [OF inv i] by blast
  note ich = exit_children(1) [OF inv i c(1,2)] and cch = exit_children(2) [OF inv i c(1,2)]
  have qich: "qi \<notin> set ?chs" using tree_child [OF inv c(1), of qi] ni(5,6) by auto
  define new where "new x a0 = \<lparr>t_pid = t_pid a0,
    t_children = (if x = c then [] else t_children a0 @ (if x = i then ?chs else [])),
    t_parent = (if x \<in> set ?chs then Some i else t_parent a0), t_dead = (x = c \<or> t_dead a0)\<rparr>" for x and a0 :: tnode
  have nodes: "nodes ?T x = map_option (new x) (nodes T x)" for x
    using c(1,3) cch ich by (cases "nodes T x") (auto simp: tree_exit_def new_def Let_def)
  have old: "\<exists>a0. nodes T x = Some a0 \<and> a = new x a0" if "nodes ?T x = Some a" for x a
    using that by (cases "nodes T x") (simp_all add: nodes)
  have child: "y \<in> set ?chs \<longleftrightarrow> (\<exists>m. nodes T y = Some m \<and> t_parent m = Some c \<and> t_pid m \<noteq> PID_IDLE)" for y
    by (rule tree_child [OF inv c(1)])
  show "distinct (order ?T)" "set (order ?T) = dom (nodes ?T)"
    using tree_order [OF inv] by (auto simp: nodes dom_def) (simp_all add: tree_exit_def Let_def dom_def)
  show "x = y" if xy: "nodes ?T x = Some a" "nodes ?T y = Some b" "t_pid a = t_pid b" for x y a b
  proof -
    obtain a0 b0 where ab: "nodes T x = Some a0" "a = new x a0" "nodes T y = Some b0" "b = new y b0"
      using old [OF xy(1)] old [OF xy(2)] by blast
    then have "t_pid a0 = t_pid b0" using xy(3) by (simp add: new_def)
    then show ?thesis by (rule tree_pid_inj [OF inv ab(1,3)])
  qed
  have di: "descends ?T i"
  proof (rule descends.child)
    show "nodes ?T i = Some (new i ni)" "t_parent (new i ni) = Some qi"
      using ni ich by (simp_all add: nodes new_def)
    show "descends ?T qi" using ni by (intro descends.idle [of _ _ "new qi mi"]) (simp_all add: nodes new_def)
  qed
  have keep: "descends ?T x" if "nodes T x = Some a" for x a
  proof (rule descends_transfer [OF tree_node(5) [OF inv that]])
    show "nodes ?T x \<noteq> None" using that by (simp add: nodes)
    show "descends ?T y \<or> (\<exists>b'. nodes ?T y = Some b' \<and> t_pid b' = t_pid b \<and> t_parent b' = t_parent b
        \<and> (t_pid b \<noteq> PID_IDLE \<longrightarrow> (\<forall>q. t_parent b = Some q \<longrightarrow> nodes ?T q \<noteq> None)))"
      if "nodes T y = Some b" for y b
    proof (cases "y \<in> set ?chs")
      case True
      then have "descends ?T y"
        using descends.child [OF _ _ di, of y "new y b"] that by (simp add: nodes new_def)
      then show ?thesis ..
    next
      case False
      then show ?thesis using that tree_node(3) [OF inv that] by (auto simp: nodes new_def)
    qed
  qed
  show "0 \<le> t_pid a \<and> distinct (t_children a) \<and> (\<exists>q. t_parent a = Some q \<and> q \<in> dom (nodes ?T))
      \<and> (t_dead a \<longrightarrow> t_children a = []) \<and> descends ?T x
      \<and> (t_pid a = PID_IDLE \<longrightarrow> t_parent a = Some x)" if x: "nodes ?T x = Some a" for x a
  proof -
    obtain a0 where a0: "nodes T x = Some a0" "a = new x a0" using old [OF x] by blast
    have "\<exists>q. t_parent a = Some q \<and> q \<in> dom (nodes ?T)"
      using a0 tree_node(3) [OF inv a0(1)] ni(1) by (auto simp: new_def nodes dom_def)
    moreover have "distinct (t_children a)"
      using a0 tree_node(2) [OF inv a0(1)] tree_node(2) [OF inv c(1)] tree_child [OF inv ni(1)] child c(3) ni(1)
      by (auto simp: new_def)
    moreover have "x = i \<Longrightarrow> \<not> t_dead a0" using a0 ni by simp
    ultimately show ?thesis
      using a0 tree_node(1,4,6) [OF inv a0(1)] keep [OF a0(1)] child [of x] by (auto simp: new_def)
  qed
  show "y \<in> set (t_children a) \<longleftrightarrow> (\<exists>m. nodes ?T y = Some m \<and> t_parent m = Some x \<and> t_pid m \<noteq> PID_IDLE)"
    if x: "nodes ?T x = Some a" for x a y
  proof -
    obtain a0 where a0: "nodes T x = Some a0" "a = new x a0" using old [OF x] by blast
    show ?thesis using a0 tree_child [OF inv a0(1), of y] child [of y] c(3) ni(1)
      by (cases "nodes T y") (auto simp: nodes new_def)
  qed
  show "\<exists>a q m. nodes ?T j = Some a \<and> \<not> t_dead a \<and> t_pid a = PID_INIT \<and> t_parent a = Some q
      \<and> nodes ?T q = Some m \<and> t_pid m = PID_IDLE" if "init_node ?T = Some j" for j
  proof -
    have "j = i" using that i by (simp add: tree_exit_def Let_def)
    then show ?thesis using ni ich c(3) by (auto simp: nodes new_def)
  qed
qed

lemma tree_reap_inv:
  assumes inv: "tree_inv T" and z: "nodes T z = Some n" "t_dead n" "t_pid n \<noteq> PID_IDLE"
    and i: "init_node T \<noteq> Some z"
  shows "tree_inv (tree_reap z T)"
proof (rule tree_invI)
  let ?T = "tree_reap z T"
  obtain q0 where q0: "t_parent n = Some q0" using tree_node(3) [OF inv z(1)] by blast
  define new where "new x a0 = (if x = q0 then a0\<lparr>t_children := remove1 z (t_children a0)\<rparr> else a0)" for x and a0 :: tnode
  have nodes: "nodes ?T x = (if x = z then None else map_option (new x) (nodes T x))" for x
    using z(1) q0 by (cases "nodes T x") (auto simp: tree_reap_def new_def)
  have old: "\<exists>a0. nodes T x = Some a0 \<and> x \<noteq> z \<and> a = new x a0" if "nodes ?T x = Some a" for x a
    using that by (cases "nodes T x") (simp_all add: nodes split: if_splits)
  have [simp]: "t_pid (new x a) = t_pid a" "t_parent (new x a) = t_parent a" "t_dead (new x a) = t_dead a" for x a
    by (simp_all add: new_def)
  have up: "q \<noteq> z" if "nodes T x = Some a" "t_parent a = Some q" "x \<noteq> z" for x a q
    using tree_child [OF inv z(1), of x] tree_node(4) [OF inv z(1,2)] tree_node(6) [OF inv that(1)] that by auto
  have pres: "t_parent a = Some q \<Longrightarrow> nodes ?T q \<noteq> None" if "nodes T x = Some a" "x \<noteq> z" for x a q
    using tree_node(3) [OF inv that(1)] up [OF that(1) _ that(2), of q] by (auto simp: nodes)
  have keep: "descends ?T x" if "nodes T x = Some a" "x \<noteq> z" for x a
  proof (rule descends_transfer [OF tree_node(5) [OF inv that(1)]])
    show "nodes ?T x \<noteq> None" using that by (simp add: nodes)
    show "descends ?T y \<or> (\<exists>b'. nodes ?T y = Some b' \<and> t_pid b' = t_pid b \<and> t_parent b' = t_parent b
        \<and> (t_pid b \<noteq> PID_IDLE \<longrightarrow> (\<forall>q. t_parent b = Some q \<longrightarrow> nodes ?T q \<noteq> None)))"
      if "nodes T y = Some b" "nodes ?T y \<noteq> None" for y b
    proof -
      have "y \<noteq> z" using that(2) by (auto simp: nodes)
      with pres [OF that(1)] that(1) show ?thesis by (intro disjI2) (simp add: nodes)
    qed
  qed
  show "distinct (order ?T)" using tree_order(1) [OF inv] by (simp add: tree_reap_def)
  show "set (order ?T) = dom (nodes ?T)"
  proof -
    have "set (order ?T) = set (order T) - {z}" using tree_order(1) [OF inv] by (simp add: tree_reap_def)
    also have "\<dots> = dom (nodes ?T)" using tree_order(2) [OF inv] by (auto simp: nodes dom_def)
    finally show ?thesis .
  qed
  show "x = y" if xy: "nodes ?T x = Some a" "nodes ?T y = Some b" "t_pid a = t_pid b" for x y a b
  proof -
    obtain a0 b0 where ab: "nodes T x = Some a0" "a = new x a0" "nodes T y = Some b0" "b = new y b0"
      using old [OF xy(1)] old [OF xy(2)] by blast
    then have "t_pid a0 = t_pid b0" using xy(3) by simp
    then show ?thesis by (rule tree_pid_inj [OF inv ab(1,3)])
  qed
  show "0 \<le> t_pid a \<and> distinct (t_children a) \<and> (\<exists>q. t_parent a = Some q \<and> q \<in> dom (nodes ?T))
      \<and> (t_dead a \<longrightarrow> t_children a = []) \<and> descends ?T x
      \<and> (t_pid a = PID_IDLE \<longrightarrow> t_parent a = Some x)" if x: "nodes ?T x = Some a" for x a
  proof -
    obtain a0 where a0: "nodes T x = Some a0" "x \<noteq> z" "a = new x a0" using old [OF x] by blast
    have "\<exists>q. t_parent a = Some q \<and> q \<in> dom (nodes ?T)"
      using tree_node(3) [OF inv a0(1)] pres [OF a0(1,2)] a0(3) by auto
    then show ?thesis
      using a0 tree_node(1,2,4,6) [OF inv a0(1)] keep [OF a0(1,2)] by (auto simp: new_def)
  qed
  show "y \<in> set (t_children a) \<longleftrightarrow> (\<exists>m. nodes ?T y = Some m \<and> t_parent m = Some x \<and> t_pid m \<noteq> PID_IDLE)"
    if x: "nodes ?T x = Some a" for x a y
  proof -
    obtain a0 where a0: "nodes T x = Some a0" "a = new x a0" using old [OF x] by blast
    have "y \<in> set (t_children a) \<longleftrightarrow> y \<noteq> z \<and> y \<in> set (t_children a0)"
      using a0(2) tree_node(2) [OF inv a0(1)] tree_child [OF inv a0(1), of z] z q0 by (auto simp: new_def)
    also have "\<dots> \<longleftrightarrow> (\<exists>m. nodes ?T y = Some m \<and> t_parent m = Some x \<and> t_pid m \<noteq> PID_IDLE)"
      using tree_child [OF inv a0(1), of y] by (auto simp: nodes)
    finally show ?thesis .
  qed
  show "\<exists>a q m. nodes ?T j = Some a \<and> \<not> t_dead a \<and> t_pid a = PID_INIT \<and> t_parent a = Some q
      \<and> nodes ?T q = Some m \<and> t_pid m = PID_IDLE" if "init_node ?T = Some j" for j
  proof -
    have j: "init_node T = Some j" "j \<noteq> z" using that i by (auto simp: tree_reap_def)
    then obtain nj q m where "nodes T j = Some nj" "\<not> t_dead nj" "t_pid nj = PID_INIT" "t_parent nj = Some q"
      "nodes T q = Some m" "t_pid m = PID_IDLE"
      using tree_init [OF inv] by blast
    then show ?thesis using j z(1,3) by (intro exI [of _ "new j nj"] exI [of _ q] exI [of _ "new q m"]) (auto simp: nodes)
  qed
qed


subsection \<open>The operations implement the tree operations\<close>

lemma nodes_tree_of [simp]: "nodes (tree_of k) p = map_option node_of (procs k p)"
  and order_tree_of [simp]: "order (tree_of k) = proc_list k"
  and init_tree_of [simp]: "init_node (tree_of k) = initproc k"
  by (simp_all add: tree_of_def)

lemma node_of_sel [simp]: "t_pid (node_of pr) = p_pid pr" "t_children (node_of pr) = p_children pr"
  "t_parent (node_of pr) = p_pproc pr" "t_dead (node_of pr) \<longleftrightarrow> p_state pr = PROC_DEAD"
  by (simp_all add: node_of_def)

lemma ptree_eqI:
  assumes "\<And>x. nodes A x = nodes B x" and "order A = order B" and "init_node A = init_node B"
  shows "A = (B :: ptree)"
  by (rule ptree.equality) (simp_all add: assms fun_eq_iff)

text \<open>The effect of creating a process other than the idle process, field by field.\<close>

lemma proc_create_effect:
  assumes cr: "proc_create cfg al name k = Some (p, k')" and c: "procs k (kcur k) = Some c"
    and ne: "proc_list k \<noteq> []" and new: "procs k p = None"
  shows "\<exists>pid nxt pObj evs. proc_getid (PROC_MAX_COUNT cfg) (all_pids k) (next_pid k) = Some (pid, nxt)
    \<and> pid \<noteq> PID_IDLE \<and> (pid = PID_INIT \<longrightarrow> p_pid c = PID_IDLE) \<and> new_ptr al = Some p
    \<and> p_pid pObj = pid \<and> p_children pObj = [] \<and> p_pproc pObj = Some (kcur k) \<and> p_state pObj = PROC_RUNNING
    \<and> p_status pObj = 0 \<and> p_threads pObj = [] \<and> p_files pObj = replicate (NFILES cfg) None
    \<and> p_pagedir pObj = new_pagedir al \<and> p_cwd pObj = (if p_pid c = 0 then vfs_root_vn cfg else p_cwd c)
    \<and> evs = (if p_pid c = 0 then [] else [Vref (p_cwd c)])
    \<and> k' = k\<lparr>next_pid := nxt, procs := (procs k)(p \<mapsto> pObj, kcur k \<mapsto> c\<lparr>p_children := p_children c @ [p]\<rparr>),
        kevents := kevents k @ evs, ksched := sched_queue_init (new_wait al) (ksched k),
        initproc := (if PID_INIT = pid then Some p else initproc k), proc_list := proc_list k @ [p]\<rparr>"
proof -
  obtain pid nxt where g: "proc_getid (PROC_MAX_COUNT cfg) (all_pids k) (next_pid k) = Some (pid, nxt)"
    using cr by (auto simp: proc_create_def split: Option.bind_splits)
  have p: "new_ptr al = Some p"
    using cr by (auto simp: proc_create_def upd_proc_def Let_def split: Option.bind_splits if_splits)
  have idle: "pid \<noteq> PID_IDLE" using cr g ne by (auto simp: proc_create_def split: Option.bind_splits)
  have init: "pid = PID_INIT \<longrightarrow> p_pid c = PID_IDLE"
    using cr g c p by (auto simp: proc_create_def split: Option.bind_splits)
  let ?o = "\<lambda>vm. \<lparr>p_pid = pid, p_comm = take (PROC_NAME_LEN cfg) name, p_threads = [], p_children = [],
       p_pproc = Some (kcur k), p_status = 0, p_state = PROC_RUNNING, p_wait = new_wait al,
       p_pagedir = new_pagedir al, p_files = replicate (NFILES cfg) None,
       p_cwd = (if p_pid c = 0 then vfs_root_vn cfg else p_cwd c), p_brk = 0, p_start_brk = 0, p_vmmap = Some vm\<rparr>"
  have "kcur k \<noteq> p" using c new by auto
  moreover obtain vm where "new_vmmap al = Some vm"
    using cr by (cases "new_vmmap al") (auto simp: proc_create_def Let_def split: Option.bind_splits if_splits)
  moreover have "pid \<noteq> 0" using idle by (simp add: PID_IDLE_def)
  ultimately have "k' = k\<lparr>next_pid := nxt, procs := (procs k)(p \<mapsto> ?o vm, kcur k \<mapsto> c\<lparr>p_children := p_children c @ [p]\<rparr>),
        kevents := kevents k @ (if p_pid c = 0 then [] else [Vref (p_cwd c)]),
        ksched := sched_queue_init (new_wait al) (ksched k),
        initproc := (if PID_INIT = pid then Some p else initproc k), proc_list := proc_list k @ [p]\<rparr>"
    using cr g c p idle init by (simp add: proc_create_def upd_proc_def Let_def split: if_splits) (erule subst, simp)+
  with g p idle init show ?thesis
    by (intro exI [of _ pid] exI [of _ nxt] exI [of _ "?o vm"]
      exI [of _ "if p_pid c = 0 then [] else [Vref (p_cwd c)]"]) simp
qed

lemma proc_create_tree:
  assumes cr: "proc_create cfg al name k = Some (p, k')" and inv: "tree_inv (tree_of k)"
    and c: "procs k (kcur k) = Some c" and new: "procs k p = None"
  shows "\<exists>pid nxt. proc_getid (PROC_MAX_COUNT cfg) (all_pids k) (next_pid k) = Some (pid, nxt) \<and> pid \<noteq> PID_IDLE
    \<and> (pid = PID_INIT \<longrightarrow> p_pid c = PID_IDLE) \<and> next_pid k' = nxt \<and> new_ptr al = Some p
    \<and> tree_of k' = tree_create p pid (kcur k) (tree_of k)"
proof -
  have "kcur k \<in> set (proc_list k)" using tree_order(2) [OF inv] c by (auto simp: dom_def)
  then have ne: "proc_list k \<noteq> []" by auto
  obtain pid nxt pObj evs where
    g: "proc_getid (PROC_MAX_COUNT cfg) (all_pids k) (next_pid k) = Some (pid, nxt)" "pid \<noteq> PID_IDLE"
      "pid = PID_INIT \<longrightarrow> p_pid c = PID_IDLE" "new_ptr al = Some p"
    and o: "p_pid pObj = pid" "p_children pObj = []" "p_pproc pObj = Some (kcur k)" "p_state pObj = PROC_RUNNING"
    and k': "k' = k\<lparr>next_pid := nxt, procs := (procs k)(p \<mapsto> pObj, kcur k \<mapsto> c\<lparr>p_children := p_children c @ [p]\<rparr>),
        kevents := kevents k @ evs, ksched := sched_queue_init (new_wait al) (ksched k),
        initproc := (if PID_INIT = pid then Some p else initproc k), proc_list := proc_list k @ [p]\<rparr>"
    using proc_create_effect [OF cr c ne new] by blast
  have "kcur k \<noteq> p" using c new by auto
  then have "tree_of k' = tree_create p pid (kcur k) (tree_of k)"
    using c by (intro ptree_eqI) (auto simp: k' tree_create_def node_of_def o)
  with g k' show ?thesis by simp
qed

text \<open>Reparenting changes the parents of the children and the two lists, and nothing else.\<close>

lemma reparent_eq:
  assumes "distinct chs" and "c \<noteq> i" and "c \<notin> set chs" and "i \<notin> set chs"
    and "procs k c = Some cr" and "p_children cr = chs" and "procs k i = Some ir"
    and "\<forall>x\<in>set chs. procs k x \<noteq> None"
  shows "reparent chs c i k = Some (k\<lparr>procs := (\<lambda>x.
     if x = c then Some (cr\<lparr>p_children := []\<rparr>)
     else if x = i then Some (ir\<lparr>p_children := p_children ir @ chs\<rparr>)
     else if x \<in> set chs then map_option (\<lambda>pr. pr\<lparr>p_pproc := Some i\<rparr>) (procs k x)
     else procs k x)\<rparr>)"
  using assms
proof (induction chs arbitrary: k cr ir)
  case Nil
  then have "(\<lambda>x. if x = c then Some (cr\<lparr>p_children := []\<rparr>) else if x = i then Some ir else procs k x) = procs k"
    by (auto simp: fun_eq_iff)
  then show ?case by (simp add: Nil cong: if_cong)
next
  case (Cons ch chs)
  obtain chr where ch: "procs k ch = Some chr" using Cons.prems by auto
  let ?k = "k\<lparr>procs := (procs k)(c \<mapsto> cr\<lparr>p_children := chs\<rparr>, ch \<mapsto> chr\<lparr>p_pproc := Some i\<rparr>,
    i \<mapsto> ir\<lparr>p_children := p_children ir @ [ch]\<rparr>)\<rparr>"
  have "reparent (ch # chs) c i k = reparent chs c i ?k"
    using Cons.prems ch by (simp add: upd_proc_def)
  also have "\<dots> = Some (?k\<lparr>procs := (\<lambda>x.
     if x = c then Some ((cr\<lparr>p_children := chs\<rparr>)\<lparr>p_children := []\<rparr>)
     else if x = i then Some ((ir\<lparr>p_children := p_children ir @ [ch]\<rparr>)
       \<lparr>p_children := p_children (ir\<lparr>p_children := p_children ir @ [ch]\<rparr>) @ chs\<rparr>)
     else if x \<in> set chs then map_option (\<lambda>pr. pr\<lparr>p_pproc := Some i\<rparr>) (procs ?k x)
     else procs ?k x)\<rparr>)"
    by (rule Cons.IH) (use Cons.prems ch in auto)
  also have "\<dots> = Some (k\<lparr>procs := (\<lambda>x.
     if x = c then Some (cr\<lparr>p_children := []\<rparr>)
     else if x = i then Some (ir\<lparr>p_children := p_children ir @ ch # chs\<rparr>)
     else if x \<in> set (ch # chs) then map_option (\<lambda>pr. pr\<lparr>p_pproc := Some i\<rparr>) (procs k x)
     else procs k x)\<rparr>)"
    using Cons.prems ch by (auto simp: fun_eq_iff)
  finally show ?case .
qed


lemma put_files_frame [simp]: "procs (put_files fs k) = procs k" "ksched (put_files fs k) = ksched k"
  "proc_list (put_files fs k) = proc_list k" "initproc (put_files fs k) = initproc k"
  "next_pid (put_files fs k) = next_pid k"
  by (induction fs arbitrary: k) (auto simp: log_event_def split: option.split)

lemma log_event_frame [simp]: "procs (log_event e k) = procs k" "ksched (log_event e k) = ksched k"
  "proc_list (log_event e k) = proc_list k" "initproc (log_event e k) = initproc k"
  "next_pid (log_event e k) = next_pid k"
  by (simp_all add: log_event_def)

text \<open>The effect of \<^verbatim>\<open>proc_cleanup\<close> on the kernel state, apart from the log.\<close>

lemma proc_cleanup_effect:
  assumes cl: "proc_cleanup status k = Some k'" and inv: "tree_inv (tree_of k)" and i: "initproc k = Some i" "i \<noteq> kcur k"
  shows "\<exists>c q pq t s1 ir. procs k (kcur k) = Some c \<and> 0 < p_pid c \<and> p_pproc c = Some q \<and> procs k q = Some pq
    \<and> procs k i = Some ir \<and> sched_wakeup_on (p_wait pq) (ksched k) = Some (t, s1) \<and> ksched k' = s1
    \<and> proc_list k' = proc_list k \<and> initproc k' = initproc k \<and> next_pid k' = next_pid k
    \<and> procs k' = (\<lambda>x. if x = kcur k then Some (c\<lparr>p_children := [], p_state := PROC_DEAD\<rparr>)
        else if x = i then Some (ir\<lparr>p_children := p_children ir @ p_children c\<rparr>)
        else if x \<in> set (p_children c) then map_option (\<lambda>pr. pr\<lparr>p_pproc := Some i\<rparr>) (procs k x)
        else procs k x)"
proof -
  obtain c q pq t s1 where c: "procs k (kcur k) = Some c" "0 < p_pid c" "p_pproc c = Some q" "procs k q = Some pq"
    "sched_wakeup_on (p_wait pq) (ksched k) = Some (t, s1)"
    using cl by (auto simp: proc_cleanup_def Let_def split: Option.bind_splits)
  have node: "nodes (tree_of k) (kcur k) = Some (node_of c)" using c by simp
  obtain ir where ir: "procs k i = Some ir" using tree_init [OF inv, of i] i by auto
  define k2 where "k2 = (log_event (Vmmap_destroyed (p_vmmap c)) (log_event (Vput (p_cwd c)) (put_files (p_files c) k)))\<lparr>ksched := s1\<rparr>"
  have k2: "procs k2 = procs k" "ksched k2 = s1" "proc_list k2 = proc_list k" "initproc k2 = initproc k"
    "next_pid k2 = next_pid k" by (simp_all add: k2_def)
  have "reparent (p_children c) (kcur k) i k2 = Some (k2\<lparr>procs := (\<lambda>x.
     if x = kcur k then Some (c\<lparr>p_children := []\<rparr>)
     else if x = i then Some (ir\<lparr>p_children := p_children ir @ p_children c\<rparr>)
     else if x \<in> set (p_children c) then map_option (\<lambda>pr. pr\<lparr>p_pproc := Some i\<rparr>) (procs k2 x)
     else procs k2 x)\<rparr>)" (is "_ = Some ?k3")
  proof (rule reparent_eq)
    show "distinct (p_children c)" using tree_node(2) [OF inv node] by simp
    show "kcur k \<notin> set (p_children c)" "i \<notin> set (p_children c)"
      using exit_children [OF inv _ node] i c(2) by simp_all
    show "\<forall>x\<in>set (p_children c). procs k2 x \<noteq> None"
      using tree_child [OF inv node] by (auto simp: k2)
  qed (use c i ir k2 in auto)
  moreover have "proc_cleanup status k = reparent (p_children c) (kcur k) i k2
      \<bind> upd_proc (kcur k) (\<lambda>pr. pr\<lparr>p_state := PROC_DEAD\<rparr>)"
    using c i(1) by (simp add: proc_cleanup_def Let_def k2_def)
  ultimately have k': "k' = ?k3\<lparr>procs := (procs ?k3)(kcur k \<mapsto> c\<lparr>p_children := [], p_state := PROC_DEAD\<rparr>)\<rparr>"
    using cl by (simp add: upd_proc_def)
  have "procs k' = (\<lambda>x. if x = kcur k then Some (c\<lparr>p_children := [], p_state := PROC_DEAD\<rparr>)
        else if x = i then Some (ir\<lparr>p_children := p_children ir @ p_children c\<rparr>)
        else if x \<in> set (p_children c) then map_option (\<lambda>pr. pr\<lparr>p_pproc := Some i\<rparr>) (procs k x)
        else procs k x)"
    by (simp add: k' k2 fun_eq_iff)
  moreover have "ksched k' = s1" "proc_list k' = proc_list k" "initproc k' = initproc k" "next_pid k' = next_pid k"
    by (simp_all add: k' k2)
  ultimately show ?thesis using c ir by blast
qed

lemma proc_cleanup_tree:
  assumes cl: "proc_cleanup status k = Some k'" and inv: "tree_inv (tree_of k)" and i: "initproc k \<noteq> Some (kcur k)"
  shows "\<exists>i c. initproc k = Some i \<and> procs k (kcur k) = Some c \<and> 0 < p_pid c
    \<and> tree_of k' = tree_exit (kcur k) i (tree_of k)"
proof -
  obtain i where i: "initproc k = Some i" "i \<noteq> kcur k"
    using cl i by (auto simp: proc_cleanup_def split: Option.bind_splits)
  obtain c ir where c: "procs k (kcur k) = Some c" "0 < p_pid c" "procs k i = Some ir"
    and k': "proc_list k' = proc_list k" "initproc k' = initproc k"
      "procs k' = (\<lambda>x. if x = kcur k then Some (c\<lparr>p_children := [], p_state := PROC_DEAD\<rparr>)
        else if x = i then Some (ir\<lparr>p_children := p_children ir @ p_children c\<rparr>)
        else if x \<in> set (p_children c) then map_option (\<lambda>pr. pr\<lparr>p_pproc := Some i\<rparr>) (procs k x)
        else procs k x)"
    using proc_cleanup_effect [OF cl inv i] by blast
  have "tree_of k' = tree_exit (kcur k) i (tree_of k)"
    by (rule ptree_eqI) (auto simp: k' c tree_exit_def Let_def node_of_def option.map_comp comp_def)
  with i c show ?thesis by blast
qed

lemma kthread_destroy_frame:
  assumes "kthread_destroy t k = Some k'"
  shows "\<exists>f. procs k' = (\<lambda>p. map_option (\<lambda>pr. pr\<lparr>p_threads := f p\<rparr>) (procs k p)) \<and> proc_list k' = proc_list k
    \<and> initproc k' = initproc k \<and> next_pid k' = next_pid k"
proof -
  obtain thr where thr: "threads (ksched k) t = Some thr"
    using assms by (auto simp: kthread_destroy_def split: Option.bind_splits)
  let ?f = "\<lambda>p. case procs k p of None \<Rightarrow> [] | Some pr \<Rightarrow> if p = kt_proc thr then remove1 t (p_threads pr) else p_threads pr"
  have "procs k' = (\<lambda>p. map_option (\<lambda>pr. pr\<lparr>p_threads := ?f p\<rparr>) (procs k p))"
    using assms thr
    by (auto simp: kthread_destroy_def upd_proc_def Let_def fun_eq_iff remove1_idem
        split: Option.bind_splits option.splits if_splits)
  moreover have "proc_list k' = proc_list k" "initproc k' = initproc k" "next_pid k' = next_pid k"
    using assms thr by (auto simp: kthread_destroy_def upd_proc_def Let_def split: Option.bind_splits option.splits if_splits)
  ultimately show ?thesis by (intro exI [of _ ?f]) simp
qed


lemma disposeZombie_effect:
  assumes d: "disposeZombie z k = Some k'"
  shows "\<exists>pr q f. procs k z = Some pr \<and> p_pproc pr = Some q \<and> procs k q \<noteq> None
    \<and> proc_list k' = remove1 z (proc_list k) \<and> initproc k' = initproc k \<and> next_pid k' = next_pid k
    \<and> procs k' = (\<lambda>x. if x = z then None else map_option (\<lambda>pr. pr\<lparr>p_threads := f x,
        p_children := (if x = q then remove1 z (p_children pr) else p_children pr)\<rparr>) (procs k x))"
proof -
  obtain pr t k1 q where z: "procs k z = Some pr" "kthread_destroy t k = Some k1" "p_pproc pr = Some q"
    and k': "upd_proc q (\<lambda>q. q\<lparr>p_children := remove1 z (p_children q)\<rparr>) (log_event (Pagedir_destroyed (p_pagedir pr)) k1)
        \<bind> (\<lambda>k3. Some (k3\<lparr>proc_list := remove1 z (proc_list k3), procs := (procs k3)(z := None)\<rparr>)) = Some k'"
    using d by (auto simp: disposeZombie_def Let_def split: Option.bind_splits)
  obtain f where f: "procs k1 = (\<lambda>p. map_option (\<lambda>pr. pr\<lparr>p_threads := f p\<rparr>) (procs k p))"
      "proc_list k1 = proc_list k" "initproc k1 = initproc k" "next_pid k1 = next_pid k"
    using kthread_destroy_frame [OF z(2)] by blast
  obtain qr where qr: "procs k1 q = Some qr" using k' by (auto simp: upd_proc_def split: Option.bind_splits)
  have eq: "k' = (log_event (Pagedir_destroyed (p_pagedir pr)) k1)\<lparr>proc_list := remove1 z (proc_list k1),
      procs := (procs k1)(q \<mapsto> qr\<lparr>p_children := remove1 z (p_children qr)\<rparr>, z := None)\<rparr>"
    using k' qr by (simp add: upd_proc_def)
  have "procs k' = (\<lambda>x. if x = z then None else map_option (\<lambda>pr. pr\<lparr>p_threads := f x,
        p_children := (if x = q then remove1 z (p_children pr) else p_children pr)\<rparr>) (procs k x))"
    using qr f(1) by (auto simp: eq fun_eq_iff option.map_comp comp_def intro!: map_option_cong)
  moreover have "proc_list k' = remove1 z (proc_list k)" "initproc k' = initproc k" "next_pid k' = next_pid k"
    by (simp_all add: eq f)
  moreover have "procs k q \<noteq> None" using qr f(1) by auto
  ultimately show ?thesis using z by blast
qed

lemma disposeZombie_tree:
  assumes "disposeZombie z k = Some k'"
  shows "tree_of k' = tree_reap z (tree_of k)"
proof -
  obtain pr q f where z: "procs k z = Some pr" "p_pproc pr = Some q"
    "proc_list k' = remove1 z (proc_list k)" "initproc k' = initproc k"
    and k': "procs k' = (\<lambda>x. if x = z then None else map_option (\<lambda>pr. pr\<lparr>p_threads := f x,
        p_children := (if x = q then remove1 z (p_children pr) else p_children pr)\<rparr>) (procs k x))"
    using disposeZombie_effect [OF assms] by blast
  show ?thesis
  proof (rule ptree_eqI)
    fix x
    show "nodes (tree_of k') x = nodes (tree_reap z (tree_of k)) x"
      using z by (cases "procs k x") (auto simp: k' tree_reap_def node_of_def)
  qed (simp_all add: z tree_reap_def)
qed

lemma proc_step_inv:
  assumes "proc_step cfg k k'" and "tree_inv (tree_of k)"
  shows "tree_inv (tree_of k')"
  using assms
proof (cases rule: proc_step.cases)
  case (create al name p c p')
  have p: "procs k p = None" using create proc_create_tree [OF create(1) assms(2) create(2)]
    by (auto simp: proc_create_def Let_def upd_proc_def split: Option.bind_splits if_splits)
  obtain pid nxt where t: "proc_getid (PROC_MAX_COUNT cfg) (all_pids k) (next_pid k) = Some (pid, nxt)"
    "pid \<noteq> PID_IDLE" "pid = PID_INIT \<longrightarrow> p_pid c = PID_IDLE" "tree_of k' = tree_create p pid (kcur k) (tree_of k)"
    using proc_create_tree [OF create(1) assms(2) create(2) p] by blast
  have pid: "0 \<le> pid" "pid \<notin> set (all_pids k)"
    using proc_getid_spec [OF create(6,7), of "all_pids k"] create(8) t(1) by auto
  show ?thesis unfolding t(4)
  proof (rule tree_create_inv [OF assms(2)])
    show "0 < pid" using pid t(2) by (simp add: PID_IDLE_def)
    show "t_pid m \<noteq> pid" if q: "nodes (tree_of k) q = Some m" for q m
    proof -
      obtain pr where pr: "procs k q = Some pr" "m = node_of pr" using q by auto
      then have "q \<in> set (proc_list k)" using tree_order(2) [OF assms(2)] by (auto simp: dom_def)
      then have "p_pid pr \<in> set (all_pids k)" using pr by (force simp: all_pids_def)
      with pid pr show ?thesis by auto
    qed
  qed (use create t p in auto)
next
  case (exit status)
  then obtain i c where "initproc k = Some i" "procs k (kcur k) = Some c" "0 < p_pid c"
    "tree_of k' = tree_exit (kcur k) i (tree_of k)"
    using proc_cleanup_tree [OF exit(1) assms(2) exit(2)] by blast
  then show ?thesis using tree_exit_inv [OF assms(2), of i "kcur k" "node_of c"] exit(2) by auto
next
  case (reap z)
  then obtain pr where "procs k z = Some pr" "p_state pr = PROC_DEAD" by (auto simp: is_dead_def)
  then show ?thesis
    using tree_reap_inv [OF assms(2), of z "node_of pr"] reap disposeZombie_tree [OF reap(1)]
    by (auto simp: pid_of_def)
next
  case (new_thread cs new stack p t)
  then have "tree_of k' = tree_of k"
    by (auto simp: kthread_create_def upd_proc_def Let_def tree_of_def node_of_def fun_eq_iff split: Option.bind_splits)
  then show ?thesis using assms(2) by simp
next
  case (sched s)
  then have "tree_of k' = tree_of k" by (simp add: tree_of_def)
  then show ?thesis using assms(2) by simp
qed

text \<open>The idle process, created when there is none, is a well-formed tree.\<close>

lemma boot_inv:
  assumes "proc_create cfg al name k = Some (p, k')" and "procs k = Map.empty" and "proc_list k = []"
    and "initproc k = None" and "next_pid k = 0"
  shows "tree_inv (tree_of k')"
proof -
  have "proc_getid (PROC_MAX_COUNT cfg) (all_pids k) (next_pid k) = Some (0, 1 mod PROC_MAX_COUNT cfg)"
    using assms(3,5) by (simp add: proc_getid_def all_pids_def getid_loop.simps)
  then have k': "new_ptr al = Some p" "\<exists>pr. procs k' = [p \<mapsto> pr] \<and> p_pid pr = 0 \<and> p_children pr = []
      \<and> p_pproc pr = Some p \<and> p_state pr = PROC_RUNNING" "proc_list k' = [p]" "initproc k' = None"
    using assms by (auto simp: proc_create_def PID_IDLE_def PID_INIT_def Let_def split: Option.bind_splits)
  then obtain pr where pr: "procs k' = [p \<mapsto> pr]" "p_pid pr = 0" "p_children pr = []"
    "p_pproc pr = Some p" "p_state pr = PROC_RUNNING" by blast
  show ?thesis
  proof (rule tree_invI)
    fix q n assume "nodes (tree_of k') q = Some n"
    then have q: "q = p" "n = node_of pr" using pr(1) by (auto split: if_splits)
    have "descends (tree_of k') p" by (rule descends.idle [of _ _ "node_of pr"]) (simp_all add: pr PID_IDLE_def)
    with q show "0 \<le> t_pid n \<and> distinct (t_children n) \<and> (\<exists>r. t_parent n = Some r \<and> r \<in> dom (nodes (tree_of k')))
      \<and> (t_dead n \<longrightarrow> t_children n = []) \<and> descends (tree_of k') q \<and> (t_pid n = PID_IDLE \<longrightarrow> t_parent n = Some q)"
      by (simp add: pr dom_def)
  qed (use pr k'(3,4) in \<open>auto simp: PID_IDLE_def dom_def split: if_splits\<close>)
qed

text \<open>C5: The process tree stays well formed.  From the creation of the idle process on, through any
  sequence of process and thread creations, exits with reparenting, reapings and scheduler activity while the
  init process lives and identifiers are left, identifiers are unique, every process is listed once, in
  the global list and among the children of exactly the parent it names, all parents lead to the idle
  process, and no exited process has children.\<close>

theorem process_tree_invariant:
  assumes "proc_create cfg al name k0 = Some (p, k)" and "procs k0 = Map.empty" and "proc_list k0 = []"
    and "initproc k0 = None" and "next_pid k0 = 0" and "(proc_step cfg)\<^sup>*\<^sup>* k k'"
  shows "tree_inv (tree_of k')"
  using assms(6)
proof (induction rule: rtranclp_induct)
  case base
  show ?case by (rule boot_inv [OF assms(1-5)])
next
  case (step y z)
  then show ?case using proc_step_inv by blast
qed


lemmas demo_defs = demo_cfg_def demo_alloc_def demo_kernel_def demo_sched_def demo_thread_def proc_create_def proc_getid_def
  all_pids_def getid_loop.simps PID_IDLE_def PID_INIT_def upd_proc_def sched_queue_init_def upd_queue_def
  kthread_create_def proc_cleanup_def log_event_def sched_wakeup_on_def sched_queue_empty_def kt_runq_def

lemma demo_create_step:
  assumes "proc_create demo_cfg (demo_alloc p) name k = Some (p', k')" and "procs k (kcur k) = Some c"
    and "p_state c = PROC_RUNNING" and "procs k p = None" and "next_pid k < 8" "0 \<le> next_pid k" and "7 \<notin> set (all_pids k)"
  shows "proc_step demo_cfg k k'"
proof -
  have "(7 :: int) \<in> {0..<8}" by simp
  with assms(7) have "\<not> {0..<8} \<subseteq> set (all_pids k)" by blast
  then have "\<not> {0..<PROC_MAX_COUNT demo_cfg} \<subseteq> set (all_pids k)" by (simp add: demo_cfg_def)
  then show ?thesis
    by (rule proc_step.create [OF assms(1-3), of p, rotated -1]) (use assms in \<open>simp_all add: demo_alloc_def demo_cfg_def\<close>)
qed

lemma demo_run_steps:
  "\<exists>k1 k k'. proc_create demo_cfg (demo_alloc 1) ''idle'' demo_kernel = Some (1, k1) \<and> demo_run 5 = Some k
     \<and> (proc_step demo_cfg)\<^sup>*\<^sup>* k1 k \<and> do_waitpid [] (- 1) 0 k = Some (Ret (Inr (2, 0)) k')"
proof -
  obtain k1 where k1: "proc_create demo_cfg (demo_alloc 1) ''idle'' demo_kernel = Some (1, k1)"
    "k1 = snd (the (proc_create demo_cfg (demo_alloc 1) ''idle'' demo_kernel))"
    by (simp add: demo_defs)
  obtain k2 where k2: "proc_create demo_cfg (demo_alloc 2) ''init'' k1 = Some (2, k2)"
    "k2 = snd (the (proc_create demo_cfg (demo_alloc 2) ''init'' k1))"
    using k1(2) by (simp add: demo_defs)
  let ?k2 = "k2\<lparr>ksched := (ksched k2)\<lparr>curproc := 2\<rparr>\<rparr>"
  obtain k k' where run: "demo_run 5 = Some k" "do_waitpid [] (- 1) 0 k = Some (Ret (Inr (2, 0)) k')"
    by (simp add: demo_run_def demo_defs do_waitpid_def wait_any_def is_dead_def reap_def disposeZombie_def
        kthread_destroy_def Let_def)
  then obtain k3 p k4 t k5 where k3: "proc_create demo_cfg (demo_alloc 3) ''child'' ?k2 = Some (p, k3)"
    and k4: "kthread_create demo_cfg (\<lambda>_ _. kt_ctx (demo_thread KT_RUN None)) (Some 9) 0xC0008000 3 k3 = Some (t, k4)"
    and k5: "proc_cleanup 5 (k4\<lparr>ksched := (ksched k4)\<lparr>curproc := 3, curthr := 9,
       threads := (threads (ksched k4))(9 \<mapsto> demo_thread KT_EXITED None)\<rparr>\<rparr>) = Some k5"
      (is "proc_cleanup 5 ?k4 = _")
    and k: "k = k5\<lparr>ksched := (ksched k5)\<lparr>curproc := 2, curthr := 2\<rparr>\<rparr>"
    using k1(1) k2(1) by (auto simp: demo_run_def split: Option.bind_splits)
  have "\<exists>c. procs k1 (kcur k1) = Some c \<and> p_state c = PROC_RUNNING"
      "procs k1 2 = None \<and> next_pid k1 < 8 \<and> 0 \<le> next_pid k1 \<and> 7 \<notin> set (all_pids k1)"
    using k1(2) by (simp_all add: demo_defs)
  then have 1: "proc_step demo_cfg k1 k2" using demo_create_step [OF k2(1)] by blast
  have "\<exists>c. procs ?k2 (kcur ?k2) = Some c \<and> p_state c = PROC_RUNNING"
      "procs ?k2 3 = None \<and> next_pid ?k2 < 8 \<and> 0 \<le> next_pid ?k2 \<and> 7 \<notin> set (all_pids ?k2)"
    using k1(2) k2(2) by (simp_all add: demo_defs)
  then have 2: "proc_step demo_cfg ?k2 k3" using demo_create_step [OF k3] by blast
  have k3': "k3 = snd (the (proc_create demo_cfg (demo_alloc 3) ''child'' ?k2))" using k3 by simp
  have "initproc k3 = Some 2" unfolding k3' using k1(2) k2(2) by (simp add: demo_defs)
  then have "initproc ?k4 \<noteq> Some (kcur ?k4)"
    using k4 by (auto simp: kthread_create_def upd_proc_def Let_def split: Option.bind_splits)
  then have 3: "proc_step demo_cfg ?k4 k5" using proc_step.exit [OF k5] by blast
  have "(proc_step demo_cfg)\<^sup>*\<^sup>* k1 k"
    using 1 proc_step.sched [of demo_cfg k2 "(ksched k2)\<lparr>curproc := 2\<rparr>"] 2 proc_step.new_thread [OF k4]
      proc_step.sched [of demo_cfg k4] 3 proc_step.sched [of demo_cfg k5] unfolding k
    by (meson rtranclp.rtrancl_into_rtrancl rtranclp.rtrancl_refl)
  with k1(1) run show ?thesis by blast
qed

theorem process_tree_invariant_witness: "\<exists>k. demo_run 5 = Some k \<and> tree_inv (tree_of k)"
proof -
  obtain k1 k where k: "proc_create demo_cfg (demo_alloc 1) ''idle'' demo_kernel = Some (1, k1)" "demo_run 5 = Some k"
    "(proc_step demo_cfg)\<^sup>*\<^sup>* k1 k"
    using demo_run_steps by blast
  from process_tree_invariant [OF k(1) _ _ _ _ k(3)] k(2) show ?thesis by (auto simp: demo_kernel_def)
qed

subsection \<open>Waiting for children\<close>

lemma reap_ok:
  assumes inv: "tree_inv (tree_of k)" and z: "zombie_ok k z" and pr: "procs k z = Some pr"
  shows "\<exists>k'. reap z k = Some (Ret (Inr (p_pid pr, p_status pr)) k') \<and> tree_of k' = tree_reap z (tree_of k)"
proof -
  obtain t ts thr where t: "p_threads pr = t # ts" "threads (ksched k) t = Some thr" "kt_state thr = KT_EXITED"
    "kt_kstack thr \<noteq> 0" "p_pagedir pr \<noteq> 0"
    using z pr by (auto simp: zombie_ok_def split: list.splits option.splits)
  have "kthread_destroy t k \<noteq> None"
    using t by (cases "procs k (kt_proc thr)") (simp_all add: kthread_destroy_def upd_proc_def Let_def)
  then obtain k1 where k1: "kthread_destroy t k = Some k1" by blast
  obtain q qr where q: "p_pproc pr = Some q" "procs k q = Some qr" using tree_node(3) [OF inv, of z] pr by auto
  obtain f where f: "procs k1 = (\<lambda>p. map_option (\<lambda>pr. pr\<lparr>p_threads := f p\<rparr>) (procs k p))"
    using kthread_destroy_frame [OF k1] by blast
  have "\<exists>k'. disposeZombie z k = Some k'"
    using pr t k1 q f by (simp add: disposeZombie_def Let_def upd_proc_def)
  then obtain k' where k': "disposeZombie z k = Some k'" ..
  then have "reap z k = Some (Ret (Inr (p_pid pr, p_status pr)) k')" using pr by (simp add: reap_def)
  with disposeZombie_tree [OF k'] show ?thesis by blast
qed

lemma find_child:
  assumes inv: "tree_inv (tree_of k)" and c: "procs k (kcur k) = Some c" and ch: "ch \<in> set (p_children c)"
    and pid: "pid_of k ch = Some pid"
  shows "List.find (\<lambda>ch. pid_of k ch = Some pid) (rev (p_children c)) = Some ch"
proof -
  obtain x where x: "List.find (\<lambda>ch. pid_of k ch = Some pid) (rev (p_children c)) = Some x"
    using ch pid by (cases "List.find (\<lambda>ch. pid_of k ch = Some pid) (rev (p_children c))") (auto simp: find_None_iff)
  then have "pid_of k x = Some pid" by (auto simp: find_Some_iff)
  then have "x = ch" using tree_pid_inj [OF inv, of x _ ch] pid by (auto simp: pid_of_def)
  with x show ?thesis by simp
qed

text \<open>C12: \<^verbatim>\<open>do_waitpid\<close> does what its comment promises.  When no child matches (the process has none, or
  none has the identifier) it returns -ECHILD and changes nothing; when children match but none has
  exited, the caller goes to sleep on its own wait queue; otherwise it removes one matching exited child
  from the process tree and returns that child's identifier and status.\<close>

theorem do_waitpid_correct:
  assumes inv: "tree_inv (tree_of k)" and c: "procs k (kcur k) = Some c" and pid: "pid = - 1 \<or> 0 < pid"
    and z: "\<forall>ch\<in>set (p_children c). is_dead k ch \<longrightarrow> zombie_ok k ch"
  shows "let match = {ch \<in> set (p_children c). pid = - 1 \<or> pid_of k ch = Some pid} in
    if match = {} then do_waitpid is pid 0 k = Some (Ret (Inl ECHILD) k)
    else if \<forall>ch\<in>match. \<not> is_dead k ch
    then do_waitpid is pid 0 k = map_option (\<lambda>r. Gone (lift_switch k r)) (sched_sleep_on is (p_wait c) (ksched k))
    else \<exists>ch\<in>match. \<exists>pr k'. is_dead k ch \<and> procs k ch = Some pr
      \<and> do_waitpid is pid 0 k = Some (Ret (Inr (p_pid pr, p_status pr)) k') \<and> tree_of k' = tree_reap ch (tree_of k)"
proof -
  let ?m = "{ch \<in> set (p_children c). pid = - 1 \<or> pid_of k ch = Some pid}"
  have sleep: "wait_sleep is k = map_option (\<lambda>r. Gone (lift_switch k r)) (sched_sleep_on is (p_wait c) (ksched k))"
    using c by (cases "sched_sleep_on is (p_wait c) (ksched k)") (simp_all add: wait_sleep_def)
  have reap: "\<exists>pr k'. procs k ch = Some pr \<and> reap ch k = Some (Ret (Inr (p_pid pr, p_status pr)) k')
      \<and> tree_of k' = tree_reap ch (tree_of k)" if ch: "ch \<in> set (p_children c)" "is_dead k ch" for ch
    using reap_ok [OF inv] z ch by (auto simp: is_dead_def)
  consider "p_children c = []" | "p_children c \<noteq> []" "pid = - 1" | "p_children c \<noteq> []" "pid \<noteq> - 1" "?m = {}"
    | ch where "p_children c \<noteq> []" "pid \<noteq> - 1" "ch \<in> ?m" by blast
  then show ?thesis
  proof cases
    case 1
    then show ?thesis using c pid by (simp add: do_waitpid_def)
  next
    case 2
    then have w: "do_waitpid is pid 0 k = wait_any is k" and ne: "?m \<noteq> {}" using c pid by (simp_all add: do_waitpid_def)
    show ?thesis
    proof (cases "List.find (is_dead k) (p_children c)")
      case None
      then have "do_waitpid is pid 0 k = wait_sleep is k" using w c by (simp add: wait_any_def)
      moreover have "\<forall>ch\<in>?m. \<not> is_dead k ch" using None by (auto simp: find_None_iff)
      ultimately show ?thesis using ne sleep by (simp only: Let_def if_not_P if_P if_True if_False)
    next
      case (Some ch)
      then have ch: "ch \<in> set (p_children c)" "is_dead k ch" by (auto simp: find_Some_iff)
      with reap [OF ch] w ne 2 c Some show ?thesis by (auto simp: wait_any_def Let_def)
    qed
  next
    case 3
    then have "List.find (\<lambda>ch. pid_of k ch = Some pid) (rev (p_children c)) = None" by (auto simp: find_None_iff)
    with 3 c pid show ?thesis by (simp add: do_waitpid_def)
  next
    case (4 ch)
    then have ch: "ch \<in> set (p_children c)" "pid_of k ch = Some pid" by auto
    have w: "do_waitpid is pid 0 k = wait_for is ch k" and ne: "?m \<noteq> {}"
      using c pid 4 find_child [OF inv c ch] by (auto simp: do_waitpid_def)
    obtain pr where pr: "procs k ch = Some pr" using ch by (auto simp: pid_of_def)
    have only: "x = ch" if "x \<in> ?m" for x
      using tree_pid_inj [OF inv, of x _ ch] that ch 4(2) by (auto simp: pid_of_def)
    show ?thesis
    proof (cases "is_dead k ch")
      case True
      with reap [OF ch(1)] w ne pr 4 show ?thesis by (auto simp: wait_for_def is_dead_def Let_def)
    next
      case False
      then have "\<forall>x\<in>?m. \<not> is_dead k x" using only by blast
      moreover have "do_waitpid is pid 0 k = wait_sleep is k" using w pr False by (simp add: wait_for_def is_dead_def)
      ultimately show ?thesis using ne sleep by (simp only: Let_def if_not_P if_P if_True if_False)
    qed
  qed
qed


lemma demo_family_inv: "tree_inv (tree_of (demo_family cur st))"
proof -
  define T where "T = tree_of (demo_family cur st)"
  have n: "nodes T x = (if x = 1 then Some \<lparr>t_pid = 0, t_children = [2], t_parent = Some 1, t_dead = False\<rparr>
     else if x = 2 then Some \<lparr>t_pid = 1, t_children = [3], t_parent = Some 1, t_dead = False\<rparr>
     else if x = 3 then Some \<lparr>t_pid = 2, t_children = [], t_parent = Some 2, t_dead = (st = PROC_DEAD)\<rparr>
     else None)" for x
    by (simp add: T_def demo_family_def demo_proc_def node_of_def)
  have d1: "descends T 1" by (rule descends.idle, simp add: n, simp add: PID_IDLE_def)
  have d2: "descends T 2" by (rule descends.child [OF _ _ d1], simp add: n, simp)
  have d3: "descends T 3" by (rule descends.child [OF _ _ d2], simp add: n, simp)
  have o: "order T = [1, 2, 3]" "init_node T = Some 2" "dom (nodes T) = {1, 2, 3}"
    by (auto simp: T_def demo_family_def split: if_splits)
  have "tree_inv T"
    by (rule tree_invI) (use d1 d2 d3 in \<open>auto simp: n o PID_IDLE_def PID_INIT_def split: if_splits\<close>)
  then show ?thesis by (simp add: T_def)
qed

theorem do_waitpid_correct_witness:
  "\<exists>k'. do_waitpid [] (- 1) 0 (demo_family 2 PROC_DEAD) = Some (Ret (Inr (2, 0)) k')
     \<and> tree_of k' = tree_reap 3 (tree_of (demo_family 2 PROC_DEAD))"
proof -
  let ?k = "demo_family 2 PROC_DEAD"
  have c: "procs ?k (kcur ?k) = Some (demo_proc 1 [3] 1 PROC_RUNNING [4, 6] 5)" by (simp add: demo_family_def)
  have p3: "procs ?k 3 = Some (demo_proc 2 [] 2 PROC_DEAD [9] 7)" by (simp add: demo_family_def)
  have dead: "is_dead ?k 3" "zombie_ok ?k 3"
    by (simp_all add: is_dead_def zombie_ok_def p3 demo_proc_def) (simp add: demo_family_def demo_thread_def)
  have m: "{ch \<in> set (p_children (demo_proc 1 [3] 1 PROC_RUNNING [4, 6] 5)). - 1 = (- 1 :: int) \<or> pid_of ?k ch = Some (- 1)} = {3}"
    by (auto simp: demo_proc_def)
  have "\<forall>ch\<in>set (p_children (demo_proc 1 [3] 1 PROC_RUNNING [4, 6] 5)). is_dead ?k ch \<longrightarrow> zombie_ok ?k ch"
    using dead by (simp add: demo_proc_def)
  from do_waitpid_correct [OF demo_family_inv c _ this, of "- 1" "[]", unfolded m Let_def] dead p3
  show ?thesis by (auto simp: demo_proc_def)
qed

text \<open>C11: An exiting process wakes its waiting parent.  If threads of the parent sleep on its wait queue,
  the one that has slept longest is made runnable by the exit and leaves the queue; the exited process
  is then a dead child of its parent, so that the parent's next turn of the waiting loop reaps a child
  instead of going back to sleep.\<close>

theorem exit_wakes_parent:
  assumes inv: "tree_inv (tree_of k)" and s: "sched_inv (ksched k)" and i: "initproc k \<noteq> Some (kcur k)"
    and cl: "proc_cleanup status k = Some k'" and c: "procs k (kcur k) = Some c" "p_pproc c = Some q"
    and q: "procs k q = Some pq" "p_wait pq \<noteq> kt_runq" "qlist (ksched k) (p_wait pq) \<noteq> []"
  shows "(\<exists>thr. threads (ksched k') (last (qlist (ksched k) (p_wait pq))) = Some thr \<and> kt_state thr = KT_RUN)
     \<and> last (qlist (ksched k) (p_wait pq)) \<in> set (qlist (ksched k') kt_runq)
     \<and> qlist (ksched k') (p_wait pq) = butlast (qlist (ksched k) (p_wait pq))
     \<and> sched_inv (ksched k')
     \<and> (\<exists>pq' ch. procs k' q = Some pq' \<and> p_wait pq' = p_wait pq
          \<and> List.find (is_dead k') (p_children pq') = Some ch)"
proof -
  let ?t = "last (qlist (ksched k) (p_wait pq))"
  obtain i where i: "initproc k = Some i" "i \<noteq> kcur k"
    using cl i by (auto simp: proc_cleanup_def split: Option.bind_splits)
  obtain ir t s1 where e: "procs k i = Some ir" "sched_wakeup_on (p_wait pq) (ksched k) = Some (t, s1)" "ksched k' = s1"
      "0 < p_pid c"
    and procs: "procs k' = (\<lambda>x. if x = kcur k then Some (c\<lparr>p_children := [], p_state := PROC_DEAD\<rparr>)
        else if x = i then Some (ir\<lparr>p_children := p_children ir @ p_children c\<rparr>)
        else if x \<in> set (p_children c) then map_option (\<lambda>pr. pr\<lparr>p_pproc := Some i\<rparr>) (procs k x)
        else procs k x)"
    using proc_cleanup_effect [OF cl inv i] c q by auto
  obtain s' thr where w: "sched_wakeup_on (p_wait pq) (ksched k) = Some (Some ?t, s')"
    "threads s' = (threads (ksched k))(?t \<mapsto> thr\<lparr>kt_state := KT_RUN, kt_wchan := Some kt_runq\<rparr>)"
    "qlist s' (p_wait pq) = butlast (qlist (ksched k) (p_wait pq))" "qlist s' kt_runq = ?t # qlist (ksched k) kt_runq"
    using wakeup_ok [OF inv_transit [OF s] q(2,3)] by blast
  have s1: "s1 = s'" "sched_inv s'" using w(1) e(2) sched_inv_wakeup [OF s q(2)] by auto
  have node: "nodes (tree_of k) (kcur k) = Some (node_of c)" using c by simp
  have "q \<noteq> kcur k" using descends_no_self [OF tree_node(5) [OF inv node] node] e(4) c(2) by (simp add: PID_IDLE_def)
  then obtain pq' where pq': "procs k' q = Some pq'" "p_wait pq' = p_wait pq" "set (p_children pq) \<subseteq> set (p_children pq')"
    using q(1) e(1) by (cases "q = i"; cases "q \<in> set (p_children c)") (auto simp: procs)
  have "kcur k \<in> set (p_children pq)" using tree_child [OF inv, of q "node_of pq" "kcur k"] q(1) c e(4) by (simp add: PID_IDLE_def)
  moreover have "is_dead k' (kcur k)" by (simp add: is_dead_def procs)
  ultimately obtain ch where "List.find (is_dead k') (p_children pq') = Some ch"
    using pq'(3) by (cases "List.find (is_dead k') (p_children pq')") (auto simp: find_None_iff)
  with pq' w s1 e(3) show ?thesis by auto
qed

theorem exit_wakes_parent_witness:
  "\<exists>k'. proc_cleanup 0 (demo_family 3 PROC_RUNNING) = Some k' \<and> 4 \<in> set (qlist (ksched k') kt_runq)"
proof -
  let ?k = "demo_family 3 PROC_RUNNING"
  have s: "sched_inv (ksched ?k)"
    by (auto simp: demo_family_def sched_inv_def transit_ok_def queues_ok_def threads_ok_def thread_ok_def demo_sched_def
        demo_thread_def state_fits_def kt_runq_def split: if_splits)
  have "proc_cleanup 0 ?k \<noteq> None"
    by (simp add: proc_cleanup_def demo_family_def demo_proc_def demo_sched_def demo_thread_def sched_wakeup_on_def
        sched_queue_empty_def ktqueue_dequeue_def sched_make_runnable_def ktqueue_enqueue_def upd_thread_def upd_queue_def
        upd_proc_def log_event_def kt_runq_def Let_def)
  then obtain k' where k': "proc_cleanup 0 ?k = Some k'" by blast
  have "last (qlist (ksched ?k) 5) = 4" by (simp add: demo_family_def demo_sched_def kt_runq_def)
  then have "4 \<in> set (qlist (ksched k') kt_runq)"
    using exit_wakes_parent [OF demo_family_inv s _ k', of "demo_proc 2 [] 2 PROC_RUNNING [9] 7" 2 "demo_proc 1 [3] 1 PROC_RUNNING [4, 6] 5"]
    by (simp add: demo_family_def demo_proc_def kt_runq_def demo_sched_def)
  with k' show ?thesis by blast
qed

subsection \<open>The exit status\<close>

lemma proc_step_status:
  assumes st: "proc_step cfg k k'" and inv: "tree_inv (tree_of k)" and z: "\<forall>p pr. procs k p = Some pr \<longrightarrow> p_status pr = 0"
  shows "\<forall>p pr. procs k' p = Some pr \<longrightarrow> p_status pr = 0"
  using st
proof (cases rule: proc_step.cases)
  case (create al name p c p')
  have p: "procs k p = None" using create proc_create_tree [OF create(1) inv create(2)]
    by (auto simp: proc_create_def Let_def upd_proc_def split: Option.bind_splits if_splits)
  have "kcur k \<in> set (proc_list k)" using tree_order(2) [OF inv] create(2) by (auto simp: dom_def)
  then have ne: "proc_list k \<noteq> []" by auto
  obtain pObj where "p_status pObj = 0"
    "procs k' = (procs k)(p \<mapsto> pObj, kcur k \<mapsto> c\<lparr>p_children := p_children c @ [p]\<rparr>)"
    using proc_create_effect [OF create(1,2) ne p] by auto
  then show ?thesis using z create(2) by (auto split: if_splits)
next
  case (exit status)
  then obtain i where i: "initproc k = Some i" "i \<noteq> kcur k" by (auto simp: proc_cleanup_def split: Option.bind_splits)
  obtain c ir where c: "procs k (kcur k) = Some c" "procs k i = Some ir"
    and k': "procs k' = (\<lambda>x. if x = kcur k then Some (c\<lparr>p_children := [], p_state := PROC_DEAD\<rparr>)
        else if x = i then Some (ir\<lparr>p_children := p_children ir @ p_children c\<rparr>)
        else if x \<in> set (p_children c) then map_option (\<lambda>pr. pr\<lparr>p_pproc := Some i\<rparr>) (procs k x)
        else procs k x)"
    using proc_cleanup_effect [OF exit(1) inv i] by blast
  show ?thesis using z c by (auto simp: k' split: if_splits)
next
  case (reap w)
  then obtain q f where "procs k' = (\<lambda>x. if x = w then None else map_option (\<lambda>pr. pr\<lparr>p_threads := f x,
        p_children := (if x = q then remove1 w (p_children pr) else p_children pr)\<rparr>) (procs k x))"
    using disposeZombie_effect [OF reap(1)] by blast
  then show ?thesis using z by (auto split: if_splits)
next
  case (new_thread cs new stack p t)
  then show ?thesis using z
    by (auto simp: kthread_create_def upd_proc_def Let_def split: Option.bind_splits if_splits)
next
  case (sched s)
  then show ?thesis using z by simp
qed

lemma waitpid_status:
  assumes "do_waitpid is pid 0 k = Some (Ret (Inr (n, st)) k')"
  shows "\<exists>p pr. procs k p = Some pr \<and> st = p_status pr"
proof -
  have r: "\<exists>p pr. procs k p = Some pr \<and> st = p_status pr" if "reap z k = Some (Ret (Inr (n, st)) k')" for z
    using that by (auto simp: reap_def split: Option.bind_splits)
  have s: "wait_sleep is k \<noteq> Some (Ret x k')" for x by (auto simp: wait_sleep_def split: Option.bind_splits)
  have "\<exists>z. reap z k = Some (Ret (Inr (n, st)) k')"
    using assms s
    by (auto simp: do_waitpid_def wait_any_def wait_for_def split: Option.bind_splits if_splits option.splits)
  then show ?thesis using r by blast
qed

lemma boot_status:
  assumes "proc_create cfg al name k = Some (p, k')" and "procs k = Map.empty" and "proc_list k = []"
    and "next_pid k = 0"
  shows "\<forall>p pr. procs k' p = Some pr \<longrightarrow> p_status pr = 0"
proof -
  have "proc_getid (PROC_MAX_COUNT cfg) (all_pids k) (next_pid k) = Some (0, 1 mod PROC_MAX_COUNT cfg)"
    using assms(3,4) by (simp add: proc_getid_def all_pids_def getid_loop.simps)
  then show ?thesis
    using assms by (auto simp: proc_create_def PID_IDLE_def PID_INIT_def Let_def split: Option.bind_splits if_splits)
qed

text \<open>The exit status is lost.  Whatever status the children exited with, \<^verbatim>\<open>do_waitpid\<close> reports
  status 0 for every child it reaps, in every state that creations, exits, reapings and scheduling lead
  to: none of these operations stores the status in the process (the comment of \<^verbatim>\<open>proc_cleanup\<close> says that
  it does).  Only a page-fault handler that kills its process sets \<^verbatim>\<open>p_status\<close>, to \<^verbatim>\<open>EFAULT\<close>.\<close>

theorem exit_status_lost:
  assumes "proc_create cfg al name k0 = Some (p, k)" and "procs k0 = Map.empty" and "proc_list k0 = []"
    and "initproc k0 = None" and "next_pid k0 = 0" and "(proc_step cfg)\<^sup>*\<^sup>* k k'"
    and "do_waitpid is pid 0 k' = Some (Ret (Inr (n, st)) k'')"
  shows "st = 0"
proof -
  have "tree_inv (tree_of k') \<and> (\<forall>p pr. procs k' p = Some pr \<longrightarrow> p_status pr = 0)"
    using assms(6)
  proof (induction rule: rtranclp_induct)
    case base
    show ?case using boot_inv [OF assms(1-5)] boot_status [OF assms(1-3,5)] by simp
  next
    case (step y z)
    then show ?case using proc_step_inv proc_step_status by blast
  qed
  then show ?thesis using waitpid_status [OF assms(7)] by auto
qed


theorem exit_status_lost_witness:
  "\<exists>k k' st. demo_run 5 = Some k \<and> do_waitpid [] (- 1) 0 k = Some (Ret (Inr (2, st)) k') \<and> st = 0"
proof -
  obtain k1 k k' where k: "proc_create demo_cfg (demo_alloc 1) ''idle'' demo_kernel = Some (1, k1)" "demo_run 5 = Some k"
    "(proc_step demo_cfg)\<^sup>*\<^sup>* k1 k" "do_waitpid [] (- 1) 0 k = Some (Ret (Inr (2, 0)) k')"
    using demo_run_steps by blast
  have "(0 :: int) = 0" by (rule exit_status_lost [OF k(1) _ _ _ _ k(3,4)]) (simp_all add: demo_kernel_def)
  with k show ?thesis by blast
qed

end
