(* ===== verification/Vfs.thy ===== *)
theory Vfs
  imports Proc
begin

section \<open>The virtual file system\<close>

text \<open>
  \<^verbatim>\<open>vm-submit/kernel/fs/namev.c\<close>, \<^verbatim>\<open>open.c\<close> and \<^verbatim>\<open>vfs_syscall.c\<close>: path names, file descriptors and the
  file system calls of a process.

  \<^item> The concrete file systems (their vnode operations), \<^verbatim>\<open>fget\<close> and \<^verbatim>\<open>fput\<close> are not part of the
    repository: they are the fields of \<open>vfs_env\<close>, over a state \<open>'fs\<close> that only they look at.
  \<^item> The calls of \<^verbatim>\<open>fget\<close>, \<^verbatim>\<open>fput\<close>, \<^verbatim>\<open>vget\<close> and \<^verbatim>\<open>vput\<close>, and the references that a successful \<^verbatim>\<open>lookup\<close> or
    \<^verbatim>\<open>create\<close> of a file system returns, are recorded in order in \<open>vlog\<close>; \<open>vrefs\<close> and \<open>frefs\<close> count what a call
    leaves behind.
  \<^item> The current process is the \<open>proc\<close> record of the process component; \<open>open_files\<close> holds the
    \<^verbatim>\<open>file_t\<close>s.
  \<^item> A \<^verbatim>\<open>KASSERT\<close> failure and an overflow of the path buffer are \<open>None\<close>; errors are \<open>Inl\<close>.

  The lemmas show that path resolution follows the reference description \<open>resolve\<close>, that every call
  but the ones named gives back each reference it takes, and how each call changes the descriptor
  table and the file positions.
\<close>

type_synonym file_ptr = nat
type_synonym vnode_ptr = nat

datatype fmode = FMODE_READ | FMODE_WRITE | FMODE_APPEND
datatype oflag = O_WRONLY | O_RDWR | O_CREAT | O_APPEND | O_OTHER nat
datatype vop = V_lookup | V_create | V_mknod | V_mkdir | V_rmdir | V_unlink | V_read | V_write | V_readdir | V_stat | V_mmap

record file_t =
  f_pos :: int
  f_mode :: "fmode set"
  f_vnode :: "vnode_ptr option"

datatype vfs_event = FGet file_ptr | FPut file_ptr | VGet vnode_ptr | VPut vnode_ptr

record fs_config = kconfig +
  NAME_LEN :: nat
  MAXPATHLEN :: nat

record 'fs vfs_env =
  errno_code :: "errno \<Rightarrow> int"
  fget :: "int \<Rightarrow> proc \<Rightarrow> file_ptr option"
  vn_has :: "vnode_ptr \<Rightarrow> vop \<Rightarrow> bool"
  vn_mode :: "vnode_ptr \<Rightarrow> 'fs \<Rightarrow> vmode"
  vn_len :: "vnode_ptr \<Rightarrow> 'fs \<Rightarrow> int"
  vn_bdev :: "vnode_ptr \<Rightarrow> bool"
  vn_cdev :: "vnode_ptr \<Rightarrow> bool"
  op_lookup :: "vnode_ptr \<Rightarrow> string \<Rightarrow> 'fs \<Rightarrow> (errno + vnode_ptr) \<times> 'fs"
  op_create :: "vnode_ptr \<Rightarrow> string \<Rightarrow> 'fs \<Rightarrow> (errno + vnode_ptr) \<times> 'fs"
  op_mknod :: "vnode_ptr \<Rightarrow> string \<Rightarrow> vmode \<Rightarrow> nat \<Rightarrow> 'fs \<Rightarrow> (errno + unit) \<times> 'fs"
  op_mkdir :: "vnode_ptr \<Rightarrow> string \<Rightarrow> 'fs \<Rightarrow> (errno + unit) \<times> 'fs"
  op_rmdir :: "vnode_ptr \<Rightarrow> string \<Rightarrow> 'fs \<Rightarrow> (errno + unit) \<times> 'fs"
  op_unlink :: "vnode_ptr \<Rightarrow> string \<Rightarrow> 'fs \<Rightarrow> (errno + unit) \<times> 'fs"
  op_link :: "vnode_ptr \<Rightarrow> vnode_ptr \<Rightarrow> string \<Rightarrow> 'fs \<Rightarrow> (errno + unit) \<times> 'fs"
  op_read :: "vnode_ptr \<Rightarrow> int \<Rightarrow> nat \<Rightarrow> 'fs \<Rightarrow> (errno + nat) \<times> 'fs"
  op_write :: "vnode_ptr \<Rightarrow> int \<Rightarrow> string \<Rightarrow> 'fs \<Rightarrow> (errno + nat) \<times> 'fs"
  op_readdir :: "vnode_ptr \<Rightarrow> int \<Rightarrow> 'fs \<Rightarrow> (errno + nat) \<times> 'fs"
  op_stat :: "vnode_ptr \<Rightarrow> 'fs \<Rightarrow> (errno + unit) \<times> 'fs"

record 'fs vfs =
  fs_state :: 'fs
  open_files :: "file_ptr \<Rightarrow> file_t"
  vproc :: proc
  vlog :: "vfs_event list"

definition emit :: "vfs_event \<Rightarrow> 'fs vfs \<Rightarrow> 'fs vfs" where
  "emit e st = st\<lparr>vlog := vlog st @ [e]\<rparr>"

definition set_file :: "file_ptr \<Rightarrow> (file_t \<Rightarrow> file_t) \<Rightarrow> 'fs vfs \<Rightarrow> 'fs vfs" where
  "set_file p f st = st\<lparr>open_files := (open_files st)(p := f (open_files st p))\<rparr>"

definition set_fd :: "nat \<Rightarrow> file_ptr option \<Rightarrow> 'fs vfs \<Rightarrow> 'fs vfs" where
  "set_fd fd p st = st\<lparr>vproc := (vproc st)\<lparr>p_files := (p_files (vproc st))[fd := p]\<rparr>\<rparr>"

abbreviation fd_slot :: "'fs vfs \<Rightarrow> nat \<Rightarrow> file_ptr option" where
  "fd_slot st fd \<equiv> p_files (vproc st) ! fd"

text \<open>A call of a vnode operation, and of one that returns a referenced vnode.\<close>

definition call_op :: "('fs \<Rightarrow> 'r \<times> 'fs) \<Rightarrow> 'fs vfs \<Rightarrow> 'r \<times> 'fs vfs" where
  "call_op f st = (let (r, s') = f (fs_state st) in (r, st\<lparr>fs_state := s'\<rparr>))"

definition call_vnode_op :: "('fs \<Rightarrow> (errno + vnode_ptr) \<times> 'fs) \<Rightarrow> 'fs vfs \<Rightarrow> (errno + vnode_ptr) \<times> 'fs vfs" where
  "call_vnode_op f st = (case call_op f st of
     (Inl e, st1) \<Rightarrow> (Inl e, st1)
   | (Inr v, st1) \<Rightarrow> (Inr v, emit (VGet v) st1))"

text \<open>\<^verbatim>\<open>strncmp(a, b, n) == 0\<close> on strings without their terminators.\<close>

fun strncmp_eq :: "string \<Rightarrow> string \<Rightarrow> nat \<Rightarrow> bool" where
  "strncmp_eq a b 0 = True"
| "strncmp_eq [] [] (Suc n) = True"
| "strncmp_eq (x # xs) (y # ys) (Suc n) = (x = y \<and> strncmp_eq xs ys n)"
| "strncmp_eq _ _ (Suc n) = False"

subsection \<open>Path names: \<^verbatim>\<open>namev.c\<close>\<close>

definition lookup :: "'fs vfs_env \<Rightarrow> vnode_ptr \<Rightarrow> string \<Rightarrow> nat \<Rightarrow> 'fs vfs \<Rightarrow> (errno + vnode_ptr) \<times> 'fs vfs" where
  "lookup E dir name len st =
     (if \<not> vn_has E dir V_lookup then (Inl ENOTDIR, st)
      else if strncmp_eq ''.'' name len then (Inr dir, emit (VGet dir) st)
      else call_vnode_op (op_lookup E dir (take len name)) st)"

text \<open>
  The loop of \<^verbatim>\<open>dir_namev\<close> over the components of the path: \<open>s\<close> is the component at \<^verbatim>\<open>localPtr\<close> and the
  list holds those behind it.  The result is the directory and the length of the last component.
\<close>

fun namev_loop :: "fs_config \<Rightarrow> 'fs vfs_env \<Rightarrow> vnode_ptr \<Rightarrow> string \<Rightarrow> string list \<Rightarrow> 'fs vfs
    \<Rightarrow> (errno + vnode_ptr \<times> nat) \<times> 'fs vfs" where
  "namev_loop C E tempVnode s [] st =
     (case lookup E tempVnode s (length s) st of
        (Inr v, st1) \<Rightarrow> (Inr (tempVnode, length s), emit (VPut v) st1)
      | (Inl e, st1) \<Rightarrow> if e = ENOENT then (Inr (tempVnode, length s), st1)
                       else (Inl e, emit (VPut tempVnode) st1))"
| "namev_loop C E tempVnode s (s' # ss) st =
     (case lookup E tempVnode s (length s) st of
        (Inl e, st1) \<Rightarrow> (Inl e, emit (VPut tempVnode) st1)
      | (Inr v, st1) \<Rightarrow>
          if NAME_LEN C < length s' then (Inl ENAMETOOLONG, emit (VPut tempVnode) (emit (VPut v) st1))
          else namev_loop C E v s' ss (emit (VPut tempVnode) st1))"

fun split_path :: "string \<Rightarrow> string \<times> string list" where
  "split_path [] = ([], [])"
| "split_path (c # cs) =
     (let (s, ss) = split_path cs in if c = CHR ''/'' then ([], s # ss) else (c # s, ss))"

definition dir_namev :: "fs_config \<Rightarrow> 'fs vfs_env \<Rightarrow> string \<Rightarrow> vnode_ptr option \<Rightarrow> 'fs vfs
    \<Rightarrow> ((errno + vnode_ptr \<times> string \<times> nat) \<times> 'fs vfs) option" where
  "dir_namev C E pathname base st = do {
     kassert (length pathname < MAXPATHLEN C);
     let base = (case base of None \<Rightarrow> p_cwd (vproc st) | Some b \<Rightarrow> b);
     let i = (if pathname \<noteq> [] \<and> hd pathname = CHR ''/'' then 1 else 0);
     let tempVnode = (if i = 0 then base else vfs_root_vn C);
     let st1 = emit (VGet tempVnode) st;
     if drop i pathname = [] then
       (if i = 0 then Some (Inl EINVAL, emit (VPut tempVnode) st1)
        else Some (Inr (tempVnode, pathname, length pathname), st1))
     else do {
       let (s, ss) = split_path (drop i pathname);
       if NAME_LEN C < length s then Some (Inl ENAMETOOLONG, emit (VPut tempVnode) st1)
       else case namev_loop C E tempVnode s ss st1 of
          (Inl e, st2) \<Rightarrow> Some (Inl e, st2)
        | (Inr (v, namelen), st2) \<Rightarrow> Some (Inr (v, drop (length pathname - namelen) pathname, namelen), st2) } }"

definition open_namev :: "fs_config \<Rightarrow> 'fs vfs_env \<Rightarrow> string \<Rightarrow> oflag set \<Rightarrow> vnode_ptr option \<Rightarrow> 'fs vfs
    \<Rightarrow> ((errno + vnode_ptr) \<times> 'fs vfs) option" where
  "open_namev C E pathname flag base st = do {
     (r, st1) \<leftarrow> dir_namev C E pathname base st;
     case r of
       Inl e \<Rightarrow> Some (Inl e, st1)
     | Inr (tempNode, name, len) \<Rightarrow> do {
         let file_naav = (if strncmp_eq name ''/'' len \<and> vfs_root_vn C = tempNode then ''.'' else name);
         let (res, st2) = lookup E tempNode file_naav len st1;
         case res of
           Inr v \<Rightarrow> Some (Inr v, emit (VPut tempNode) st2)
         | Inl e \<Rightarrow>
             if \<not> (O_CREAT \<in> flag \<and> e = ENOENT) then Some (Inl e, emit (VPut tempNode) st2)
             else do {
               kassert (vn_has E tempNode V_create);
               let (res, st3) = call_vnode_op (op_create E tempNode (take len file_naav)) st2;
               Some (res, emit (VPut tempNode) st3) } } }"

subsection \<open>File descriptors: \<^verbatim>\<open>open.c\<close>\<close>

fun empty_fd_loop :: "nat \<Rightarrow> file_ptr option list \<Rightarrow> errno + nat" where
  "empty_fd_loop fd [] = Inl EMFILE"
| "empty_fd_loop fd (f # fs) = (if f = None then Inr fd else empty_fd_loop (fd + 1) fs)"

definition get_empty_fd :: "fs_config \<Rightarrow> proc \<Rightarrow> errno + nat" where
  "get_empty_fd C p = empty_fd_loop 0 (take (NFILES C) (p_files p))"

text \<open>\<^verbatim>\<open>do_open\<close>: \<open>new\<close> is the result of \<^verbatim>\<open>fget(-1)\<close>, a file that is in no descriptor table.\<close>

definition do_open :: "fs_config \<Rightarrow> 'fs vfs_env \<Rightarrow> file_ptr option \<Rightarrow> string \<Rightarrow> oflag set \<Rightarrow> 'fs vfs
    \<Rightarrow> ((errno + nat) \<times> 'fs vfs) option" where
  "do_open C E new filename oflags st =
     (case get_empty_fd C (vproc st) of
        Inl e \<Rightarrow> Some (Inl EMFILE, st)
      | Inr fd \<Rightarrow>
     (case new of
        None \<Rightarrow> Some (Inl ENOMEM, st)
      | Some newFile \<Rightarrow> do {
          let st1 = emit (FGet newFile) st;
          if O_RDWR \<in> oflags \<and> O_WRONLY \<in> oflags then Some (Inl EINVAL, st1)
          else do {
            let m1 = (if O_WRONLY \<in> oflags then {FMODE_WRITE} else {FMODE_READ});
            let m2 = (if O_RDWR \<in> oflags then m1 \<union> {FMODE_WRITE} else m1);
            let m3 = (if O_APPEND \<in> oflags then m2 \<union> {FMODE_APPEND} else m2);
            let st2 = set_file newFile (\<lambda>f. f\<lparr>f_mode := m3\<rparr>) (set_fd fd (Some newFile) st1);
            (r, st3) \<leftarrow> open_namev C E filename oflags None st2;
            case r of
              Inl e \<Rightarrow> Some (Inl e, set_fd fd None (emit (FPut newFile) st3))
            | Inr v \<Rightarrow>
                if (O_RDWR \<in> oflags \<or> O_WRONLY \<in> oflags) \<and> vn_mode E v (fs_state st3) = S_IFDIR
                then Some (Inl EISDIR, emit (FPut newFile) (emit (VPut v) (set_fd fd None st3)))
                else if \<not> vn_bdev E v \<and> vn_mode E v (fs_state st3) = S_IFBLK
                  \<or> \<not> vn_cdev E v \<and> vn_mode E v (fs_state st3) = S_IFCHR
                then Some (Inl ENXIO, emit (FPut newFile) (emit (VPut v) (set_fd fd None st3)))
                else Some (Inr fd, set_file newFile (\<lambda>f. f\<lparr>f_vnode := Some v\<rparr>) st3) } }))"

subsection \<open>System calls on descriptors: \<^verbatim>\<open>vfs_syscall.c\<close>\<close>

text \<open>\<^verbatim>\<open>int\<close> arithmetic on file positions.\<close>

definition wrap32 :: "int \<Rightarrow> int" where
  "wrap32 x = as_int (word_of_int x)"

datatype whence = SEEK_SET | SEEK_CUR | SEEK_END | SEEK_OTHER

abbreviation fd_bad :: "fs_config \<Rightarrow> int \<Rightarrow> bool" where
  "fd_bad C fd \<equiv> fd < 0 \<or> int (NFILES C) \<le> fd"

definition do_lseek :: "fs_config \<Rightarrow> 'fs vfs_env \<Rightarrow> int \<Rightarrow> int \<Rightarrow> whence \<Rightarrow> 'fs vfs \<Rightarrow> ((errno + int) \<times> 'fs vfs) option" where
  "do_lseek C E fd offset w st =
     (if w = SEEK_OTHER then Some (Inl EINVAL, st)
      else if fd_bad C fd then Some (Inl EBADF, st)
      else case fd_slot st (nat fd) of
        None \<Rightarrow> Some (Inl EBADF, st)
      | Some p \<Rightarrow> do {
          pos \<leftarrow> (case w of
             SEEK_CUR \<Rightarrow> Some (wrap32 (f_pos (open_files st p) + offset))
           | SEEK_SET \<Rightarrow> Some offset
           | SEEK_END \<Rightarrow> do { v \<leftarrow> f_vnode (open_files st p); Some (wrap32 (offset + vn_len E v (fs_state st))) }
           | SEEK_OTHER \<Rightarrow> None);
          if pos < 0 then Some (Inl EINVAL, st)
          else Some (Inr pos, set_file p (\<lambda>f. f\<lparr>f_pos := pos\<rparr>) st) })"

definition do_read :: "fs_config \<Rightarrow> 'fs vfs_env \<Rightarrow> int \<Rightarrow> nat \<Rightarrow> 'fs vfs \<Rightarrow> ((errno + nat) \<times> 'fs vfs) option" where
  "do_read C E fd nbytes st =
     (if fd_bad C fd then Some (Inl EBADF, st)
      else case fget E fd (vproc st) of
        None \<Rightarrow> Some (Inl EBADF, st)
      | Some p \<Rightarrow> do {
          let st1 = emit (FGet p) st;
          if FMODE_READ \<notin> f_mode (open_files st1 p) then Some (Inl EBADF, emit (FPut p) st1)
          else do {
            v \<leftarrow> f_vnode (open_files st1 p);
            if vn_mode E v (fs_state st1) = S_IFDIR then Some (Inl EISDIR, emit (FPut p) st1)
            else do {
              kassert (vn_has E v V_read);
              let (r, st2) = call_op (op_read E v (f_pos (open_files st1 p)) nbytes) st1;
              let st3 = (case r of Inl e \<Rightarrow> st2 | Inr n \<Rightarrow>
                if 0 < n then set_file p (\<lambda>f. f\<lparr>f_pos := wrap32 (f_pos f + int n)\<rparr>) st2 else st2);
              Some (r, emit (FPut p) st3) } } })"

text \<open>\<^verbatim>\<open>do_write\<close>: the result of \<^verbatim>\<open>do_lseek\<close> is the position, even when it is an error.\<close>

definition do_write :: "fs_config \<Rightarrow> 'fs vfs_env \<Rightarrow> int \<Rightarrow> string \<Rightarrow> 'fs vfs \<Rightarrow> ((errno + nat) \<times> 'fs vfs) option" where
  "do_write C E fd buf st =
     (if fd_bad C fd then Some (Inl EBADF, st)
      else case fget E fd (vproc st) of
        None \<Rightarrow> Some (Inl EBADF, st)
      | Some p \<Rightarrow> do {
          let st1 = emit (FGet p) st;
          if FMODE_WRITE \<notin> f_mode (open_files st1 p) then Some (Inl EBADF, emit (FPut p) st1)
          else do {
            v \<leftarrow> f_vnode (open_files st1 p);
            kassert (vn_has E v V_write);
            (pos, st2) \<leftarrow> (if FMODE_APPEND \<in> f_mode (open_files st1 p)
              then do { (r, st2) \<leftarrow> do_lseek C E fd 0 SEEK_END st1;
                        Some (case r of Inr pos \<Rightarrow> pos | Inl e \<Rightarrow> - errno_code E e, st2) }
              else Some (f_pos (open_files st1 p), st1));
            let (r, st3) = call_op (op_write E v pos buf) st2;
            case r of
              Inl e \<Rightarrow> Some (Inl e, emit (FPut p) st3)
            | Inr n \<Rightarrow> do {
                kassert (vn_mode E v (fs_state st3) = S_IFBLK \<or> vn_mode E v (fs_state st3) = S_IFCHR
                  \<or> vn_mode E v (fs_state st3) = S_IFREG \<and> f_pos (open_files st3 p) \<le> vn_len E v (fs_state st3));
                Some (Inr n, emit (FPut p) (set_file p (\<lambda>f. f\<lparr>f_pos := wrap32 (f_pos f + int n)\<rparr>) st3)) } } })"

definition do_close :: "fs_config \<Rightarrow> int \<Rightarrow> 'fs vfs \<Rightarrow> (errno + unit) \<times> 'fs vfs" where
  "do_close C fd st =
     (if fd_bad C fd then (Inl EBADF, st)
      else case fd_slot st (nat fd) of
        None \<Rightarrow> (Inl EBADF, st)
      | Some p \<Rightarrow> (Inr (), emit (FPut p) (set_fd (nat fd) None st)))"

text \<open>The counting loop of \<^verbatim>\<open>do_dup\<close> looks at \<open>p_files[fd]\<close> every time.\<close>

definition do_dup :: "fs_config \<Rightarrow> 'fs vfs_env \<Rightarrow> int \<Rightarrow> 'fs vfs \<Rightarrow> (errno + nat) \<times> 'fs vfs" where
  "do_dup C E fd st =
     (if fd_bad C fd \<or> fd_slot st (nat fd) = None then (Inl EBADF, st)
      else if length (filter (\<lambda>i. fd_slot st (nat fd) \<noteq> None) [0..<NFILES C]) = NFILES C - 1 then (Inl EMFILE, st)
      else case fget E fd (vproc st) of
        None \<Rightarrow> (Inl EBADF, st)
      | Some fOld \<Rightarrow>
          (let st1 = emit (FGet fOld) st in
           case get_empty_fd C (vproc st1) of
             Inl e \<Rightarrow> (Inl EMFILE, emit (FPut fOld) st1)
           | Inr fdNew \<Rightarrow> (Inr fdNew, set_fd fdNew (Some fOld) st1)))"

definition do_dup2 :: "fs_config \<Rightarrow> 'fs vfs_env \<Rightarrow> int \<Rightarrow> int \<Rightarrow> 'fs vfs \<Rightarrow> (errno + nat) \<times> 'fs vfs" where
  "do_dup2 C E ofd nfd st =
     (if ofd < 0 \<or> nfd < 0 \<or> int (NFILES C) \<le> ofd then (Inl EBADF, st)
      else if fd_slot st (nat ofd) = None then (Inl EBADF, st)
      else if int (NFILES C) \<le> nfd then (Inl EBADF, st)
      else case fget E ofd (vproc st) of
        None \<Rightarrow> (Inl EBADF, st)
      | Some fOld \<Rightarrow>
          (let st1 = emit (FGet fOld) st in
           if ofd = nfd then (Inr (nat nfd), emit (FPut fOld) st1)
           else (let st2 = (if fd_slot st1 (nat nfd) \<noteq> None then snd (do_close C nfd st1) else st1)
                 in (Inr (nat nfd), set_fd (nat nfd) (Some fOld) st2))))"

definition do_getdent :: "fs_config \<Rightarrow> 'fs vfs_env \<Rightarrow> nat \<Rightarrow> int \<Rightarrow> 'fs vfs \<Rightarrow> ((errno + nat) \<times> 'fs vfs) option" where
  "do_getdent C E sizeof_dirent fd st =
     (if fd_bad C fd then Some (Inl EBADF, st)
      else case fget E fd (vproc st) of
        None \<Rightarrow> Some (Inl EBADF, st)
      | Some p \<Rightarrow> do {
          let st1 = emit (FGet p) st;
          v \<leftarrow> f_vnode (open_files st1 p);
          if vn_mode E v (fs_state st1) \<noteq> S_IFDIR then Some (Inl ENOTDIR, emit (FPut p) st1)
          else do {
            kassert (vn_has E v V_readdir);
            let (r, st2) = call_op (op_readdir E v (f_pos (open_files st1 p))) st1;
            case r of
              Inl e \<Rightarrow> Some (Inl e, emit (FPut p) st2)
            | Inr 0 \<Rightarrow> Some (Inr 0, emit (FPut p) st2)
            | Inr n \<Rightarrow> Some (Inr sizeof_dirent, emit (FPut p) (set_file p (\<lambda>f. f\<lparr>f_pos := wrap32 (f_pos f + int n)\<rparr>) st2)) } })"

subsection \<open>System calls on paths: \<^verbatim>\<open>vfs_syscall.c\<close>\<close>

definition do_mknod :: "fs_config \<Rightarrow> 'fs vfs_env \<Rightarrow> string \<Rightarrow> vmode \<Rightarrow> nat \<Rightarrow> 'fs vfs \<Rightarrow> ((errno + unit) \<times> 'fs vfs) option" where
  "do_mknod C E path mode devid st =
     (if mode \<noteq> S_IFBLK \<and> mode \<noteq> S_IFCHR then Some (Inl EINVAL, st)
      else do {
        (r, st1) \<leftarrow> dir_namev C E path None st;
        case r of
          Inl e \<Rightarrow> Some (Inl e, st1)
        | Inr (dir, name, namelen) \<Rightarrow>
            if NAME_LEN C - 1 < namelen then Some (Inl ENAMETOOLONG, emit (VPut dir) st1)
            else do {
              let (r, st2) = lookup E dir name namelen st1;
              case r of
                Inr v \<Rightarrow> Some (Inl EEXIST, emit (VPut v) (emit (VPut dir) st2))
              | Inl e \<Rightarrow> do {
                  kassert (vn_has E dir V_mknod);
                  let (r, st3) = call_op (op_mknod E dir (take namelen name) mode devid) st2;
                  Some (r, emit (VPut dir) st3) } } })"

definition do_mkdir :: "fs_config \<Rightarrow> 'fs vfs_env \<Rightarrow> string \<Rightarrow> 'fs vfs \<Rightarrow> ((errno + unit) \<times> 'fs vfs) option" where
  "do_mkdir C E path st = do {
     (r, st1) \<leftarrow> dir_namev C E path None st;
     case r of
       Inl e \<Rightarrow> Some (Inl e, st1)
     | Inr (dir, name, len) \<Rightarrow>
         if NAME_LEN C \<le> len then Some (Inl ENAMETOOLONG, emit (VPut dir) st1)
         else do {
           let (r, st2) = lookup E dir name len st1;
           case r of
             Inr v \<Rightarrow> Some (Inl EEXIST, emit (VPut v) (emit (VPut dir) st2))
           | Inl e \<Rightarrow> do {
               kassert (vn_has E dir V_mkdir);
               let (r, st3) = call_op (op_mkdir E dir (take len name)) st2;
               Some (r, emit (VPut dir) st3) } } }"

definition do_rmdir :: "fs_config \<Rightarrow> 'fs vfs_env \<Rightarrow> string \<Rightarrow> 'fs vfs \<Rightarrow> ((errno + unit) \<times> 'fs vfs) option" where
  "do_rmdir C E path st = do {
     (r, st1) \<leftarrow> dir_namev C E path None st;
     case r of
       Inl e \<Rightarrow> Some (Inl e, st1)
     | Inr (dir, name, len) \<Rightarrow>
         if NAME_LEN C \<le> len then Some (Inl ENAMETOOLONG, emit (VPut dir) st1)
         else if name = ''.'' then Some (Inl EINVAL, emit (VPut dir) st1)
         else if name = ''..'' then Some (Inl ENOTEMPTY, emit (VPut dir) st1)
         else do {
           kassert (vn_has E dir V_rmdir);
           let (r, st2) = call_op (op_rmdir E dir (take len name)) st1;
           Some (r, emit (VPut dir) st2) } }"

definition do_unlink :: "fs_config \<Rightarrow> 'fs vfs_env \<Rightarrow> string \<Rightarrow> 'fs vfs \<Rightarrow> ((errno + unit) \<times> 'fs vfs) option" where
  "do_unlink C E path st = do {
     (r, st1) \<leftarrow> dir_namev C E path None st;
     case r of
       Inl e \<Rightarrow> Some (Inl e, st1)
     | Inr (dir, name, len) \<Rightarrow>
         if NAME_LEN C - 1 < len then Some (Inl ENAMETOOLONG, emit (VPut dir) st1)
         else do {
           let (r, st2) = lookup E dir name len st1;
           case r of
             Inl e \<Rightarrow> Some (Inl e, emit (VPut dir) st2)
           | Inr v \<Rightarrow>
               if vn_mode E v (fs_state st2) = S_IFDIR then Some (Inl EISDIR, emit (VPut v) (emit (VPut dir) st2))
               else do {
                 kassert (vn_has E dir V_unlink);
                 let (r, st3) = call_op (op_unlink E dir (take len name)) st2;
                 Some (r, emit (VPut v) (emit (VPut dir) st3)) } } }"

definition do_link :: "fs_config \<Rightarrow> 'fs vfs_env \<Rightarrow> string \<Rightarrow> string \<Rightarrow> 'fs vfs \<Rightarrow> ((errno + unit) \<times> 'fs vfs) option" where
  "do_link C E from_path to_path st =
     (if MAXPATHLEN C < length to_path \<or> MAXPATHLEN C < length from_path then Some (Inl ENAMETOOLONG, st)
      else do {
        (r, st1) \<leftarrow> open_namev C E from_path {O_RDWR} None st;
        case r of
          Inl e \<Rightarrow> Some (Inl e, st1)
        | Inr res \<Rightarrow>
            if vn_mode E res (fs_state st1) = S_IFDIR then Some (Inl EISDIR, emit (VPut res) st1)
            else do {
              (r, st2) \<leftarrow> dir_namev C E to_path None st1;
              case r of
                Inl e \<Rightarrow> Some (Inl e, emit (VPut res) st2)
              | Inr (dir, name, len) \<Rightarrow> do {
                  let (r, st3) = lookup E dir name len st2;
                  case r of
                    Inr v \<Rightarrow> Some (Inl EEXIST, emit (VPut res) (emit (VPut v) st3))
                  | Inl e \<Rightarrow> do {
                      let (r, st4) = call_op (op_link E res dir (take len name)) st3;
                      Some (r, emit (VPut dir) (emit (VPut res) st4)) } } } })"

definition do_rename :: "fs_config \<Rightarrow> 'fs vfs_env \<Rightarrow> string \<Rightarrow> string \<Rightarrow> 'fs vfs \<Rightarrow> ((errno + unit) \<times> 'fs vfs) option" where
  "do_rename C E oldname newname st = do {
     (r, st1) \<leftarrow> do_link C E oldname newname st;
     case r of Inl e \<Rightarrow> Some (Inl e, st1) | Inr _ \<Rightarrow> do_unlink C E oldname st1 }"

definition do_chdir :: "fs_config \<Rightarrow> 'fs vfs_env \<Rightarrow> string \<Rightarrow> 'fs vfs \<Rightarrow> ((errno + unit) \<times> 'fs vfs) option" where
  "do_chdir C E path st = do {
     (r, st1) \<leftarrow> dir_namev C E path None st;
     case r of
       Inl e \<Rightarrow> Some (Inl e, st1)
     | Inr (dir, name, len) \<Rightarrow>
         if NAME_LEN C \<le> len then Some (Inl ENAMETOOLONG, emit (VPut dir) st1)
         else do {
           let (r, st2) = lookup E dir name len st1;
           case r of
             Inl e \<Rightarrow> Some (Inl e, emit (VPut dir) st2)
           | Inr v \<Rightarrow>
               if vn_mode E v (fs_state st2) \<noteq> S_IFDIR then Some (Inl ENOTDIR, emit (VPut v) (emit (VPut dir) st2))
               else (let st3 = emit (VPut (p_cwd (vproc st2))) (emit (VPut dir) st2)
                     in Some (Inr (), st3\<lparr>vproc := (vproc st3)\<lparr>p_cwd := v\<rparr>\<rparr>)) } }"

definition do_stat :: "fs_config \<Rightarrow> 'fs vfs_env \<Rightarrow> string \<Rightarrow> bool \<Rightarrow> 'fs vfs \<Rightarrow> ((errno + unit) \<times> 'fs vfs) option" where
  "do_stat C E path buf_null st =
     (if MAXPATHLEN C < length path then Some (Inl ENAMETOOLONG, st)
      else if buf_null then Some (Inl EFAULT, st)
      else do {
        (r, st1) \<leftarrow> open_namev C E path {} None st;
        case r of
          Inl e \<Rightarrow> Some (Inl e, st1)
        | Inr v \<Rightarrow>
            if vn_has E v V_stat
            then (let (r, st2) = call_op (op_stat E v) st1 in Some (r, emit (VPut v) st2))
            else Some (Inr (), emit (VPut v) st1) })"

subsection \<open>References\<close>

text \<open>What the recorded calls leave behind: references taken minus references given back.\<close>

fun vnet :: "vnode_ptr \<Rightarrow> vfs_event list \<Rightarrow> int" where
  "vnet v [] = 0"
| "vnet v (VGet x # es) = of_bool (x = v) + vnet v es"
| "vnet v (VPut x # es) = - of_bool (x = v) + vnet v es"
| "vnet v (_ # es) = vnet v es"

fun fnet :: "file_ptr \<Rightarrow> vfs_event list \<Rightarrow> int" where
  "fnet p [] = 0"
| "fnet p (FGet x # es) = of_bool (x = p) + fnet p es"
| "fnet p (FPut x # es) = - of_bool (x = p) + fnet p es"
| "fnet p (_ # es) = fnet p es"

definition vrefs :: "'fs vfs \<Rightarrow> vnode_ptr \<Rightarrow> int" where
  "vrefs st v = vnet v (vlog st)"

definition frefs :: "'fs vfs \<Rightarrow> file_ptr \<Rightarrow> int" where
  "frefs st p = fnet p (vlog st)"

text \<open>The references a result holds.\<close>

fun held :: "errno + vnode_ptr \<Rightarrow> vnode_ptr \<Rightarrow> int" where
  "held (Inl e) v = 0"
| "held (Inr x) v = of_bool (x = v)"

definition path_frame :: "'fs vfs \<Rightarrow> 'fs vfs \<Rightarrow> bool" where
  "path_frame st st' \<longleftrightarrow> open_files st' = open_files st \<and> vproc st' = vproc st \<and> frefs st' = frefs st"

definition gives :: "'fs vfs \<Rightarrow> (vnode_ptr \<Rightarrow> int) \<Rightarrow> 'fs vfs \<Rightarrow> bool" where
  "gives st D st' \<longleftrightarrow> (\<forall>v. vrefs st' v = vrefs st v + D v) \<and> path_frame st st'"

text \<open>Every vnode with a \<^verbatim>\<open>lookup\<close> operation has the other directory operations; the root is one.\<close>

definition dirs_complete :: "fs_config \<Rightarrow> 'fs vfs_env \<Rightarrow> bool" where
  "dirs_complete C E \<longleftrightarrow> vn_has E (vfs_root_vn C) V_lookup \<and> (\<forall>d. vn_has E d V_lookup \<longrightarrow>
     vn_has E d V_create \<and> vn_has E d V_mknod \<and> vn_has E d V_mkdir \<and> vn_has E d V_rmdir \<and> vn_has E d V_unlink)"

text \<open>
  A reference description of path resolution.  A component is the directory itself (empty or
  \<^verbatim>\<open>.\<close>) or what the file system finds in it; \<open>resolve\<close> follows components one by one, stopping at the
  first error; \<open>namev_spec\<close> resolves all components but the last.
\<close>

definition component :: "'fs vfs_env \<Rightarrow> vnode_ptr \<Rightarrow> string \<Rightarrow> 'fs \<Rightarrow> (errno + vnode_ptr) \<times> 'fs" where
  "component E dir s fs =
     (if \<not> vn_has E dir V_lookup then (Inl ENOTDIR, fs)
      else if s = [] \<or> s = ''.'' then (Inr dir, fs)
      else op_lookup E dir s fs)"

fun resolve :: "fs_config \<Rightarrow> 'fs vfs_env \<Rightarrow> vnode_ptr \<Rightarrow> string list \<Rightarrow> 'fs \<Rightarrow> (errno + vnode_ptr) \<times> 'fs" where
  "resolve C E dir [] fs = (Inr dir, fs)"
| "resolve C E dir (s # ss) fs =
     (if NAME_LEN C < length s then (Inl ENAMETOOLONG, fs)
      else case component E dir s fs of
        (Inl e, fs') \<Rightarrow> (Inl e, fs')
      | (Inr v, fs') \<Rightarrow> resolve C E v ss fs')"

definition parent_spec :: "fs_config \<Rightarrow> 'fs vfs_env \<Rightarrow> vnode_ptr \<Rightarrow> string list \<Rightarrow> 'fs
    \<Rightarrow> (errno + vnode_ptr \<times> string) \<times> 'fs" where
  "parent_spec C E start comps fs =
     (case resolve C E start (butlast comps) fs of
        (Inl e, fs') \<Rightarrow> (Inl e, fs')
      | (Inr d, fs') \<Rightarrow>
          if NAME_LEN C < length (last comps) then (Inl ENAMETOOLONG, fs')
          else case component E d (last comps) fs' of
            (Inl e, fs'') \<Rightarrow> (if e = ENOENT then Inr (d, last comps) else Inl e, fs'')
          | (Inr _, fs'') \<Rightarrow> (Inr (d, last comps), fs''))"

definition components_of :: "string \<Rightarrow> string list" where
  "components_of path = (let (s, ss) = split_path path in s # ss)"

definition namev_spec :: "fs_config \<Rightarrow> 'fs vfs_env \<Rightarrow> vnode_ptr \<Rightarrow> string \<Rightarrow> 'fs \<Rightarrow> (errno + vnode_ptr \<times> string) \<times> 'fs" where
  "namev_spec C E cwd path fs =
     (if path = [] then (Inl EINVAL, fs)
      else if path = ''/'' then (Inr (vfs_root_vn C, ''/''), fs)
      else if hd path = CHR ''/'' then parent_spec C E (vfs_root_vn C) (components_of (tl path)) fs
      else parent_spec C E cwd (components_of path) fs)"

text \<open>
  The number of descriptors that refer to a file.  A call is balanced when it changes the references of
  every file by as much as the number of descriptors that refer to it.
\<close>

definition slots :: "'fs vfs \<Rightarrow> file_ptr \<Rightarrow> int" where
  "slots st p = int (count_list (p_files (vproc st)) (Some p))"

definition fd_balanced :: "'fs vfs \<Rightarrow> 'fs vfs \<Rightarrow> bool" where
  "fd_balanced st st' \<longleftrightarrow> (\<forall>p. frefs st' p - frefs st p = slots st' p - slots st p)"

text \<open>The documented behaviour of \<^verbatim>\<open>fget\<close> for a descriptor in range.\<close>

definition fget_ok :: "'fs vfs_env \<Rightarrow> bool" where
  "fget_ok E \<longleftrightarrow> (\<forall>fd p. 0 \<le> fd \<and> nat fd < length (p_files p) \<longrightarrow> fget E fd p = p_files p ! nat fd)"

definition fd_least_free :: "'fs vfs \<Rightarrow> nat \<Rightarrow> bool" where
  "fd_least_free st i \<longleftrightarrow> i < length (p_files (vproc st)) \<and> fd_slot st i = None \<and> (\<forall>j<i. fd_slot st j \<noteq> None)"

text \<open>The access mode that \<^verbatim>\<open>O_RDONLY\<close>, \<^verbatim>\<open>O_WRONLY\<close> or \<^verbatim>\<open>O_RDWR\<close>, possibly with \<^verbatim>\<open>O_APPEND\<close>, asks for.\<close>

definition open_mode :: "oflag set \<Rightarrow> fmode set" where
  "open_mode oflags = (if O_WRONLY \<in> oflags then {} else {FMODE_READ})
     \<union> (if O_WRONLY \<in> oflags \<or> O_RDWR \<in> oflags then {FMODE_WRITE} else {})
     \<union> (if O_APPEND \<in> oflags then {FMODE_APPEND} else {})"

text \<open>
  A small file system for the witnesses: vnodes 1 to 9 are directories, the others regular files; the
  state lists the entries of the directories.
\<close>

type_synonym demo_fs = "(vnode_ptr \<times> string \<times> vnode_ptr) list"

definition demo_find :: "vnode_ptr \<Rightarrow> string \<Rightarrow> demo_fs \<Rightarrow> (errno + vnode_ptr) \<times> demo_fs" where
  "demo_find d n s = (case List.find (\<lambda>(d', n', v). d' = d \<and> n' = n) s of
     None \<Rightarrow> (Inl ENOENT, s) | Some (_, _, v) \<Rightarrow> (Inr v, s))"

definition demo_vfs_env :: "demo_fs vfs_env" where
  "demo_vfs_env = \<lparr>errno_code = (\<lambda>_. 1), fget = (\<lambda>fd p. if 0 \<le> fd \<and> nat fd < length (p_files p) then p_files p ! nat fd else None),
     vn_has = (\<lambda>v w. v < 10 \<or> w = V_read \<or> w = V_write \<or> w = V_stat), vn_mode = (\<lambda>v s. if v < 10 then S_IFDIR else S_IFREG),
     vn_len = (\<lambda>v s. 100), vn_bdev = (\<lambda>_. True), vn_cdev = (\<lambda>_. True),
     op_lookup = demo_find, op_create = (\<lambda>d n s. (Inr 20, (d, n, 20) # s)),
     op_mknod = (\<lambda>d n m i s. (Inr (), (d, n, 21) # s)), op_mkdir = (\<lambda>d n s. (Inr (), (d, n, 5) # s)),
     op_rmdir = (\<lambda>d n s. (Inl ENOTEMPTY, s)), op_unlink = (\<lambda>d n s. (Inr (), filter (\<lambda>(d', n', v). \<not> (d' = d \<and> n' = n)) s)),
     op_link = (\<lambda>v d n s. (Inr (), (d, n, v) # s)), op_read = (\<lambda>v pos n s. (Inr n, s)),
     op_write = (\<lambda>v pos b s. (Inr (length b), s)), op_readdir = (\<lambda>v pos s. (Inr 0, s)), op_stat = (\<lambda>v s. (Inr (), s))\<rparr>"

definition demo_fs_config :: fs_config where
  "demo_fs_config = \<lparr>PROC_MAX_COUNT = 8, NFILES = 3, PROC_NAME_LEN = 8, DEFAULT_STACK_SIZE = 0x4000, vfs_root_vn = 1,
     NAME_LEN = 8, MAXPATHLEN = 64\<rparr>"

definition demo_vfs :: "demo_fs vfs" where
  "demo_vfs = \<lparr>fs_state = [(1, ''bin'', 2), (2, ''ls'', 11)],
     open_files = (\<lambda>_. \<lparr>f_pos = 0, f_mode = {FMODE_READ, FMODE_WRITE}, f_vnode = Some 11\<rparr>),
     vproc = (demo_proc 2 [] 1 PROC_RUNNING [9] 5)\<lparr>p_files := [Some 7, None, None]\<rparr>, vlog = []\<rparr>"

definition demo_append_env :: "int vfs_env" where
  "demo_append_env = \<lparr>errno_code = (\<lambda>_. 1), fget = fget demo_vfs_env, vn_has = (\<lambda>_ _. True), vn_mode = (\<lambda>_ _. S_IFREG),
     vn_len = (\<lambda>_ s. s), vn_bdev = (\<lambda>_. True), vn_cdev = (\<lambda>_. True),
     op_lookup = (\<lambda>_ _ s. (Inl ENOENT, s)), op_create = (\<lambda>_ _ s. (Inr 20, s)), op_mknod = (\<lambda>_ _ _ _ s. (Inr (), s)),
     op_mkdir = (\<lambda>_ _ s. (Inr (), s)), op_rmdir = (\<lambda>_ _ s. (Inr (), s)), op_unlink = (\<lambda>_ _ s. (Inr (), s)),
     op_link = (\<lambda>_ _ _ s. (Inr (), s)), op_read = (\<lambda>_ _ n s. (Inr n, s)),
     op_write = (\<lambda>_ pos b s. (Inr (length b), max s (pos + int (length b)))), op_readdir = (\<lambda>_ _ s. (Inr 0, s)),
     op_stat = (\<lambda>_ s. (Inr (), s))\<rparr>"

named_theorems ledger "how the recorded calls change the reference counts"

lemma vnet_append [simp]: "vnet v (xs @ ys) = vnet v xs + vnet v ys"
  by (induction v xs rule: vnet.induct) auto

lemma fnet_append [simp]: "fnet p (xs @ ys) = fnet p xs + fnet p ys"
  by (induction p xs rule: fnet.induct) auto

lemma vrefs_emit [ledger]:
  "vrefs (emit (VGet x) st) v = vrefs st v + of_bool (x = v)"
  "vrefs (emit (VPut x) st) v = vrefs st v - of_bool (x = v)"
  "vrefs (emit (FGet p) st) v = vrefs st v" "vrefs (emit (FPut p) st) v = vrefs st v"
  by (simp_all add: vrefs_def emit_def)

lemma frefs_emit [ledger]:
  "frefs (emit (FGet x) st) p = frefs st p + of_bool (x = p)"
  "frefs (emit (FPut x) st) p = frefs st p - of_bool (x = p)"
  "frefs (emit (VGet v) st) p = frefs st p" "frefs (emit (VPut v) st) p = frefs st p"
  by (simp_all add: frefs_def emit_def)

lemma refs_frame [ledger]:
  "vrefs (st\<lparr>fs_state := s\<rparr>) v = vrefs st v" "frefs (st\<lparr>fs_state := s\<rparr>) p = frefs st p"
  "vrefs (set_file x g st) v = vrefs st v" "frefs (set_file x g st) p = frefs st p"
  "vrefs (set_fd fd y st) v = vrefs st v" "frefs (set_fd fd y st) p = frefs st p"
  "vrefs (st\<lparr>vproc := q\<rparr>) v = vrefs st v" "frefs (st\<lparr>vproc := q\<rparr>) p = frefs st p"
  by (simp_all add: vrefs_def frefs_def set_file_def set_fd_def)

lemma emit_frame [simp]:
  "fs_state (emit e st) = fs_state st" "open_files (emit e st) = open_files st" "vproc (emit e st) = vproc st"
  by (simp_all add: emit_def)

lemma set_frame [simp]:
  "fs_state (set_file p g st) = fs_state st" "vproc (set_file p g st) = vproc st"
  "open_files (set_file p g st) = (open_files st)(p := g (open_files st p))"
  "fs_state (set_fd fd y st) = fs_state st" "open_files (set_fd fd y st) = open_files st"
  "p_files (vproc (set_fd fd y st)) = (p_files (vproc st))[fd := y]" "p_cwd (vproc (set_fd fd y st)) = p_cwd (vproc st)"
  by (simp_all add: set_file_def set_fd_def)

lemma call_op_effect:
  assumes "call_op f st = (r, st')"
  shows "f (fs_state st) = (r, fs_state st')" and "st' = st\<lparr>fs_state := fs_state st'\<rparr>"
  using assms by (auto simp: call_op_def split: prod.splits)

lemma call_op_refs [ledger]:
  assumes "call_op f st = (r, st')"
  shows "vrefs st' v = vrefs st v" and "frefs st' p = frefs st p"
  using call_op_effect(2) [OF assms] by (simp_all add: vrefs_def frefs_def) (metis vfs.select_convs(4) vfs.surjective vfs.update_convs(1))+

lemma call_op_frame: "call_op f st = (r, st') \<Longrightarrow> path_frame st st'"
  by (auto simp: call_op_def path_frame_def frefs_def split: prod.splits)

lemma path_frame_refl [simp]: "path_frame st st"
  by (simp add: path_frame_def)

lemma path_frame_trans: "path_frame st st1 \<Longrightarrow> path_frame st1 st2 \<Longrightarrow> path_frame st st2"
  by (simp add: path_frame_def)

lemma path_frame_emit [simp]: "path_frame st (emit (VGet v) st')  \<longleftrightarrow> path_frame st st'"
  "path_frame st (emit (VPut v) st') \<longleftrightarrow> path_frame st st'"
  by (simp_all add: path_frame_def frefs_emit fun_eq_iff)

lemma lookup_refs:
  assumes "lookup E dir name len st = (r, st')"
  shows "vrefs st' v = vrefs st v + held r v" and "path_frame st st'"
  using assms
  by (auto simp: lookup_def call_vnode_op_def ledger call_op_refs(1) call_op_frame split: if_splits prod.splits sum.splits)

subsection \<open>Path resolution\<close>

lemma strncmp_dot: "strncmp_eq ''.'' s (length s) \<longleftrightarrow> s = [] \<or> s = ''.''"
proof (cases s)
  case (Cons c cs)
  then show ?thesis by (cases cs) auto
qed simp

lemma lookup_component:
  "lookup E dir s (length s) st = (r, st') \<Longrightarrow> component E dir s (fs_state st) = (r, fs_state st')"
  by (auto simp: lookup_def component_def strncmp_dot call_vnode_op_def call_op_def split: if_splits prod.splits sum.splits)

lemma parent_spec_Cons:
  "ss \<noteq> [] \<Longrightarrow> length s \<le> NAME_LEN C \<Longrightarrow> parent_spec C E d (s # ss) fs =
     (case component E d s fs of (Inl e, fs') \<Rightarrow> (Inl e, fs') | (Inr v, fs') \<Rightarrow> parent_spec C E v ss fs')"
  by (auto simp: parent_spec_def split: prod.splits sum.splits)

lemma namev_loop_spec:
  assumes "namev_loop C E d s ss st = (r, st')" and "length s \<le> NAME_LEN C"
  shows "parent_spec C E d (s # ss) (fs_state st) = (map_sum id (\<lambda>(v, n). (v, last (s # ss))) r, fs_state st')
     \<and> (\<forall>v n. r = Inr (v, n) \<longrightarrow> n = length (last (s # ss)))
     \<and> (\<forall>v. vrefs st' v = vrefs st v - of_bool (d = v) + (case r of Inl e \<Rightarrow> 0 | Inr (x, n) \<Rightarrow> of_bool (x = v)))
     \<and> path_frame st st'"
  using assms
proof (induction ss arbitrary: d s st)
  case Nil
  obtain r1 st1 where l: "lookup E d s (length s) st = (r1, st1)" by force
  note f = lookup_component [OF l] lookup_refs [OF l]
  from Nil l f show ?case
    by (auto simp: parent_spec_def ledger split: sum.splits if_splits)
next
  case (Cons s' ss)
  obtain r1 st1 where l: "lookup E d s (length s) st = (r1, st1)" by force
  note f = lookup_component [OF l] lookup_refs [OF l]
  show ?case
  proof (cases r1)
    case (Inl e)
    then show ?thesis using Cons.prems l f by (auto simp: parent_spec_Cons ledger)
  next
    case (Inr v)
    show ?thesis
    proof (cases "NAME_LEN C < length s'")
      case True
      then have "parent_spec C E v (s' # ss) (fs_state st1) = (Inl ENAMETOOLONG, fs_state st1)"
        by (cases ss) (auto simp: parent_spec_def)
      then show ?thesis using Cons.prems l f Inr True by (auto simp: parent_spec_Cons ledger)
    next
      case False
      then have "namev_loop C E v s' ss (emit (VPut d) st1) = (r, st')" using Cons.prems l Inr by simp
      note IH = Cons.IH [OF this]
      have "path_frame st1 (emit (VPut d) st1)" by simp
      then have "path_frame st st'" using IH False f(3) by (metis not_le path_frame_trans)
      with IH False Cons.prems(2) f(1,2) Inr show ?thesis by (auto simp: parent_spec_Cons ledger)
    qed
  qed
qed

lemma split_path_suffix:
  assumes "split_path p = (s, ss)"
  shows "\<exists>pre. p = pre @ last (s # ss) \<and> (ss = [] \<longrightarrow> pre = [])"
  using assms
proof (induction p arbitrary: s ss)
  case (Cons c p)
  obtain s0 ss0 where p: "split_path p = (s0, ss0)" by force
  then obtain pre where pre: "p = pre @ last (s0 # ss0)" "ss0 = [] \<longrightarrow> pre = []" using Cons.IH by blast
  show ?case
  proof (cases "c = CHR ''/''")
    case True
    then show ?thesis using Cons.prems p pre by (intro exI [of _ "c # pre"]) (auto split: prod.splits)
  next
    case False
    then show ?thesis using Cons.prems p pre
      by (intro exI [of _ "if ss0 = [] then [] else c # pre"]) (auto split: prod.splits)
  qed
qed auto

lemma drop_suffix: "drop (length (pre @ s) - length s) (pre @ s) = s"
  by simp

lemma dir_namev_eq:
  assumes "length path < MAXPATHLEN C"
  shows "\<exists>r st'. dir_namev C E path base st = Some (r, st')
     \<and> namev_spec C E (case base of None \<Rightarrow> p_cwd (vproc st) | Some b \<Rightarrow> b) path (fs_state st)
         = (map_sum id (\<lambda>(v, name, n). (v, name)) r, fs_state st')
     \<and> (\<forall>v name n. r = Inr (v, name, n) \<longrightarrow> n = length name)
     \<and> (\<forall>v. vrefs st' v = vrefs st v + (case r of Inl e \<Rightarrow> 0 | Inr (x, name, n) \<Rightarrow> of_bool (x = v)))
     \<and> path_frame st st'"
proof -
  let ?b = "case base of None \<Rightarrow> p_cwd (vproc st) | Some b \<Rightarrow> b"
  let ?i = "if path \<noteq> [] \<and> hd path = CHR ''/'' then 1 else 0 :: nat"
  let ?d = "if ?i = 0 then ?b else vfs_root_vn C"
  show ?thesis
  proof (cases "drop ?i path = []")
    case True
    then show ?thesis
      using assms by (cases path) (auto simp: dir_namev_def namev_spec_def Let_def ledger split: if_splits)
  next
    case False
    obtain s ss where sp: "split_path (drop ?i path) = (s, ss)" by force
    obtain pre where pre: "drop ?i path = pre @ last (s # ss)" using split_path_suffix [OF sp] by blast
    then have path: "path = (take ?i path @ pre) @ last (s # ss)" by (metis append.assoc append_take_drop_id)
    have spec: "namev_spec C E ?b path (fs_state st) = parent_spec C E ?d (s # ss) (fs_state st)"
      using False sp by (cases path) (auto simp: namev_spec_def components_of_def)
    show ?thesis
    proof (cases "NAME_LEN C < length s")
      case True
      then have "parent_spec C E ?d (s # ss) (fs_state st) = (Inl ENAMETOOLONG, fs_state st)"
        by (cases ss) (auto simp: parent_spec_def)
      then show ?thesis using assms False sp True spec by (simp add: dir_namev_def Let_def ledger)
    next
      case le: False
      obtain r1 st1 where l: "namev_loop C E ?d s ss (emit (VGet ?d) st) = (r1, st1)" by force
      have f: "parent_spec C E ?d (s # ss) (fs_state st) = (map_sum id (\<lambda>(v, n). (v, last (s # ss))) r1, fs_state st1)"
        "\<forall>v n. r1 = Inr (v, n) \<longrightarrow> n = length (last (s # ss))"
        "vrefs st1 v = vrefs st v + (case r1 of Inl e \<Rightarrow> 0 | Inr (x, n) \<Rightarrow> of_bool (x = v))"
        "path_frame st st1" for v
        using namev_loop_spec [OF l] le by (simp_all add: ledger path_frame_def fun_eq_iff)
      have nm: "drop (length path - length (last (s # ss))) path = last (s # ss)"
        by (subst (1 2) path) (rule drop_suffix)
      have def: "dir_namev C E path base st = (case r1 of Inl e \<Rightarrow> Some (Inl e, st1)
          | Inr (v, n) \<Rightarrow> Some (Inr (v, drop (length path - n) path, n), st1))"
        using assms False sp le l by (simp add: dir_namev_def Let_def split: sum.split)
      show ?thesis
      proof (cases r1)
        case (Inl e)
        then show ?thesis using f spec def by (auto simp del: last.simps)
      next
        case (Inr x)
        obtain v n where x: "x = (v, n)" by force
        have "n = length (last (s # ss))" using f(2) Inr x by blast
        then show ?thesis using f Inr x spec nm def by (auto simp del: last.simps)
      qed
    qed
  qed
qed

subsection \<open>References of the path calls\<close>

lemma dir_namev_refs:
  assumes "dir_namev C E path base st = Some (r, st')"
  shows "vrefs st' v = vrefs st v + (case r of Inl e \<Rightarrow> 0 | Inr (x, name, n) \<Rightarrow> of_bool (x = v))"
    and "path_frame st st'" and "r = Inr (x, name, n) \<Longrightarrow> n = length name"
proof -
  have "length path < MAXPATHLEN C" using assms by (simp add: dir_namev_def)
  from dir_namev_eq [OF this, of E base st] assms
  show "vrefs st' v = vrefs st v + (case r of Inl e \<Rightarrow> 0 | Inr (x, name, n) \<Rightarrow> of_bool (x = v))"
    and "path_frame st st'" and "r = Inr (x, name, n) \<Longrightarrow> n = length name" by auto
qed

lemma call_vnode_op_refs:
  assumes "call_vnode_op f st = (r, st')"
  shows "vrefs st' v = vrefs st v + held r v" and "path_frame st st'"
  using assms by (auto simp: call_vnode_op_def ledger call_op_refs(1) call_op_frame split: prod.splits sum.splits)

lemma open_namev_refs:
  assumes "open_namev C E path flag base st = Some (r, st')"
  shows "vrefs st' v = vrefs st v + held r v \<and> path_frame st st'"
proof -
  obtain r1 st1 where d: "dir_namev C E path base st = Some (r1, st1)"
    using assms by (auto simp: open_namev_def split: Option.bind_splits)
  show ?thesis
  proof (cases r1)
    case (Inl e)
    then show ?thesis using assms d dir_namev_refs [OF d] by (auto simp: open_namev_def)
  next
    case (Inr x)
    obtain dir name len where x: "x = (dir, name, len)" by (cases x)
    let ?n = "if strncmp_eq name ''/'' len \<and> vfs_root_vn C = dir then ''.'' else name"
    obtain r2 st2 where l: "lookup E dir ?n len st1 = (r2, st2)" by force
    obtain r3 st3 where c: "call_vnode_op (op_create E dir (take len ?n)) st2 = (r3, st3)" by force
    have fr: "path_frame st st2" "path_frame st st3"
      using dir_namev_refs(2) [OF d] lookup_refs(2) [OF l] call_vnode_op_refs(2) [OF c] by (auto intro: path_frame_trans)
    have refs: "vrefs st2 v = vrefs st v + of_bool (dir = v) + held r2 v" "vrefs st3 v = vrefs st2 v + held r3 v"
      using dir_namev_refs(1) [OF d] lookup_refs(1) [OF l] call_vnode_op_refs(1) [OF c] Inr x by simp_all
    from assms d l c Inr x have "(case r2 of
           Inr y \<Rightarrow> r = Inr y \<and> st' = emit (VPut dir) st2
         | Inl e \<Rightarrow> if \<not> (O_CREAT \<in> flag \<and> e = ENOENT) then r = Inl e \<and> st' = emit (VPut dir) st2
             else r = r3 \<and> st' = emit (VPut dir) st3)"
      unfolding open_namev_def by (cases r2) (auto split: if_splits)
    with fr refs show ?thesis by (auto simp: ledger split: sum.splits if_splits)
  qed
qed

text \<open>
  \<open>gives st D st'\<close>: between the two states the vnode references changed by \<open>D\<close>, and open files,
  descriptors and file references did not change.  The rules follow the structure of the calls.
\<close>

lemma gives_refl: "gives st (\<lambda>_. 0) st"
  by (simp add: gives_def)

lemma gives_put: "gives st D st' \<Longrightarrow> gives st (\<lambda>v. D v - of_bool (x = v)) (emit (VPut x) st')"
  by (simp add: gives_def ledger)

lemma gives_trans: "gives st D st1 \<Longrightarrow> gives st1 D' st2 \<Longrightarrow> gives st (\<lambda>v. D v + D' v) st2"
  by (auto simp: gives_def intro: path_frame_trans)

lemma gives_eq: "gives st D st' \<Longrightarrow> (\<And>v. D v = D' v) \<Longrightarrow> gives st D' st'"
  by (simp add: gives_def)

lemma gives_call_op: "call_op f st = (r, st') \<Longrightarrow> gives st (\<lambda>_. 0) st'"
  by (simp add: gives_def call_op_refs(1) call_op_frame)

lemma gives_lookup: "lookup E d n l st = (r, st') \<Longrightarrow> gives st (held r) st'"
  by (simp add: gives_def lookup_refs)

lemma gives_open_namev: "open_namev C E path flag b st = Some (r, st') \<Longrightarrow> gives st (held r) st'"
  using open_namev_refs [of C E path flag b st r st'] by (simp add: gives_def)

lemma namev_bind:
  assumes "dir_namev C E path b st \<bind> (\<lambda>(r, st1). case r of Inl e \<Rightarrow> Some (Inl e, st1)
      | Inr (d, n, l) \<Rightarrow> K d n l st1) = Some (r, st')"
    and "\<And>d n l st1. K d n l st1 = Some (r, st') \<Longrightarrow> gives st1 (\<lambda>v. D v - of_bool (d = v)) st'"
    and "\<And>e v. r = Inl e \<Longrightarrow> D v = 0"
  shows "gives st D st'"
proof -
  obtain r1 st1 where d: "dir_namev C E path b st = Some (r1, st1)" using assms(1) by (cases "dir_namev C E path b st") auto
  show ?thesis
  proof (cases r1)
    case (Inl e)
    then show ?thesis using assms(1,3) d dir_namev_refs [OF d] by (auto simp: gives_def)
  next
    case (Inr x)
    obtain dir n l where x: "x = (dir, n, l)" by (cases x)
    have "gives st (\<lambda>v. of_bool (dir = v)) st1" using dir_namev_refs [OF d] Inr x by (simp add: gives_def)
    moreover have "gives st1 (\<lambda>v. D v - of_bool (dir = v)) st'" using assms(1,2) d Inr x by simp
    ultimately show ?thesis by (rule gives_trans [THEN gives_eq]) simp
  qed
qed

lemma lookup_case:
  assumes "(let (r, st2) = lookup E d n l st1 in case r of Inl e \<Rightarrow> A e st2 | Inr x \<Rightarrow> B x st2) = Some (r, st')"
    and "\<And>e st2. A e st2 = Some (r, st') \<Longrightarrow> gives st2 D st'"
    and "\<And>x st2. B x st2 = Some (r, st') \<Longrightarrow> gives st2 (\<lambda>v. D v - of_bool (x = v)) st'"
  shows "gives st1 D st'"
proof -
  obtain r2 st2 where l: "lookup E d n l st1 = (r2, st2)" by force
  show ?thesis
    using assms l gives_trans [OF gives_lookup [OF l]] by (cases r2) (force intro: gives_eq)+
qed

lemma call_case:
  assumes "(case call_op f st2 of (r, st3) \<Rightarrow> Some (r, K st3)) = Some (r, st')"
    and "\<And>st3. gives st3 D (K st3)"
  shows "gives st2 D st'"
proof -
  obtain r3 st3 where c: "call_op f st2 = (r3, st3)" by force
  then have "st' = K st3" using assms(1) by simp
  then show ?thesis using gives_trans [OF gives_call_op [OF c] assms(2)] by simp
qed

lemma gives_put1: "gives st (\<lambda>v. - of_bool (x = v)) (emit (VPut x) st)"
  using gives_put [OF gives_refl] by (rule gives_eq) simp

lemma gives_put2: "gives st (\<lambda>v. - of_bool (x = v) - of_bool (y = v)) (emit (VPut y) (emit (VPut x) st))"
  by (rule gives_put [OF gives_put1])

lemmas gives_puts = gives_put1 [THEN gives_eq] gives_put2 [THEN gives_eq]

lemma do_mknod_gives: "do_mknod C E path mode devid st = Some (r, st') \<Longrightarrow> gives st (\<lambda>_. 0) st'"
  unfolding do_mknod_def
  apply (simp only: split: if_splits)
   apply (simp add: gives_refl)
  apply (erule namev_bind)
   apply (simp only: split: if_splits)
    apply (force intro: gives_puts)
   apply (erule lookup_case)
    apply (auto elim!: call_case intro: gives_puts)
  done

lemma do_mkdir_gives: "do_mkdir C E path st = Some (r, st') \<Longrightarrow> gives st (\<lambda>_. 0) st'"
  unfolding do_mkdir_def
  apply (erule namev_bind)
   apply (simp only: split: if_splits)
    apply (force intro: gives_puts)
   apply (erule lookup_case)
    apply (auto elim!: call_case intro: gives_puts)
  done

lemma do_rmdir_gives: "do_rmdir C E path st = Some (r, st') \<Longrightarrow> gives st (\<lambda>_. 0) st'"
  unfolding do_rmdir_def
  by (erule namev_bind) (auto elim!: call_case intro: gives_puts split: if_splits)

lemma do_unlink_gives: "do_unlink C E path st = Some (r, st') \<Longrightarrow> gives st (\<lambda>_. 0) st'"
  unfolding do_unlink_def
  apply (erule namev_bind)
   apply (simp only: split: if_splits)
    apply (force intro: gives_puts)
   apply (erule lookup_case)
    apply (auto elim!: call_case intro: gives_puts split: if_splits)
  done

lemma do_stat_gives: "do_stat C E path b st = Some (r, st') \<Longrightarrow> gives st (\<lambda>_. 0) st'"
proof -
  assume st: "do_stat C E path b st = Some (r, st')"
  show ?thesis
  proof (cases "MAXPATHLEN C < length path \<or> b")
    case True
    then show ?thesis using st by (auto simp: do_stat_def gives_refl split: if_splits)
  next
    case False
    then obtain r1 st1 where o: "open_namev C E path {} None st = Some (r1, st1)"
      using st by (auto simp: do_stat_def split: Option.bind_splits)
    note g = gives_trans [OF gives_open_namev [OF o]]
    show ?thesis
    proof (cases r1)
      case (Inl e)
      then show ?thesis using st False o gives_open_namev [OF o] by (auto simp: do_stat_def intro: gives_eq)
    next
      case (Inr v)
      then have "gives st1 (\<lambda>x. - of_bool (v = x)) st'"
        using st False o by (auto simp: do_stat_def Let_def elim!: call_case intro: gives_puts split: if_splits)
      from g [OF this] Inr show ?thesis by (auto intro: gives_eq)
    qed
  qed
qed

lemma do_link_gives:
  assumes "do_link C E from_path to_path st = Some (r, st')"
  shows "gives st (\<lambda>_. 0) st' \<or> r = Inl EEXIST \<and> (\<exists>dir. gives st (\<lambda>v. of_bool (dir = v)) st')"
proof (cases "MAXPATHLEN C < length to_path \<or> MAXPATHLEN C < length from_path")
  case True
  then show ?thesis using assms by (auto simp: do_link_def gives_refl)
next
  case short: False
  obtain r1 st1 where o: "open_namev C E from_path {O_RDWR} None st = Some (r1, st1)"
    using assms short by (auto simp: do_link_def split: Option.bind_splits)
  show ?thesis
  proof (cases r1)
    case (Inl e)
    then show ?thesis using assms short o gives_open_namev [OF o] by (auto simp: do_link_def intro: gives_eq)
  next
    case (Inr res)
    show ?thesis
    proof (cases "vn_mode E res (fs_state st1) = S_IFDIR")
      case True
      then have "st' = emit (VPut res) st1" using assms short o Inr by (simp add: do_link_def)
      then show ?thesis using gives_put [OF gives_open_namev [OF o], of res] Inr by (auto intro: gives_eq)
    next
      case False
      obtain r2 st2 where d: "dir_namev C E to_path None st1 = Some (r2, st2)"
        using assms short o Inr False by (auto simp: do_link_def split: Option.bind_splits)
      have g1: "gives st (\<lambda>v. of_bool (res = v)) st1" using gives_open_namev [OF o] Inr by (auto intro: gives_eq)
      show ?thesis
      proof (cases r2)
        case (Inl e)
        then have "gives st1 (\<lambda>_. 0) st2" using dir_namev_refs [OF d] by (simp add: gives_def)
        from gives_put [OF gives_trans [OF g1 this], of res] assms short o Inr False d Inl show ?thesis
          by (auto simp: do_link_def)
      next
        case Inr2: (Inr x)
        obtain dir n l where x: "x = (dir, n, l)" by (cases x)
        obtain r3 st3 where l: "lookup E dir n l st2 = (r3, st3)" by force
        have "gives st1 (\<lambda>v. of_bool (dir = v)) st2" using dir_namev_refs [OF d] Inr2 x by (simp add: gives_def)
        note g3 = gives_trans [OF gives_trans [OF g1 this] gives_lookup [OF l]]
        show ?thesis
        proof (cases r3)
          case v: (Inr v)
          then have "r = Inl EEXIST" "st' = emit (VPut res) (emit (VPut v) st3)"
            using assms short o Inr False d Inr2 x l by (simp_all add: do_link_def)
          moreover have "gives st (\<lambda>v. of_bool (dir = v)) (emit (VPut res) (emit (VPut v) st3))"
            by (rule gives_put [OF gives_put [OF g3], THEN gives_eq]) (simp add: v)
          ultimately show ?thesis by blast
        next
          case (Inl e)
          then obtain st4 where c: "call_op (op_link E res dir (take l n)) st3 = (r, st4)"
            "st' = emit (VPut dir) (emit (VPut res) st4)"
            using assms short o Inr False d Inr2 x l by (auto simp: do_link_def split: prod.splits)
          have "gives st (\<lambda>_. 0) st'"
            unfolding c(2) by (rule gives_put [OF gives_put [OF gives_trans [OF g3 gives_call_op [OF c(1)]]], THEN gives_eq])
              (simp add: Inl)
          then show ?thesis ..
        qed
      qed
    qed
  qed
qed

lemma do_chdir_gives:
  assumes "do_chdir C E path st = Some (r, st')"
  shows "case r of Inl e \<Rightarrow> gives st (\<lambda>_. 0) st'
     | Inr _ \<Rightarrow> \<exists>v. vn_mode E v (fs_state st') = S_IFDIR \<and> vproc st' = (vproc st)\<lparr>p_cwd := v\<rparr>
         \<and> (\<forall>x. vrefs st' x = vrefs st x + of_bool (v = x) - of_bool (p_cwd (vproc st) = x))
         \<and> open_files st' = open_files st \<and> frefs st' = frefs st"
proof -
  obtain r1 st1 where d: "dir_namev C E path None st = Some (r1, st1)"
    using assms by (auto simp: do_chdir_def split: Option.bind_splits)
  show ?thesis
  proof (cases r1)
    case (Inl e)
    then show ?thesis using assms d dir_namev_refs [OF d] by (auto simp: do_chdir_def gives_def)
  next
    case (Inr x)
    obtain dir n l where x: "x = (dir, n, l)" by (cases x)
    obtain r2 st2 where l: "lookup E dir n l st1 = (r2, st2)" by force
    have g1: "gives st (\<lambda>v. of_bool (dir = v)) st1" using dir_namev_refs [OF d] Inr x by (simp add: gives_def)
    note g2 = gives_trans [OF g1 gives_lookup [OF l]]
    show ?thesis
    proof (cases "NAME_LEN C \<le> l")
      case True
      then show ?thesis using assms d Inr x gives_put [OF g1, of dir] by (auto simp: do_chdir_def)
    next
      case False
      then show ?thesis
        using assms d Inr x l gives_put [OF g2, of dir] gives_put [OF gives_put [OF g2, of dir]] g2
        by (auto simp: do_chdir_def Let_def ledger gives_def path_frame_def fun_eq_iff split: sum.splits if_splits)
    qed
  qed
qed

text \<open>Path calls return: directories have their operations.\<close>

lemma namev_loop_dir:
  "namev_loop C E d s ss st = (Inr (x, n), st') \<Longrightarrow> vn_has E x V_lookup"
proof (induction C E d s ss st rule: namev_loop.induct)
  case (1 C E d s st)
  then show ?case by (auto simp: lookup_def split: prod.splits sum.splits if_splits)
next
  case (2 C E d s s' ss st)
  then show ?case by (auto split: prod.splits sum.splits if_splits)
qed

lemma dir_namev_dir:
  assumes "dirs_complete C E" and "dir_namev C E path b st = Some (Inr (d, name, n), st')"
  shows "vn_has E d V_lookup \<and> vn_has E d V_create \<and> vn_has E d V_mknod \<and> vn_has E d V_mkdir
    \<and> vn_has E d V_rmdir \<and> vn_has E d V_unlink"
proof -
  have "vn_has E d V_lookup"
    using assms by (auto simp: dir_namev_def dirs_complete_def Let_def dest: namev_loop_dir split: if_splits prod.splits sum.splits)
  then show ?thesis using assms(1) by (simp add: dirs_complete_def)
qed

lemma path_calls_return:
  assumes E: "dirs_complete C E" and p: "length path < MAXPATHLEN C"
  shows "do_mknod C E path mode devid st \<noteq> None" and "do_mkdir C E path st \<noteq> None" and "do_rmdir C E path st \<noteq> None"
    and "do_unlink C E path st \<noteq> None" and "do_chdir C E path st \<noteq> None" and "open_namev C E path flag b st \<noteq> None"
proof -
  obtain r st' where d: "dir_namev C E path None st = Some (r, st')" using dir_namev_eq [OF p] by blast
  then have has: "r = Inr (d, name, n) \<Longrightarrow> vn_has E d V_mknod \<and> vn_has E d V_mkdir \<and> vn_has E d V_rmdir \<and> vn_has E d V_unlink"
    for d name n using dir_namev_dir [OF E] by blast
  show "do_mknod C E path mode devid st \<noteq> None" "do_mkdir C E path st \<noteq> None" "do_rmdir C E path st \<noteq> None"
    "do_unlink C E path st \<noteq> None" "do_chdir C E path st \<noteq> None"
    using d has
    by (auto simp: do_mknod_def do_mkdir_def do_rmdir_def do_unlink_def do_chdir_def Let_def split: sum.splits prod.splits)
  obtain r st' where d: "dir_namev C E path b st = Some (r, st')" using dir_namev_eq [OF p] by blast
  then have "r = Inr (d, name, n) \<Longrightarrow> vn_has E d V_create" for d name n using dir_namev_dir [OF E] by blast
  with d show "open_namev C E path flag b st \<noteq> None"
    by (auto simp: open_namev_def Let_def split: sum.splits prod.splits)
qed

lemma do_stat_returns:
  assumes "dirs_complete C E" and "length path < MAXPATHLEN C"
  shows "do_stat C E path b st \<noteq> None"
  using path_calls_return(6) [OF assms, of "{}" None st] assms(2)
  by (auto simp: do_stat_def Let_def split: sum.splits prod.splits)

lemma returnsI: "m \<noteq> None \<Longrightarrow> (\<And>r st'. m = Some (r, st') \<Longrightarrow> P r st') \<Longrightarrow> \<exists>r st'. m = Some (r, st') \<and> P r st'"
  by auto

text \<open>C9: The path calls return, and they give back every vnode reference they take.  Whatever \<^verbatim>\<open>mknod\<close>,
  \<^verbatim>\<open>mkdir\<close>, \<^verbatim>\<open>rmdir\<close>, \<^verbatim>\<open>unlink\<close> and \<^verbatim>\<open>stat\<close> report, on each of their branches the reference count of each
  vnode is afterwards what it was, and the descriptors and open files are untouched; \<^verbatim>\<open>chdir\<close> does the
  same when it fails, and when it succeeds it has moved the reference of the working directory from the
  old directory to the new one, which is a directory.\<close>

theorem path_calls_keep_references:
  assumes "dirs_complete C E" and "length path < MAXPATHLEN C"
  shows "(\<exists>r st'. do_mknod C E path mode devid st = Some (r, st') \<and> gives st (\<lambda>_. 0) st')
   \<and> (\<exists>r st'. do_mkdir C E path st = Some (r, st') \<and> gives st (\<lambda>_. 0) st')
   \<and> (\<exists>r st'. do_rmdir C E path st = Some (r, st') \<and> gives st (\<lambda>_. 0) st')
   \<and> (\<exists>r st'. do_unlink C E path st = Some (r, st') \<and> gives st (\<lambda>_. 0) st')
   \<and> (\<exists>r st'. do_stat C E path b st = Some (r, st') \<and> gives st (\<lambda>_. 0) st')
   \<and> (\<exists>r st'. do_chdir C E path st = Some (r, st')
        \<and> (case r of Inl e \<Rightarrow> gives st (\<lambda>_. 0) st'
           | Inr _ \<Rightarrow> \<exists>v. vn_mode E v (fs_state st') = S_IFDIR \<and> vproc st' = (vproc st)\<lparr>p_cwd := v\<rparr>
               \<and> (\<forall>x. vrefs st' x = vrefs st x + of_bool (v = x) - of_bool (p_cwd (vproc st) = x))
               \<and> open_files st' = open_files st \<and> frefs st' = frefs st))"
  by (intro conjI returnsI;
    (erule do_mknod_gives do_mkdir_gives do_rmdir_gives do_unlink_gives do_stat_gives do_chdir_gives
      | rule path_calls_return [OF assms] do_stat_returns [OF assms]))

lemma demo_dirs_complete: "dirs_complete demo_fs_config demo_vfs_env"
  by (auto simp: dirs_complete_def demo_fs_config_def demo_vfs_env_def)

theorem path_calls_keep_references_witness:
  "\<exists>r st'. do_mkdir demo_fs_config demo_vfs_env ''/bin/new'' demo_vfs = Some (r, st') \<and> gives demo_vfs (\<lambda>_. 0) st'"
proof -
  have "length ''/bin/new'' < MAXPATHLEN demo_fs_config" by (simp add: demo_fs_config_def)
  from path_calls_keep_references [OF demo_dirs_complete this, of S_IFREG 0 demo_vfs False] show ?thesis by blast
qed

text \<open>C13: Path resolution.  \<^verbatim>\<open>dir_namev\<close> returns for every path shorter than the buffer, with exactly
  what following the components one by one gives: the directory that contains the last component, that
  component as the name, or the first error (a component that is missing, is no directory or is too
  long; the last component may be missing).  An empty path is -EINVAL.  It takes one reference, on the
  directory it returns, and none when it fails, and changes nothing else.\<close>

theorem dir_namev_correct:
  assumes "length path < MAXPATHLEN C"
  shows "\<exists>r st'. dir_namev C E path base st = Some (r, st')
     \<and> namev_spec C E (case base of None \<Rightarrow> p_cwd (vproc st) | Some b \<Rightarrow> b) path (fs_state st)
         = (map_sum id (\<lambda>(v, name, n). (v, name)) r, fs_state st')
     \<and> (\<forall>v name n. r = Inr (v, name, n) \<longrightarrow> n = length name)
     \<and> (\<forall>v. vrefs st' v = vrefs st v + (case r of Inl e \<Rightarrow> 0 | Inr (x, name, n) \<Rightarrow> of_bool (x = v)))
     \<and> path_frame st st'"
  by (rule dir_namev_eq [OF assms])

theorem dir_namev_correct_witness:
  "\<exists>st'. dir_namev demo_fs_config demo_vfs_env ''/bin/ls'' None demo_vfs = Some (Inr (2, ''ls'', 2), st')
     \<and> (\<forall>v. vrefs st' v = vrefs demo_vfs v + of_bool (2 = v))"
proof -
  have p: "length ''/bin/ls'' < MAXPATHLEN demo_fs_config" by (simp add: demo_fs_config_def)
  have "namev_spec demo_fs_config demo_vfs_env (p_cwd (vproc demo_vfs)) ''/bin/ls'' (fs_state demo_vfs)
      = (Inr (2, ''ls''), fs_state demo_vfs)"
    by (simp add: namev_spec_def parent_spec_def components_of_def component_def demo_vfs_def demo_vfs_env_def
        demo_fs_config_def demo_find_def)
  with dir_namev_correct [OF p, of demo_vfs_env None demo_vfs] show ?thesis
    by (auto simp: map_sum_Inr_iff dest!: sym [of "Inr _"])
qed

text \<open>\<^verbatim>\<open>do_link\<close> returns its references on every branch but one: when the target already exists, it
  reports -EEXIST and keeps the reference that \<^verbatim>\<open>dir_namev\<close> took on the directory of the target, so that
  this vnode can never be released again.\<close>

theorem do_link_leaks_directory:
  assumes "dirs_complete C E" and "length from_path < MAXPATHLEN C" and "length to_path < MAXPATHLEN C"
  shows "\<exists>r st'. do_link C E from_path to_path st = Some (r, st')
     \<and> (gives st (\<lambda>_. 0) st' \<or> r = Inl EEXIST)
     \<and> (\<forall>st1 res dir name n st2 v st3.
          open_namev C E from_path {O_RDWR} None st = Some (Inr res, st1) \<and> vn_mode E res (fs_state st1) \<noteq> S_IFDIR
          \<and> dir_namev C E to_path None st1 = Some (Inr (dir, name, n), st2) \<and> lookup E dir name n st2 = (Inr v, st3)
          \<longrightarrow> r = Inl EEXIST \<and> gives st (\<lambda>x. of_bool (dir = x)) st')"
proof -
  have "do_link C E from_path to_path st \<noteq> None"
  proof -
    obtain r1 st1 where "open_namev C E from_path {O_RDWR} None st = Some (r1, st1)"
      using path_calls_return(6) [OF assms(1,2)] by fastforce
    moreover obtain r2 st2 where "dir_namev C E to_path None st1 = Some (r2, st2)" using dir_namev_eq [OF assms(3)] by blast
    ultimately show ?thesis using assms(2,3) by (auto simp: do_link_def Let_def split: sum.splits prod.splits)
  qed
  then obtain r st' where l: "do_link C E from_path to_path st = Some (r, st')" by fastforce
  have "r = Inl EEXIST \<and> gives st (\<lambda>x. of_bool (dir = x)) st'"
    if h: "open_namev C E from_path {O_RDWR} None st = Some (Inr res, st1)" "vn_mode E res (fs_state st1) \<noteq> S_IFDIR"
      "dir_namev C E to_path None st1 = Some (Inr (dir, name, n), st2)" "lookup E dir name n st2 = (Inr v, st3)"
    for st1 res dir name n st2 v st3
  proof -
    have "r = Inl EEXIST" "st' = emit (VPut res) (emit (VPut v) st3)" using l h assms(2,3) by (auto simp: do_link_def)
    moreover have "gives st1 (\<lambda>x. of_bool (dir = x)) st2" using dir_namev_refs [OF h(3)] by (simp add: gives_def)
    from gives_put [OF gives_put [OF gives_trans [OF gives_trans [OF gives_open_namev [OF h(1)] this] gives_lookup [OF h(4)]]], of v res]
    have "gives st (\<lambda>x. of_bool (dir = x)) (emit (VPut res) (emit (VPut v) st3))" by (rule gives_eq) simp
    ultimately show ?thesis by simp
  qed
  with l do_link_gives [OF l] show ?thesis by blast
qed

theorem do_link_leaks_directory_witness:
  "\<exists>st'. do_link demo_fs_config demo_vfs_env ''/bin/ls'' ''/bin/ls'' demo_vfs = Some (Inl EEXIST, st')
     \<and> gives demo_vfs (\<lambda>x. of_bool (2 = x)) st'"
proof -
  let ?C = demo_fs_config and ?E = demo_vfs_env and ?p = "''/bin/ls''"
  have p: "length ?p < MAXPATHLEN ?C" by (simp add: demo_fs_config_def)
  note defs = open_namev_def dir_namev_def Vfs.lookup_def call_vnode_op_def call_op_def emit_def demo_fs_config_def
    demo_vfs_env_def demo_vfs_def demo_find_def
  obtain st1 where o: "open_namev ?C ?E ?p {O_RDWR} None demo_vfs = Some (Inr 11, st1)" "fs_state st1 = fs_state demo_vfs"
    by (simp add: defs)
  obtain st2 where d: "dir_namev ?C ?E ?p None st1 = Some (Inr (2, ''ls'', 2), st2)" "fs_state st2 = fs_state demo_vfs"
    using o(2) by (simp add: dir_namev_def Vfs.lookup_def call_vnode_op_def call_op_def emit_def demo_fs_config_def
        demo_vfs_env_def demo_vfs_def demo_find_def)
  obtain st3 where l: "lookup ?E 2 ''ls'' 2 st2 = (Inr 11, st3)"
    using d(2) by (simp add: Vfs.lookup_def call_vnode_op_def call_op_def demo_vfs_env_def demo_vfs_def demo_find_def
        numeral_2_eq_2)
  have "vn_mode ?E 11 (fs_state st1) \<noteq> S_IFDIR" by (simp add: demo_vfs_env_def)
  with do_link_leaks_directory [OF demo_dirs_complete p p, of demo_vfs] o(1) d(1) l show ?thesis by blast
qed

subsection \<open>Descriptors\<close>

lemma count_list_update:
  "i < length xs \<Longrightarrow> int (count_list (xs[i := y]) z) = int (count_list xs z) - of_bool (xs ! i = z) + of_bool (y = z)"
proof (induction xs arbitrary: i)
  case (Cons x xs)
  then show ?case by (cases i) auto
qed simp

lemma slots_set_fd [ledger]:
  "fd < length (p_files (vproc st)) \<Longrightarrow>
     slots (set_fd fd y st) p = slots st p - of_bool (fd_slot st fd = Some p) + of_bool (y = Some p)"
  by (simp add: slots_def count_list_update)

lemma slots_frame [ledger]: "slots (emit e st) p = slots st p" "slots (set_file q g st) p = slots st p"
  "slots (st\<lparr>fs_state := s\<rparr>) p = slots st p"
  by (simp_all add: slots_def)

lemma empty_fd_loop_Inr: "empty_fd_loop k fs = Inr i \<Longrightarrow> k \<le> i \<and> i - k < length fs \<and> fs ! (i - k) = None \<and> (\<forall>j<i - k. fs ! j \<noteq> None)"
proof (induction fs arbitrary: k)
  case (Cons f fs)
  show ?case
  proof (cases "f = None")
    case False
    then have "empty_fd_loop (k + 1) fs = Inr i" using Cons.prems by auto
    note IH = Cons.IH [OF this]
    then have "k + 1 \<le> i" by blast
    then have ik: "i - k = Suc (i - (k + 1))" by arith
    with IH False show ?thesis by (auto simp: less_Suc_eq_0_disj)
  qed (use Cons.prems in simp)
qed simp

lemma empty_fd_loop_Inl: "empty_fd_loop k fs = Inl e \<Longrightarrow> e = EMFILE \<and> (\<forall>f\<in>set fs. f \<noteq> None)"
  by (induction fs arbitrary: k) (auto split: if_splits)

lemma get_empty_fd_result:
  assumes "length (p_files (vproc st)) = NFILES C"
  shows "case get_empty_fd C (vproc st) of
     Inr i \<Rightarrow> fd_least_free st i | Inl e \<Rightarrow> e = EMFILE \<and> (\<forall>f\<in>set (p_files (vproc st)). f \<noteq> None)"
  using assms empty_fd_loop_Inr [of 0 "p_files (vproc st)"] empty_fd_loop_Inl [of 0 "p_files (vproc st)"]
  by (auto simp: get_empty_fd_def fd_least_free_def split: sum.split)

text \<open>C21: Closing and duplicating descriptors.  On a descriptor that is out of range or not open all
  three calls report -EBADF and change nothing.  \<^verbatim>\<open>close\<close> empties the descriptor.  \<^verbatim>\<open>dup\<close> makes the lowest
  free descriptor refer to the same file and returns it, or reports -EMFILE and changes no descriptor
  when none is free.  \<^verbatim>\<open>dup2\<close> makes the given descriptor refer to the same file, closing what it referred
  to before.  In all cases the references of each file change as the number of descriptors for it does.\<close>

theorem descriptor_calls_correct:
  assumes "length (p_files (vproc st)) = NFILES C" and "fget_ok E"
  shows "fd_balanced st (snd (do_close C fd st)) \<and> fd_balanced st (snd (do_dup C E fd st))
     \<and> fd_balanced st (snd (do_dup2 C E fd nfd st))
     \<and> (if fd_bad C fd \<or> fd_slot st (nat fd) = None
        then do_close C fd st = (Inl EBADF, st) \<and> do_dup C E fd st = (Inl EBADF, st)
          \<and> do_dup2 C E fd nfd st = (Inl EBADF, st)
        else (\<exists>st'. do_close C fd st = (Inr (), st') \<and> p_files (vproc st') = (p_files (vproc st))[nat fd := None])
          \<and> (if \<forall>f\<in>set (p_files (vproc st)). f \<noteq> None
             then \<exists>st'. do_dup C E fd st = (Inl EMFILE, st') \<and> p_files (vproc st') = p_files (vproc st)
             else \<exists>i st'. do_dup C E fd st = (Inr i, st') \<and> fd_least_free st i
               \<and> p_files (vproc st') = (p_files (vproc st))[i := fd_slot st (nat fd)])
          \<and> (if fd_bad C nfd then do_dup2 C E fd nfd st = (Inl EBADF, st)
             else \<exists>st'. do_dup2 C E fd nfd st = (Inr (nat nfd), st')
               \<and> p_files (vproc st') = (p_files (vproc st))[nat nfd := fd_slot st (nat fd)]))"
proof (cases "fd_bad C fd \<or> fd_slot st (nat fd) = None")
  case True
  then have "do_close C fd st = (Inl EBADF, st)" "do_dup C E fd st = (Inl EBADF, st)" "do_dup2 C E fd nfd st = (Inl EBADF, st)"
    by (auto simp: do_close_def do_dup_def do_dup2_def)
  then show ?thesis using True by (simp add: fd_balanced_def)
next
  case False
  then obtain f where fd: "0 \<le> fd" "nat fd < NFILES C" "fd_slot st (nat fd) = Some f" "\<not> fd_bad C fd" by auto
  have get: "fget E fd (vproc st) = Some f" using assms fd by (auto simp: fget_ok_def)
  have len: "nat fd < length (p_files (vproc st))" using fd assms by simp
  have cl: "do_close C fd st = (Inr (), emit (FPut f) (set_fd (nat fd) None st))" using fd by (simp add: do_close_def)
  have cb: "fd_balanced st (snd (do_close C fd st))" using fd len by (simp add: cl fd_balanced_def ledger)
  have count: "length (filter (\<lambda>i. fd_slot st (nat fd) \<noteq> None) [0..<NFILES C]) \<noteq> NFILES C - 1" using fd by simp
  have dup: "if \<forall>f\<in>set (p_files (vproc st)). f \<noteq> None
      then do_dup C E fd st = (Inl EMFILE, emit (FPut f) (emit (FGet f) st))
      else \<exists>i. do_dup C E fd st = (Inr i, set_fd i (Some f) (emit (FGet f) st)) \<and> fd_least_free st i"
    using get_empty_fd_result [OF assms(1)] fd get count
    by (auto simp: do_dup_def Let_def fd_least_free_def split: sum.splits) (metis nth_mem)
  then have db: "fd_balanced st (snd (do_dup C E fd st))"
    by (auto simp: fd_balanced_def fd_least_free_def ledger split: if_splits)
  have dup2: "do_dup2 C E fd nfd st = (if fd_bad C nfd then (Inl EBADF, st)
      else if fd = nfd then (Inr (nat nfd), emit (FPut f) (emit (FGet f) st))
      else (Inr (nat nfd), set_fd (nat nfd) (Some f) (case fd_slot st (nat nfd) of None \<Rightarrow> emit (FGet f) st
          | Some g \<Rightarrow> emit (FPut g) (set_fd (nat nfd) None (emit (FGet f) st)))))"
    using fd get by (auto simp: do_dup2_def do_close_def Let_def split: option.split)
  have d2: "fd_balanced st (snd (do_dup2 C E fd nfd st))"
    using fd assms(1) by (auto simp: dup2 fd_balanced_def ledger split: option.split)
  have "\<not> fd_bad C nfd \<Longrightarrow> p_files (vproc (snd (do_dup2 C E fd nfd st))) = (p_files (vproc st))[nat nfd := Some f]"
    using fd len by (auto simp: dup2 split: option.split) (metis list_update_id)
  with cb db d2 dup cl dup2 fd False show ?thesis by (auto split: if_splits)
qed

theorem descriptor_calls_correct_witness:
  "\<exists>st'. do_dup demo_fs_config demo_vfs_env 0 demo_vfs = (Inr 1, st') \<and> p_files (vproc st') = [Some 7, Some 7, None]
     \<and> fd_balanced demo_vfs st'"
proof -
  have len: "length (p_files (vproc demo_vfs)) = NFILES demo_fs_config" by (simp add: demo_vfs_def demo_fs_config_def)
  have get: "fget_ok demo_vfs_env" by (simp add: fget_ok_def demo_vfs_env_def)
  have files: "p_files (vproc demo_vfs) = [Some 7, None, None]" "NFILES demo_fs_config = 3"
    by (simp_all add: demo_vfs_def demo_fs_config_def)
  have free: "fd_least_free demo_vfs i \<Longrightarrow> i = 1" for i
    using files by (auto simp: fd_least_free_def less_Suc_eq eval_nat_numeral)
  from descriptor_calls_correct [OF len get, of 0 0] files free show ?thesis
    by (force simp: eval_nat_numeral)
qed

lemma wrap32_id: "- (2 ^ 31) \<le> x \<Longrightarrow> x < 2 ^ 31 \<Longrightarrow> wrap32 x = x"
proof -
  assume x: "- (2 ^ 31) \<le> x" "x < 2 ^ 31"
  have u: "uint (word_of_int x :: u32) = (if 0 \<le> x then x else x + 2 ^ 32)"
  proof (cases "0 \<le> x")
    case True
    then show ?thesis using x by (simp add: uint_word_of_int)
  next
    case False
    have "uint (word_of_int x :: u32) = x mod 2 ^ 32" by (simp add: uint_word_of_int)
    also have "\<dots> = (x + 2 ^ 32) mod 2 ^ 32" by simp
    also have "\<dots> = x + 2 ^ 32" using x False by (intro mod_pos_pos_trivial) simp_all
    finally show ?thesis using False by simp
  qed
  have "unat (word_of_int x :: u32) < 2 ^ 31 \<longleftrightarrow> uint (word_of_int x :: u32) < 2 ^ 31"
    unfolding unat_eq_nat_uint by (subst nat_less_iff) simp_all
  then show ?thesis using x by (simp add: wrap32_def as_int_def u)
qed

text \<open>Seeking and reading.  After \<^verbatim>\<open>lseek\<close> to an absolute offset, \<^verbatim>\<open>read\<close> on the same descriptor asks the
  file system for the bytes at that offset, and moves the position behind the bytes it got; the
  position of no other file changes, no descriptor changes, and the file references are balanced.\<close>

theorem seek_then_read:
  assumes "length (p_files (vproc st)) = NFILES C" and "fget_ok E" and "\<not> fd_bad C fd" and "fd_slot st (nat fd) = Some p"
    and "f_vnode (open_files st p) = Some v" and "FMODE_READ \<in> f_mode (open_files st p)"
    and "vn_mode E v (fs_state st) \<noteq> S_IFDIR" and "vn_has E v V_read"
    and "op_read E v off n (fs_state st) = (Inr k, s1)" and "0 \<le> off" and "off + int k < 2 ^ 31"
  shows "\<exists>st1 st2. do_lseek C E fd off SEEK_SET st = Some (Inr off, st1) \<and> do_read C E fd n st1 = Some (Inr k, st2)
     \<and> fs_state st2 = s1 \<and> f_pos (open_files st2 p) = off + int k \<and> (\<forall>q. q \<noteq> p \<longrightarrow> open_files st2 q = open_files st q)
     \<and> vproc st2 = vproc st \<and> fd_balanced st st2"
proof -
  let ?st1 = "set_file p (\<lambda>f. f\<lparr>f_pos := off\<rparr>) st"
  have seek: "do_lseek C E fd off SEEK_SET st = Some (Inr off, ?st1)" using assms by (simp add: do_lseek_def)
  have get: "fget E fd (vproc st) = Some p" using assms by (simp add: fget_ok_def nat_less_iff)
  let ?st2 = "\<lparr>fs_state = s1, open_files = (open_files st)(p := (open_files st p)\<lparr>f_pos := off + int k\<rparr>), vproc = vproc st,
    vlog = vlog st @ [FGet p, FPut p]\<rparr>"
  have "do_read C E fd n ?st1 = Some (Inr k, ?st2)"
    using assms get by (auto simp: do_read_def call_op_def Let_def wrap32_id emit_def set_file_def)
  moreover have "fd_balanced st ?st2" by (simp add: fd_balanced_def frefs_def slots_def)
  ultimately show ?thesis using seek by (intro exI [of _ ?st1] exI [of _ ?st2]) simp
qed

theorem seek_then_read_witness:
  "\<exists>st1 st2. do_lseek demo_fs_config demo_vfs_env 0 5 SEEK_SET demo_vfs = Some (Inr 5, st1)
     \<and> do_read demo_fs_config demo_vfs_env 0 4 st1 = Some (Inr 4, st2) \<and> f_pos (open_files st2 7) = 9"
proof -
  have "length (p_files (vproc demo_vfs)) = NFILES demo_fs_config" "fget_ok demo_vfs_env"
    by (simp_all add: demo_vfs_def demo_fs_config_def fget_ok_def demo_vfs_env_def)
  from seek_then_read [OF this, of 0 7 11 5 4 4 "fs_state demo_vfs"] show ?thesis
    by (auto simp: demo_fs_config_def demo_vfs_env_def demo_vfs_def)
qed

text \<open>Appending.  On a descriptor opened for appending \<^verbatim>\<open>write\<close> puts the data at the end of the file,
  wherever the position was, and leaves the position behind the data it wrote; the file references are
  balanced.  (The file system is assumed to extend the file over what it wrote.)\<close>

theorem append_writes_at_end:
  assumes "length (p_files (vproc st)) = NFILES C" and "fget_ok E" and "\<not> fd_bad C fd" and "fd_slot st (nat fd) = Some p"
    and "f_vnode (open_files st p) = Some v" and "{FMODE_WRITE, FMODE_APPEND} \<subseteq> f_mode (open_files st p)"
    and "vn_has E v V_write" and "0 \<le> vn_len E v (fs_state st)" and "vn_len E v (fs_state st) + int k < 2 ^ 31"
    and "op_write E v (vn_len E v (fs_state st)) buf (fs_state st) = (Inr k, s1)"
    and "vn_mode E v s1 = S_IFREG" and "vn_len E v (fs_state st) + int k \<le> vn_len E v s1"
  shows "\<exists>st'. do_write C E fd buf st = Some (Inr k, st') \<and> fs_state st' = s1
     \<and> f_pos (open_files st' p) = vn_len E v (fs_state st) + int k
     \<and> (\<forall>q. q \<noteq> p \<longrightarrow> open_files st' q = open_files st q) \<and> vproc st' = vproc st \<and> fd_balanced st st'"
proof -
  have get: "fget E fd (vproc st) = Some p" using assms by (simp add: fget_ok_def nat_less_iff)
  let ?l = "vn_len E v (fs_state st)"
  have w: "wrap32 ?l = ?l" "wrap32 (?l + int k) = ?l + int k" using assms by (simp_all add: wrap32_id)
  let ?st' = "\<lparr>fs_state = s1, open_files = (open_files st)(p := (open_files st p)\<lparr>f_pos := ?l + int k\<rparr>), vproc = vproc st,
    vlog = vlog st @ [FGet p, FPut p]\<rparr>"
  have "do_write C E fd buf st = Some (Inr k, ?st')"
    using assms get w by (auto simp: do_write_def do_lseek_def call_op_def Let_def emit_def set_file_def)
  moreover have "fd_balanced st ?st'" by (simp add: fd_balanced_def frefs_def slots_def)
  ultimately show ?thesis by (intro exI [of _ ?st']) simp
qed

theorem append_writes_at_end_witness:
  "\<exists>st'. do_write demo_fs_config demo_append_env 0 ''xyz''
     \<lparr>fs_state = 100, open_files = (\<lambda>_. \<lparr>f_pos = 2, f_mode = {FMODE_WRITE, FMODE_APPEND}, f_vnode = Some 11\<rparr>),
       vproc = vproc demo_vfs, vlog = []\<rparr> = Some (Inr 3, st')
     \<and> fs_state st' = 103 \<and> f_pos (open_files st' 7) = 103"
proof -
  let ?st = "\<lparr>fs_state = 100 :: int, open_files = (\<lambda>_. \<lparr>f_pos = 2, f_mode = {FMODE_WRITE, FMODE_APPEND}, f_vnode = Some 11\<rparr>),
       vproc = vproc demo_vfs, vlog = []\<rparr>"
  have "length (p_files (vproc ?st)) = NFILES demo_fs_config" "fget_ok demo_append_env"
    by (simp_all add: demo_vfs_def demo_fs_config_def fget_ok_def demo_append_env_def demo_vfs_env_def)
  from append_writes_at_end [OF this, of 0 7 11 3 "''xyz''" 103] show ?thesis
    by (auto simp: demo_fs_config_def demo_append_env_def demo_vfs_def)
qed

subsection \<open>Opening files\<close>

lemma open_namev_returns:
  assumes "dirs_complete C E" and "length path < MAXPATHLEN C"
  shows "\<exists>r st'. open_namev C E path flag b st = Some (r, st') \<and> gives st (held r) st'"
  by (rule returnsI) (rule path_calls_return(6) [OF assms], erule gives_open_namev)

lemma do_open_invalid:
  assumes "get_empty_fd C (vproc st) = Inr fd" and "O_RDWR \<in> oflags" and "O_WRONLY \<in> oflags"
  shows "do_open C E (Some f) path oflags st = Some (Inl EINVAL, emit (FGet f) st)"
  using assms by (simp add: do_open_def)

lemma do_open_valid:
  assumes C: "dirs_complete C E" "length path < MAXPATHLEN C" and len: "length (p_files (vproc st)) = NFILES C"
    and fd: "get_empty_fd C (vproc st) = Inr fd" and ok: "\<not> (O_RDWR \<in> oflags \<and> O_WRONLY \<in> oflags)"
  shows "\<exists>r st'. do_open C E (Some f) path oflags st = Some (r, st') \<and> fd_balanced st st'
     \<and> (case r of
          Inl e \<Rightarrow> p_files (vproc st') = p_files (vproc st) \<and> (\<forall>x. vrefs st' x = vrefs st x)
        | Inr i \<Rightarrow> i = fd \<and> p_files (vproc st') = (p_files (vproc st))[fd := Some f]
            \<and> (\<exists>v. f_vnode (open_files st' f) = Some v \<and> (\<forall>x. vrefs st' x = vrefs st x + of_bool (v = x))
                \<and> f_mode (open_files st' f) = open_mode oflags
                \<and> (vn_mode E v (fs_state st') = S_IFDIR \<longrightarrow> FMODE_WRITE \<notin> f_mode (open_files st' f)))
            \<and> (\<forall>q. q \<noteq> f \<longrightarrow> open_files st' q = open_files st q))"
proof -
  have free: "fd < length (p_files (vproc st))" "fd_slot st fd = None"
    using get_empty_fd_result [OF len] fd by (simp_all add: fd_least_free_def)
  have m: "(if O_APPEND \<in> oflags
      then (if O_RDWR \<in> oflags then (if O_WRONLY \<in> oflags then {FMODE_WRITE} else {FMODE_READ}) \<union> {FMODE_WRITE}
        else if O_WRONLY \<in> oflags then {FMODE_WRITE} else {FMODE_READ}) \<union> {FMODE_APPEND}
      else if O_RDWR \<in> oflags then (if O_WRONLY \<in> oflags then {FMODE_WRITE} else {FMODE_READ}) \<union> {FMODE_WRITE}
      else if O_WRONLY \<in> oflags then {FMODE_WRITE} else {FMODE_READ}) = open_mode oflags"
    using ok by (auto simp: open_mode_def)
  let ?st2 = "set_file f (\<lambda>x. x\<lparr>f_mode := open_mode oflags\<rparr>) (set_fd fd (Some f) (emit (FGet f) st))"
  obtain r st3 where o: "open_namev C E path oflags None ?st2 = Some (r, st3)" and g: "gives ?st2 (held r) st3"
    using open_namev_returns [OF C] by blast
  have fr: "open_files st3 = (open_files st)(f := (open_files st f)\<lparr>f_mode := open_mode oflags\<rparr>)"
    "p_files (vproc st3) = (p_files (vproc st))[fd := Some f]"
    "frefs st3 p = frefs st p + of_bool (f = p)" "slots st3 p = slots st p + of_bool (f = p)"
    "vrefs st3 x = vrefs st x + held r x" for p x
    using g free by (auto simp: gives_def path_frame_def ledger fun_eq_iff slots_def count_list_update)
  have run: "do_open C E (Some f) path oflags st = Some (case r of
       Inl e \<Rightarrow> (Inl e, set_fd fd None (emit (FPut f) st3))
     | Inr v \<Rightarrow>
         if (O_RDWR \<in> oflags \<or> O_WRONLY \<in> oflags) \<and> vn_mode E v (fs_state st3) = S_IFDIR
         then (Inl EISDIR, emit (FPut f) (emit (VPut v) (set_fd fd None st3)))
         else if \<not> vn_bdev E v \<and> vn_mode E v (fs_state st3) = S_IFBLK
           \<or> \<not> vn_cdev E v \<and> vn_mode E v (fs_state st3) = S_IFCHR
         then (Inl ENXIO, emit (FPut f) (emit (VPut v) (set_fd fd None st3)))
         else (Inr fd, set_file f (\<lambda>f. f\<lparr>f_vnode := Some v\<rparr>) st3))"
    unfolding do_open_def Let_def m using fd ok o by (auto split: sum.split)
  have un: "fd < length (p_files (vproc st3))" "fd_slot st3 fd = Some f" using fr(2) free by simp_all
  have restored: "(p_files (vproc st))[fd := Some f, fd := None] = p_files (vproc st)"
    using free by (metis list_update_id list_update_overwrite)
  have fail: "fd_balanced st (set_fd fd None (emit (FPut f) st3))"
    "fd_balanced st (emit (FPut f) (emit (VPut v) (set_fd fd None st3)))" for v
    using fr un by (auto simp: fd_balanced_def ledger)
  have succ: "fd_balanced st (set_file f g st3)" for g using fr by (simp add: fd_balanced_def ledger)
  show ?thesis
  proof (cases r)
    case (Inl e)
    then show ?thesis using run fail restored fr by (simp add: ledger)
  next
    case (Inr v)
    then show ?thesis using run fail succ restored fr by (auto simp: ledger open_mode_def)
  qed
qed

text \<open>C20: Opening a file, when memory for it could be allocated and the path is shorter than the limit.  With consistent flags \<^verbatim>\<open>do_open\<close> returns; on success the lowest free descriptor
  refers to the new file, which has the requested access mode and one reference on the vnode that the
  path names, and no directory is open for writing; on failure every descriptor and every vnode
  reference is as before.  Either way the file references are balanced.  When both \<^verbatim>\<open>O_RDWR\<close> and \<^verbatim>\<open>O_WRONLY\<close> are
  given it reports -EINVAL but keeps the reference on the new file, which nothing refers to: the file is
  leaked.  Without a free descriptor it reports -EMFILE and changes nothing.\<close>

theorem do_open_correct:
  assumes "dirs_complete C E" and "length path < MAXPATHLEN C" and "length (p_files (vproc st)) = NFILES C"
  shows "if \<forall>f\<in>set (p_files (vproc st)). f \<noteq> None then do_open C E (Some f) path oflags st = Some (Inl EMFILE, st)
     else if O_RDWR \<in> oflags \<and> O_WRONLY \<in> oflags
     then \<exists>st'. do_open C E (Some f) path oflags st = Some (Inl EINVAL, st') \<and> p_files (vproc st') = p_files (vproc st)
       \<and> frefs st' f = frefs st f + 1
     else \<exists>r st' fd. fd_least_free st fd \<and> do_open C E (Some f) path oflags st = Some (r, st') \<and> fd_balanced st st'
       \<and> (case r of
          Inl e \<Rightarrow> p_files (vproc st') = p_files (vproc st) \<and> (\<forall>x. vrefs st' x = vrefs st x)
        | Inr i \<Rightarrow> i = fd \<and> p_files (vproc st') = (p_files (vproc st))[fd := Some f]
            \<and> (\<exists>v. f_vnode (open_files st' f) = Some v \<and> (\<forall>x. vrefs st' x = vrefs st x + of_bool (v = x))
                \<and> f_mode (open_files st' f) = open_mode oflags
                \<and> (vn_mode E v (fs_state st') = S_IFDIR \<longrightarrow> FMODE_WRITE \<notin> f_mode (open_files st' f)))
            \<and> (\<forall>q. q \<noteq> f \<longrightarrow> open_files st' q = open_files st q))"
proof (cases "get_empty_fd C (vproc st)")
  case (Inl e)
  then show ?thesis using get_empty_fd_result [OF assms(3)] by (simp add: do_open_def)
next
  case (Inr fd)
  then have fd: "fd_least_free st fd" using get_empty_fd_result [OF assms(3)] by simp
  then have some: "\<not> (\<forall>f\<in>set (p_files (vproc st)). f \<noteq> None)" by (metis fd_least_free_def nth_mem)
  show ?thesis
  proof (cases "O_RDWR \<in> oflags \<and> O_WRONLY \<in> oflags")
    case True
    then show ?thesis unfolding if_not_P [OF some] using do_open_invalid [OF Inr] by (simp add: ledger)
  next
    case False
    show ?thesis unfolding if_not_P [OF some] if_not_P [OF False]
      using do_open_valid [OF assms Inr False, of f] fd by blast
  qed
qed

theorem do_open_correct_witness:
  "\<exists>st'. do_open demo_fs_config demo_vfs_env (Some 8) ''/bin/ls'' {O_RDWR} demo_vfs = Some (Inr 1, st')
     \<and> fd_balanced demo_vfs st'"
proof -
  have C: "length ''/bin/ls'' < MAXPATHLEN demo_fs_config" "length (p_files (vproc demo_vfs)) = NFILES demo_fs_config"
    by (simp_all add: demo_vfs_def demo_fs_config_def)
  have "\<not> (\<forall>f\<in>set (p_files (vproc demo_vfs)). f \<noteq> None)" by (simp add: demo_vfs_def)
  note open_result = do_open_correct [OF demo_dirs_complete C, of 8 "{O_RDWR}", unfolded if_not_P [OF this]]
  have "\<exists>st'. do_open demo_fs_config demo_vfs_env (Some 8) ''/bin/ls'' {O_RDWR} demo_vfs = Some (Inr 1, st')"
    by (simp add: do_open_def get_empty_fd_def open_namev_def dir_namev_def Vfs.lookup_def call_vnode_op_def call_op_def
        emit_def set_fd_def set_file_def demo_fs_config_def demo_vfs_env_def demo_vfs_def demo_find_def Let_def eval_nat_numeral)
  with open_result show ?thesis by auto
qed

end
