(* ===== verification/Vmmap.thy ===== *)
theory Vmmap
  imports Weenix_Prelude
begin

section \<open>Address-space maps: \<^verbatim>\<open>kernel/vm/vmmap.c\<close>\<close>

text \<open>
  A \<^verbatim>\<open>vmmap_t\<close> is the list of virtual memory areas of a process, ordered by address.  The list
  \<open>vmm_list\<close> holds the areas themselves (the intrusive links of \<^verbatim>\<open>util/list.h\<close> are not modelled);
  \<open>vma_id\<close> stands for an area's address and \<open>vma_obj\<close> for its memory object, \<open>None\<close> being a
  field that was never set.  What an operation does outside the list (page-table and reference
  count updates, links into a memory object's area list, creation of objects) is recorded in
  order as a list of \<open>vm_event\<close>s.

  The theory defines every operation of the file (\<^verbatim>\<open>vmmap_init\<close> and \<^verbatim>\<open>vmmap_mapping_info\<close>,
  allocator set-up and debug output, apart), the invariant \<open>wf_map\<close> (areas are non-empty, lie
  in user memory, are sorted and disjoint) and the abstraction \<open>view\<close>: the partial function
  from page numbers to the page of the memory object behind it.  The lemmas show that each
  operation keeps the invariant and is, on \<open>view\<close>, the obvious function.
\<close>

type_synonym objid = nat
type_synonym areaid = nat

record vmarea =
  vma_id :: areaid
  vma_start :: u32
  vma_end :: u32
  vma_off :: u32
  vma_prot :: "prot_flag set"
  vma_flags :: "map_flag set"
  vma_obj :: "objid option"
  vma_vmmap :: "nat option"

record vmmap =
  vmm_id :: nat
  vmm_list :: "vmarea list"
  vmm_proc :: "nat option"

datatype vm_event =
    PtUnmapRange u32 u32
  | MmoRef objid
  | MmoPut objid
  | OlinkInsert objid areaid
  | OlinkRemove areaid
  | AreaFree areaid
  | MapFree nat
  | ShadowCreate objid
  | AnonCreate objid
  | SetShadowed objid objid objid
  | FileMmap nat objid

datatype vmmap_dir = VMMAP_DIR_LOHI | VMMAP_DIR_HILO

subsection \<open>Operations\<close>

definition vmarea_alloc :: "areaid \<Rightarrow> vmarea \<Rightarrow> vmarea" where
  \<comment> \<open>the fresh slab object holds whatever \<open>junk\<close> it held before, but for \<open>vma_vmmap\<close>\<close>
  "vmarea_alloc i junk = junk\<lparr>vma_id := i, vma_vmmap := None\<rparr>"

definition vmmap_create :: "nat \<Rightarrow> vmmap" where
  "vmmap_create i = \<lparr>vmm_id = i, vmm_list = [], vmm_proc = None\<rparr>"

fun range_empty_loop :: "u32 \<Rightarrow> u32 \<Rightarrow> u32 \<Rightarrow> u32 \<Rightarrow> vmarea list \<Rightarrow> bool" where
  "range_empty_loop high startvfn endvfn low [] = (high \<ge> endvfn \<and> low \<le> startvfn)"
| "range_empty_loop high startvfn endvfn low (it # its) =
     (if vma_start it \<ge> endvfn \<and> low \<le> startvfn then True
      else if vma_start it > startvfn \<and> vma_start it < endvfn then False
      else if low > startvfn then False
      else range_empty_loop high startvfn endvfn (vma_end it) its)"

definition vmmap_is_range_empty :: "layout \<Rightarrow> vmarea list \<Rightarrow> u32 \<Rightarrow> u32 \<Rightarrow> bool option" where
  "vmmap_is_range_empty L as startvfn npages = do {
     let endvfn = startvfn + npages;
     kassert (startvfn < endvfn \<and> low_pn L \<le> startvfn \<and> high_pn L \<ge> endvfn);
     Some (range_empty_loop (high_pn L) startvfn endvfn (low_pn L) as) }"

fun insert_loop :: "vmarea \<Rightarrow> vmarea list \<Rightarrow> vmarea list" where
  "insert_loop newvma [] = [newvma]"
| "insert_loop newvma (it # its) =
     (if \<not> vma_start it < vma_end newvma then newvma # it # its
      else it # insert_loop newvma its)"

definition vmmap_insert :: "layout \<Rightarrow> nat \<Rightarrow> vmarea list \<Rightarrow> vmarea \<Rightarrow> vmarea list option" where
  "vmmap_insert L mid as newvma = do {
     kassert (vma_vmmap newvma = None);
     kassert (vma_start newvma < vma_end newvma);
     kassert (low_pn L \<le> vma_start newvma \<and> high_pn L \<ge> vma_end newvma);
     free \<leftarrow> vmmap_is_range_empty L as (vma_start newvma) (vma_end newvma - vma_start newvma);
     Some (if \<not> free then as else insert_loop (newvma\<lparr>vma_vmmap := Some mid\<rparr>) as) }"

fun find_lohi :: "u32 \<Rightarrow> u32 \<Rightarrow> u32 \<Rightarrow> vmarea list \<Rightarrow> int" where
  "find_lohi high npages low [] = (if high < npages + low then -1 else as_int low)"
| "find_lohi high npages low (it # its) =
     (if npages > vma_start it - low then find_lohi high npages (vma_end it) its
      else as_int low)"

text \<open>The downward search walks the list in reverse; its argument is the reversed list.\<close>

fun find_hilo :: "u32 \<Rightarrow> u32 \<Rightarrow> u32 \<Rightarrow> vmarea list \<Rightarrow> int" where
  "find_hilo low npages high [] = (if low > high - npages then -1 else as_int (high - npages))"
| "find_hilo low npages high (it # its) =
     (if npages > high - vma_end it then find_hilo low npages (vma_start it) its
      else as_int (high - npages))"

definition vmmap_find_range :: "layout \<Rightarrow> vmarea list \<Rightarrow> u32 \<Rightarrow> vmmap_dir \<Rightarrow> int option" where
  "vmmap_find_range L as npages dir = do {
     kassert (0 < npages);
     Some (if dir \<noteq> VMMAP_DIR_LOHI then find_hilo (low_pn L) npages (high_pn L) (rev as)
           else find_lohi (high_pn L) npages (low_pn L) as) }"

fun vmmap_lookup :: "vmarea list \<Rightarrow> u32 \<Rightarrow> vmarea option" where
  "vmmap_lookup [] vfn = None"
| "vmmap_lookup (it # its) vfn =
     (if vma_start it \<le> vfn \<and> vma_end it > vfn then Some it else vmmap_lookup its vfn)"

definition clone_area :: "nat \<Rightarrow> areaid \<Rightarrow> vmarea \<Rightarrow> vmarea" where
  "clone_area mid i it =
     \<lparr>vma_id = i, vma_start = vma_start it, vma_end = vma_end it, vma_off = vma_off it,
      vma_prot = vma_prot it, vma_flags = vma_flags it, vma_obj = None, vma_vmmap = Some mid\<rparr>"

definition vmmap_clone :: "nat \<Rightarrow> (areaid \<Rightarrow> areaid) \<Rightarrow> vmmap \<Rightarrow> vmmap" where
  \<comment> \<open>\<open>fresh\<close> gives the address the allocator returns for the copy of each area\<close>
  "vmmap_clone mid fresh m =
     (vmmap_create mid)
       \<lparr>vmm_list := map (\<lambda>it. clone_area mid (fresh (vma_id it)) it) (vmm_list m)\<rparr>"

text \<open>
  The loop of \<^verbatim>\<open>vmmap_remove\<close>.  \<open>pre\<close> is the part of the list already passed.  \<open>stale\<close> is what
  the memory of an area holds after \<^verbatim>\<open>vmarea_free\<close>: the last branch reads it.
\<close>

fun remove_loop ::
  "layout \<Rightarrow> nat \<Rightarrow> u32 \<Rightarrow> u32 \<Rightarrow> vmarea \<Rightarrow> (vmarea \<Rightarrow> vmarea) \<Rightarrow> vmarea list \<Rightarrow> u32
    \<Rightarrow> vm_event list \<Rightarrow> vmarea list \<Rightarrow> (vmarea list \<times> u32 \<times> vm_event list) option" where
  "remove_loop L mid lopage finish new stale pre bCount ev [] = Some (pre, bCount, ev)"
| "remove_loop L mid lopage finish new stale pre bCount ev (a # as) =
     (if finish < vma_end a \<and> lopage > vma_start a then
        (let n = new\<lparr>vma_obj := vma_obj a, vma_flags := vma_flags a, vma_prot := vma_prot a,
                     vma_end := vma_end a, vma_start := finish,
                     vma_off := vma_off a + finish - vma_start a\<rparr>;
             a' = a\<lparr>vma_end := lopage\<rparr>
         in do {
           as' \<leftarrow> vmmap_insert L mid (pre @ a' # as) n;
           obj \<leftarrow> vma_obj a;
           Some (as', finish + bCount - lopage,
             ev @ [OlinkInsert obj (vma_id n), MmoRef obj, PtUnmapRange lopage finish]) })
      else if lopage < vma_end a \<and> lopage > vma_start a then
        remove_loop L mid lopage finish new stale (pre @ [a\<lparr>vma_end := lopage\<rparr>])
          (bCount - lopage + lopage) (ev @ [PtUnmapRange lopage (vma_end a)]) as
      else if finish < vma_end a \<and> finish > vma_start a then
        Some (pre @ a\<lparr>vma_off := vma_off a + finish - vma_start a, vma_start := finish\<rparr> # as,
              0 - finish + finish + bCount, ev @ [PtUnmapRange (vma_start a) finish])
      else if finish \<ge> vma_end a \<and> lopage \<le> vma_start a then do {
        obj \<leftarrow> vma_obj a;
        remove_loop L mid lopage finish new stale pre
          (bCount - vma_start (stale a) + vma_end (stale a))
          (ev @ [OlinkRemove (vma_id a), MmoPut obj,
                 PtUnmapRange (vma_start a) (vma_end a), AreaFree (vma_id a)]) as }
      else remove_loop L mid lopage finish new stale (pre @ [a]) bCount ev as)"

definition vmmap_remove ::
  "layout \<Rightarrow> nat \<Rightarrow> vmarea list \<Rightarrow> u32 \<Rightarrow> u32 \<Rightarrow> vmarea \<Rightarrow> (vmarea \<Rightarrow> vmarea)
    \<Rightarrow> (vmarea list \<times> u32 \<times> vm_event list) option" where
  "vmmap_remove L mid as lopage npages new stale =
     remove_loop L mid lopage (lopage + npages) new stale [] 0 [] as"

text \<open>
  \<^verbatim>\<open>vmmap_destroy\<close>: \<^verbatim>\<open>list_iterate_begin\<close> reads the successor of an area before the body runs,
  so the loop goes over the areas the list had at the start.
\<close>

fun destroy_loop ::
  "layout \<Rightarrow> nat \<Rightarrow> vmarea \<Rightarrow> (vmarea \<Rightarrow> vmarea) \<Rightarrow> vmarea list \<Rightarrow> vm_event list \<Rightarrow> vmarea list
    \<Rightarrow> (vmarea list \<times> vm_event list) option" where
  "destroy_loop L mid new stale as ev [] = Some (as, ev)"
| "destroy_loop L mid new stale as ev (it # its) = do {
     (as', _, ev') \<leftarrow> vmmap_remove L mid as (vma_start it) (vma_end it - vma_start it) new stale;
     destroy_loop L mid new stale as' (ev @ ev') its }"

definition vmmap_destroy ::
  "layout \<Rightarrow> vmmap \<Rightarrow> vmarea \<Rightarrow> (vmarea \<Rightarrow> vmarea) \<Rightarrow> (vmarea list \<times> vm_event list) option" where
  "vmmap_destroy L m new stale = do {
     (as, ev) \<leftarrow> destroy_loop L (vmm_id m) new stale (vmm_list m) [] (vmm_list m);
     Some (as, ev @ [MapFree (vmm_id m)]) }"

text \<open>
  What \<^verbatim>\<open>vmmap_map\<close> gets from its allocators and from the file: the new area and the one a split
  may need (with whatever their memory held), the new shadow and anonymous objects, and the
  object the vnode's \<^verbatim>\<open>mmap\<close> operation stores for the mapping.
\<close>

record map_env =
  new_area :: vmarea
  split_area :: vmarea
  stale_area :: "vmarea \<Rightarrow> vmarea"
  new_shadow :: objid
  new_anon :: objid
  file_mmap :: "nat \<Rightarrow> objid"

text \<open>The object of the new area, and the events of setting it up (lines 368 to 408).\<close>

definition map_object :: "map_env \<Rightarrow> vmarea \<Rightarrow> nat option \<Rightarrow> vmarea \<times> vm_event list" where
  "map_object E a file =
     (if MAP_PRIVATE \<notin> vma_flags a then
        (case file of
           None \<Rightarrow> (a, [])
         | Some f \<Rightarrow> (let o1 = file_mmap E f
                     in (a\<lparr>vma_obj := Some o1\<rparr>, [FileMmap f o1, OlinkInsert o1 (vma_id a)])))
      else
        (let sh = new_shadow E; a' = a\<lparr>vma_obj := Some sh\<rparr> in
         case file of
           None \<Rightarrow> (let b = new_anon E
                   in (a', [ShadowCreate sh, AnonCreate b, SetShadowed sh b b,
                            OlinkInsert b (vma_id a)]))
         | Some f \<Rightarrow> (let b = file_mmap E f
                     in (a', [ShadowCreate sh, FileMmap f b, SetShadowed sh b b,
                              OlinkInsert b (vma_id a)]))))"

definition vmmap_map ::
  "layout \<Rightarrow> map_env \<Rightarrow> vmmap \<Rightarrow> nat option \<Rightarrow> u32 \<Rightarrow> u32 \<Rightarrow> prot_flag set \<Rightarrow> map_flag set
    \<Rightarrow> u32 \<Rightarrow> vmmap_dir \<Rightarrow> (errno + vmarea list \<times> vmarea \<times> vm_event list) option" where
  "vmmap_map L E m file lopage npages prot flags off dir = do {
     kassert (0 < npages);
     kassert (prot \<subseteq> {PROT_READ, PROT_WRITE, PROT_EXEC});
     kassert (MAP_SHARED \<in> flags \<or> MAP_PRIVATE \<in> flags);
     kassert (lopage = 0 \<or> low_pn L \<le> lopage);
     kassert (lopage = 0 \<or> high_pn L \<ge> lopage + npages);
     kassert (PAGE_ALIGNED L off);
     start \<leftarrow> (if lopage \<noteq> 0 then do {
                 free \<leftarrow> vmmap_is_range_empty L (vmm_list m) lopage npages;
                 if \<not> free then do {
                   (as, b, ev) \<leftarrow> vmmap_remove L (vmm_id m) (vmm_list m) lopage npages
                                    (split_area E) (stale_area E);
                   now_free \<leftarrow> vmmap_is_range_empty L as lopage npages;
                   kassert now_free;
                   Some (Some (lopage, as, ev)) }
                 else Some (Some (lopage, vmm_list m, [])) }
               else do {
                 retVal \<leftarrow> vmmap_find_range L (vmm_list m) npages dir;
                 Some (if 0 < retVal then Some (word_of_int retVal, vmm_list m, []) else None) });
     (case start of
        None \<Rightarrow> Some (Inl ENOMEM)
      | Some (st, as, ev) \<Rightarrow>
          (let a = (new_area E)\<lparr>vma_start := st, vma_end := npages + st, vma_flags := flags,
                                vma_prot := prot, vma_off := off\<rparr>;
               (a', ev') = map_object E a file
           in do {
             as' \<leftarrow> vmmap_insert L (vmm_id m) as a';
             Some (Inr (as', a', ev @ ev')) })) }"

subsection \<open>Copying between a buffer and the address space\<close>

text \<open>
  \<^verbatim>\<open>vmmap_read\<close> and \<^verbatim>\<open>vmmap_write\<close> are modelled by the sequence of page accesses they make.  A
  \<open>chunk\<close> is one \<^verbatim>\<open>memcpy\<close>: page \<open>ck_page\<close> of object \<open>ck_obj\<close> from byte \<open>ck_pgoff\<close> on, against
  the buffer from address \<open>ck_buf\<close> on, \<open>ck_len\<close> bytes.
\<close>

record chunk =
  ck_obj :: objid
  ck_page :: u32
  ck_pgoff :: u32
  ck_buf :: u32
  ck_len :: u32

datatype mem_event =
    CopyOut chunk
  | Dirty objid u32
  | SetBusy objid u32
  | CopyIn chunk
  | ClearBusy objid u32
  | Broadcast objid u32

definition pages_between :: "u32 \<Rightarrow> u32 \<Rightarrow> u32 list" where
  "pages_between a b = map of_nat [unat a ..< unat b]"

text \<open>One turn of the inner loop: the chunk, and the new \<^verbatim>\<open>vaddr\<close>, \<^verbatim>\<open>buf\<close> and \<^verbatim>\<open>temp\<close>.\<close>

definition copy_step ::
  "layout \<Rightarrow> vmarea \<Rightarrow> objid \<Rightarrow> u32 \<Rightarrow> u32 \<times> u32 \<times> u32 \<Rightarrow> u32 \<Rightarrow> chunk \<times> u32 \<times> u32 \<times> u32" where
  "copy_step L a obj count st counter =
     (let (vaddr, buf, temp) = st;
          pgofset = vaddr mod PAGE_SIZE L;
          buf' = temp + buf;
          len = min (0 - temp + count) (0 - pgofset + PAGE_SIZE L)
      in (\<lparr>ck_obj = obj, ck_page = vma_off a + counter - vma_start a, ck_pgoff = pgofset,
           ck_buf = buf', ck_len = len\<rparr>,
          PN_TO_ADDR L (1 + counter), buf', temp + len))"

fun copy_loop ::
  "layout \<Rightarrow> vmarea \<Rightarrow> objid \<Rightarrow> u32 \<Rightarrow> u32 \<times> u32 \<times> u32 \<Rightarrow> u32 list \<Rightarrow> chunk list \<times> u32 \<times> u32 \<times> u32" where
  "copy_loop L a obj count st [] = ([], st)"
| "copy_loop L a obj count st (c # cs) =
     (let (ck, st') = copy_step L a obj count st c; (cks, st'') = copy_loop L a obj count st' cs
      in (ck # cks, st''))"

definition area_pages :: "u32 \<Rightarrow> u32 \<Rightarrow> vmarea \<Rightarrow> u32 list" where
  "area_pages vfnInitial vfnFinal it =
     pages_between (if vma_start it \<le> vfnInitial then vfnInitial else vma_start it)
                   (if vma_end it > vfnFinal then vfnFinal else vma_end it)"

fun read_areas ::
  "layout \<Rightarrow> u32 \<Rightarrow> u32 \<Rightarrow> u32 \<Rightarrow> u32 \<times> u32 \<Rightarrow> vmarea list \<Rightarrow> mem_event list option" where
  "read_areas L vi vf count st [] = Some []"
| "read_areas L vi vf count st (it # its) =
     (if vma_end it \<le> vi then read_areas L vi vf count st its
      else if vma_start it \<ge> vf then Some []
      else do {
        obj \<leftarrow> vma_obj it;
        let (cks, vaddr, buf, temp) =
          copy_loop L it obj count (fst st, snd st, 0) (area_pages vi vf it);
        rest \<leftarrow> read_areas L vi vf count (vaddr, buf) its;
        Some (map CopyOut cks @ rest) })"

definition vmmap_read :: "layout \<Rightarrow> vmarea list \<Rightarrow> u32 \<Rightarrow> u32 \<Rightarrow> u32 \<Rightarrow> mem_event list option" where
  "vmmap_read L as vaddr buf count =
     read_areas L (ADDR_TO_PN L vaddr) (1 + ADDR_TO_PN L (vaddr + count)) count (vaddr, buf) as"

definition write_chunk :: "chunk \<Rightarrow> mem_event list" where
  "write_chunk c = [Dirty (ck_obj c) (ck_page c), SetBusy (ck_obj c) (ck_page c), CopyIn c,
     ClearBusy (ck_obj c) (ck_page c), Broadcast (ck_obj c) (ck_page c)]"

fun write_areas ::
  "layout \<Rightarrow> u32 \<Rightarrow> u32 \<Rightarrow> u32 \<Rightarrow> u32 \<times> u32 \<times> u32 \<Rightarrow> vmarea list \<Rightarrow> mem_event list option" where
  "write_areas L vi vf count st [] = Some []"
| "write_areas L vi vf count st (it # its) =
     (if vma_end it \<le> vi then write_areas L vi vf count st its
      else if vma_start it \<ge> vf then Some []
      else do {
        obj \<leftarrow> vma_obj it;
        let (cks, st') = copy_loop L it obj count st (area_pages vi vf it);
        rest \<leftarrow> write_areas L vi vf count st' its;
        Some (concat (map write_chunk cks) @ rest) })"

definition vmmap_write :: "layout \<Rightarrow> vmarea list \<Rightarrow> u32 \<Rightarrow> u32 \<Rightarrow> u32 \<Rightarrow> mem_event list option" where
  "vmmap_write L as vaddr buf count =
     write_areas L (ADDR_TO_PN L vaddr) (1 + ADDR_TO_PN L (vaddr + count)) count (vaddr, buf, 0) as"

subsection \<open>Invariant and abstraction\<close>

definition covers :: "vmarea \<Rightarrow> u32 \<Rightarrow> bool" where
  "covers a v \<longleftrightarrow> vma_start a \<le> v \<and> v < vma_end a"

definition wf_area :: "u32 \<Rightarrow> u32 \<Rightarrow> vmarea \<Rightarrow> bool" where
  "wf_area lo hi a \<longleftrightarrow> lo \<le> vma_start a \<and> vma_start a < vma_end a \<and> vma_end a \<le> hi"

definition wf_areas :: "u32 \<Rightarrow> u32 \<Rightarrow> vmarea list \<Rightarrow> bool" where
  "wf_areas lo hi as \<longleftrightarrow>
     (\<forall>a\<in>set as. wf_area lo hi a) \<and> sorted_wrt (\<lambda>a b. vma_end a \<le> vma_start b) as"

abbreviation wf_map :: "layout \<Rightarrow> vmarea list \<Rightarrow> bool" where
  "wf_map L as \<equiv> wf_areas (low_pn L) (high_pn L) as"

text \<open>What a page of the address space is backed by: permissions, object and page in it.\<close>

type_synonym backing = "prot_flag set \<times> map_flag set \<times> objid option \<times> u32"

definition page_of :: "vmarea \<Rightarrow> u32 \<Rightarrow> backing" where
  "page_of a v = (vma_prot a, vma_flags a, vma_obj a, vma_off a + v - vma_start a)"

definition view :: "vmarea list \<Rightarrow> u32 \<Rightarrow> backing option" where
  "view as v = map_option (\<lambda>a. page_of a v) (vmmap_lookup as v)"

definition in_range :: "u32 \<Rightarrow> u32 \<Rightarrow> u32 \<Rightarrow> bool" where
  "in_range lo fin v \<longleftrightarrow> lo \<le> v \<and> v < fin"

definition free_range :: "vmarea list \<Rightarrow> u32 \<Rightarrow> u32 \<Rightarrow> bool" where
  "free_range as lo fin \<longleftrightarrow> (\<forall>v. in_range lo fin v \<longrightarrow> view as v = None)"

text \<open>No area of the list overlaps the range.\<close>

definition clear :: "vmarea list \<Rightarrow> u32 \<Rightarrow> u32 \<Rightarrow> bool" where
  "clear as lo fin \<longleftrightarrow> (\<forall>a\<in>set as. vma_end a \<le> lo \<or> fin \<le> vma_start a)"

text \<open>\<open>n\<close> pages from \<open>s\<close> on lie between \<open>lo\<close> and \<open>hi\<close> and are free.\<close>

definition fits :: "u32 \<Rightarrow> u32 \<Rightarrow> u32 \<Rightarrow> vmarea list \<Rightarrow> u32 \<Rightarrow> bool" where
  "fits lo hi n as s \<longleftrightarrow> lo \<le> s \<and> unat s + unat n \<le> unat hi \<and> clear as s (s + n)"

text \<open>The references an event list takes on an object (as a difference).\<close>

fun ref_delta :: "objid \<Rightarrow> vm_event list \<Rightarrow> int" where
  "ref_delta x [] = 0"
| "ref_delta x (MmoRef y # es) = (if x = y then 1 else 0) + ref_delta x es"
| "ref_delta x (MmoPut y # es) = (if x = y then -1 else 0) + ref_delta x es"
| "ref_delta x (_ # es) = ref_delta x es"

definition users :: "objid \<Rightarrow> vmarea list \<Rightarrow> int" where
  "users x as = int (length (filter (\<lambda>a. vma_obj a = Some x) as))"

definition unmapped :: "vm_event list \<Rightarrow> u32 \<Rightarrow> bool" where
  "unmapped ev v \<longleftrightarrow> (\<exists>s e. PtUnmapRange s e \<in> set ev \<and> in_range s e v)"

text \<open>Unmapping a list of ranges (first page, number of pages) one after the other.\<close>

fun unmap_ranges ::
  "('m \<Rightarrow> u32 \<Rightarrow> u32 \<Rightarrow> ('m \<times> vm_event list) option) \<Rightarrow> 'm \<Rightarrow> (u32 \<times> u32) list
    \<Rightarrow> ('m \<times> vm_event list) option" where
  "unmap_ranges unmap m [] = Some (m, [])"
| "unmap_ranges unmap m ((lo, n) # rs) = do {
     (m', ev) \<leftarrow> unmap m lo n;
     (m'', ev') \<leftarrow> unmap_ranges unmap m' rs;
     Some (m'', ev @ ev') }"

definition in_ranges :: "(u32 \<times> u32) list \<Rightarrow> u32 \<Rightarrow> bool" where
  "in_ranges rs v \<longleftrightarrow> (\<exists>(lo, n)\<in>set rs. in_range lo (lo + n) v)"

text \<open>The well-formed maps whose areas all have a memory object.\<close>

definition good_map :: "layout \<Rightarrow> vmarea list \<Rightarrow> bool" where
  "good_map L as \<longleftrightarrow> wf_map L as \<and> (\<forall>a\<in>set as. vma_obj a \<noteq> None)"

definition unmap_areas ::
  "layout \<Rightarrow> nat \<Rightarrow> vmarea \<Rightarrow> (vmarea \<Rightarrow> vmarea) \<Rightarrow> vmarea list \<Rightarrow> u32 \<Rightarrow> u32
    \<Rightarrow> (vmarea list \<times> vm_event list) option" where
  "unmap_areas L mid new stale as lo n =
     map_option (\<lambda>(as', b, ev). (as', ev)) (vmmap_remove L mid as lo n new stale)"

text \<open>The object a new mapping is to be backed by, given what the allocators return.\<close>

definition backing_obj :: "map_env \<Rightarrow> map_flag set \<Rightarrow> nat option \<Rightarrow> objid option" where
  "backing_obj E flags file =
     (if MAP_PRIVATE \<in> flags then Some (new_shadow E)
      else case file of Some f \<Rightarrow> Some (file_mmap E f) | None \<Rightarrow> vma_obj (new_area E))"

definition map_args_ok :: "layout \<Rightarrow> u32 \<Rightarrow> prot_flag set \<Rightarrow> map_flag set \<Rightarrow> u32 \<Rightarrow> bool" where
  "map_args_ok L npages prot flags off \<longleftrightarrow>
     0 < npages \<and> prot \<subseteq> {PROT_READ, PROT_WRITE, PROT_EXEC} \<and>
     (MAP_SHARED \<in> flags \<or> MAP_PRIVATE \<in> flags) \<and> PAGE_ALIGNED L off"

text \<open>The allocators hand out areas that are on no list.\<close>

definition env_ok :: "map_env \<Rightarrow> bool" where
  "env_ok E \<longleftrightarrow> (\<exists>i junk. new_area E = vmarea_alloc i junk) \<and> (\<exists>i junk. split_area E = vmarea_alloc i junk)"

text \<open>A concrete address space, on which the witnesses evaluate the operations.\<close>

definition demo_layout :: layout where
  "demo_layout = \<lparr>PAGE_SHIFT = 12, USER_MEM_LOW = 0x00400000, USER_MEM_HIGH = 0xc0000000\<rparr>"

definition demo_area :: "nat \<Rightarrow> u32 \<Rightarrow> u32 \<Rightarrow> vmarea" where
  "demo_area i s e =
     \<lparr>vma_id = i, vma_start = s, vma_end = e, vma_off = 0, vma_prot = {PROT_READ, PROT_WRITE},
      vma_flags = {MAP_PRIVATE}, vma_obj = Some i, vma_vmmap = Some 1\<rparr>"

definition demo_areas :: "vmarea list" where
  "demo_areas = [demo_area 10 1024 1040, demo_area 11 1050 1060]"

definition demo_env :: map_env where
  "demo_env =
     \<lparr>new_area = vmarea_alloc 20 (demo_area 0 0 0), split_area = vmarea_alloc 21 (demo_area 0 0 0),
      stale_area = (\<lambda>a. a), new_shadow = 30, new_anon = 31, file_mmap = (\<lambda>f. 100 + f)\<rparr>"

text \<open>
  A reference description of unmapping: what becomes of each area alone, and the events that
  this causes.  \<open>n\<close> is the area a split allocates.
\<close>

definition trim_area :: "nat \<Rightarrow> vmarea \<Rightarrow> u32 \<Rightarrow> u32 \<Rightarrow> vmarea \<Rightarrow> vmarea list" where
  "trim_area mid n lo fin a =
     (if fin \<le> vma_start a \<or> vma_end a \<le> lo then [a]
      else (if vma_start a < lo then [a\<lparr>vma_end := lo\<rparr>] else []) @
           (if fin < vma_end a then
              [if vma_start a < lo
               then n\<lparr>vma_obj := vma_obj a, vma_flags := vma_flags a, vma_prot := vma_prot a,
                      vma_end := vma_end a, vma_start := fin,
                      vma_off := vma_off a + fin - vma_start a, vma_vmmap := Some mid\<rparr>
               else a\<lparr>vma_off := vma_off a + fin - vma_start a, vma_start := fin\<rparr>]
            else []))"

definition trim_events :: "vmarea \<Rightarrow> u32 \<Rightarrow> u32 \<Rightarrow> vmarea \<Rightarrow> vm_event list" where
  "trim_events n lo fin a =
     (if fin \<le> vma_start a \<or> vma_end a \<le> lo then []
      else if vma_start a < lo then
        (if fin < vma_end a
         then [OlinkInsert (the (vma_obj a)) (vma_id n), MmoRef (the (vma_obj a)), PtUnmapRange lo fin]
         else [PtUnmapRange lo (vma_end a)])
      else (if fin < vma_end a then [PtUnmapRange (vma_start a) fin]
            else [OlinkRemove (vma_id a), MmoPut (the (vma_obj a)),
                  PtUnmapRange (vma_start a) (vma_end a), AreaFree (vma_id a)]))"

subsection \<open>Lists of areas\<close>

lemma wf_areas_Nil [simp]: "wf_areas lo hi []"
  by (simp add: wf_areas_def)

lemma wf_areas_Cons [areas]:
  "wf_areas lo hi (a # as) \<longleftrightarrow> wf_area lo hi a \<and> wf_areas (vma_end a) hi as"
  by (fastforce simp: wf_areas_def wf_area_def)

lemma wf_areas_append [areas]:
  "wf_areas lo hi (as @ bs) \<longleftrightarrow>
     wf_areas lo hi as \<and> wf_areas lo hi bs \<and> (\<forall>a\<in>set as. \<forall>b\<in>set bs. vma_end a \<le> vma_start b)"
  by (fastforce simp: wf_areas_def sorted_wrt_append)

lemma wf_areasD: "wf_areas lo hi as \<Longrightarrow> a \<in> set as \<Longrightarrow> lo \<le> vma_start a \<and> vma_start a < vma_end a \<and> vma_end a \<le> hi"
  by (simp add: wf_areas_def wf_area_def)

lemma wf_areas_mono: "wf_areas lo hi as \<Longrightarrow> lo' \<le> lo \<Longrightarrow> hi \<le> hi' \<Longrightarrow> wf_areas lo' hi' as"
  by (fastforce simp: wf_areas_def wf_area_def)

lemma wf_areas_upto: "wf_areas lo hi as \<Longrightarrow> \<forall>a\<in>set as. vma_end a \<le> m \<Longrightarrow> wf_areas lo m as"
  by (auto simp: wf_areas_def wf_area_def)

lemma wf_areas_snoc [areas]:
  "wf_areas lo hi (as @ [a]) \<longleftrightarrow> wf_areas lo (vma_start a) as \<and> wf_area lo hi a"
  by (fastforce simp: wf_areas_def wf_area_def sorted_wrt_append)

lemma wf_areas_join:
  assumes "wf_areas lo m as" and "wf_areas m hi bs" and "lo \<le> m" and "m \<le> hi"
  shows "wf_areas lo hi (as @ bs)"
proof -
  have "vma_end a \<le> vma_start b" if "a \<in> set as" "b \<in> set bs" for a b
    using wf_areasD [OF assms(1) that(1)] wf_areasD [OF assms(2) that(2)] by (auto intro: order_trans)
  with assms show ?thesis
    by (auto simp: wf_areas_append intro: wf_areas_mono)
qed

lemma view_Nil [simp]: "view [] v = None"
  by (simp add: view_def)

lemma view_Cons [simp]: "view (a # as) v = (if covers a v then Some (page_of a v) else view as v)"
  by (simp add: view_def covers_def)

lemma view_append: "view (as @ bs) v = (case view as v of None \<Rightarrow> view bs v | Some x \<Rightarrow> Some x)"
  by (induction as) auto

lemma view_None_iff: "view as v = None \<longleftrightarrow> (\<forall>a\<in>set as. \<not> covers a v)"
  by (induction as) auto

lemma view_concat_map:
  assumes "\<And>a. a \<in> set as \<Longrightarrow> view (f a) v = (if P then None else view [a] v)"
  shows "view (concat (map f as)) v = (if P then None else view as v)"
  using assms by (induction as) (auto simp: view_append split: option.splits)

lemma lookup_Some: "vmmap_lookup as v = Some a \<Longrightarrow> a \<in> set as \<and> covers a v"
  by (induction as) (auto simp: covers_def split: if_splits)

lemma wf_covers_unique:
  assumes "wf_areas lo hi as" and "a \<in> set as" and "b \<in> set as" and "covers a v" and "covers b v"
  shows "a = b"
  using assms
proof (induction as arbitrary: lo)
  case (Cons x xs)
  have "\<not> covers y v" if "y \<in> set xs" "covers x v" for y
    using Cons.prems(1) that wf_areasD [of "vma_end x" hi xs y]
    by (auto simp: wf_areas_Cons covers_def)
  with Cons show ?case by (auto simp: wf_areas_Cons)
qed simp

lemma lookup_iff:
  assumes "wf_areas lo hi as"
  shows "vmmap_lookup as v = Some a \<longleftrightarrow> a \<in> set as \<and> covers a v"
proof
  assume a: "a \<in> set as \<and> covers a v"
  then obtain b where b: "vmmap_lookup as v = Some b"
    using view_None_iff [of as v] by (fastforce simp: view_def)
  with a show "vmmap_lookup as v = Some a"
    using wf_covers_unique [OF assms, of a b v] lookup_Some [OF b] by simp
qed (rule lookup_Some)

subsection \<open>Free ranges\<close>

lemma clear_Nil [simp]: "clear [] lo fin"
  by (simp add: clear_def)

lemma clear_Cons [simp]: "clear (a # as) lo fin \<longleftrightarrow> (vma_end a \<le> lo \<or> fin \<le> vma_start a) \<and> clear as lo fin"
  by (simp add: clear_def)

lemma clear_append [simp]: "clear (as @ bs) lo fin \<longleftrightarrow> clear as lo fin \<and> clear bs lo fin"
  by (auto simp: clear_def)

lemma overlap_covers:
  assumes "lo < fin" and "vma_start a < vma_end a"
  shows "(vma_end a \<le> lo \<or> fin \<le> vma_start a) \<longleftrightarrow> (\<forall>v. in_range lo fin v \<longrightarrow> \<not> covers a v)"
proof
  assume "\<forall>v. in_range lo fin v \<longrightarrow> \<not> covers a v"
  from spec [OF this, of "max lo (vma_start a)"] assms show "vma_end a \<le> lo \<or> fin \<le> vma_start a"
    by (auto simp: in_range_def covers_def max_def split: if_splits)
qed (auto simp: in_range_def covers_def)

lemma free_range_clear:
  assumes "wf_areas l h as" and "lo < fin"
  shows "free_range as lo fin \<longleftrightarrow> clear as lo fin"
  using assms overlap_covers [OF assms(2)] wf_areasD [OF assms(1)]
  unfolding free_range_def clear_def view_None_iff by blast

lemma range_empty_loop_low: "startvfn < low \<Longrightarrow> \<not> range_empty_loop high startvfn endvfn low as"
  by (cases as) auto

lemma clear_above: "wf_areas lo hi as \<Longrightarrow> fin \<le> lo \<Longrightarrow> clear as s fin"
  by (auto simp: clear_def dest!: wf_areasD)

lemma range_empty_loop_clear:
  assumes "wf_areas low high as" and "startvfn < endvfn" and "endvfn \<le> high" and "low \<le> startvfn"
  shows "range_empty_loop high startvfn endvfn low as \<longleftrightarrow> clear as startvfn endvfn"
  using assms
proof (induction as arbitrary: low)
  case (Cons a as)
  have wf: "low \<le> vma_start a" "vma_start a < vma_end a" "wf_areas (vma_end a) high as"
    using Cons.prems(1) by (auto simp: wf_areas_Cons wf_area_def)
  consider "endvfn \<le> vma_start a" | "startvfn < vma_start a" "vma_start a < endvfn"
    | "vma_start a \<le> startvfn" "startvfn < vma_end a" | "vma_end a \<le> startvfn"
    by fastforce
  then show ?case
  proof cases
    case 1
    with wf clear_above [OF wf(3), of endvfn] Cons.prems show ?thesis by auto
  next
    case 4
    with wf Cons.IH [OF wf(3)] Cons.prems show ?thesis by auto
  qed (use wf Cons.prems range_empty_loop_low [of startvfn "vma_end a"] in auto)
qed simp

subsection \<open>Insertion\<close>

lemma vmmap_is_range_empty_iff:
  assumes "wf_map L as" and "s < s + n" and "low_pn L \<le> s" and "s + n \<le> high_pn L"
  shows "vmmap_is_range_empty L as s n = Some (clear as s (s + n))"
  using assms by (simp add: vmmap_is_range_empty_def range_empty_loop_clear)

lemma insert_loop_append:
  assumes "\<forall>x\<in>set xs. vma_start x < vma_end n" and "\<forall>y\<in>set ys. vma_end n \<le> vma_start y"
  shows "insert_loop n (xs @ ys) = xs @ n # ys"
  using assms by (induction xs) (cases ys; auto)+

lemma clear_split:
  assumes "wf_areas lo hi as" and "clear as s fin" and "s < fin"
  obtains xs ys where "as = xs @ ys" and "\<forall>x\<in>set xs. vma_end x \<le> s" and "\<forall>y\<in>set ys. fin \<le> vma_start y"
proof
  let ?P = "\<lambda>a. vma_start a < fin"
  show "as = takeWhile ?P as @ dropWhile ?P as" by simp
  show "\<forall>x\<in>set (takeWhile ?P as). vma_end x \<le> s"
    using assms(2) by (fastforce simp: clear_def dest: set_takeWhileD)
  show "\<forall>y\<in>set (dropWhile ?P as). fin \<le> vma_start y"
    using assms(1)
  proof (induction as arbitrary: lo)
    case (Cons a as)
    then have wf: "wf_areas (vma_end a) hi as" and lt: "vma_start a < vma_end a"
      by (auto simp: wf_areas_Cons wf_area_def)
    have "vma_start a \<le> vma_start y" if "y \<in> set as" for y
      using wf_areasD [OF wf that] lt by (meson order_less_imp_le order_trans)
    with Cons.IH [OF wf] show ?case
      by (auto simp: not_less intro: order_trans)
  qed simp
qed

lemma wf_area_in_range: "wf_areas lo hi as \<Longrightarrow> a \<in> set as \<Longrightarrow> wf_area lo hi a"
  by (simp add: wf_areas_def)

lemma insert_loop_spec:
  assumes wf: "wf_areas lo hi as" and n: "wf_area lo hi n" and c: "clear as (vma_start n) (vma_end n)"
  shows "wf_areas lo hi (insert_loop n as)"
    and "view (insert_loop n as) v = (if covers n v then Some (page_of n v) else view as v)"
    and "users x (insert_loop n as) = users x as + (if vma_obj n = Some x then 1 else 0)"
proof -
  have lt: "vma_start n < vma_end n" using n by (simp add: wf_area_def)
  obtain xs ys where as: "as = xs @ ys" and xs: "\<forall>x\<in>set xs. vma_end x \<le> vma_start n"
    and ys: "\<forall>y\<in>set ys. vma_end n \<le> vma_start y"
    using clear_split [OF wf c lt] .
  have "\<forall>x\<in>set xs. vma_start x < vma_end n"
    using xs wf lt unfolding as by (fastforce dest: wf_areasD)
  then have eq: "insert_loop n as = xs @ n # ys"
    using ys unfolding as by (rule insert_loop_append)
  have n_ys: "wf_areas (vma_end n) hi ys"
    using wf ys by (auto simp: as wf_areas_def wf_area_def sorted_wrt_append)
  show "wf_areas lo hi (insert_loop n as)"
    using wf n xs n_ys ys lt unfolding eq
    by (fastforce simp: as wf_areas_append wf_areas_Cons wf_area_def dest: wf_areasD)
  have "\<not> covers x v" if "covers n v" "x \<in> set xs" for x
    using xs that by (fastforce simp: covers_def)
  then have "covers n v \<Longrightarrow> view xs v = None"
    by (auto simp: view_None_iff)
  then show "view (insert_loop n as) v = (if covers n v then Some (page_of n v) else view as v)"
    unfolding eq by (auto simp: as view_append split: option.splits)
  show "users x (insert_loop n as) = users x as + (if vma_obj n = Some x then 1 else 0)"
    unfolding eq by (simp add: as users_def)
qed

lemma page_of_vmmap [simp]: "page_of (a\<lparr>vma_vmmap := x\<rparr>) = page_of a"
  by (simp add: page_of_def fun_eq_iff)

lemma covers_vmmap [simp]: "covers (a\<lparr>vma_vmmap := x\<rparr>) = covers a"
  by (simp add: covers_def fun_eq_iff)

lemma wf_area_vmmap [simp]: "wf_area lo hi (a\<lparr>vma_vmmap := x\<rparr>) = wf_area lo hi a"
  by (simp add: wf_area_def)

lemma vmmap_insert_clear:
  assumes "wf_map L as" and "wf_area (low_pn L) (high_pn L) n" and "vma_vmmap n = None"
    and "clear as (vma_start n) (vma_end n)"
  shows "vmmap_insert L mid as n = Some (insert_loop (n\<lparr>vma_vmmap := Some mid\<rparr>) as)"
  using assms by (simp add: vmmap_insert_def wf_area_def vmmap_is_range_empty_iff)

subsection \<open>First fit\<close>

lemma find_lohi_spec:
  assumes "wf_areas low high as" and "low \<le> high" and "0 < n"
    and "unat high < 2 ^ 31" and "unat n < 2 ^ 31"
  shows "find_lohi high n low as = -1 \<and> (\<forall>s. \<not> fits low high n as s) \<or>
    (\<exists>s. find_lohi high n low as = uint s \<and> fits low high n as s \<and>
         (\<forall>s'. fits low high n as s' \<longrightarrow> s \<le> s'))"
  using assms
proof (induction as arbitrary: low)
  case Nil
  have "unat (n + low) = unat n + unat low"
    using Nil.prems by (intro unat_add_le) (simp add: le_unat)
  moreover have "unat low < 2 ^ 31"
    using Nil.prems by (simp add: le_unat)
  ultimately show ?case
    by (auto simp: fits_def less_unat le_unat as_int_small intro!: exI [of _ low])
next
  case (Cons a as)
  have wf: "low \<le> vma_start a" "vma_start a < vma_end a" "vma_end a \<le> high" "wf_areas (vma_end a) high as"
    using Cons.prems(1) by (auto simp: wf_areas_Cons wf_area_def)
  have sub: "unat (vma_start a - low) = unat (vma_start a) - unat low"
    using wf(1) by (rule unat_sub_le)
  show ?case
  proof (cases "n > vma_start a - low")
    case True
    have "fits low high n (a # as) s \<longleftrightarrow> fits (vma_end a) high n as s" for s
    proof -
      have "unat (s + n) = unat s + unat n" if "unat s + unat n \<le> unat high"
        using that unat_lt32 [of high] by (intro unat_add_le) simp
      then show ?thesis
        using True sub wf by (auto simp: fits_def less_unat le_unat)
    qed
    then show ?thesis
      using Cons.IH [OF wf(4,3) Cons.prems(3-5)] True by simp
  next
    case False
    then have n: "unat n \<le> unat (vma_start a) - unat low"
      using sub by (simp add: less_unat)
    have "unat (low + n) = unat low + unat n"
      using n wf(1) unat_lt32 [of "vma_start a"] by (intro unat_add_le) (simp add: le_unat)
    moreover have "clear as low (low + n)"
      using wf n calculation by (intro clear_above [OF wf(4)]) (simp add: le_unat less_unat)
    ultimately have "fits low high n (a # as) low"
      using n wf by (auto simp: fits_def le_unat less_unat)
    moreover have "unat low < 2 ^ 31"
      using Cons.prems by (simp add: le_unat)
    ultimately show ?thesis
      using False by (auto simp: fits_def as_int_small intro!: exI [of _ low])
  qed
qed

lemma clear_below: "wf_areas lo hi as \<Longrightarrow> hi \<le> s \<Longrightarrow> clear as s fin"
  by (auto simp: clear_def dest!: wf_areasD)

lemma as_int_wrapped:
  fixes high n :: u32
  assumes "high < n" and "unat n < 2 ^ 31"
  shows "as_int (high - n) < 0" and "unat (high - n) = unat high + 2 ^ 32 - unat n"
proof -
  show eq: "unat (high - n) = unat high + 2 ^ 32 - unat n"
    using assms(1) by (simp add: unat_sub_if' less_unat)
  show "as_int (high - n) < 0"
    using assms by (intro as_int_large) (simp add: eq less_unat)
qed

lemma find_hilo_spec:
  assumes "wf_areas low high (rev ras)" and "low \<le> high" and "0 < n"
    and "unat high < 2 ^ 31" and "unat n < 2 ^ 31"
  shows "find_hilo low n high ras < 0 \<and> (\<forall>s. \<not> fits low high n (rev ras) s) \<or>
    (\<exists>s. find_hilo low n high ras = uint s \<and> fits low high n (rev ras) s \<and>
         (\<forall>s'. fits low high n (rev ras) s' \<longrightarrow> s' \<le> s))"
  using assms
proof (induction ras arbitrary: high)
  case Nil
  show ?case
  proof (cases "n \<le> high")
    case True
    then have "unat (high - n) = unat high - unat n" by (rule unat_sub_le)
    with True Nil.prems show ?thesis
      by (auto simp: fits_def less_unat le_unat as_int_small intro!: exI [of _ "high - n"])
  next
    case False
    then have "as_int (high - n) < 0" and "\<forall>s. \<not> fits low high n [] s"
      using Nil.prems(5) as_int_wrapped(1) [of high n] by (auto simp: fits_def less_unat not_le)
    then show ?thesis by simp
  qed
next
  case (Cons a ras)
  have wf: "low \<le> vma_start a" "vma_start a < vma_end a" "vma_end a \<le> high"
    "wf_areas low (vma_start a) (rev ras)"
    using Cons.prems(1) by (auto simp: wf_areas_snoc wf_area_def)
  have sub: "unat (high - vma_end a) = unat high - unat (vma_end a)"
    using wf(3) by (rule unat_sub_le)
  show ?case
  proof (cases "n > high - vma_end a")
    case True
    have "fits low high n (rev (a # ras)) s \<longleftrightarrow> fits low (vma_start a) n (rev ras) s" for s
    proof -
      have "unat (s + n) = unat s + unat n" if "unat s + unat n \<le> unat high"
        using that unat_lt32 [of high] by (intro unat_add_le) simp
      then show ?thesis
        using True sub wf by (auto simp: fits_def less_unat le_unat)
    qed
    moreover have "unat (vma_start a) < 2 ^ 31"
      using wf Cons.prems by (simp add: less_unat le_unat)
    ultimately show ?thesis
      using Cons.IH [OF wf(4,1) Cons.prems(3) _ Cons.prems(5)] True by simp
  next
    case False
    then have n: "unat n \<le> unat high - unat (vma_end a)"
      using sub by (simp add: less_unat)
    then have eq: "unat (high - n) = unat high - unat n"
      using wf(3) by (intro unat_sub_le) (simp add: le_unat)
    have le: "vma_end a \<le> high - n"
      using n wf(3) eq by (simp add: le_unat)
    moreover have "vma_start a \<le> high - n"
      using le wf(2) by simp
    then have "clear (rev ras) (high - n) high"
      by (rule clear_below [OF wf(4)])
    ultimately have "fits low high n (rev (a # ras)) (high - n)"
      using n wf eq by (auto simp: fits_def le_unat less_unat)
    then show ?thesis
      using False n eq Cons.prems(4) by (auto simp: fits_def le_unat as_int_small intro!: exI [of _ "high - n"])
  qed
qed

lemma vmmap_find_range_cases:
  assumes "wf_map L as" and "low_pn L \<le> high_pn L" and "0 < n"
    and "unat (high_pn L) < 2 ^ 31" and "unat n < 2 ^ 31"
  obtains (none) r where "vmmap_find_range L as n dir = Some r" and "r < 0"
      and "\<forall>s. \<not> fits (low_pn L) (high_pn L) n as s"
  | (found) s where "vmmap_find_range L as n dir = Some (uint s)"
      and "fits (low_pn L) (high_pn L) n as s"
      and "dir = VMMAP_DIR_LOHI \<longrightarrow> (\<forall>s'. fits (low_pn L) (high_pn L) n as s' \<longrightarrow> s \<le> s')"
      and "dir = VMMAP_DIR_HILO \<longrightarrow> (\<forall>s'. fits (low_pn L) (high_pn L) n as s' \<longrightarrow> s' \<le> s)"
proof (cases dir)
  case VMMAP_DIR_LOHI
  with find_lohi_spec [OF assms] assms(3) that show ?thesis
    by (auto simp: vmmap_find_range_def)
next
  case VMMAP_DIR_HILO
  with find_hilo_spec [of "low_pn L" "high_pn L" "rev as" n] assms that show ?thesis
    by (auto simp: vmmap_find_range_def)
qed

subsection \<open>Unmapping\<close>

lemma trim_outside [simp]:
  "fin \<le> vma_start a \<or> vma_end a \<le> lo \<Longrightarrow> trim_area mid n lo fin a = [a]"
  "fin \<le> vma_start a \<or> vma_end a \<le> lo \<Longrightarrow> trim_events n lo fin a = []"
  by (auto simp: trim_area_def trim_events_def)

lemma trim_clear:
  assumes "clear as lo fin"
  shows "concat (map (trim_area mid n lo fin) as) = as" and "concat (map (trim_events n lo fin) as) = []"
proof -
  have "fin \<le> vma_start a \<or> vma_end a \<le> lo" if "a \<in> set as" for a
    using assms that by (auto simp: clear_def)
  then show "concat (map (trim_area mid n lo fin) as) = as" and "concat (map (trim_events n lo fin) as) = []"
    by (induction as) auto
qed

text \<open>Replacing one area by well-formed areas within its range keeps the whole list well-formed.\<close>

lemma wf_areas_replace:
  assumes "wf_areas lo hi (pre @ a # as)" and "wf_areas (vma_start a) (vma_end a) xs"
  shows "wf_areas lo hi (pre @ xs @ as)"
proof -
  have wf: "vma_start a < vma_end a" "wf_areas (vma_end a) hi as" "wf_areas lo (vma_start a) pre"
    "lo \<le> vma_start a" "vma_end a \<le> hi"
    using assms(1) by (auto simp: wf_areas_append wf_areas_Cons wf_area_def intro: wf_areas_upto)
  then have "wf_areas (vma_start a) hi (xs @ as)"
    by (intro wf_areas_join [OF assms(2)]) auto
  with wf show ?thesis
    by (intro wf_areas_join [OF wf(3)]) auto
qed

lemma vmmap_insert_split:
  assumes wf: "wf_map L (pre @ a # as)" and lo: "vma_start a < lo" "lo < fin" "fin < vma_end a"
    and n: "vma_vmmap n = None" "vma_start n = fin" "vma_end n = vma_end a"
  shows "vmmap_insert L mid (pre @ a\<lparr>vma_end := lo\<rparr> # as) n =
    Some (pre @ a\<lparr>vma_end := lo\<rparr> # n\<lparr>vma_vmmap := Some mid\<rparr> # as)"
proof -
  let ?a = "a\<lparr>vma_end := lo\<rparr>"
  have parts: "wf_areas (vma_end a) (high_pn L) as" "wf_areas (low_pn L) (vma_start a) pre"
    "low_pn L \<le> vma_start a" "vma_end a \<le> high_pn L"
    using wf by (auto simp: wf_areas_append wf_areas_Cons wf_area_def intro: wf_areas_upto)
  have "wf_areas (vma_start a) (vma_end a) [?a]"
    using lo by (simp add: wf_areas_Cons wf_area_def)
  from wf_areas_replace [OF wf this] have "wf_map L (pre @ ?a # as)" by simp
  moreover have "wf_area (low_pn L) (high_pn L) n"
    using lo parts n by (auto simp: wf_area_def)
  moreover have "clear (pre @ ?a # as) (vma_start n) (vma_end n)"
    using lo n clear_below [OF parts(2), of fin] clear_above [OF parts(1)] by auto
  moreover have "insert_loop (n\<lparr>vma_vmmap := Some mid\<rparr>) ((pre @ [?a]) @ as) =
      (pre @ [?a]) @ n\<lparr>vma_vmmap := Some mid\<rparr> # as"
    using lo parts n by (intro insert_loop_append) (fastforce dest: wf_areasD)+
  ultimately show ?thesis
    using vmmap_insert_clear [of L "pre @ ?a # as" n mid] n by simp
qed

lemma remove_loop_trim:
  assumes "wf_map L (pre @ as)" and "lo < fin"
    and "\<forall>a\<in>set as. vma_obj a \<noteq> None" and "vma_vmmap n = None"
  shows "\<exists>b. remove_loop L mid lo fin n stale pre b0 ev as =
    Some (pre @ concat (map (trim_area mid n lo fin) as), b, ev @ concat (map (trim_events n lo fin) as))"
  using assms
proof (induction as arbitrary: pre b0 ev)
  case (Cons a as)
  have lt: "vma_start a < vma_end a" and wf_as: "wf_areas (vma_end a) (high_pn L) as"
    using Cons.prems(1) by (auto simp: wf_areas_append wf_areas_Cons wf_area_def)
  note repl = wf_areas_replace [OF Cons.prems(1)]
  note trims = trim_clear [OF clear_above [OF wf_as]]
  note trim_defs = trim_area_def [of mid n lo fin a] trim_events_def [of n lo fin a]
  have objs: "\<forall>a\<in>set as. vma_obj a \<noteq> None" using Cons.prems(3) by simp
  note IH = Cons.IH [OF _ Cons.prems(2) objs Cons.prems(4)]
  obtain obj where obj: "vma_obj a = Some obj" using Cons.prems(3) by auto
  consider (split) "fin < vma_end a" "vma_start a < lo"
    | (tail) "vma_start a < lo" "lo < vma_end a" "vma_end a \<le> fin"
    | (head) "lo \<le> vma_start a" "vma_start a < fin" "fin < vma_end a"
    | (all) "lo \<le> vma_start a" "vma_end a \<le> fin"
    | (out) "fin \<le> vma_start a \<or> vma_end a \<le> lo"
    by fastforce
  then show ?case
  proof cases
    case split
    then show ?thesis
      using obj Cons.prems(2,4) vmmap_insert_split [OF Cons.prems(1)]
      by (auto simp: trim_defs trims Let_def)
  next
    case tail
    then have "wf_map L ((pre @ [a\<lparr>vma_end := lo\<rparr>]) @ as)"
      using repl [of "[a\<lparr>vma_end := lo\<rparr>]"] by (simp add: wf_areas_Cons wf_area_def)
    from IH [OF this, of b0 "ev @ trim_events n lo fin a"] tail show ?thesis by (auto simp: trim_defs)
  next
    case head
    then show ?thesis by (auto simp: trim_defs trims)
  next
    case all
    have "wf_map L (pre @ as)" using repl [of "[]"] by simp
    from IH [OF this, of _ "ev @ trim_events n lo fin a"] all obj lt Cons.prems(2) show ?thesis
      by (auto simp: trim_defs)
  next
    case out
    from IH [of "pre @ [a]"] Cons.prems(1,2) out lt show ?thesis by auto
  qed
qed simp

lemma ref_delta_append [simp]: "ref_delta x (es @ fs) = ref_delta x es + ref_delta x fs"
  by (induction x es rule: ref_delta.induct) auto

lemma users_simps [simp]:
  "users x [] = 0" "users x (a # as) = (if vma_obj a = Some x then 1 else 0) + users x as"
  "users x (as @ bs) = users x as + users x bs"
  by (simp_all add: users_def)

lemma unmapped_simps [simp]:
  "\<not> unmapped [] v" "unmapped (es @ fs) v \<longleftrightarrow> unmapped es v \<or> unmapped fs v"
  "unmapped (PtUnmapRange s e # es) v \<longleftrightarrow> in_range s e v \<or> unmapped es v"
  "unmapped (MmoRef y # es) v \<longleftrightarrow> unmapped es v" "unmapped (MmoPut y # es) v \<longleftrightarrow> unmapped es v"
  "unmapped (OlinkInsert y i # es) v \<longleftrightarrow> unmapped es v" "unmapped (OlinkRemove i # es) v \<longleftrightarrow> unmapped es v"
  "unmapped (AreaFree i # es) v \<longleftrightarrow> unmapped es v" "unmapped (MapFree i # es) v \<longleftrightarrow> unmapped es v"
  by (auto simp: unmapped_def)

text \<open>What trimming does to one area.\<close>

lemma trim_area_facts:
  assumes "vma_start a < vma_end a" and "lo < fin"
  shows "view (trim_area mid n lo fin a) v = (if in_range lo fin v then None else view [a] v)"
    and "wf_areas (vma_start a) (vma_end a) (trim_area mid n lo fin a)"
    and "unmapped (trim_events n lo fin a) v \<longleftrightarrow> in_range lo fin v \<and> covers a v"
    and "vma_obj a = Some obj \<Longrightarrow>
      users x (trim_area mid n lo fin a) = users x [a] + ref_delta x (trim_events n lo fin a)"
proof -
  show "view (trim_area mid n lo fin a) v = (if in_range lo fin v then None else view [a] v)"
    using assms by (auto simp: trim_area_def covers_def page_of_def in_range_def)
  show "wf_areas (vma_start a) (vma_end a) (trim_area mid n lo fin a)"
    using assms by (auto simp: trim_area_def wf_areas_Cons wf_area_def)
  show "unmapped (trim_events n lo fin a) v \<longleftrightarrow> in_range lo fin v \<and> covers a v"
    using assms by (auto simp: trim_events_def covers_def in_range_def)
  show "vma_obj a = Some obj \<Longrightarrow>
      users x (trim_area mid n lo fin a) = users x [a] + ref_delta x (trim_events n lo fin a)"
    using assms by (auto simp: trim_area_def trim_events_def)
qed

lemma wf_areas_concat_map:
  assumes "wf_areas lo hi as" and "\<And>a. a \<in> set as \<Longrightarrow> wf_areas (vma_start a) (vma_end a) (f a)"
  shows "wf_areas lo hi (concat (map f as))"
  using assms
proof (induction as arbitrary: lo)
  case (Cons a as)
  then have "wf_areas lo (vma_end a) (f a)" and "wf_areas (vma_end a) hi (concat (map f as))"
    by (auto simp: wf_areas_Cons wf_area_def intro: wf_areas_mono)
  moreover have "lo \<le> vma_end a" and "vma_end a \<le> hi"
    using Cons.prems(1) by (auto simp: wf_areas_Cons wf_area_def)
  ultimately show ?case by (simp add: wf_areas_join)
qed simp

lemma trim_list_facts:
  assumes "\<forall>a\<in>set as. vma_start a < vma_end a \<and> vma_obj a \<noteq> None" and "lo < fin"
  shows "users x (concat (map (trim_area mid n lo fin) as)) =
      users x as + ref_delta x (concat (map (trim_events n lo fin) as)) \<and>
    (unmapped (concat (map (trim_events n lo fin) as)) v \<longleftrightarrow> in_range lo fin v \<and> view as v \<noteq> None)"
  using assms(1)
proof (induction as)
  case (Cons a as)
  then obtain obj where "vma_start a < vma_end a" "vma_obj a = Some obj" by auto
  with trim_area_facts(3,4) [OF _ assms(2), of a] Cons show ?case by (auto simp: page_of_def)
qed simp

lemma vmmap_remove_trim:
  assumes "wf_map L as" and "lo < lo + n" and "\<forall>a\<in>set as. vma_obj a \<noteq> None" and "vma_vmmap new = None"
  obtains b where "vmmap_remove L mid as lo n new stale =
    Some (concat (map (trim_area mid new lo (lo + n)) as), b, concat (map (trim_events new lo (lo + n)) as))"
  using remove_loop_trim [of L "[]" as lo "lo + n" new mid stale 0 "[]"] assms
  by (auto simp: vmmap_remove_def)

lemma vmmap_remove_spec:
  assumes "wf_map L as" and "lo < lo + n" and "\<forall>a\<in>set as. vma_obj a \<noteq> None" and "vma_vmmap new = None"
  obtains as' b ev where "vmmap_remove L mid as lo n new stale = Some (as', b, ev)"
    and "wf_map L as'" and "\<And>v. view as' v = (if in_range lo (lo + n) v then None else view as v)"
    and "\<And>x. users x as' = users x as + ref_delta x ev"
    and "\<And>v. unmapped ev v \<longleftrightarrow> in_range lo (lo + n) v \<and> view as v \<noteq> None"
proof -
  obtain b where eq: "vmmap_remove L mid as lo n new stale =
    Some (concat (map (trim_area mid new lo (lo + n)) as), b, concat (map (trim_events new lo (lo + n)) as))"
    using vmmap_remove_trim [OF assms] .
  have lt: "vma_start a < vma_end a" if "a \<in> set as" for a
    using wf_areasD [OF assms(1) that] by simp
  show ?thesis
  proof (rule that [OF eq])
    show "wf_map L (concat (map (trim_area mid new lo (lo + n)) as))"
      using trim_area_facts(2) [OF lt assms(2)] by (rule wf_areas_concat_map [OF assms(1)])
    show "view (concat (map (trim_area mid new lo (lo + n)) as)) v =
        (if in_range lo (lo + n) v then None else view as v)" for v
      using trim_area_facts(1) [OF lt assms(2)] by (rule view_concat_map)
  qed (use trim_list_facts [OF _ assms(2)] lt assms(3) in blast)+
qed

subsection \<open>The interface of an address-space map\<close>

text \<open>
  What the clients of a map rely on: a range can be unmapped, after which exactly its pages are
  gone, the references that went with it have been given back, and its translations have been
  dropped from the page table.
\<close>

locale page_map =
  fixes inv :: "'m \<Rightarrow> bool"
    and look :: "'m \<Rightarrow> u32 \<Rightarrow> 'b option"
    and refs :: "objid \<Rightarrow> 'm \<Rightarrow> int"
    and unmap :: "'m \<Rightarrow> u32 \<Rightarrow> u32 \<Rightarrow> ('m \<times> vm_event list) option"
  assumes unmap_ok: "inv m \<Longrightarrow> lo < lo + n \<Longrightarrow>
    \<exists>m' ev. unmap m lo n = Some (m', ev) \<and> inv m' \<and>
      (\<forall>v. look m' v = (if in_range lo (lo + n) v then None else look m v)) \<and>
      (\<forall>x. refs x m' = refs x m + ref_delta x ev) \<and>
      (\<forall>v. unmapped ev v \<longleftrightarrow> in_range lo (lo + n) v \<and> look m v \<noteq> None)"
begin

lemma unmap_ranges_ok:
  assumes "inv m" and "\<forall>(lo, n)\<in>set rs. lo < lo + n"
  shows "\<exists>m' ev. unmap_ranges unmap m rs = Some (m', ev) \<and> inv m' \<and>
      (\<forall>v. look m' v = (if in_ranges rs v then None else look m v)) \<and>
      (\<forall>x. refs x m' = refs x m + ref_delta x ev) \<and>
      (\<forall>v. unmapped ev v \<longleftrightarrow> in_ranges rs v \<and> look m v \<noteq> None)"
  using assms
proof (induction rs arbitrary: m)
  case (Cons r rs)
  obtain lo n where r: "r = (lo, n)" by force
  obtain m1 ev1 where 1: "unmap m lo n = Some (m1, ev1)" "inv m1"
    "\<forall>v. look m1 v = (if in_range lo (lo + n) v then None else look m v)"
    "\<forall>x. refs x m1 = refs x m + ref_delta x ev1"
    "\<forall>v. unmapped ev1 v \<longleftrightarrow> in_range lo (lo + n) v \<and> look m v \<noteq> None"
    using unmap_ok [of m lo n] Cons.prems r by auto
  from Cons.IH [OF 1(2)] Cons.prems(2) obtain m2 ev2 where
    2: "unmap_ranges unmap m1 rs = Some (m2, ev2)" "inv m2"
    "\<forall>v. look m2 v = (if in_ranges rs v then None else look m1 v)"
    "\<forall>x. refs x m2 = refs x m1 + ref_delta x ev2"
    "\<forall>v. unmapped ev2 v \<longleftrightarrow> in_ranges rs v \<and> look m1 v \<noteq> None"
    by auto
  have step: "in_ranges (r # rs) v \<longleftrightarrow> in_range lo (lo + n) v \<or> in_ranges rs v" for v
    by (auto simp: in_ranges_def r)
  show ?case
  proof (intro exI conjI allI)
    show "unmap_ranges unmap m (r # rs) = Some (m2, ev1 @ ev2)" using 1(1) 2(1) by (simp add: r)
  qed (use 1 2 step in auto)
qed (simp add: in_ranges_def)

lemma unmap_commute:
  assumes "inv m" and "lo < lo + n" and "lo' < lo' + n'"
    and "unmap m lo n = Some (m1, e1)" and "unmap m1 lo' n' = Some (m2, e2)"
    and "unmap m lo' n' = Some (k1, f1)" and "unmap k1 lo n = Some (k2, f2)"
  shows "look m2 = look k2"
  using unmap_ok [OF assms(1,2)] unmap_ok [OF assms(1,3)] unmap_ok [of m1 lo' n'] unmap_ok [of k1 lo n]
    assms by (auto simp: fun_eq_iff)

end

lemma trim_area_obj: "b \<in> set (trim_area mid n lo fin a) \<Longrightarrow> vma_obj b = vma_obj a"
  by (auto simp: trim_area_def split: if_splits)

lemma unmap_areas_ok:
  assumes "good_map L as" and "lo < lo + n"
  shows "\<exists>as' ev. unmap_areas L mid (vmarea_alloc i junk) stale as lo n = Some (as', ev) \<and> good_map L as' \<and>
      (\<forall>v. view as' v = (if in_range lo (lo + n) v then None else view as v)) \<and>
      (\<forall>x. users x as' = users x as + ref_delta x ev) \<and>
      (\<forall>v. unmapped ev v \<longleftrightarrow> in_range lo (lo + n) v \<and> view as v \<noteq> None)"
proof -
  let ?new = "vmarea_alloc i junk"
  have pre: "wf_map L as" "\<forall>a\<in>set as. vma_obj a \<noteq> None" "vma_vmmap ?new = None"
    using assms(1) by (auto simp: good_map_def vmarea_alloc_def)
  obtain b where eq: "vmmap_remove L mid as lo n ?new stale =
    Some (concat (map (trim_area mid ?new lo (lo + n)) as), b, concat (map (trim_events ?new lo (lo + n)) as))"
    using vmmap_remove_trim [OF pre(1) assms(2) pre(2,3)] .
  have "\<forall>a\<in>set (concat (map (trim_area mid ?new lo (lo + n)) as)). vma_obj a \<noteq> None"
    using pre(2) trim_area_obj by fastforce
  then show ?thesis
    using vmmap_remove_spec [OF pre(1) assms(2) pre(2,3), of mid stale] eq
    by (fastforce simp: unmap_areas_def good_map_def)
qed

interpretation vmm: page_map "good_map L" view users "unmap_areas L mid (vmarea_alloc i junk) stale"
  for L mid i junk stale
  by unfold_locales (rule unmap_areas_ok)

lemma destroy_loop_ranges:
  "destroy_loop L mid new stale as ev its =
     map_option (\<lambda>(as', ev'). (as', ev @ ev'))
       (unmap_ranges (unmap_areas L mid new stale) as
          (map (\<lambda>it. (vma_start it, vma_end it - vma_start it)) its))"
proof (induction its arbitrary: as ev)
  case (Cons it its)
  then show ?case
    by (cases "vmmap_remove L mid as (vma_start it) (vma_end it - vma_start it) new stale")
      (auto simp: unmap_areas_def option.map_comp comp_def split_def map_option_case split: option.splits)
qed simp

lemma wf_view_None_Nil: "wf_areas lo hi as \<Longrightarrow> \<forall>v. view as v = None \<Longrightarrow> as = []"
  by (cases as) (auto simp: covers_def wf_areas_Cons wf_area_def dest: spec [of _ "vma_start (hd as)"])

lemma demo_simps [simp]:
  "low_pn demo_layout = 1024" "high_pn demo_layout = 786432" "PAGE_SHIFT demo_layout = 12"
  by (simp_all add: demo_layout_def ADDR_TO_PN_def)

lemma demo_good [simp]: "good_map demo_layout demo_areas"
  by (simp add: good_map_def demo_areas_def demo_area_def wf_areas_def wf_area_def)

subsection \<open>Properties\<close>

text \<open>
  C1: \<^verbatim>\<open>vmmap_remove\<close> implements unmapping.  On a well-formed map it never hits an assertion, keeps
  the areas sorted, disjoint and inside user memory, removes exactly the pages of the given range
  from the address space (every other page keeps its permissions, object and object page, also
  where an area is split or its start moves), takes and drops memory-object references so that
  each object's count changes by the change in the number of areas using it, and clears exactly
  the page-table range of the pages that were mapped there.
\<close>

theorem vmmap_remove_correct:
  assumes "good_map L as" and "lo < lo + n"
  shows "\<exists>as' b ev. vmmap_remove L mid as lo n (vmarea_alloc i junk) stale = Some (as', b, ev) \<and>
    good_map L as' \<and>
    (\<forall>v. view as' v = (if in_range lo (lo + n) v then None else view as v)) \<and>
    (\<forall>x. users x as' = users x as + ref_delta x ev) \<and>
    (\<forall>v. unmapped ev v \<longleftrightarrow> in_range lo (lo + n) v \<and> view as v \<noteq> None)"
proof -
  obtain as' ev where "unmap_areas L mid (vmarea_alloc i junk) stale as lo n = Some (as', ev)"
    and rest: "good_map L as'" "\<forall>v. view as' v = (if in_range lo (lo + n) v then None else view as v)"
    "\<forall>x. users x as' = users x as + ref_delta x ev"
    "\<forall>v. unmapped ev v \<longleftrightarrow> in_range lo (lo + n) v \<and> view as v \<noteq> None"
    using vmm.unmap_ok [OF assms, of mid i junk stale] by blast
  then obtain b where "vmmap_remove L mid as lo n (vmarea_alloc i junk) stale = Some (as', b, ev)"
    by (auto simp: unmap_areas_def)
  with rest show ?thesis by blast
qed

theorem vmmap_remove_correct_witness:
  "\<exists>as' b ev. vmmap_remove demo_layout 1 demo_areas 1030 25 (vmarea_alloc 20 (demo_area 0 0 0)) id =
      Some (as', b, ev) \<and> good_map demo_layout as' \<and> view as' 1030 = None \<and>
    view as' 1029 = Some ({PROT_READ, PROT_WRITE}, {MAP_PRIVATE}, Some 10, 5)"
proof -
  have "(1030 :: u32) < 1030 + 25" by simp
  from vmmap_remove_correct [OF demo_good this, of 1 20 "demo_area 0 0 0" id] show ?thesis
    by (fastforce simp: in_range_def demo_areas_def demo_area_def covers_def page_of_def)
qed

text \<open>
  \<^verbatim>\<open>vmmap_destroy\<close> leaves no area behind: every reference the areas held on a memory object is
  given back, exactly the mapped pages are cleared from the page table, and the map is freed.
\<close>

theorem vmmap_destroy_complete:
  assumes "good_map L (vmm_list m)"
  shows "\<exists>ev. vmmap_destroy L m (vmarea_alloc i junk) stale = Some ([], ev @ [MapFree (vmm_id m)]) \<and>
    (\<forall>x. ref_delta x ev = - users x (vmm_list m)) \<and>
    (\<forall>v. unmapped ev v \<longleftrightarrow> view (vmm_list m) v \<noteq> None)"
proof -
  let ?as = "vmm_list m"
  let ?rs = "map (\<lambda>it. (vma_start it, vma_end it - vma_start it)) ?as"
  have wf: "wf_map L ?as" using assms by (simp add: good_map_def)
  have "\<forall>(lo, n)\<in>set ?rs. lo < lo + n"
    using wf_areasD [OF wf] by auto
  from vmm.unmap_ranges_ok [OF assms this, of "vmm_id m" i junk stale] obtain as' ev where
    r: "unmap_ranges (unmap_areas L (vmm_id m) (vmarea_alloc i junk) stale) ?as ?rs = Some (as', ev)"
    and inv: "good_map L as'"
    and look: "\<forall>v. view as' v = (if in_ranges ?rs v then None else view ?as v)"
    and refs: "\<forall>x. users x as' = users x ?as + ref_delta x ev"
    and um: "\<forall>v. unmapped ev v \<longleftrightarrow> in_ranges ?rs v \<and> view ?as v \<noteq> None"
    by blast
  have "in_ranges ?rs v" if "view ?as v \<noteq> None" for v
    using that by (auto simp: in_ranges_def view_None_iff covers_def in_range_def simp del: not_None_eq)
  then have all: "\<forall>v. view as' v = None" and um': "\<forall>v. unmapped ev v \<longleftrightarrow> view ?as v \<noteq> None"
    using look um by auto
  have "as' = []"
    using inv all by (intro wf_view_None_Nil) (auto simp: good_map_def)
  then have "\<forall>x. ref_delta x ev = - users x ?as"
    using refs by (simp add: eq_neg_iff_add_eq_0 add.commute)
  with r um' \<open>as' = []\<close> show ?thesis
    by (auto simp: vmmap_destroy_def destroy_loop_ranges)
qed

theorem vmmap_destroy_complete_witness:
  "\<exists>ev. vmmap_destroy demo_layout \<lparr>vmm_id = 1, vmm_list = demo_areas, vmm_proc = None\<rparr>
      (vmarea_alloc 20 (demo_area 0 0 0)) id = Some ([], ev @ [MapFree 1]) \<and> ref_delta 10 ev = -1"
proof -
  let ?m = "\<lparr>vmm_id = 1, vmm_list = demo_areas, vmm_proc = None\<rparr>"
  have "good_map demo_layout (vmm_list ?m)" by simp
  moreover have "users 10 (vmm_list ?m) = 1" by (simp add: demo_areas_def demo_area_def)
  ultimately show ?thesis
    using vmmap_destroy_complete [of demo_layout ?m 20 "demo_area 0 0 0" id] by force
qed

text \<open>
  C10: \<^verbatim>\<open>vmmap_find_range\<close> is first fit, in both directions.  It fails (a negative result) exactly when
  no gap of the requested length exists in user memory; otherwise the result is the first page of
  a free range of that length, the lowest one for \<^verbatim>\<open>VMMAP_DIR_LOHI\<close> and the highest one for
  \<^verbatim>\<open>VMMAP_DIR_HILO\<close>.
\<close>

theorem vmmap_find_range_first_fit:
  assumes "wf_map L as" and "low_pn L \<le> high_pn L" and "0 < n"
    and "unat (high_pn L) < 2 ^ 31" and "unat n < 2 ^ 31"
  shows "\<exists>r. vmmap_find_range L as n dir = Some r \<and>
    (r < 0 \<longleftrightarrow> (\<forall>s. \<not> fits (low_pn L) (high_pn L) n as s)) \<and>
    (0 \<le> r \<longrightarrow> (\<exists>s. r = uint s \<and> fits (low_pn L) (high_pn L) n as s \<and>
      (\<forall>s'. fits (low_pn L) (high_pn L) n as s' \<longrightarrow>
         (case dir of VMMAP_DIR_LOHI \<Rightarrow> s \<le> s' | VMMAP_DIR_HILO \<Rightarrow> s' \<le> s))))"
proof (cases rule: vmmap_find_range_cases [OF assms, of dir, case_names none found])
  case (found s)
  have "\<forall>s'. fits (low_pn L) (high_pn L) n as s' \<longrightarrow>
      (case dir of VMMAP_DIR_LOHI \<Rightarrow> s \<le> s' | VMMAP_DIR_HILO \<Rightarrow> s' \<le> s)"
    using found(3,4) by (cases dir) auto
  with found(1,2) show ?thesis by (auto intro!: exI [of _ "uint s"])
qed auto

theorem vmmap_find_range_first_fit_witness:
  "vmmap_find_range demo_layout demo_areas 12 VMMAP_DIR_LOHI = Some 1060 \<and>
   (\<exists>r. vmmap_find_range demo_layout demo_areas 12 VMMAP_DIR_LOHI = Some r \<and>
     (r < 0 \<longleftrightarrow> (\<forall>s. \<not> fits 1024 786432 12 demo_areas s)) \<and>
     (0 \<le> r \<longrightarrow> (\<exists>s. r = uint s \<and> fits 1024 786432 12 demo_areas s \<and>
       (\<forall>s'. fits 1024 786432 12 demo_areas s' \<longrightarrow> s \<le> s'))))"
proof -
  have wf: "wf_map demo_layout demo_areas" using demo_good unfolding good_map_def by simp
  have "vmmap_find_range demo_layout demo_areas 12 VMMAP_DIR_LOHI = Some 1060"
    by (simp add: vmmap_find_range_def demo_areas_def demo_area_def as_int_def)
  then show ?thesis
    using vmmap_find_range_first_fit [OF wf, of 12 VMMAP_DIR_LOHI] by simp
qed

text \<open>
  \<^verbatim>\<open>vmmap_is_range_empty\<close> answers whether no page of the range is mapped, and \<^verbatim>\<open>vmmap_insert\<close> adds
  an area to a free range: the map stays well formed, the pages of the area are backed by it and
  every other page is as before.
\<close>

theorem vmmap_insert_correct:
  assumes "wf_map L as" and "wf_area (low_pn L) (high_pn L) a" and "vma_vmmap a = None"
    and "free_range as (vma_start a) (vma_end a)"
  shows "vmmap_is_range_empty L as (vma_start a) (vma_end a - vma_start a) = Some True \<and>
    (\<exists>as'. vmmap_insert L mid as a = Some as' \<and> wf_map L as' \<and>
      (\<forall>v. view as' v = (if covers a v then Some (page_of a v) else view as v)))"
proof -
  have lt: "vma_start a < vma_end a" using assms(2) by (simp add: wf_area_def)
  have c: "clear as (vma_start a) (vma_end a)"
    using free_range_clear [OF assms(1) lt] assms(4) by simp
  have "wf_area (low_pn L) (high_pn L) (a\<lparr>vma_vmmap := Some mid\<rparr>)" using assms(2) by simp
  from insert_loop_spec(1,2) [OF assms(1) this] vmmap_insert_clear [OF assms(1-3) c, of mid] c
  have "\<exists>as'. vmmap_insert L mid as a = Some as' \<and> wf_map L as' \<and>
      (\<forall>v. view as' v = (if covers a v then Some (page_of a v) else view as v))"
    by simp
  moreover have "vmmap_is_range_empty L as (vma_start a) (vma_end a - vma_start a) = Some True"
    using assms(1,2) lt c by (simp add: vmmap_is_range_empty_iff wf_area_def)
  ultimately show ?thesis by blast
qed

theorem vmmap_insert_correct_witness:
  "\<exists>as'. vmmap_insert demo_layout 1 demo_areas (vmarea_alloc 20 (demo_area 20 1040 1045)) = Some as' \<and>
    wf_map demo_layout as' \<and> view as' 1041 \<noteq> None"
proof -
  let ?a = "vmarea_alloc 20 (demo_area 20 1040 1045)"
  have wf: "wf_map demo_layout demo_areas" using demo_good unfolding good_map_def by simp
  have a: "wf_area (low_pn demo_layout) (high_pn demo_layout) ?a" "vma_vmmap ?a = None"
    by (simp_all add: wf_area_def vmarea_alloc_def demo_area_def)
  have "free_range demo_areas (vma_start ?a) (vma_end ?a)"
    by (subst free_range_clear [OF wf]) (simp_all add: vmarea_alloc_def demo_areas_def demo_area_def)
  from vmmap_insert_correct [OF wf a this, of 1] show ?thesis
    by (fastforce simp: covers_def vmarea_alloc_def demo_area_def)
qed

lemma map_object_fst:
  "fst (map_object E a file) = a\<lparr>vma_obj := if MAP_PRIVATE \<in> vma_flags a then Some (new_shadow E)
     else case file of Some f \<Rightarrow> Some (file_mmap E f) | None \<Rightarrow> vma_obj a\<rparr>"
  by (simp add: map_object_def Let_def split: option.split)

text \<open>The last part of \<^verbatim>\<open>vmmap_map\<close>: the new area goes into a range that is free.\<close>

lemma map_insert_ok:
  assumes "wf_map L as" and "env_ok E" and "clear as st (st + n)"
    and "low_pn L \<le> st" and "st < st + n" and "st + n \<le> high_pn L"
  shows "\<exists>as' a ev. (let a = (new_area E)\<lparr>vma_start := st, vma_end := n + st, vma_flags := flags,
                                vma_prot := prot, vma_off := off\<rparr>;
               (a', ev') = map_object E a file
           in do { as' \<leftarrow> vmmap_insert L mid as a'; Some (Inr (as', a', ev0 @ ev')) }) =
      Some (Inr (as', a, ev)) \<and> wf_map L as' \<and> vma_start a = st \<and>
    (\<forall>v. view as' v = (if in_range st (st + n) v
        then Some (prot, flags, backing_obj E flags file, off + v - st) else view as v))"
proof -
  let ?a = "(new_area E)\<lparr>vma_start := st, vma_end := n + st, vma_flags := flags,
    vma_prot := prot, vma_off := off\<rparr>"
  obtain a ev where mo: "map_object E ?a file = (a, ev)" by force
  then have a: "a = ?a\<lparr>vma_obj := backing_obj E flags file\<rparr>"
    using map_object_fst [of E ?a "file"] by (auto simp: backing_obj_def split: option.splits)
  have none: "vma_vmmap a = None" using assms(2) by (auto simp: a env_ok_def vmarea_alloc_def)
  have wf: "wf_area (low_pn L) (high_pn L) a" using assms(4-6) by (simp add: a wf_area_def add.commute)
  have c: "clear as (vma_start a) (vma_end a)" using assms(3) by (simp add: a add.commute)
  have wf': "wf_area (low_pn L) (high_pn L) (a\<lparr>vma_vmmap := Some mid\<rparr>)" using wf by simp
  have "covers a = in_range st (st + n)"
    by (simp add: a covers_def in_range_def fun_eq_iff add.commute)
  moreover have "page_of a v = (prot, flags, backing_obj E flags file, off + v - st)" for v
    by (simp add: a page_of_def)
  ultimately show ?thesis
    using insert_loop_spec(1,2) [OF assms(1) wf'] vmmap_insert_clear [OF assms(1) wf none c, of mid] c
    by (auto simp: mo a)
qed

lemma fits_bounds:
  assumes "fits lo hi n as s" and "0 < n"
  shows "lo \<le> s" "s < s + n" "s + n \<le> hi" "clear as s (s + n)"
proof -
  have sum: "unat s + unat n \<le> unat hi" using assms(1) by (simp add: fits_def)
  then have "unat (s + n) = unat s + unat n"
    using unat_lt32 [of hi] by (intro unat_add_le) simp
  with assms sum show "lo \<le> s" "s < s + n" "s + n \<le> hi" "clear as s (s + n)"
    by (simp_all add: fits_def less_unat le_unat)
qed

lemma vmmap_map_fixed_ok:
  assumes "good_map L (vmm_list m)" and "env_ok E" and "map_args_ok L n prot flags off"
    and "lo \<noteq> 0" and "low_pn L \<le> lo" and "lo < lo + n" and "lo + n \<le> high_pn L"
  shows "\<exists>as a ev. vmmap_map L E m file lo n prot flags off dir = Some (Inr (as, a, ev)) \<and>
    wf_map L as \<and> vma_start a = lo \<and>
    (\<forall>v. view as v = (if in_range lo (lo + n) v
        then Some (prot, flags, backing_obj E flags file, off + v - lo) else view (vmm_list m) v))"
proof -
  have wf: "wf_map L (vmm_list m)" using assms(1) by (simp add: good_map_def)
  have objs: "\<forall>a\<in>set (vmm_list m). vma_obj a \<noteq> None" using assms(1) by (simp add: good_map_def)
  have none: "vma_vmmap (split_area E) = None" using assms(2) by (auto simp: env_ok_def vmarea_alloc_def)
  show ?thesis
  proof (cases "clear (vmm_list m) lo (lo + n)")
    case True
    from map_insert_ok [OF wf assms(2) True assms(5,6,7), of off prot flags "file" "vmm_id m" "[]"] True
    show ?thesis
      using assms(3-7) wf by (simp add: vmmap_map_def map_args_ok_def vmmap_is_range_empty_iff)
  next
    case False
    obtain as1 b ev where rm: "vmmap_remove L (vmm_id m) (vmm_list m) lo n (split_area E) (stale_area E) =
        Some (as1, b, ev)" and wf1: "wf_map L as1"
      and view1: "\<forall>v. view as1 v = (if in_range lo (lo + n) v then None else view (vmm_list m) v)"
      using vmmap_remove_spec [OF wf assms(6) objs none, of "vmm_id m" "stale_area E"] by metis
    have c: "clear as1 lo (lo + n)"
      using free_range_clear [OF wf1 assms(6)] view1 by (simp add: free_range_def)
    from map_insert_ok [OF wf1 assms(2) c assms(5,6,7), of off prot flags "file" "vmm_id m" ev]
    obtain as' a ev' where "(let a = (new_area E)\<lparr>vma_start := lo, vma_end := n + lo, vma_flags := flags,
                                vma_prot := prot, vma_off := off\<rparr>;
               (a', ev') = map_object E a file
           in do { as' \<leftarrow> vmmap_insert L (vmm_id m) as1 a'; Some (Inr (as', a', ev @ ev')) }) =
      Some (Inr (as', a, ev') :: errno + _)" and "wf_map L as'" "vma_start a = lo"
      "\<forall>v. view as' v = (if in_range lo (lo + n) v
        then Some (prot, flags, backing_obj E flags file, off + v - lo) else view as1 v)" by blast
    then show ?thesis
      using assms(3-7) wf wf1 c False rm view1
      by (simp add: vmmap_map_def map_args_ok_def vmmap_is_range_empty_iff)
  qed
qed

text \<open>
  Mapping at a given address.  \<^verbatim>\<open>vmmap_map\<close> with a non-zero \<^verbatim>\<open>lopage\<close> always succeeds on valid
  arguments: whatever was mapped in the range is unmapped first (the assertion that the range is
  then empty holds), the range is backed by the new object with the given protection and flags,
  and every page outside it is untouched.
\<close>

theorem vmmap_map_fixed:
  assumes "good_map L (vmm_list m)" and "env_ok E" and "map_args_ok L n prot flags off"
    and "lo \<noteq> 0" and "low_pn L \<le> lo" and "lo < lo + n" and "lo + n \<le> high_pn L"
  shows "\<exists>as a ev. vmmap_map L E m file lo n prot flags off dir = Some (Inr (as, a, ev)) \<and>
    wf_map L as \<and> vma_start a = lo \<and>
    (\<forall>v. view as v = (if in_range lo (lo + n) v
        then Some (prot, flags, backing_obj E flags file, off + v - lo) else view (vmm_list m) v))"
  by (rule vmmap_map_fixed_ok [OF assms])

lemma demo_env_ok [simp]: "env_ok demo_env"
  by (auto simp: env_ok_def demo_env_def)

theorem vmmap_map_fixed_witness:
  "\<exists>as a ev. vmmap_map demo_layout demo_env \<lparr>vmm_id = 1, vmm_list = demo_areas, vmm_proc = None\<rparr> None
      1035 20 {PROT_READ} {MAP_PRIVATE, MAP_FIXED} 0 VMMAP_DIR_LOHI = Some (Inr (as, a, ev)) \<and>
    view as 1040 = Some ({PROT_READ}, {MAP_PRIVATE, MAP_FIXED}, Some 30, 5)"
proof -
  let ?m = "\<lparr>vmm_id = 1, vmm_list = demo_areas, vmm_proc = None\<rparr>"
  have "good_map demo_layout (vmm_list ?m)" by simp
  moreover have "map_args_ok demo_layout 20 {PROT_READ} {MAP_PRIVATE, MAP_FIXED} 0"
    by (simp add: map_args_ok_def PAGE_ALIGNED_def)
  moreover have "low_pn demo_layout \<le> 1035" "(1035 :: u32) < 1035 + 20" "1035 + 20 \<le> high_pn demo_layout"
    by simp_all
  moreover have "backing_obj demo_env {MAP_PRIVATE, MAP_FIXED} None = Some 30"
    by (simp add: backing_obj_def demo_env_def)
  ultimately show ?thesis
    using vmmap_map_fixed [of demo_layout ?m demo_env 20 "{PROT_READ}" "{MAP_PRIVATE, MAP_FIXED}" 0 1035 None
      VMMAP_DIR_LOHI]
    by (fastforce simp: in_range_def)
qed

text \<open>
  Mapping anywhere.  With \<^verbatim>\<open>lopage\<close> zero, \<^verbatim>\<open>vmmap_map\<close> reports \<^verbatim>\<open>-ENOMEM\<close> exactly when no gap is
  large enough; otherwise it maps a range that was free and leaves every other page untouched.
\<close>

theorem vmmap_map_anywhere:
  assumes "wf_map L (vmm_list m)" and "env_ok E" and "map_args_ok L n prot flags off"
    and "0 < low_pn L" and "low_pn L \<le> high_pn L" and "unat (high_pn L) < 2 ^ 31" and "unat n < 2 ^ 31"
  shows "(\<forall>s. \<not> fits (low_pn L) (high_pn L) n (vmm_list m) s) \<and>
      vmmap_map L E m file 0 n prot flags off dir = Some (Inl ENOMEM) \<or>
    (\<exists>as a ev. vmmap_map L E m file 0 n prot flags off dir = Some (Inr (as, a, ev)) \<and> wf_map L as \<and>
      fits (low_pn L) (high_pn L) n (vmm_list m) (vma_start a) \<and>
      (\<forall>v. view as v = (if in_range (vma_start a) (vma_start a + n) v
        then Some (prot, flags, backing_obj E flags file, off + v - vma_start a) else view (vmm_list m) v)))"
proof -
  have n: "0 < n" using assms(3) by (simp add: map_args_ok_def)
  show ?thesis
  proof (cases rule: vmmap_find_range_cases [OF assms(1,5) n assms(6,7), of dir, case_names none found])
    case (none r)
    then show ?thesis using assms(3) by (simp add: vmmap_map_def map_args_ok_def)
  next
    case (found s)
    note b = fits_bounds [OF found(2) n]
    have "0 < s" using b(1) assms(4) by (simp add: less_unat le_unat)
    then have "0 < uint s" by (simp add: word_less_def)
    with map_insert_ok [OF assms(1,2) b(4,1,2,3), of off prot flags "file" "vmm_id m" "[]"] found(1,2) assms(3)
    show ?thesis by (intro disjI2) (fastforce simp: vmmap_map_def map_args_ok_def)
  qed
qed

theorem vmmap_map_anywhere_witness:
  "vmmap_map demo_layout demo_env \<lparr>vmm_id = 1, vmm_list = demo_areas, vmm_proc = None\<rparr> None
      0 5 {PROT_READ} {MAP_PRIVATE} 0 VMMAP_DIR_LOHI = Some (Inl ENOMEM) \<or>
   (\<exists>as a ev. vmmap_map demo_layout demo_env \<lparr>vmm_id = 1, vmm_list = demo_areas, vmm_proc = None\<rparr> None
      0 5 {PROT_READ} {MAP_PRIVATE} 0 VMMAP_DIR_LOHI = Some (Inr (as, a, ev)) \<and> wf_map demo_layout as \<and>
      fits 1024 786432 5 demo_areas (vma_start a))"
proof -
  let ?m = "\<lparr>vmm_id = 1, vmm_list = demo_areas, vmm_proc = None\<rparr>"
  have "wf_map demo_layout (vmm_list ?m)" using demo_good unfolding good_map_def by simp
  moreover have "map_args_ok demo_layout 5 {PROT_READ} {MAP_PRIVATE} 0"
    by (simp add: map_args_ok_def PAGE_ALIGNED_def)
  ultimately show ?thesis
    using vmmap_map_anywhere [of demo_layout ?m demo_env 5 "{PROT_READ}" "{MAP_PRIVATE}" 0 None VMMAP_DIR_LOHI]
    by fastforce
qed

text \<open>
  A shared anonymous mapping (\<^verbatim>\<open>MAP_SHARED\<close>, no file) gets no memory object: whatever the fresh area's
  memory held in \<^verbatim>\<open>vma_obj\<close> before is what backs its pages.  The comment on \<^verbatim>\<open>vmmap_map\<close> promises an
  anonymous object in this case.
\<close>

theorem vmmap_map_shared_anon_uninitialised:
  assumes "good_map L (vmm_list m)" and "env_ok E" and "map_args_ok L n prot flags off"
    and "MAP_PRIVATE \<notin> flags"
    and "lo \<noteq> 0" and "low_pn L \<le> lo" and "lo < lo + n" and "lo + n \<le> high_pn L"
    and "clear (vmm_list m) lo (lo + n)"
  shows "\<exists>as a. vmmap_map L E m None lo n prot flags off dir = Some (Inr (as, a, [])) \<and>
    vma_obj a = vma_obj (new_area E)"
proof -
  have wf: "wf_map L (vmm_list m)" using assms(1) by (simp add: good_map_def)
  from map_insert_ok [OF wf assms(2,9,6,7,8), of off prot flags None "vmm_id m" "[]"] assms(3-9) wf
  show ?thesis
    by (auto simp: vmmap_map_def map_args_ok_def vmmap_is_range_empty_iff map_object_def Let_def
        bind_eq_Some_conv)
qed

theorem vmmap_map_shared_anon_uninitialised_witness:
  "\<exists>as a. vmmap_map demo_layout (demo_env\<lparr>new_area := vmarea_alloc 20 (demo_area 666 0 0)\<rparr>)
      \<lparr>vmm_id = 1, vmm_list = demo_areas, vmm_proc = None\<rparr> None
      1040 5 {PROT_READ} {MAP_SHARED} 0 VMMAP_DIR_LOHI = Some (Inr (as, a, [])) \<and> vma_obj a = Some 666"
proof -
  let ?m = "\<lparr>vmm_id = 1, vmm_list = demo_areas, vmm_proc = None\<rparr>"
  let ?E = "demo_env\<lparr>new_area := vmarea_alloc 20 (demo_area 666 0 0)\<rparr>"
  have "good_map demo_layout (vmm_list ?m)" by simp
  moreover have "env_ok ?E" using demo_env_ok by (auto simp: env_ok_def)
  moreover have "clear (vmm_list ?m) 1040 (1040 + 5)" by (simp add: demo_areas_def demo_area_def)
  moreover have "map_args_ok demo_layout 5 {PROT_READ} {MAP_SHARED} 0"
    by (simp add: map_args_ok_def PAGE_ALIGNED_def)
  moreover have "vma_obj (new_area ?E) = Some 666" by (simp add: vmarea_alloc_def demo_area_def)
  ultimately show ?thesis
    using vmmap_map_shared_anon_uninitialised [of demo_layout ?m ?E 5 "{PROT_READ}" "{MAP_SHARED}" 0 1040
      VMMAP_DIR_LOHI] by fastforce
qed

subsection \<open>Copying\<close>

lemma read_areas_single:
  assumes "wf_areas lo hi as" and "vmmap_lookup as p = Some a" and "vma_obj a = Some obj"
    and "copy_step L a obj n (vaddr, buf, 0) p = (ck, st)"
  shows "read_areas L p (1 + p) n (vaddr, buf) as = Some [CopyOut ck]"
  using assms(1,2)
proof (induction as arbitrary: lo)
  case (Cons b bs)
  have wf: "wf_areas (vma_end b) hi bs" using Cons.prems(1) by (simp add: wf_areas_Cons)
  show ?case
  proof (cases "covers b p")
    case False
    then have lk: "vmmap_lookup bs p = Some a" using Cons.prems(2) by (auto simp: covers_def)
    then have "vma_end b \<le> p"
      using lookup_Some [OF lk] wf_areasD [OF wf, of a] by (auto simp: covers_def)
    with Cons.IH [OF wf lk] show ?thesis by simp
  next
    case True
    then have b: "b = a" "vma_start a \<le> p" "p < vma_end a"
      using Cons.prems(2) by (auto simp: covers_def)
    have suc: "unat (1 + p) = Suc (unat p)"
      using b(3) unat_lt32 [of "vma_end a"] by (simp add: less_unat unat_word_ariths)
    then have le: "1 + p \<le> vma_end a" and "p < 1 + p"
      using b(3) by (simp_all add: less_unat le_unat)
    then have "area_pages p (1 + p) a = [p]"
      using b(2) suc by (auto simp: area_pages_def pages_between_def dest: antisym)
    moreover have "read_areas L p (1 + p) n st' bs = Some []" for st'
      using wf le b(1) \<open>p < 1 + p\<close> by (cases bs) (auto simp: wf_areas_Cons wf_area_def)
    ultimately show ?thesis
      using b le \<open>p < 1 + p\<close> assms(3,4) by (cases st) auto
  qed
qed simp

text \<open>
  \<^verbatim>\<open>vmmap_read\<close> of bytes that lie in one page makes exactly one copy: from the page of the memory object
  that backs the address, at the address's offset in the page, to the start of the buffer, of the
  requested number of bytes.
\<close>

theorem vmmap_read_one_page:
  assumes "wf_map L as" and "PAGE_SHIFT L < 32" and "vmmap_lookup as (ADDR_TO_PN L vaddr) = Some a"
    and "vma_obj a = Some obj" and "unat (vaddr mod PAGE_SIZE L) + unat n < 2 ^ PAGE_SHIFT L"
  shows "vmmap_read L as vaddr buf n =
    Some [CopyOut \<lparr>ck_obj = obj, ck_page = vma_off a + ADDR_TO_PN L vaddr - vma_start a,
                   ck_pgoff = vaddr mod PAGE_SIZE L, ck_buf = buf, ck_len = n\<rparr>]"
proof -
  have "vaddr mod PAGE_SIZE L \<le> PAGE_SIZE L"
    using assms(2,5) by (simp add: le_unat unat_PAGE_SIZE)
  then have "n \<le> 0 - vaddr mod PAGE_SIZE L + PAGE_SIZE L"
    using assms(2,5) unat_sub_le [of "vaddr mod PAGE_SIZE L" "PAGE_SIZE L"]
    by (simp add: le_unat unat_PAGE_SIZE)
  then have "fst (copy_step L a obj n (vaddr, buf, 0) (ADDR_TO_PN L vaddr)) =
      \<lparr>ck_obj = obj, ck_page = vma_off a + ADDR_TO_PN L vaddr - vma_start a,
       ck_pgoff = vaddr mod PAGE_SIZE L, ck_buf = buf, ck_len = n\<rparr>"
    by (simp add: copy_step_def Let_def min_def)
  then show ?thesis
    using read_areas_single [OF assms(1,3,4), of L n vaddr buf] same_page [OF assms(2,5)]
    by (simp add: vmmap_read_def) (metis prod.collapse)
qed

theorem vmmap_read_one_page_witness:
  "vmmap_read demo_layout demo_areas 0x401010 0x9000 16 =
     Some [CopyOut \<lparr>ck_obj = 10, ck_page = 1, ck_pgoff = 16, ck_buf = 0x9000, ck_len = 16\<rparr>]"
proof -
  have pn: "ADDR_TO_PN demo_layout 0x401010 = 1025" "PAGE_SIZE demo_layout = 4096"
    by (simp_all add: ADDR_TO_PN_def PAGE_SIZE_def)
  have wf: "wf_map demo_layout demo_areas" using demo_good unfolding good_map_def by simp
  have lk: "vmmap_lookup demo_areas (ADDR_TO_PN demo_layout 0x401010) = Some (demo_area 10 1024 1040)"
    by (simp add: pn demo_areas_def demo_area_def)
  have obj: "vma_obj (demo_area 10 1024 1040) = Some 10" by (simp add: demo_area_def)
  have small: "PAGE_SHIFT demo_layout < 32" by simp
  have off: "unat ((0x401010 :: u32) mod PAGE_SIZE demo_layout) + unat (16 :: u32) < 2 ^ PAGE_SHIFT demo_layout"
    by (simp add: pn)
  from vmmap_read_one_page [OF wf small lk obj off, of "0x9000"] show ?thesis
    by (simp add: pn demo_area_def)
qed

text \<open>
  A read that spans three pages of an area puts the third page in the wrong place.  \<^verbatim>\<open>buf\<close> is advanced by the
  running total \<^verbatim>\<open>temp\<close> at every page, so page \<open>k\<close> goes to \<open>0 + 1 + ... + k\<close> pages after the start
  of the buffer: the third page lands 12288 bytes in, beyond the 12288 bytes that were asked for,
  and bytes 8192 to 12287 of the buffer are never written.
\<close>

theorem vmmap_read_three_pages_misplaced:
  "vmmap_read demo_layout demo_areas 0x400000 0 12288 =
     Some [CopyOut \<lparr>ck_obj = 10, ck_page = 0, ck_pgoff = 0, ck_buf = 0, ck_len = 4096\<rparr>,
           CopyOut \<lparr>ck_obj = 10, ck_page = 1, ck_pgoff = 0, ck_buf = 4096, ck_len = 4096\<rparr>,
           CopyOut \<lparr>ck_obj = 10, ck_page = 2, ck_pgoff = 0, ck_buf = 12288, ck_len = 4096\<rparr>,
           CopyOut \<lparr>ck_obj = 10, ck_page = 3, ck_pgoff = 0, ck_buf = 24576, ck_len = 0\<rparr>]"
proof -
  have "ADDR_TO_PN demo_layout 0x400000 = 1024" "ADDR_TO_PN demo_layout 0x403000 = 1027"
    "PAGE_SIZE demo_layout = 4096" "\<And>p. PN_TO_ADDR demo_layout p = 4096 * p"
    by (simp_all add: ADDR_TO_PN_def PAGE_SIZE_def PN_TO_ADDR_def push_bit_eq_mult)
  moreover have "pages_between 1024 1028 = [1024, 1025, 1026, 1027]"
    by (simp add: pages_between_def upt_conv_Cons)
  ultimately show ?thesis
    by (simp add: vmmap_read_def demo_areas_def demo_area_def area_pages_def copy_step_def Let_def min_def)
qed

end
