(* ===== verification/Usermem.thy ===== *)
theory Usermem
  imports Vfs Vmmap
begin

section \<open>User memory\<close>

text \<open>
  \<^verbatim>\<open>vm-submit/kernel/api/access.c\<close>, \<^verbatim>\<open>kernel/vm/mmap.c\<close>, \<^verbatim>\<open>brk.c\<close> and \<^verbatim>\<open>pagefault.c\<close>: permission checks,
  copying between kernel and user memory, the system calls that change an address space, and page
  faults.

  \<^item> The address space is the \<open>vmmap\<close> of the address-space component; files and the current process are
    those of the file-system component.
  \<^item> \<^verbatim>\<open>kmalloc\<close> results, the contents of user memory, page frames and \<^verbatim>\<open>MAX_FILES\<close> are arguments.
  \<^item> \<open>None\<close> is a failed \<^verbatim>\<open>KASSERT\<close> or a use of an uninitialised or null pointer.

  The lemmas characterise the permission checks in terms of \<open>view\<close>, show what \<^verbatim>\<open>munmap\<close> and \<^verbatim>\<open>brk\<close> do to
  the address space, that \<^verbatim>\<open>mmap\<close> returns its file references (but on one branch), and that a page
  fault maps nothing that the areas do not allow.
\<close>

subsection \<open>Access: \<^verbatim>\<open>access.c\<close>\<close>

fun addr_perm_loop :: "vmarea list \<Rightarrow> u32 \<Rightarrow> prot_flag set \<Rightarrow> bool" where
  "addr_perm_loop [] pageNo perm = False"
| "addr_perm_loop (a # as) pageNo perm =
     (if pageNo \<ge> vma_start a \<and> pageNo < vma_end a then perm \<subseteq> vma_prot a
      else addr_perm_loop as pageNo perm)"

definition addr_perm :: "layout \<Rightarrow> vmarea list \<Rightarrow> u32 \<Rightarrow> prot_flag set \<Rightarrow> bool" where
  "addr_perm L as vaddr perm = addr_perm_loop as (ADDR_TO_PN L vaddr) perm"

fun range_perm_loop :: "u32 \<Rightarrow> u32 \<Rightarrow> prot_flag set \<Rightarrow> bool \<Rightarrow> vmarea list \<Rightarrow> bool" where
  "range_perm_loop initial final perm found [] = found"
| "range_perm_loop initial final perm found (a # as) =
     (if vma_end a \<le> initial then range_perm_loop initial final perm found as
      else if vma_start a \<ge> final then found
      else if \<not> perm \<subseteq> vma_prot a then False
      else range_perm_loop initial final perm True as)"

definition range_perm :: "layout \<Rightarrow> vmarea list \<Rightarrow> u32 \<Rightarrow> u32 \<Rightarrow> prot_flag set \<Rightarrow> bool" where
  "range_perm L as avaddr len perm =
     range_perm_loop (ADDR_TO_PN L avaddr) (ADDR_TO_PN L (avaddr + len) + 1) perm False as"

definition copy_from_user :: "layout \<Rightarrow> vmarea list \<Rightarrow> u32 \<Rightarrow> u32 \<Rightarrow> u32 \<Rightarrow> (errno + mem_event list) option" where
  "copy_from_user L as kaddr uaddr nbytes =
     (if \<not> range_perm L as uaddr nbytes {PROT_READ} then Some (Inl EFAULT)
      else map_option Inr (vmmap_read L as uaddr kaddr nbytes))"

definition copy_to_user :: "layout \<Rightarrow> vmarea list \<Rightarrow> u32 \<Rightarrow> u32 \<Rightarrow> u32 \<Rightarrow> (errno + mem_event list) option" where
  "copy_to_user L as uaddr kaddr nbytes =
     (if \<not> range_perm L as uaddr nbytes {PROT_WRITE} then Some (Inl EFAULT)
      else map_option Inr (vmmap_write L as uaddr kaddr nbytes))"

text \<open>
  Copying strings: kernel allocations and copies in order.  A string argument is its user address and
  its length; \<open>Inl\<close> is the value stored in \<^verbatim>\<open>kt_errno\<close> when the result is \<^verbatim>\<open>NULL\<close>.
\<close>

datatype kmem_event = KMalloc u32 | KFree u32 | UserCopy "mem_event list"

definition user_strdup :: "layout \<Rightarrow> vmarea list \<Rightarrow> u32 option \<Rightarrow> u32 \<times> u32 \<Rightarrow> ((errno + u32) \<times> kmem_event list) option" where
  "user_strdup L as alloc ustr = (case alloc of
     None \<Rightarrow> Some (Inl ENOMEM, [])
   | Some kstr \<Rightarrow> do {
       r \<leftarrow> copy_from_user L as kstr (fst ustr) (snd ustr + 1);
       Some (case r of Inl e \<Rightarrow> (Inl e, [KMalloc kstr, KFree kstr])
             | Inr ev \<Rightarrow> (Inr kstr, [KMalloc kstr, UserCopy ev])) })"

text \<open>The loop over the strings: the pointers stored in \<^verbatim>\<open>kvec\<close> so far, and the error that ended it.\<close>

fun vecdup_loop :: "layout \<Rightarrow> vmarea list \<Rightarrow> (nat \<Rightarrow> u32 option) \<Rightarrow> nat \<Rightarrow> (u32 \<times> u32) list
    \<Rightarrow> (errno option \<times> u32 list \<times> kmem_event list) option" where
  "vecdup_loop L as allocs i [] = Some (None, [], [])"
| "vecdup_loop L as allocs i (u # us) = do {
     (r, ev) \<leftarrow> user_strdup L as (allocs i) u;
     case r of
       Inl e \<Rightarrow> Some (Some e, [], ev)
     | Inr k \<Rightarrow> do {
         (res, ks, ev') \<leftarrow> vecdup_loop L as allocs (i + 1) us;
         Some (res, k # ks, ev @ ev') } }"

text \<open>
  \<^verbatim>\<open>user_vecdup\<close>: \<open>strs\<close> are the \<^verbatim>\<open>av_len\<close> strings that the copied vector holds, \<open>allocs\<close> the results of
  \<^verbatim>\<open>kmalloc\<close> for their copies.  When the copy of the vector fails,
  the clean-up loop reads \<^verbatim>\<open>kvec\<close>, which is not initialised: \<open>None\<close>.
\<close>

definition user_vecdup :: "layout \<Rightarrow> vmarea list \<Rightarrow> u32 \<Rightarrow> u32 \<Rightarrow> u32 option \<Rightarrow> u32 option \<Rightarrow> (nat \<Rightarrow> u32 option)
    \<Rightarrow> u32 \<Rightarrow> u32 \<Rightarrow> (u32 \<times> u32) list \<Rightarrow> ((errno + u32 \<times> u32 list) \<times> kmem_event list) option" where
  "user_vecdup L as sizeof_argstr null alloc1 alloc2 allocs av_vec av_len strs = (case alloc1 of
     None \<Rightarrow> Some (Inl ENOMEM, [KFree null])
   | Some temp_kvec \<Rightarrow> (case alloc2 of
       None \<Rightarrow> Some (Inl ENOMEM, [KMalloc temp_kvec, KFree temp_kvec])
     | Some kvec \<Rightarrow> do {
         r \<leftarrow> copy_from_user L as temp_kvec av_vec ((av_len + 1) * sizeof_argstr);
         case r of
           Inl e \<Rightarrow> None
         | Inr ev \<Rightarrow> do {
             (res, ks, ev') \<leftarrow> vecdup_loop L as allocs 0 strs;
             let evs = [KMalloc temp_kvec, KMalloc kvec, UserCopy ev] @ ev';
             Some (case res of
                None \<Rightarrow> (Inr (kvec, ks), evs @ [KFree temp_kvec])
              | Some e \<Rightarrow> (Inl e, evs @ map KFree ks @ [KFree kvec, KFree temp_kvec])) } }))"

subsection \<open>Mapping: \<^verbatim>\<open>mmap.c\<close>\<close>

datatype mm_event = Vm vm_event | TlbFlushRange u32 u32 | TlbFlushAll

definition round_len :: "layout \<Rightarrow> u32 \<Rightarrow> u32" where
  "round_len L len = (if PAGE_ALIGNED L len then len else PN_TO_ADDR L (ADDR_TO_PN L len + 1))"

text \<open>The address of a mapping: the given one, or what \<^verbatim>\<open>vmmap_find_range\<close> returns.\<close>

definition mmap_address :: "layout \<Rightarrow> vmmap \<Rightarrow> map_flag set \<Rightarrow> u32 \<Rightarrow> u32 \<Rightarrow> (errno + u32) option" where
  "mmap_address L m flags addr len =
     (if MAP_FIXED \<notin> flags then do {
        retVal \<leftarrow> vmmap_find_range L (vmm_list m) (ADDR_TO_PN L len) VMMAP_DIR_LOHI;
        Some (if retVal < 0 then Inl EINVAL
              else if ADDR_TO_PN L len = 0 then Inl EINVAL
              else Inr (PN_TO_ADDR L (word_of_int retVal))) }
      else Some (if addr + len > USER_MEM_HIGH L \<or> addr > USER_MEM_HIGH L \<or> addr < USER_MEM_LOW L then Inl EINVAL
                 else if \<not> PAGE_ALIGNED L addr then Inl EINVAL
                 else Inr addr))"

text \<open>
  The checks on the file of a mapping: the file that stays referenced (\<open>None\<close> for an anonymous mapping) or
  the error.
\<close>

definition mmap_file :: "layout \<Rightarrow> fs_config \<Rightarrow> 'fs vfs_env \<Rightarrow> int \<Rightarrow> prot_flag set \<Rightarrow> map_flag set \<Rightarrow> int \<Rightarrow> u32 \<Rightarrow> u32 \<Rightarrow> 'fs vfs
    \<Rightarrow> ((errno + file_ptr option) \<times> 'fs vfs) option" where
  "mmap_file L C E max_files prot flags fd off len st =
     (if fd > max_files \<or> fd < 0 then
        Some (if MAP_ANON \<notin> flags then Inl EBADF else Inr None, st)
      else if MAP_ANON \<in> flags then Some (Inr None, st)
      else case fget E fd (vproc st) of
        None \<Rightarrow> Some (Inl EBADF, st)
      | Some p \<Rightarrow> do {
          let st1 = emit (FGet p) st;
          let mode = f_mode (open_files st1 p);
          if of_nat (NFILES C) < ADDR_TO_PN L len + ADDR_TO_PN L off then Some (Inl EOVERFLOW, st1)
          else if mode = {FMODE_APPEND} \<and> PROT_WRITE \<in> prot then Some (Inl EACCES, emit (FPut p) st1)
          else if MAP_PRIVATE \<in> flags \<and> FMODE_READ \<notin> mode then Some (Inl EACCES, emit (FPut p) st1)
          else do {
            v \<leftarrow> f_vnode (open_files st1 p);
            if \<not> (vn_mode E v (fs_state st1) = S_IFCHR \<or> vn_mode E v (fs_state st1) = S_IFREG)
            then Some (Inl EACCES, emit (FPut p) st1)
            else if MAP_SHARED \<in> flags \<and> PROT_WRITE \<in> prot \<and> (FMODE_WRITE \<notin> mode \<or> FMODE_READ \<notin> mode)
            then Some (Inl EACCES, emit (FPut p) st1)
            else if \<not> vn_has E v V_mmap then Some (Inl ENODEV, emit (FPut p) st1)
            else Some (Inr (Some p), st1) } })"

text \<open>\<^verbatim>\<open>do_mmap\<close>: after an error of \<^verbatim>\<open>vmmap_map\<close> the code reads \<^verbatim>\<open>vmArea\<close>, which is then not set.\<close>

definition do_mmap :: "layout \<Rightarrow> fs_config \<Rightarrow> 'fs vfs_env \<Rightarrow> map_env \<Rightarrow> int \<Rightarrow> u32 \<Rightarrow> u32 \<Rightarrow> prot_flag set \<Rightarrow> map_flag set
    \<Rightarrow> int \<Rightarrow> u32 \<Rightarrow> vmmap \<Rightarrow> 'fs vfs \<Rightarrow> ((errno + u32) \<times> vmmap \<times> 'fs vfs \<times> mm_event list) option" where
  "do_mmap L C E M max_files addr len0 prot flags fd off m st =
     (if \<not> PAGE_ALIGNED L off then Some (Inl EINVAL, m, st, [])
      else if \<not> flags \<subseteq> {MAP_ANON, MAP_FIXED, MAP_PRIVATE, MAP_SHARED} then Some (Inl ENOTSUP, m, st, [])
      else (let len = round_len L len0 in
        if len = 0 then Some (Inl EINVAL, m, st, [])
        else if (MAP_SHARED \<in> flags) = (MAP_PRIVATE \<in> flags) then Some (Inl EINVAL, m, st, [])
        else do {
          place \<leftarrow> mmap_address L m flags addr len;
          case place of
            Inl e \<Rightarrow> Some (Inl e, m, st, [])
          | Inr a \<Rightarrow> do {
              (r, st1) \<leftarrow> mmap_file L C E max_files prot flags fd off len st;
              case r of
                Inl e \<Rightarrow> Some (Inl e, m, st1, [])
              | Inr f \<Rightarrow> do {
                  node \<leftarrow> (case f of None \<Rightarrow> Some None | Some p \<Rightarrow> map_option Some (f_vnode (open_files st1 p)));
                  res \<leftarrow> vmmap_map L M m node (ADDR_TO_PN L a) (ADDR_TO_PN L len) prot flags off VMMAP_DIR_LOHI;
                  case res of
                    Inl e \<Rightarrow> None
                  | Inr (as, vmArea, ev) \<Rightarrow> do {
                      kassert (p_pagedir (vproc st1) \<noteq> 0);
                      let st2 = (case f of None \<Rightarrow> st1 | Some p \<Rightarrow> emit (FPut p) st1);
                      Some (Inr (PN_TO_ADDR L (vma_start vmArea)), m\<lparr>vmm_list := as\<rparr>, st2,
                            map Vm ev @ [TlbFlushRange a len]) } } } }))"

definition do_munmap :: "layout \<Rightarrow> map_env \<Rightarrow> u32 \<Rightarrow> u32 \<Rightarrow> vmmap \<Rightarrow> 'fs vfs \<Rightarrow> ((errno + unit) \<times> vmmap \<times> mm_event list) option" where
  "do_munmap L M addr len0 m st =
     (if \<not> PAGE_ALIGNED L addr then Some (Inl EINVAL, m, [])
      else (let len = round_len L len0 in
        if len = 0 then Some (Inl EINVAL, m, [])
        else if addr + len > USER_MEM_HIGH L \<or> addr > USER_MEM_HIGH L \<or> addr < USER_MEM_LOW L then Some (Inl EINVAL, m, [])
        else do {
          (as, b, ev) \<leftarrow> vmmap_remove L (vmm_id m) (vmm_list m) (ADDR_TO_PN L addr) (ADDR_TO_PN L len)
            (split_area M) (stale_area M);
          kassert (p_pagedir (vproc st) \<noteq> 0);
          Some (Inr (), m\<lparr>vmm_list := as\<rparr>, map Vm ev @ [TlbFlushAll]) }))"

subsection \<open>The break: \<^verbatim>\<open>brk.c\<close>\<close>

text \<open>Setting \<^verbatim>\<open>vma_end\<close> of the area that \<^verbatim>\<open>vmmap_lookup\<close> finds.\<close>

fun set_area_end :: "vmarea list \<Rightarrow> u32 \<Rightarrow> u32 \<Rightarrow> vmarea list" where
  "set_area_end [] vfn e = []"
| "set_area_end (a # as) vfn e =
     (if vma_start a \<le> vfn \<and> vma_end a > vfn then a\<lparr>vma_end := e\<rparr> # as else a # set_area_end as vfn e)"

definition set_brk :: "u32 \<Rightarrow> 'fs vfs \<Rightarrow> 'fs vfs" where
  "set_brk addr st = st\<lparr>vproc := (vproc st)\<lparr>p_brk := addr\<rparr>\<rparr>"

definition do_brk :: "layout \<Rightarrow> fs_config \<Rightarrow> 'fs vfs_env \<Rightarrow> map_env \<Rightarrow> int \<Rightarrow> u32 \<Rightarrow> vmmap \<Rightarrow> 'fs vfs
    \<Rightarrow> ((errno + u32) \<times> vmmap \<times> 'fs vfs \<times> mm_event list) option" where
  "do_brk L C E M max_files addr m st =
     (if addr = 0 then Some (Inr (p_brk (vproc st)), m, st, [])
      else if p_start_brk (vproc st) > addr then Some (Inl ENOMEM, m, st, [])
      else if USER_MEM_HIGH L < addr then Some (Inl ENOMEM, m, st, [])
      else (let finalbrkPg = ADDR_TO_PN L addr; initialbrkPg = ADDR_TO_PN L (p_start_brk (vproc st)) in
        if vmmap_lookup (vmm_list m) initialbrkPg = None then do {
          (r, m1, st1, ev) \<leftarrow> do_mmap L C E M max_files (PN_TO_ADDR L initialbrkPg) (PN_TO_ADDR L (finalbrkPg - initialbrkPg))
            {PROT_READ, PROT_WRITE} {MAP_PRIVATE, MAP_ANON} (- 1) 0 m st;
          case r of
            Inl e \<Rightarrow> Some (Inl e, m1, st1, ev)
          | Inr _ \<Rightarrow> Some (Inr addr, m1, set_brk addr st1, ev) }
        else (let uintInitPg = ADDR_TO_PN L (p_brk (vproc st)) in
          if uintInitPg = finalbrkPg then Some (Inr addr, m, set_brk addr st, [])
          else if uintInitPg < finalbrkPg then do {
            a \<leftarrow> vmmap_lookup (vmm_list m) uintInitPg;
            free \<leftarrow> vmmap_is_range_empty L (vmm_list m) (vma_end a) (1 + finalbrkPg - vma_end a);
            if \<not> free then Some (Inl ENOMEM, m, st, [])
            else Some (Inr addr, m\<lparr>vmm_list := set_area_end (vmm_list m) uintInitPg (1 + finalbrkPg)\<rparr>, set_brk addr st, []) }
          else do {
            (as, b, ev) \<leftarrow> vmmap_remove L (vmm_id m) (vmm_list m) (finalbrkPg + 1) (uintInitPg - finalbrkPg)
              (split_area M) (stale_area M);
            Some (Inr addr, m\<lparr>vmm_list := as\<rparr>, set_brk addr st, map Vm ev) })))"

subsection \<open>Page faults: \<^verbatim>\<open>pagefault.c\<close>\<close>

datatype fault = FAULT_PRESENT | FAULT_WRITE | FAULT_EXEC | FAULT_RESERVED | FAULT_OTHER nat

datatype pt_flag = PT_PRESENT | PT_USER | PT_WRITE

datatype fault_result = Killed kswitched | Pt_map nat u32 u32 "pt_flag set"

definition access_right :: "fault set \<Rightarrow> prot_flag set" where
  "access_right cause = (if FAULT_WRITE \<in> cause then {PROT_WRITE} else {})
     \<union> (if FAULT_EXEC \<in> cause then {PROT_EXEC} else {})
     \<union> (if FAULT_PRESENT \<in> cause then {PROT_READ} else {})"

text \<open>Killing the process: the status is \<^verbatim>\<open>EFAULT\<close> (\<open>code\<close>), the thread's return value its address.\<close>

definition kill_faulting :: "interrupt list \<Rightarrow> int \<Rightarrow> int \<Rightarrow> kernel \<Rightarrow> fault_result option" where
  "kill_faulting is code status_addr k = do {
     k1 \<leftarrow> upd_proc (kcur k) (\<lambda>pr. pr\<lparr>p_status := code\<rparr>) k;
     map_option Killed (kthread_exit is status_addr k1) }"

text \<open>
  \<open>shadowed\<close> tells whether an object has \<^verbatim>\<open>mmo_shadowed\<close>; \<open>frame\<close> gives the address of the page frame that
  \<^verbatim>\<open>pframe_get\<close> or \<^verbatim>\<open>lookuppage\<close> finds (the result code is not looked at); \<open>phys\<close> is
  \<^verbatim>\<open>pt_virt_to_phys\<close>.
\<close>

definition handle_pagefault :: "layout \<Rightarrow> interrupt list \<Rightarrow> int \<Rightarrow> int \<Rightarrow> vmarea list \<Rightarrow> (objid \<Rightarrow> bool)
    \<Rightarrow> (bool \<Rightarrow> objid \<Rightarrow> u32 \<Rightarrow> bool \<Rightarrow> u32 option) \<Rightarrow> (u32 \<Rightarrow> u32) \<Rightarrow> u32 \<Rightarrow> fault set \<Rightarrow> kernel \<Rightarrow> fault_result option" where
  "handle_pagefault L is code status_addr as shadowed frame phys vaddr cause k =
     (case vmmap_lookup as (ADDR_TO_PN L vaddr) of
        None \<Rightarrow> kill_faulting is code status_addr k
      | Some area \<Rightarrow>
          if \<not> addr_perm L as vaddr (access_right cause) then kill_faulting is code status_addr k
          else do {
            obj \<leftarrow> vma_obj area;
            let pagenum = vma_off area + ADDR_TO_PN L vaddr - vma_start area;
            pf \<leftarrow> frame (shadowed obj) obj pagenum (shadowed obj \<and> FAULT_WRITE \<in> cause);
            c \<leftarrow> procs k (kcur k);
            Some (Pt_map (p_pagedir c) (PN_TO_ADDR L (ADDR_TO_PN L vaddr)) (phys pf)
              ({PT_PRESENT, PT_USER} \<union> (if FAULT_WRITE \<in> cause then {PT_WRITE} else {}))) })"

text \<open>The protection of a page, if it is mapped.\<close>

definition page_prot :: "vmarea list \<Rightarrow> u32 \<Rightarrow> prot_flag set option" where
  "page_prot as v = map_option fst (view as v)"

text \<open>The heap: one area from the page of the initial break to the page of the break.\<close>

definition heap_area :: "layout \<Rightarrow> proc \<Rightarrow> vmarea list \<Rightarrow> vmarea \<Rightarrow> bool" where
  "heap_area L p as a \<longleftrightarrow> a \<in> set as \<and> covers a (ADDR_TO_PN L (p_start_brk p)) \<and> vma_end a = ADDR_TO_PN L (p_brk p) + 1
     \<and> ADDR_TO_PN L (p_start_brk p) \<le> ADDR_TO_PN L (p_brk p)"

text \<open>A process whose heap is the second area of \<open>demo_areas\<close>.\<close>

definition demo_brk_vfs :: "demo_fs vfs" where
  "demo_brk_vfs = demo_vfs\<lparr>vproc := (vproc demo_vfs)\<lparr>p_start_brk := 0x41A000, p_brk := 0x423800\<rparr>\<rparr>"

subsection \<open>What a process may access\<close>

lemma page_prot_iff:
  "wf_areas lo hi as \<Longrightarrow> page_prot as v = Some p \<longleftrightarrow> (\<exists>a\<in>set as. covers a v \<and> vma_prot a = p)"
  by (auto simp: page_prot_def view_def page_of_def lookup_iff)

lemma addr_perm_loop_view: "addr_perm_loop as v perm \<longleftrightarrow> (\<exists>p. page_prot as v = Some p \<and> perm \<subseteq> p)"
  by (induction as) (auto simp: page_prot_def covers_def page_of_def)

lemma range_perm_loop_areas:
  assumes "wf_areas lo hi as"
  shows "range_perm_loop i f perm found as \<longleftrightarrow>
    (\<forall>a\<in>set as. vma_end a \<le> i \<or> f \<le> vma_start a \<or> perm \<subseteq> vma_prot a) \<and> (found \<or> \<not> clear as i f)"
  using assms
proof (induction as arbitrary: lo found)
  case (Cons a as)
  have wf: "vma_start a < vma_end a" "wf_areas (vma_end a) hi as"
    using Cons.prems by (auto simp: wf_areas_Cons wf_area_def)
  note IH = Cons.IH [OF wf(2)]
  show ?case
  proof (cases "\<not> vma_end a \<le> i \<and> f \<le> vma_start a")
    case True
    have "f \<le> vma_start b" if "b \<in> set as" for b
      using wf_areasD [OF wf(2) that] wf(1) True by (meson order.trans less_imp_le)
    then show ?thesis using True by (auto simp: clear_def)
  next
    case False
    then show ?thesis using IH by auto
  qed
qed (simp add: clear_def)

lemma unat_pn_bound: "0 < PAGE_SHIFT L \<Longrightarrow> unat (ADDR_TO_PN L a) < 2 ^ 31"
proof -
  assume s: "0 < PAGE_SHIFT L"
  have "(2 :: nat) ^ 1 \<le> 2 ^ PAGE_SHIFT L" using s by (intro power_increasing) simp_all
  then have "unat a div 2 ^ PAGE_SHIFT L \<le> unat a div 2" by (intro div_le_mono2) simp_all
  also have "\<dots> < 2 ^ 31" using unat_lt32 [of a] by simp
  finally show ?thesis by (simp add: unat_ADDR_TO_PN)
qed

lemma pn_mono: "a \<le> b \<Longrightarrow> ADDR_TO_PN L a \<le> ADDR_TO_PN L b"
  by (simp add: le_unat unat_ADDR_TO_PN div_le_mono)

lemma pn_range_nonempty:
  assumes "0 < PAGE_SHIFT L" and "a \<le> b"
  shows "ADDR_TO_PN L a < ADDR_TO_PN L b + 1"
proof -
  have "unat (ADDR_TO_PN L b + 1) = unat (ADDR_TO_PN L b) + 1"
    using unat_pn_bound [OF assms(1), of b] by (subst unat_add_le) simp_all
  then show ?thesis using pn_mono [OF assms(2), of L] by (simp add: less_unat le_unat)
qed

text \<open>C22: Permission checks.  \<^verbatim>\<open>addr_perm\<close> is exact: it holds just when the page is mapped with at least
  the permissions asked for.  \<^verbatim>\<open>range_perm\<close> is not: it holds just when some page of the range is mapped
  and every mapped page of it has the permissions, so that a range with unmapped holes passes, although
  the comment asks for the entire range.\<close>

theorem permission_checks:
  assumes wf: "wf_map L as" and shift: "0 < PAGE_SHIFT L" and nowrap: "a \<le> a + n"
  shows "(addr_perm L as a perm \<longleftrightarrow> (\<exists>p. page_prot as (ADDR_TO_PN L a) = Some p \<and> perm \<subseteq> p))
    \<and> (range_perm L as a n perm \<longleftrightarrow>
        (\<exists>v. in_range (ADDR_TO_PN L a) (ADDR_TO_PN L (a + n) + 1) v \<and> page_prot as v \<noteq> None)
        \<and> (\<forall>v p. in_range (ADDR_TO_PN L a) (ADDR_TO_PN L (a + n) + 1) v \<and> page_prot as v = Some p \<longrightarrow> perm \<subseteq> p))"
proof
  show "addr_perm L as a perm \<longleftrightarrow> (\<exists>p. page_prot as (ADDR_TO_PN L a) = Some p \<and> perm \<subseteq> p)"
    by (simp add: addr_perm_def addr_perm_loop_view)
  let ?i = "ADDR_TO_PN L a" and ?f = "ADDR_TO_PN L (a + n) + 1"
  have lt: "?i < ?f" by (rule pn_range_nonempty [OF shift nowrap])
  have ov: "(vma_end b \<le> ?i \<or> ?f \<le> vma_start b) \<longleftrightarrow> (\<forall>v. in_range ?i ?f v \<longrightarrow> \<not> covers b v)" if "b \<in> set as" for b
    using overlap_covers [OF lt] wf_areasD [OF wf that] by blast
  have "range_perm L as a n perm \<longleftrightarrow> \<not> clear as ?i ?f
      \<and> (\<forall>b\<in>set as. (vma_end b \<le> ?i \<or> ?f \<le> vma_start b) \<or> perm \<subseteq> vma_prot b)"
    unfolding range_perm_def range_perm_loop_areas [OF wf] by blast
  also have "(\<not> clear as ?i ?f) \<longleftrightarrow> (\<exists>v. in_range ?i ?f v \<and> page_prot as v \<noteq> None)"
    unfolding free_range_clear [OF wf lt, symmetric] free_range_def by (auto simp: page_prot_def)
  also have "(\<forall>b\<in>set as. (vma_end b \<le> ?i \<or> ?f \<le> vma_start b) \<or> perm \<subseteq> vma_prot b)
      \<longleftrightarrow> (\<forall>b\<in>set as. (\<forall>v. in_range ?i ?f v \<longrightarrow> \<not> covers b v) \<or> perm \<subseteq> vma_prot b)"
    by (intro ball_cong refl disj_cong ov)
  also have "\<dots> \<longleftrightarrow> (\<forall>v p. in_range ?i ?f v \<and> page_prot as v = Some p \<longrightarrow> perm \<subseteq> p)"
    unfolding page_prot_iff [OF wf] by blast
  finally show "range_perm L as a n perm \<longleftrightarrow> (\<exists>v. in_range ?i ?f v \<and> page_prot as v \<noteq> None)
        \<and> (\<forall>v p. in_range ?i ?f v \<and> page_prot as v = Some p \<longrightarrow> perm \<subseteq> p)" .
qed

theorem permission_checks_witness:
  "range_perm demo_layout demo_areas 0x40F000 0xC000 {PROT_READ} \<and> page_prot demo_areas 1045 = None
    \<and> (\<exists>v. in_range (ADDR_TO_PN demo_layout 0x40F000) (ADDR_TO_PN demo_layout (0x40F000 + 0xC000) + 1) v
         \<and> page_prot demo_areas v \<noteq> None)"
proof -
  have r: "range_perm demo_layout demo_areas 0x40F000 0xC000 {PROT_READ}" "page_prot demo_areas 1045 = None"
    by code_simp+
  have "wf_map demo_layout demo_areas" using demo_good by (simp add: good_map_def)
  moreover have "0 < PAGE_SHIFT demo_layout" "(0x40F000 :: u32) \<le> 0x40F000 + 0xC000" by (simp_all add: demo_layout_def)
  ultimately show ?thesis 
    using permission_checks [where L = demo_layout and as = demo_areas and a = "0x40F000" and n = "0xC000" and perm = "{PROT_READ}"] r
    by blast
qed

subsection \<open>Unmapping\<close>

lemma aligned_pages:
  assumes "PAGE_SHIFT L < 32" and "PAGE_ALIGNED L len" and "len \<noteq> 0"
  shows "0 < ADDR_TO_PN L len" and "unat len = unat (ADDR_TO_PN L len) * 2 ^ PAGE_SHIFT L"
proof -
  have "take_bit (PAGE_SHIFT L) (unat len) = 0"
    using assms(1,2) by (simp add: PAGE_ALIGNED_def unsigned_take_bit_eq [symmetric])
  then have "unat len mod 2 ^ PAGE_SHIFT L = 0" by (simp add: take_bit_eq_mod)
  then show eq: "unat len = unat (ADDR_TO_PN L len) * 2 ^ PAGE_SHIFT L"
    unfolding unat_ADDR_TO_PN by (metis add.right_neutral div_mult_mod_eq)
  have "unat len \<noteq> 0" using assms(3) by (simp add: unat_eq_0)
  with eq show "0 < ADDR_TO_PN L len" by (metis mult_zero_left unat_0 word_gt_0)
qed

lemma round_len_aligned:
  assumes "PAGE_SHIFT L < 32"
  shows "PAGE_ALIGNED L (round_len L len)"
proof -
  have "PAGE_ALIGNED L (push_bit (PAGE_SHIFT L) w)" for w :: u32
    by (simp add: PAGE_ALIGNED_def bit_eq_iff bit_take_bit_iff bit_push_bit_iff)
  then show ?thesis by (simp add: round_len_def PN_TO_ADDR_def)
qed

lemma pages_no_wrap:
  assumes "0 < PAGE_SHIFT L" and "0 < ADDR_TO_PN L len"
  shows "ADDR_TO_PN L a < ADDR_TO_PN L a + ADDR_TO_PN L len"
proof -
  have "unat (ADDR_TO_PN L a + ADDR_TO_PN L len) = unat (ADDR_TO_PN L a) + unat (ADDR_TO_PN L len)"
    using unat_pn_bound [OF assms(1), of a] unat_pn_bound [OF assms(1), of len] by (intro unat_add_le) simp
  moreover have "0 < unat (ADDR_TO_PN L len)" using assms(2) by (simp add: less_unat)
  ultimately show ?thesis by (simp add: less_unat)
qed

lemma env_split: "env_ok M \<Longrightarrow> vma_vmmap (split_area M) = None"
  by (auto simp: env_ok_def vmarea_alloc_def)

text \<open>C23: \<^verbatim>\<open>munmap\<close>.  With an address that is not aligned or an empty or out-of-range region the call reports
  -EINVAL and the address space is as before.  Otherwise exactly the pages of the region, its length
  rounded up to whole pages, are unmapped, every other page keeps its mapping, the references of the
  memory objects are balanced, and the whole TLB is flushed.\<close>

theorem do_munmap_correct:
  assumes good: "good_map L (vmm_list m)" and env: "env_ok M" and shift: "0 < PAGE_SHIFT L" "PAGE_SHIFT L < 32"
    and pd: "p_pagedir (vproc st) \<noteq> 0"
  shows "let len = round_len L len0; lo = ADDR_TO_PN L addr; n = ADDR_TO_PN L len in
    if \<not> PAGE_ALIGNED L addr \<or> len = 0 \<or> addr + len > USER_MEM_HIGH L \<or> addr > USER_MEM_HIGH L \<or> addr < USER_MEM_LOW L
    then do_munmap L M addr len0 m st = Some (Inl EINVAL, m, [])
    else \<exists>m' ev. do_munmap L M addr len0 m st = Some (Inr (), m', map Vm ev @ [TlbFlushAll]) \<and> good_map L (vmm_list m')
      \<and> (\<forall>v. view (vmm_list m') v = (if in_range lo (lo + n) v then None else view (vmm_list m) v))
      \<and> (\<forall>x. users x (vmm_list m') = users x (vmm_list m) + ref_delta x ev)"
proof -
  let ?len = "round_len L len0" and ?lo = "ADDR_TO_PN L addr" and ?n = "ADDR_TO_PN L (round_len L len0)"
  let ?bad = "\<not> PAGE_ALIGNED L addr \<or> ?len = 0 \<or> addr + ?len > USER_MEM_HIGH L \<or> addr > USER_MEM_HIGH L \<or> addr < USER_MEM_LOW L"
  show ?thesis
  proof (cases ?bad)
    case True
    then have "do_munmap L M addr len0 m st = Some (Inl EINVAL, m, [])" by (auto simp: do_munmap_def Let_def)
    then show ?thesis unfolding Let_def by (simp only: if_P [OF True])
  next
    case False
    have "?lo < ?lo + ?n"
      using aligned_pages(1) [OF shift(2) round_len_aligned [OF shift(2)]] False pages_no_wrap [OF shift(1)] by blast
    moreover obtain i junk where sp: "split_area M = vmarea_alloc i junk" using env by (auto simp: env_ok_def)
    ultimately obtain as' ev where u: "unmap_areas L (vmm_id m) (split_area M) (stale_area M) (vmm_list m) ?lo ?n = Some (as', ev)"
      and r: "good_map L as'" "\<forall>v. view as' v = (if in_range ?lo (?lo + ?n) v then None else view (vmm_list m) v)"
        "\<forall>x. users x as' = users x (vmm_list m) + ref_delta x ev"
      using vmm.unmap_ok [OF good, of ?lo ?n "vmm_id m" i junk "stale_area M"] unfolding sp by blast
    obtain b where "vmmap_remove L (vmm_id m) (vmm_list m) ?lo ?n (split_area M) (stale_area M) = Some (as', b, ev)"
      using u by (auto simp: unmap_areas_def)
    then have "do_munmap L M addr len0 m st = Some (Inr (), m\<lparr>vmm_list := as'\<rparr>, map Vm ev @ [TlbFlushAll])"
      using False pd by (auto simp: do_munmap_def Let_def)
    with r show ?thesis unfolding Let_def by (subst if_not_P [OF False]) (auto intro!: exI [of _ "m\<lparr>vmm_list := as'\<rparr>"] exI [of _ ev])
  qed
qed

theorem do_munmap_correct_witness:
  "\<exists>m' ev. do_munmap demo_layout demo_env 0x408000 0x1800 \<lparr>vmm_id = 1, vmm_list = demo_areas, vmm_proc = None\<rparr> demo_vfs
      = Some (Inr (), m', map Vm ev @ [TlbFlushAll])
    \<and> view (vmm_list m') 1033 = None \<and> view (vmm_list m') 1034 = view demo_areas 1034"
proof -
  let ?m = "\<lparr>vmm_id = 1, vmm_list = demo_areas, vmm_proc = None\<rparr>"
  have r: "round_len demo_layout 0x1800 = 0x2000" by code_simp
  have ok: "\<not> (\<not> PAGE_ALIGNED demo_layout 0x408000 \<or> round_len demo_layout 0x1800 = 0
      \<or> 0x408000 + round_len demo_layout 0x1800 > USER_MEM_HIGH demo_layout
      \<or> 0x408000 > USER_MEM_HIGH demo_layout \<or> 0x408000 < USER_MEM_LOW demo_layout)" unfolding r by code_simp
  have pn: "ADDR_TO_PN demo_layout 0x408000 = 1032" "ADDR_TO_PN demo_layout 0x2000 = 2" by code_simp+
  have "good_map demo_layout (vmm_list ?m)" "0 < PAGE_SHIFT demo_layout" "PAGE_SHIFT demo_layout < 32"
    "p_pagedir (vproc demo_vfs) \<noteq> 0" by (simp_all add: demo_vfs_def demo_proc_def)
  from do_munmap_correct [OF this(1) demo_env_ok this(2-4), of "0x1800" "0x408000", unfolded Let_def if_not_P [OF ok], unfolded r pn]
  show ?thesis by (auto simp: in_range_def)
qed

subsection \<open>Mapping\<close>

text \<open>The four ways in which the checks on the file end.\<close>

lemma mmap_file_cases:
  assumes "mmap_file L C E max_files prot flags fd off len st = Some (r, st1)"
  shows "st1 = st \<and> (r = Inl EBADF \<or> r = Inr None)
    \<or> (\<exists>p. fget E fd (vproc st) = Some p
        \<and> (st1 = emit (FGet p) st \<and> r = Inl EOVERFLOW
          \<or> st1 = emit (FPut p) (emit (FGet p) st) \<and> (r = Inl EACCES \<or> r = Inl ENODEV)
          \<or> st1 = emit (FGet p) st \<and> r = Inr (Some p) \<and> f_vnode (open_files st p) \<noteq> None))"
proof (cases "fd > max_files \<or> fd < 0 \<or> MAP_ANON \<in> flags \<or> fget E fd (vproc st) = None")
  case True
  then show ?thesis using assms unfolding mmap_file_def by (simp split: if_splits)
next
  case False
  then obtain p where p: "fget E fd (vproc st) = Some p" by blast
  with False show ?thesis
    using assms unfolding mmap_file_def Let_def by (cases "f_vnode (open_files st p)") (simp_all split: if_splits)
qed

lemma mmap_file_frame:
  assumes "mmap_file L C E max_files prot flags fd off len st = Some (r, st1)"
  shows "open_files st1 = open_files st" and "vproc st1 = vproc st"
    and "r \<noteq> Inl EOVERFLOW \<Longrightarrow> frefs st1 q = frefs st q + (case r of Inr (Some p) \<Rightarrow> of_bool (p = q) | _ \<Rightarrow> 0)"
    and "r = Inl EOVERFLOW \<Longrightarrow> \<exists>p. fget E fd (vproc st) = Some p \<and> frefs st1 p = frefs st p + 1"
    and "r = Inr (Some p) \<Longrightarrow> f_vnode (open_files st p) \<noteq> None"
  using mmap_file_cases [OF assms] by (auto simp: ledger)

lemma pn_addr_aligned: "PAGE_ALIGNED L a \<Longrightarrow> PN_TO_ADDR L (ADDR_TO_PN L a) = a"
  unfolding PN_TO_ADDR_def ADDR_TO_PN_def PAGE_ALIGNED_def
  by (metis add.right_neutral bits_ident)

lemma pn_add_le:
  assumes "PAGE_SHIFT L < 32" and "PAGE_ALIGNED L a" and "PAGE_ALIGNED L n" and "unat a + unat n \<le> unat h"
    and "a \<noteq> 0" and "n \<noteq> 0" and "0 < PAGE_SHIFT L"
  shows "ADDR_TO_PN L a + ADDR_TO_PN L n \<le> ADDR_TO_PN L h"
proof -
  let ?p = "2 ^ PAGE_SHIFT L :: nat"
  have "(unat (ADDR_TO_PN L a) + unat (ADDR_TO_PN L n)) * ?p \<le> unat h"
    using assms aligned_pages(2) [OF assms(1)] by (simp add: add_mult_distrib)
  then have "unat (ADDR_TO_PN L a) + unat (ADDR_TO_PN L n) \<le> unat h div ?p"
    by (simp add: less_eq_div_iff_mult_less_eq)
  moreover have "unat (ADDR_TO_PN L a + ADDR_TO_PN L n) = unat (ADDR_TO_PN L a) + unat (ADDR_TO_PN L n)"
    using unat_pn_bound [OF assms(7), of a] unat_pn_bound [OF assms(7), of n] by (intro unat_add_le) simp
  ultimately show ?thesis by (simp add: le_unat unat_ADDR_TO_PN)
qed

text \<open>C24: \<^verbatim>\<open>mmap\<close> at a fixed address.  When the flags, the alignment and the range are valid, the checks on
  the file pass and the mapping is not shared and anonymous, the call returns the address; the pages of the range, its
  length rounded up, show the object of the mapping with the requested protection, replacing what was there, every other page
  is as before, and the file reference that was taken has been given back.  The object's pages are counted from the offset as it was
  given: it is in bytes but kept as a page number, so that the pages are the right ones for the offset 0 only.\<close>

theorem do_mmap_fixed_correct:
  assumes good: "good_map L (vmm_list m)" and env: "env_ok M" and shift: "0 < PAGE_SHIFT L" "PAGE_SHIFT L < 32"
    and low: "0 < low_pn L" and pd: "p_pagedir (vproc st) \<noteq> 0"
    and flags: "MAP_FIXED \<in> flags" "flags \<subseteq> {MAP_ANON, MAP_FIXED, MAP_PRIVATE, MAP_SHARED}"
      "(MAP_SHARED \<in> flags) \<noteq> (MAP_PRIVATE \<in> flags)" "\<not> {MAP_SHARED, MAP_ANON} \<subseteq> flags"
    and prot: "prot \<subseteq> {PROT_READ, PROT_WRITE, PROT_EXEC}"
    and aligned: "PAGE_ALIGNED L off" "PAGE_ALIGNED L addr"
    and range: "round_len L len0 \<noteq> 0" "USER_MEM_LOW L \<le> addr" "unat addr + unat (round_len L len0) \<le> unat (USER_MEM_HIGH L)"
    and mfile: "mmap_file L C E max_files prot flags fd off (round_len L len0) st = Some (Inr f, st1)"
  shows "\<exists>m' st' ev node. do_mmap L C E M max_files addr len0 prot flags fd off m st = Some (Inr addr, m', st', ev)
    \<and> node = (case f of None \<Rightarrow> None | Some p \<Rightarrow> f_vnode (open_files st p)) \<and> wf_map L (vmm_list m')
    \<and> (let lo = ADDR_TO_PN L addr; n = ADDR_TO_PN L (round_len L len0) in
        \<forall>v. view (vmm_list m') v = (if in_range lo (lo + n) v then Some (prot, flags, backing_obj M flags node, off + v - lo)
          else view (vmm_list m) v))
    \<and> (\<forall>p. frefs st' p = frefs st p)"
proof -
  let ?len = "round_len L len0" and ?lo = "ADDR_TO_PN L addr" and ?n = "ADDR_TO_PN L (round_len L len0)"
  let ?node = "case f of None \<Rightarrow> None | Some p \<Rightarrow> f_vnode (open_files st p)"
  have al: "PAGE_ALIGNED L ?len" by (rule round_len_aligned [OF shift(2)])
  have npos: "0 < ?n" by (rule aligned_pages(1) [OF shift(2) al range(1)])
  have nz: "addr \<noteq> 0" using range(2) low by (auto simp: ADDR_TO_PN_def)
  have lo: "low_pn L \<le> ?lo" "?lo \<noteq> 0" using pn_mono [OF range(2), of L] low by auto
  have hi: "?lo + ?n \<le> high_pn L" by (rule pn_add_le [OF shift(2) aligned(2) al range(3) nz range(1) shift(1)])
  have args: "map_args_ok L ?n prot flags off" using npos prot flags(3) aligned(1) by (auto simp: map_args_ok_def)
  obtain as a ev where m: "vmmap_map L M m ?node ?lo ?n prot flags off VMMAP_DIR_LOHI = Some (Inr (as, a, ev))"
    "wf_map L as" "vma_start a = ?lo"
    "\<forall>v. view as v = (if in_range ?lo (?lo + ?n) v then Some (prot, flags, backing_obj M flags ?node, off + v - ?lo)
      else view (vmm_list m) v)"
    using vmmap_map_fixed_ok [OF good env args lo(2,1) pages_no_wrap [OF shift(1) npos] hi] by blast
  have "unat (addr + ?len) = unat addr + unat ?len" using range(3) unat_lt32 [of "USER_MEM_HIGH L"] by (intro unat_add_le) simp
  then have place: "mmap_address L m flags addr ?len = Some (Inr addr)"
    using range flags(1) aligned(2) by (auto simp: mmap_address_def less_unat le_unat)
  note mf = mmap_file_frame [OF mfile]
  have "do_mmap L C E M max_files addr len0 prot flags fd off m st = Some (Inr addr, m\<lparr>vmm_list := as\<rparr>,
      (case f of None \<Rightarrow> st1 | Some p \<Rightarrow> emit (FPut p) st1), map Vm ev @ [TlbFlushRange addr ?len])"
    using mf(1,2,5) m(1,3) place mfile aligned flags range(1) pd pn_addr_aligned [OF aligned(2)]
    by (cases f) (auto simp: do_mmap_def Let_def)
  moreover have "frefs (case f of None \<Rightarrow> st1 | Some p \<Rightarrow> emit (FPut p) st1) q = frefs st q" for q
    using mf(3) by (auto simp: ledger split: option.split)
  ultimately show ?thesis using m(2,4) by (simp add: Let_def)
qed

text \<open>A failing \<^verbatim>\<open>mmap\<close> changes nothing: the address space, the open files and the process are as before,
  nothing is flushed, and every file reference has been given back; except when the call reports
  -EOVERFLOW, where the reference that \<^verbatim>\<open>fget\<close> took on the file is kept for good.\<close>

theorem do_mmap_failures:
  assumes "do_mmap L C E M max_files addr len0 prot flags fd off m st = Some (Inl e, m', st', ev)"
  shows "m' = m \<and> ev = [] \<and> open_files st' = open_files st \<and> vproc st' = vproc st
    \<and> (if e = EOVERFLOW then \<exists>p. fget E fd (vproc st) = Some p \<and> frefs st' p = frefs st p + 1
       else \<forall>p. frefs st' p = frefs st p)"
proof (cases "mmap_file L C E max_files prot flags fd off (round_len L len0) st")
  case None
  then show ?thesis
    using assms by (auto simp: do_mmap_def Let_def mmap_address_def split: if_splits Option.bind_splits sum.splits option.splits)
next
  case (Some x)
  obtain r st1 where x: "mmap_file L C E max_files prot flags fd off (round_len L len0) st = Some (r, st1)"
    using Some by (cases x) auto
  note mf = mmap_file_frame [OF x]
  have "(m', st', ev) = (m, st, []) \<and> e \<noteq> EOVERFLOW \<or> (m', st', ev) = (m, st1, []) \<and> r = Inl e"
    using assms x
    by (auto simp: do_mmap_def Let_def mmap_address_def split: if_splits Option.bind_splits sum.splits option.splits)
  then show ?thesis
  proof
    assume h: "(m', st', ev) = (m, st1, []) \<and> r = Inl e"
    then show ?thesis using mf(1,2,3,4) by (cases "e = EOVERFLOW") simp_all
  qed simp
qed

theorem do_mmap_fixed_correct_witness:
  "(\<exists>m' st' ev. do_mmap demo_layout demo_fs_config demo_vfs_env demo_env 100 0x410000 0x1800 {PROT_READ}
      {MAP_FIXED, MAP_PRIVATE, MAP_ANON} (- 1) 0 \<lparr>vmm_id = 1, vmm_list = demo_areas, vmm_proc = None\<rparr> demo_vfs
      = Some (Inr 0x410000, m', st', ev)
    \<and> view (vmm_list m') 1041 = Some ({PROT_READ}, {MAP_FIXED, MAP_PRIVATE, MAP_ANON}, Some 30, 1))
   \<and> (\<exists>m' st' ev. do_mmap demo_layout demo_fs_config demo_vfs_env demo_env 100 0x410000 0x1800 {PROT_READ}
      {MAP_FIXED, MAP_PRIVATE, MAP_ANON} (- 1) 0x1000 \<lparr>vmm_id = 1, vmm_list = demo_areas, vmm_proc = None\<rparr> demo_vfs
      = Some (Inr 0x410000, m', st', ev)
    \<and> view (vmm_list m') 1041 = Some ({PROT_READ}, {MAP_FIXED, MAP_PRIVATE, MAP_ANON}, Some 30, 0x1001))"
proof -
  let ?m = "\<lparr>vmm_id = 1, vmm_list = demo_areas, vmm_proc = None\<rparr>" and ?fl = "{MAP_FIXED, MAP_PRIVATE, MAP_ANON}"
  have r: "round_len demo_layout 0x1800 = 0x2000" by code_simp
  have pn: "ADDR_TO_PN demo_layout 0x410000 = 1040" "ADDR_TO_PN demo_layout 0x2000 = 2" by code_simp+
  have al: "PAGE_ALIGNED demo_layout 0" "PAGE_ALIGNED demo_layout 0x1000" "PAGE_ALIGNED demo_layout 0x410000" by code_simp+
  have mf: "mmap_file demo_layout demo_fs_config demo_vfs_env 100 {PROT_READ} ?fl (- 1) off (round_len demo_layout 0x1800) demo_vfs
      = Some (Inr None, demo_vfs)" for off by (simp add: mmap_file_def)
  have "good_map demo_layout (vmm_list ?m)" "0 < PAGE_SHIFT demo_layout" "PAGE_SHIFT demo_layout < 32" "0 < low_pn demo_layout"
    "p_pagedir (vproc demo_vfs) \<noteq> 0" "MAP_FIXED \<in> ?fl" "?fl \<subseteq> {MAP_ANON, MAP_FIXED, MAP_PRIVATE, MAP_SHARED}"
    "(MAP_SHARED \<in> ?fl) \<noteq> (MAP_PRIVATE \<in> ?fl)" "\<not> {MAP_SHARED, MAP_ANON} \<subseteq> ?fl" "{PROT_READ} \<subseteq> {PROT_READ, PROT_WRITE, PROT_EXEC}"
    by (simp_all add: demo_vfs_def demo_proc_def)
  note hyp = this
  have range: "round_len demo_layout 0x1800 \<noteq> 0" "USER_MEM_LOW demo_layout \<le> 0x410000"
    "unat (0x410000 :: u32) + unat (round_len demo_layout 0x1800) \<le> unat (USER_MEM_HIGH demo_layout)"
    unfolding r by (simp_all add: demo_layout_def)
  show ?thesis
    using do_mmap_fixed_correct [OF hyp(1) demo_env_ok hyp(2-10) al(1,3) range mf]
      do_mmap_fixed_correct [OF hyp(1) demo_env_ok hyp(2-10) al(2,3) range mf]
    unfolding r pn Let_def by (fastforce simp: in_range_def backing_obj_def demo_env_def)
qed

theorem do_mmap_failures_witness:
  "\<exists>m' st' ev. do_mmap demo_layout demo_fs_config demo_vfs_env demo_env 100 0x410000 0x4000 {PROT_READ}
      {MAP_FIXED, MAP_SHARED} 0 0 \<lparr>vmm_id = 1, vmm_list = demo_areas, vmm_proc = None\<rparr> demo_vfs
      = Some (Inl EOVERFLOW, m', st', ev) \<and> frefs st' 7 = frefs demo_vfs 7 + 1"
proof -
  have al: "PAGE_ALIGNED demo_layout 0" "PAGE_ALIGNED demo_layout 0x410000" by code_simp+
  have r: "round_len demo_layout 0x4000 = 0x4000" "ADDR_TO_PN demo_layout 0x4000 = 4" "ADDR_TO_PN demo_layout 0 = 0" by code_simp+
  have mem: "USER_MEM_HIGH demo_layout = 0xc0000000" "USER_MEM_LOW demo_layout = 0x400000" by (simp_all add: demo_layout_def)
  have get: "fget demo_vfs_env 0 (vproc demo_vfs) = Some 7" by (simp add: demo_vfs_env_def demo_vfs_def)
  obtain m' st' ev where run: "do_mmap demo_layout demo_fs_config demo_vfs_env demo_env 100 0x410000 0x4000 {PROT_READ}
      {MAP_FIXED, MAP_SHARED} 0 0 \<lparr>vmm_id = 1, vmm_list = demo_areas, vmm_proc = None\<rparr> demo_vfs
      = Some (Inl EOVERFLOW, m', st', ev)"
    using al get mem by (simp add: do_mmap_def mmap_address_def mmap_file_def r demo_fs_config_def)
  from do_mmap_failures [OF run] get run show ?thesis by auto
qed

text \<open>
  A fixed mapping whose end wraps around the address space passes the range check of \<^verbatim>\<open>do_mmap\<close>, since
  the sum is small, and fails an assertion in \<^verbatim>\<open>vmmap_map\<close>: a user process can halt the kernel.
\<close>

theorem mmap_wrap_around_panics:
  "do_mmap demo_layout demo_fs_config demo_vfs_env demo_env 100 0x400000 0xFFFFF000 {PROT_READ}
     {MAP_FIXED, MAP_PRIVATE, MAP_ANON} (- 1) 0 \<lparr>vmm_id = 1, vmm_list = demo_areas, vmm_proc = None\<rparr> demo_vfs = None"
proof -
  have al: "PAGE_ALIGNED demo_layout 0" "PAGE_ALIGNED demo_layout 0x400000" by code_simp+
  have r: "round_len demo_layout 0xFFFFF000 = 0xFFFFF000" "ADDR_TO_PN demo_layout 0xFFFFF000 = 0xFFFFF"
    "ADDR_TO_PN demo_layout 0x400000 = 1024" "high_pn demo_layout = 0xC0000" "low_pn demo_layout = 1024" by code_simp+
  have place: "mmap_address demo_layout \<lparr>vmm_id = 1, vmm_list = demo_areas, vmm_proc = None\<rparr> {MAP_FIXED, MAP_PRIVATE, MAP_ANON}
      0x400000 0xFFFFF000 = Some (Inr 0x400000)"
    using al by (simp add: mmap_address_def) (simp add: demo_layout_def)
  have "vmmap_map demo_layout demo_env m None 1024 0xFFFFF prot flags off dir = None" for m prot flags off dir
    using r(4,5) by (simp add: vmmap_map_def Option.bind_eq_None_conv kassert_def)
  then show ?thesis using place al by (simp add: do_mmap_def mmap_file_def r)
qed

subsection \<open>The break\<close>

lemma set_area_end_spec:
  assumes "wf_areas lo hi as" and "vmmap_lookup as v0 = Some a" and "vma_end a \<le> e" and "e \<le> hi"
    and "clear as (vma_end a) e"
  shows "wf_areas lo hi (set_area_end as v0 e)"
    and "view (set_area_end as v0 e) v = (if in_range (vma_end a) e v then Some (page_of a v) else view as v)"
    and "a\<lparr>vma_end := e\<rparr> \<in> set (set_area_end as v0 e)"
    and "b \<in> set (set_area_end as v0 e) \<Longrightarrow> \<exists>c\<in>set as. vma_obj b = vma_obj c"
proof -
  have "wf_areas lo hi (set_area_end as v0 e)
    \<and> (\<forall>v. view (set_area_end as v0 e) v = (if in_range (vma_end a) e v then Some (page_of a v) else view as v))
    \<and> a\<lparr>vma_end := e\<rparr> \<in> set (set_area_end as v0 e) \<and> (\<forall>b\<in>set (set_area_end as v0 e). \<exists>c\<in>set as. vma_obj b = vma_obj c)"
    using assms
  proof (induction as arbitrary: lo)
    case (Cons x xs)
    have x: "lo \<le> vma_start x" "vma_start x < vma_end x" "wf_areas (vma_end x) hi xs"
      using Cons.prems(1) by (auto simp: wf_areas_Cons wf_area_def)
    show ?case
    proof (cases "vma_start x \<le> v0 \<and> v0 < vma_end x")
      case True
      then have a: "a = x" using Cons.prems(2) by simp
      have after: "e \<le> vma_start b" if "b \<in> set xs" for b
        using Cons.prems(5) that wf_areasD [OF x(3) that] unfolding a by (auto simp: clear_def)
      have "wf_areas e hi xs" using x(3) after by (auto simp: wf_areas_def wf_area_def)
      moreover have "view xs v = None" if "in_range (vma_end a) e v" for v
        using that unfolding view_None_iff by (auto simp: covers_def in_range_def dest!: after)
      ultimately show ?thesis
        using True x Cons.prems(3,4) a by (auto simp: wf_areas_Cons wf_area_def covers_def page_of_def in_range_def)
    next
      case False
      then have l: "vmmap_lookup xs v0 = Some a" using Cons.prems(2) by auto
      have ne: "\<not> covers x v" if "in_range (vma_end a) e v" for v
      proof -
        have "vma_end x \<le> vma_start a" "vma_start a < vma_end a"
          using lookup_Some [OF l] wf_areasD [OF x(3)] by auto
        then show ?thesis using that by (auto simp: in_range_def covers_def)
      qed
      from Cons.IH [OF x(3) l Cons.prems(3,4)] Cons.prems(1,5) False ne show ?thesis
        by (auto simp: wf_areas_Cons)
    qed
  qed simp
  then show "wf_areas lo hi (set_area_end as v0 e)"
    and "view (set_area_end as v0 e) v = (if in_range (vma_end a) e v then Some (page_of a v) else view as v)"
    and "a\<lparr>vma_end := e\<rparr> \<in> set (set_area_end as v0 e)"
    and "b \<in> set (set_area_end as v0 e) \<Longrightarrow> \<exists>c\<in>set as. vma_obj b = vma_obj c" by auto
qed

lemma pn_succ: "0 < PAGE_SHIFT L \<Longrightarrow> unat (ADDR_TO_PN L a + 1) = unat (ADDR_TO_PN L a) + 1"
  using unat_pn_bound [of L a] by (subst unat_add_le) simp_all

text \<open>C25: Moving the break.  The heap is one area that reaches from the page of the initial break to the
  page of the current break.  For an address between the initial break and the end of user memory,
  lowering the break unmaps exactly the pages above its new page; raising it extends the area over
  exactly the pages up to the new one, backed by the following pages of its object, when they are free,
  and otherwise reports -ENOMEM and changes nothing.  After a success the break is the given address, and
  the map is well formed and the heap one such area again.  The page of an address that is page aligned begins at the address and
  holds no byte below it: for such a break the code maps one page more than it has to, and refuses the break at the start of the
  next mapping, which the comment of \<^verbatim>\<open>do_brk\<close> allows.\<close>

theorem do_brk_correct:
  assumes good: "good_map L (vmm_list m)" and env: "env_ok M" and shift: "0 < PAGE_SHIFT L"
    and heap: "heap_area L (vproc st) (vmm_list m) a"
    and addr: "addr \<noteq> 0" "p_start_brk (vproc st) \<le> addr" "addr \<le> USER_MEM_HIGH L" "ADDR_TO_PN L addr < high_pn L"
  shows "let old = ADDR_TO_PN L (p_brk (vproc st)) + 1; new = ADDR_TO_PN L addr + 1 in
    if old < new \<and> \<not> clear (vmm_list m) old new then do_brk L C E M max_files addr m st = Some (Inl ENOMEM, m, st, [])
    else \<exists>m' ev b. do_brk L C E M max_files addr m st = Some (Inr addr, m', set_brk addr st, ev)
      \<and> good_map L (vmm_list m') \<and> heap_area L (vproc (set_brk addr st)) (vmm_list m') b
      \<and> (\<forall>v. view (vmm_list m') v = (if in_range new old v then None
            else if in_range old new v then Some (page_of a v) else view (vmm_list m) v))"
proof -
  let ?as = "vmm_list m" and ?s = "ADDR_TO_PN L (p_start_brk (vproc st))" and ?b = "ADDR_TO_PN L (p_brk (vproc st))"
    and ?f = "ADDR_TO_PN L addr"
  have wf: "wf_map L ?as" and objs: "\<forall>a\<in>set ?as. vma_obj a \<noteq> None" using good by (auto simp: good_map_def)
  have a: "a \<in> set ?as" "covers a ?s" "vma_end a = ?b + 1" "?s \<le> ?b" using heap by (auto simp: heap_area_def)
  have ub: "unat (?b + 1) = unat ?b + 1" "unat (?f + 1) = unat ?f + 1" using pn_succ [OF shift] by auto
  have sf: "?s \<le> ?f" by (rule pn_mono [OF addr(2)])
  have start: "vma_start a \<le> ?s" "low_pn L \<le> vma_start a" "?b + 1 \<le> high_pn L"
    using wf_areasD [OF wf a(1)] a by (auto simp: covers_def)
  have look: "vmmap_lookup ?as ?s = Some a" "vmmap_lookup ?as ?b = Some a"
    using a start ub unfolding lookup_iff [OF wf] by (auto simp: covers_def less_unat le_unat)
  have rest: "\<not> p_start_brk (vproc st) > addr" "\<not> USER_MEM_HIGH L < addr" using addr(2,3) by auto
  have hb: "heap_area L (vproc (set_brk addr st)) as' b"
    if "b \<in> set as'" "vma_start b = vma_start a" "vma_end b = ?f + 1" for as' b
    using that start(1) sf ub by (auto simp: heap_area_def set_brk_def covers_def less_unat le_unat)
  have fr: "vmmap_is_range_empty L ?as (?b + 1) (?f + 1 - (?b + 1)) = Some (clear ?as (?b + 1) (?f + 1))" if "?b < ?f"
  proof -
    have sum: "?b + 1 + (?f + 1 - (?b + 1)) = ?f + 1" by simp
    have "?b + 1 < ?f + 1" "low_pn L \<le> ?b + 1" "?f + 1 \<le> high_pn L"
      using that ub start(1,2) a(4) addr(4) by (auto simp: less_unat le_unat)
    then show ?thesis using vmmap_is_range_empty_iff [OF wf, of "?b + 1" "?f + 1 - (?b + 1)", unfolded sum] by blast
  qed
  consider "?b = ?f" | "?b < ?f" "\<not> clear ?as (?b + 1) (?f + 1)" | "?b < ?f" "clear ?as (?b + 1) (?f + 1)" | "?f < ?b" by fastforce
  then show ?thesis
  proof cases
    case 1
    then have "do_brk L C E M max_files addr m st = Some (Inr addr, m, set_brk addr st, [])"
      using addr(1) rest look by (simp add: do_brk_def Let_def)
    with good hb [OF a(1) refl] a(3) 1 show ?thesis by (auto simp: Let_def in_range_def)
  next
    case 2
    then have "do_brk L C E M max_files addr m st = Some (Inl ENOMEM, m, st, [])"
      using addr(1) rest look a(3) fr [OF 2(1)] 2 by (simp add: do_brk_def Let_def add.commute)
    then show ?thesis using 2 ub by (auto simp: Let_def less_unat)
  next
    case 3
    have run: "do_brk L C E M max_files addr m st
        = Some (Inr addr, m\<lparr>vmm_list := set_area_end ?as ?b (?f + 1)\<rparr>, set_brk addr st, [])"
      using addr(1) rest look a(3) 3 fr [OF 3(1)] by (simp add: do_brk_def Let_def add.commute)
    have le: "vma_end a \<le> ?f + 1" "?f + 1 \<le> high_pn L" "clear ?as (vma_end a) (?f + 1)"
      using 3 a(3) ub addr(4) by (auto simp: less_unat le_unat)
    note sp = set_area_end_spec [OF wf look(2) le]
    have "good_map L (set_area_end ?as ?b (?f + 1))" using sp(1,4) objs by (fastforce simp: good_map_def)
    moreover have "\<not> in_range (?f + 1) (?b + 1) v" for v using 3(1) ub by (auto simp: in_range_def less_unat le_unat)
    ultimately show ?thesis using run hb [OF sp(3)] sp(2) a(3) 3
      by (auto simp: Let_def intro!: exI [of _ "m\<lparr>vmm_list := set_area_end ?as ?b (?f + 1)\<rparr>"]
          exI [of _ "a\<lparr>vma_end := ?f + 1\<rparr>"])
  next
    case 4
    have n: "?f + 1 + (?b - ?f) = ?b + 1" by simp
    have lt: "?f + 1 < ?f + 1 + (?b - ?f)" unfolding n using 4 ub by (simp add: less_unat)
    obtain bc where tr: "vmmap_remove L (vmm_id m) ?as (?f + 1) (?b - ?f) (split_area M) (stale_area M) =
        Some (concat (map (trim_area (vmm_id m) (split_area M) (?f + 1) (?f + 1 + (?b - ?f))) ?as), bc,
          concat (map (trim_events (split_area M) (?f + 1) (?f + 1 + (?b - ?f))) ?as))"
      (is "_ = Some (?as', bc, ?ev)")
      using vmmap_remove_trim [OF wf lt objs env_split [OF env]] .
    obtain as' b ev where sp: "vmmap_remove L (vmm_id m) ?as (?f + 1) (?b - ?f) (split_area M) (stale_area M) = Some (as', b, ev)"
      "wf_map L as'" "\<And>v. view as' v = (if in_range (?f + 1) (?f + 1 + (?b - ?f)) v then None else view ?as v)"
      by (rule vmmap_remove_spec [OF wf lt objs env_split [OF env], of "vmm_id m" "stale_area M"]) (rule that)
    have as': "as' = ?as'" using sp(1) tr by simp
    have "good_map L as'" using sp(2) objs trim_area_obj unfolding as' good_map_def by fastforce
    moreover have "trim_area (vmm_id m) (split_area M) (?f + 1) (?f + 1 + (?b - ?f)) a = [a\<lparr>vma_end := ?f + 1\<rparr>]"
      unfolding n trim_area_def using a(3) start(1) sf 4 ub by (auto simp: less_unat le_unat)
    then have "a\<lparr>vma_end := ?f + 1\<rparr> \<in> set as'" unfolding as' using a(1) by (auto simp: Bex_def intro: exI [of _ a])
    moreover have "do_brk L C E M max_files addr m st = Some (Inr addr, m\<lparr>vmm_list := as'\<rparr>, set_brk addr st, map Vm ev)"
      using addr(1) rest look 4 sp(1) by (auto simp: do_brk_def Let_def)
    moreover have "\<not> in_range (?b + 1) (?f + 1) v" for v using 4 ub by (auto simp: in_range_def less_unat le_unat)
    moreover have "\<not> ?b + 1 < ?f + 1" using 4 ub by (auto simp: less_unat)
    ultimately show ?thesis using hb [of "a\<lparr>vma_end := ?f + 1\<rparr>" as'] sp(3) unfolding n
      by (auto simp: Let_def intro!: exI [of _ "m\<lparr>vmm_list := as'\<rparr>"] exI [of _ "a\<lparr>vma_end := ?f + 1\<rparr>"])
  qed
qed

theorem do_brk_correct_witness:
  "\<exists>m' ev. do_brk demo_layout demo_fs_config demo_vfs_env demo_env 100 0x425000
      \<lparr>vmm_id = 1, vmm_list = demo_areas, vmm_proc = None\<rparr> demo_brk_vfs = Some (Inr 0x425000, m', set_brk 0x425000 demo_brk_vfs, ev)
    \<and> view (vmm_list m') 1061 = Some (page_of (demo_area 11 1050 1060) 1061)"
proof -
  let ?m = "\<lparr>vmm_id = 1, vmm_list = demo_areas, vmm_proc = None\<rparr>"
  have p: "p_start_brk (vproc demo_brk_vfs) = 0x41A000" "p_brk (vproc demo_brk_vfs) = 0x423800" by (simp_all add: demo_brk_vfs_def)
  have pn: "ADDR_TO_PN demo_layout 0x41A000 = 1050" "ADDR_TO_PN demo_layout 0x423800 = 1059" "ADDR_TO_PN demo_layout 0x425000 = 1061"
    by code_simp+
  have good: "good_map demo_layout (vmm_list ?m)" "0 < PAGE_SHIFT demo_layout" by simp_all
  have heap: "heap_area demo_layout (vproc demo_brk_vfs) (vmm_list ?m) (demo_area 11 1050 1060)"
    by (simp add: heap_area_def p pn demo_areas_def demo_area_def covers_def)
  have addr: "(0x425000 :: u32) \<noteq> 0" "p_start_brk (vproc demo_brk_vfs) \<le> 0x425000" "0x425000 \<le> USER_MEM_HIGH demo_layout"
    "ADDR_TO_PN demo_layout 0x425000 < high_pn demo_layout"
    by (simp_all add: p pn) (simp add: demo_layout_def)
  have "clear demo_areas 1060 1062" by (simp add: demo_areas_def demo_area_def)
  then have ok: "\<not> (ADDR_TO_PN demo_layout (p_brk (vproc demo_brk_vfs)) + 1 < ADDR_TO_PN demo_layout 0x425000 + 1
      \<and> \<not> clear (vmm_list ?m) (ADDR_TO_PN demo_layout (p_brk (vproc demo_brk_vfs)) + 1) (ADDR_TO_PN demo_layout 0x425000 + 1))"
    by (simp add: p pn)
  from do_brk_correct [OF good(1) demo_env_ok good(2) heap addr, unfolded Let_def if_not_P [OF ok]] show ?thesis
    by (fastforce simp: p pn in_range_def)
qed

subsection \<open>Page faults\<close>

lemma kill_faulting_effect:
  assumes kill: "kill_faulting is code status_addr k = Some res" and inv: "tree_inv (tree_of k)"
    and i: "initproc k = Some i" "i \<noteq> kcur k"
  shows "\<exists>k' c. (\<exists>is'. res = Killed (KRunning k' is') \<or> res = Killed (KHalted k'))
    \<and> procs k' (kcur k) = Some c \<and> p_status c = code \<and> p_state c = PROC_DEAD"
proof -
  obtain c0 s1 k2 r where c0: "procs k (kcur k) = Some c0"
    and cl: "proc_cleanup status_addr (k\<lparr>procs := (procs k)(kcur k \<mapsto> c0\<lparr>p_status := code\<rparr>), ksched := s1\<rparr>) = Some k2"
    and s1: "upd_thread (curthr (ksched k)) (\<lambda>thr. thr\<lparr>kt_retval := status_addr, kt_state := KT_EXITED\<rparr>) (ksched k) = Some s1"
    and res: "res = Killed (lift_switch k2 r)"
    using kill by (auto simp: kill_faulting_def upd_proc_def kthread_exit_def proc_thread_exited_def Let_def
        split: Option.bind_splits)
  let ?k1 = "k\<lparr>procs := (procs k)(kcur k \<mapsto> c0\<lparr>p_status := code\<rparr>), ksched := s1\<rparr>"
  have cur: "kcur ?k1 = kcur k" using s1 by (auto simp: upd_thread_def split: Option.bind_splits)
  have "tree_of ?k1 = tree_of k" using c0 by (auto simp: tree_of_def node_of_def fun_eq_iff)
  then have "tree_inv (tree_of ?k1)" using inv by simp
  from proc_cleanup_effect [OF cl this, of i] i cur
  obtain c where c: "procs ?k1 (kcur k) = Some c" "procs k2 (kcur k) = Some (c\<lparr>p_children := [], p_state := PROC_DEAD\<rparr>)" by auto
  have "c = c0\<lparr>p_status := code\<rparr>" using c(1) by simp
  moreover have "\<exists>k'. (\<exists>is'. res = Killed (KRunning k' is') \<or> res = Killed (KHalted k')) \<and> procs k' = procs k2"
    unfolding res lift_switch_def by (cases r) auto
  ultimately show ?thesis using c(2) by fastforce
qed

text \<open>C26: Page faults.  The handler maps the faulting page just when it lies in an area that has \<^verbatim>\<open>PROT_WRITE\<close> if the access was a write,
  \<^verbatim>\<open>PROT_EXEC\<close> if it was an instruction fetch, and \<^verbatim>\<open>PROT_READ\<close> if the page was present; it takes the frame that holds
  the right page of the area's object, and maps it writable only for a write.  In every other case the process is killed:
  when the handler is done the process is dead with status \<^verbatim>\<open>EFAULT\<close>.  A read of a page that is not present thus needs
  no right at all and succeeds in an area without \<^verbatim>\<open>PROT_READ\<close>, against the comment, which asks for the permission to do what
  caused the fault.\<close>

theorem handle_pagefault_correct:
  assumes good: "good_map L as" and frames: "\<And>s x n w. frame s x n w \<noteq> None" and c: "procs k (kcur k) = Some c"
    and inv: "tree_inv (tree_of k)" and i: "initproc k = Some i" "i \<noteq> kcur k"
  shows "(\<forall>prot fl obj n. view as (ADDR_TO_PN L vaddr) = Some (prot, fl, Some obj, n) \<longrightarrow>
      handle_pagefault L is code sa as shadowed frame phys vaddr cause k =
        (if (FAULT_WRITE \<in> cause \<longrightarrow> PROT_WRITE \<in> prot) \<and> (FAULT_EXEC \<in> cause \<longrightarrow> PROT_EXEC \<in> prot) \<and> (FAULT_PRESENT \<in> cause \<longrightarrow> PROT_READ \<in> prot)
         then Some (Pt_map (p_pagedir c) (PN_TO_ADDR L (ADDR_TO_PN L vaddr))
           (phys (the (frame (shadowed obj) obj n (shadowed obj \<and> FAULT_WRITE \<in> cause))))
           ({PT_PRESENT, PT_USER} \<union> (if FAULT_WRITE \<in> cause then {PT_WRITE} else {})))
         else kill_faulting is code sa k))
    \<and> (view as (ADDR_TO_PN L vaddr) = None \<longrightarrow>
      handle_pagefault L is code sa as shadowed frame phys vaddr cause k = kill_faulting is code sa k)
    \<and> (\<forall>res. kill_faulting is code sa k = Some res \<longrightarrow>
      (\<exists>k' c. (\<exists>is'. res = Killed (KRunning k' is') \<or> res = Killed (KHalted k'))
        \<and> procs k' (kcur k) = Some c \<and> p_status c = code \<and> p_state c = PROC_DEAD))"
proof (intro conjI allI impI)
  let ?v = "ADDR_TO_PN L vaddr"
  fix prot fl obj n
  assume h: "view as ?v = Some (prot, fl, Some obj, n)"
  then obtain a where a: "vmmap_lookup as ?v = Some a" "vma_prot a = prot" "vma_obj a = Some obj" "n = vma_off a + ?v - vma_start a"
    by (auto simp: view_def page_of_def)
  obtain pf where pf: "frame (shadowed obj) obj n (shadowed obj \<and> FAULT_WRITE \<in> cause) = Some pf" using frames by blast
  have perm: "addr_perm L as vaddr (access_right cause) \<longleftrightarrow> (FAULT_WRITE \<in> cause \<longrightarrow> PROT_WRITE \<in> prot)
      \<and> (FAULT_EXEC \<in> cause \<longrightarrow> PROT_EXEC \<in> prot) \<and> (FAULT_PRESENT \<in> cause \<longrightarrow> PROT_READ \<in> prot)"
    using h by (auto simp: addr_perm_def addr_perm_loop_view page_prot_def access_right_def)
  show "handle_pagefault L is code sa as shadowed frame phys vaddr cause k =
        (if (FAULT_WRITE \<in> cause \<longrightarrow> PROT_WRITE \<in> prot) \<and> (FAULT_EXEC \<in> cause \<longrightarrow> PROT_EXEC \<in> prot) \<and> (FAULT_PRESENT \<in> cause \<longrightarrow> PROT_READ \<in> prot)
         then Some (Pt_map (p_pagedir c) (PN_TO_ADDR L ?v)
           (phys (the (frame (shadowed obj) obj n (shadowed obj \<and> FAULT_WRITE \<in> cause))))
           ({PT_PRESENT, PT_USER} \<union> (if FAULT_WRITE \<in> cause then {PT_WRITE} else {})))
         else kill_faulting is code sa k)"
    unfolding perm [symmetric] using a c pf by (simp add: handle_pagefault_def Let_def)
next
  assume "view as (ADDR_TO_PN L vaddr) = None"
  then show "handle_pagefault L is code sa as shadowed frame phys vaddr cause k = kill_faulting is code sa k"
    by (simp add: handle_pagefault_def view_def)
next
  fix res
  assume "kill_faulting is code sa k = Some res"
  from kill_faulting_effect [OF this inv i]
  show "\<exists>k' c. (\<exists>is'. res = Killed (KRunning k' is') \<or> res = Killed (KHalted k'))
        \<and> procs k' (kcur k) = Some c \<and> p_status c = code \<and> p_state c = PROC_DEAD" .
qed

theorem handle_pagefault_correct_witness:
  "handle_pagefault demo_layout [] 14 0 demo_areas (\<lambda>_. False) (\<lambda>_ _ n _. Some (n + 1)) (\<lambda>a. a) 0x408123 {FAULT_WRITE}
     (demo_family 3 PROC_RUNNING) = Some (Pt_map 1 0x408000 9 {PT_PRESENT, PT_USER, PT_WRITE})"
proof -
  let ?k = "demo_family 3 PROC_RUNNING"
  have c: "procs ?k (kcur ?k) = Some (demo_proc 2 [] 2 PROC_RUNNING [9] 7)" "initproc ?k = Some 2" "2 \<noteq> kcur ?k"
    by (simp_all add: demo_family_def)
  have frames: "\<And>s x n w. Some (n + 1 :: u32) \<noteq> None" by simp
  have v: "ADDR_TO_PN demo_layout 0x408123 = 1032" "PN_TO_ADDR demo_layout 1032 = 0x408000" by code_simp+
  have "view demo_areas 1032 = Some ({PROT_READ, PROT_WRITE}, {MAP_PRIVATE}, Some 10, 8)"
    by (simp add: demo_areas_def demo_area_def covers_def page_of_def)
  with conjunct1 [OF handle_pagefault_correct [OF demo_good frames c(1) demo_family_inv c(2,3),
        where vaddr = "0x408123" and cause = "{FAULT_WRITE}" and ?is = "[]" and code = 14 and sa = 0
          and shadowed = "\<lambda>_. False" and phys = "\<lambda>a. a"]]
  show ?thesis by (simp add: v access_right_def demo_proc_def insert_commute)
qed

end
