(* ===== verification/Syscalls.thy ===== *)
theory Syscalls
  imports Usermem
begin

section \<open>System call handlers\<close>

text \<open>
  The handlers of \<^verbatim>\<open>vm-submit/kernel/api/syscall.c\<close> that work on files and on the address space: they copy
  their arguments from user memory, call the corresponding \<^verbatim>\<open>do_\<close> function and turn its result into a
  return value and \<^verbatim>\<open>kt_errno\<close>.

  \<^item> The state is the file-system state of the process, its address space, \<^verbatim>\<open>kt_errno\<close> (\<open>None\<close> is 0) and
    the kernel allocations made so far.
  \<^item> What the argument structures and strings in user memory hold are arguments of the handlers (\<open>ustr\<close> is
    a string argument with its text), as are the addresses of kernel buffers (\<open>None\<close> when \<^verbatim>\<open>kmalloc\<close> fails).
  \<^item> The handlers of processes (\<^verbatim>\<open>sys_waitpid\<close>, \<^verbatim>\<open>sys_fork\<close>, \<^verbatim>\<open>sys_execve\<close>, \<^verbatim>\<open>sys_halt\<close>) and the dispatcher are in
    the theory \<open>Dispatch\<close>.

  The lemmas show the error contract of the handlers (-1 with \<^verbatim>\<open>kt_errno\<close> set, or a result with \<^verbatim>\<open>kt_errno\<close> as
  it was), that path handlers free the strings they copy, and where \<^verbatim>\<open>sys_write\<close> and \<^verbatim>\<open>sys_getdents\<close> break
  these rules.
\<close>

record 'fs ustate =
  us_vfs :: "'fs vfs"
  us_map :: vmmap
  us_errno :: "errno option"
  us_kmem :: "kmem_event list"
  us_mm :: "mm_event list"

record ustr =
  as_str :: u32
  as_len :: u32
  as_text :: string

abbreviation uareas :: "'fs ustate \<Rightarrow> vmarea list" where
  "uareas u \<equiv> vmm_list (us_map u)"

definition set_errno :: "errno \<Rightarrow> 'fs ustate \<Rightarrow> 'fs ustate" where
  "set_errno e u = u\<lparr>us_errno := Some e\<rparr>"

definition kmem :: "kmem_event list \<Rightarrow> 'fs ustate \<Rightarrow> 'fs ustate" where
  "kmem evs u = u\<lparr>us_kmem := us_kmem u @ evs\<rparr>"

text \<open>The end of a handler: an error goes to \<^verbatim>\<open>kt_errno\<close> and -1 is returned.\<close>

definition sys_return :: "errno + int \<Rightarrow> 'fs ustate \<Rightarrow> int \<times> 'fs ustate" where
  "sys_return r u = (case r of Inl e \<Rightarrow> (- 1, set_errno e u) | Inr n \<Rightarrow> (n, u))"

text \<open>The beginning of a handler: the copy of its argument structure of \<open>argsz\<close> bytes from \<open>arg\<close>.\<close>

definition with_args :: "layout \<Rightarrow> u32 \<Rightarrow> u32 \<Rightarrow> u32 \<Rightarrow> ('fs ustate \<Rightarrow> (int \<times> 'fs ustate) option) \<Rightarrow> 'fs ustate
    \<Rightarrow> (int \<times> 'fs ustate) option" where
  "with_args L kbuf arg argsz body u = do {
     r \<leftarrow> copy_from_user L (uareas u) kbuf arg argsz;
     case r of Inl e \<Rightarrow> Some (- 1, set_errno e u) | Inr ev \<Rightarrow> body u }"

text \<open>A string argument: copied with \<^verbatim>\<open>user_strdup\<close>, any failure reported as \<^verbatim>\<open>EINVAL\<close>.\<close>

definition with_string :: "layout \<Rightarrow> u32 option \<Rightarrow> ustr \<Rightarrow> (u32 \<Rightarrow> 'fs ustate \<Rightarrow> (int \<times> 'fs ustate) option)
    \<Rightarrow> ('fs ustate \<Rightarrow> 'fs ustate) \<Rightarrow> 'fs ustate \<Rightarrow> (int \<times> 'fs ustate) option" where
  "with_string L alloc s body cleanup u = do {
     (r, ev) \<leftarrow> user_strdup L (uareas u) alloc (as_str s, as_len s);
     case r of Inl e \<Rightarrow> Some (- 1, cleanup (set_errno EINVAL (kmem ev u))) | Inr k \<Rightarrow> body k (kmem ev u) }"

text \<open>Calling a \<^verbatim>\<open>do_\<close> function of the file system, freeing the given strings, and returning its result.\<close>

definition call_do :: "('fs vfs \<Rightarrow> ((errno + 'r) \<times> 'fs vfs) option) \<Rightarrow> ('r \<Rightarrow> int) \<Rightarrow> u32 list \<Rightarrow> 'fs ustate
    \<Rightarrow> (int \<times> 'fs ustate) option" where
  "call_do f res frees u = do {
     (r, v) \<leftarrow> f (us_vfs u);
     Some (sys_return (map_sum id res r) (kmem (map KFree frees) (u\<lparr>us_vfs := v\<rparr>))) }"

abbreviation ret0 :: "unit \<Rightarrow> int" where
  "ret0 \<equiv> \<lambda>_. 0"

subsection \<open>Handlers with a path\<close>

definition sys_mkdir where
  "sys_mkdir L C E kbuf arg argsz alloc path u =
     with_args L kbuf arg argsz (with_string L alloc path (\<lambda>k. call_do (do_mkdir C E (as_text path)) ret0 [k]) id) u"

definition sys_rmdir where
  "sys_rmdir L C E kbuf arg argsz alloc path u =
     with_args L kbuf arg argsz (with_string L alloc path (\<lambda>k. call_do (do_rmdir C E (as_text path)) ret0 [k]) id) u"

definition sys_unlink where
  "sys_unlink L C E kbuf arg argsz alloc path u =
     with_args L kbuf arg argsz (with_string L alloc path (\<lambda>k. call_do (do_unlink C E (as_text path)) ret0 [k]) id) u"

definition sys_chdir where
  "sys_chdir L C E kbuf arg argsz alloc path u =
     with_args L kbuf arg argsz (with_string L alloc path (\<lambda>k. call_do (do_chdir C E (as_text path)) ret0 [k]) id) u"

definition sys_open where
  "sys_open L C E kbuf arg argsz alloc path new flags u =
     with_args L kbuf arg argsz (with_string L alloc path (\<lambda>k. call_do (do_open C E new (as_text path) flags) int [k]) id) u"

definition sys_link where
  "sys_link L C E kbuf arg argsz alloc1 alloc2 to_path from_path u =
     with_args L kbuf arg argsz (with_string L alloc1 to_path (\<lambda>k1.
       with_string L alloc2 from_path (\<lambda>k2. call_do (do_link C E (as_text from_path) (as_text to_path)) ret0 [k1, k2])
         (kmem [KFree k1])) id) u"

definition sys_rename where
  "sys_rename L C E kbuf arg argsz alloc1 alloc2 oldname newname u =
     with_args L kbuf arg argsz (with_string L alloc1 oldname (\<lambda>k1.
       with_string L alloc2 newname (\<lambda>k2. call_do (do_rename C E (as_text oldname) (as_text newname)) ret0 [k2, k1])
         (kmem [KFree k1])) id) u"

text \<open>\<^verbatim>\<open>sys_stat\<close>: the buffer is on the kernel stack; its copy to user memory can fail after a successful call.\<close>

definition sys_stat where
  "sys_stat L C E kbuf arg argsz alloc path ubuf sbuf stat_size u =
     with_args L kbuf arg argsz (with_string L alloc path (\<lambda>k u1. do {
       (r, v) \<leftarrow> do_stat C E (as_text path) False (us_vfs u1);
       ret \<leftarrow> (case r of
          Inl e \<Rightarrow> Some (Inl e)
        | Inr _ \<Rightarrow> map_option (map_sum id (\<lambda>_. 0)) (copy_to_user L (uareas u1) ubuf sbuf stat_size));
       Some (sys_return ret (kmem [KFree k] (u1\<lparr>us_vfs := v\<rparr>))) }) id) u"

subsection \<open>Handlers with a descriptor\<close>

definition sys_close where
  "sys_close C fd u = (let (r, v) = do_close C fd (us_vfs u) in sys_return (map_sum id ret0 r) (u\<lparr>us_vfs := v\<rparr>))"

definition sys_dup where
  "sys_dup C E fd u = (let (r, v) = do_dup C E fd (us_vfs u) in sys_return (map_sum id int r) (u\<lparr>us_vfs := v\<rparr>))"

definition sys_dup2 where
  "sys_dup2 L C E kbuf arg argsz ofd nfd u =
     with_args L kbuf arg argsz (call_do (\<lambda>v. Some (do_dup2 C E ofd nfd v)) int []) u"

definition sys_lseek where
  "sys_lseek L C E kbuf arg argsz fd offset w u = with_args L kbuf arg argsz (call_do (do_lseek C E fd offset w) id []) u"

text \<open>\<^verbatim>\<open>sys_read\<close> copies the whole buffer to user memory whatever \<^verbatim>\<open>do_read\<close> returned and ignores the result.\<close>

definition sys_read where
  "sys_read L C E kbuf arg argsz alloc fd nbytes ubuf u =
     with_args L kbuf arg argsz (\<lambda>u. case alloc of
        None \<Rightarrow> Some (- 1, set_errno ENOMEM u)
      | Some tempMem \<Rightarrow> do {
          (r, v) \<leftarrow> do_read C E fd (unat nbytes) (us_vfs u);
          c \<leftarrow> copy_to_user L (uareas u) ubuf tempMem nbytes;
          let evs = [KMalloc tempMem] @ (case c of Inl e \<Rightarrow> [] | Inr ev \<Rightarrow> [UserCopy ev]) @ [KFree tempMem];
          Some (sys_return (map_sum id int r) (kmem evs (u\<lparr>us_vfs := v\<rparr>))) }) u"

text \<open>\<^verbatim>\<open>sys_write\<close> returns \<^verbatim>\<open>NULL\<close> when there is no memory, and ignores a failure to copy the data.\<close>

definition sys_write where
  "sys_write L C E kbuf arg argsz alloc fd nbytes ubuf data u =
     with_args L kbuf arg argsz (\<lambda>u. case alloc of
        None \<Rightarrow> Some (0, set_errno ENOMEM u)
      | Some tempMem \<Rightarrow> do {
          c \<leftarrow> copy_from_user L (uareas u) tempMem ubuf nbytes;
          (r, v) \<leftarrow> do_write C E fd data (us_vfs u);
          let evs = [KMalloc tempMem] @ (case c of Inl e \<Rightarrow> [] | Inr ev \<Rightarrow> [UserCopy ev]) @ [KFree tempMem];
          Some (sys_return (map_sum id int r) (kmem evs (u\<lparr>us_vfs := v\<rparr>))) }) u"

text \<open>
  The loop of \<^verbatim>\<open>sys_getdents\<close>: the error that ended it or the bytes counted.  Every entry is copied to the
  same user address.
\<close>

partial_function (option) getdents_loop ::
  "layout \<Rightarrow> fs_config \<Rightarrow> 'fs vfs_env \<Rightarrow> u32 \<Rightarrow> int \<Rightarrow> u32 \<Rightarrow> u32 \<Rightarrow> u32 \<Rightarrow> u32 \<Rightarrow> 'fs ustate \<Rightarrow> ((errno + u32) \<times> 'fs ustate) option" where
  "getdents_loop L C E ptr fd dirp dsize count bCount u =
     (if \<not> count > bCount then Some (Inr bCount, u)
      else do {
        (r, v) \<leftarrow> do_getdent C E (unat dsize) fd (us_vfs u);
        let u1 = u\<lparr>us_vfs := v\<rparr>;
        if isl r then Some (Inl (projl r), u1)
        else if projr r = 0 then Some (Inr bCount, u1)
        else do {
          c \<leftarrow> copy_to_user L (uareas u1) dirp ptr dsize;
          let u2 = kmem (case c of Inl e \<Rightarrow> [] | Inr ev \<Rightarrow> [UserCopy ev]) u1;
          getdents_loop L C E ptr fd dirp dsize count (bCount + of_nat (projr r)) u2 } })"

definition sys_getdents where
  "sys_getdents L C E kbuf arg argsz alloc fd dirp dsize count u =
     with_args L kbuf arg argsz (\<lambda>u. case alloc of
        None \<Rightarrow> Some (0, set_errno ENOMEM u)
      | Some ptr \<Rightarrow> do {
          (r, u1) \<leftarrow> getdents_loop L C E ptr fd dirp dsize count 0 (kmem [KMalloc ptr] u);
          Some (case r of
             Inl e \<Rightarrow> (- 1, set_errno e u1)
           | Inr n \<Rightarrow> (as_int n, kmem [KFree ptr] u1)) }) u"

subsection \<open>Handlers of the address space\<close>

definition sys_munmap where
  "sys_munmap L M kbuf arg argsz addr len u =
     with_args L kbuf arg argsz (\<lambda>u. do {
       (r, m, ev) \<leftarrow> do_munmap L M addr len (us_map u) (us_vfs u);
       Some (sys_return (map_sum id ret0 r) (u\<lparr>us_map := m, us_mm := us_mm u @ ev\<rparr>)) }) u"

text \<open>\<^verbatim>\<open>MAP_FAILED\<close> is \<open>failed\<close>; an address is returned as an \<^verbatim>\<open>int\<close>.\<close>

definition sys_mmap where
  "sys_mmap L C E M max_files failed kbuf arg argsz addr len prot flags fd off u = do {
     r \<leftarrow> copy_from_user L (uareas u) kbuf arg argsz;
     case r of
       Inl e \<Rightarrow> Some (failed, set_errno EFAULT u)
     | Inr _ \<Rightarrow> do {
         (r, m, v, ev) \<leftarrow> do_mmap L C E M max_files addr len prot flags fd off (us_map u) (us_vfs u);
         let u1 = u\<lparr>us_map := m, us_vfs := v, us_mm := us_mm u @ ev\<rparr>;
         Some (case r of Inl e \<Rightarrow> (failed, set_errno e u1) | Inr a \<Rightarrow> (as_int a, u1)) } }"

definition sys_brk where
  "sys_brk L C E M max_files addr u = do {
     (r, m, v, ev) \<leftarrow> do_brk L C E M max_files addr (us_map u) (us_vfs u);
     Some (sys_return (map_sum id as_int r) (u\<lparr>us_map := m, us_vfs := v, us_mm := us_mm u @ ev\<rparr>)) }"

text \<open>\<^verbatim>\<open>sys_uname\<close>: five strings copied to the fields of the user's structure, up to the first failure.\<close>

fun copy_strings :: "layout \<Rightarrow> vmarea list \<Rightarrow> (u32 \<times> u32 \<times> u32) list \<Rightarrow> (errno + int) option" where
  "copy_strings L as [] = Some (Inr 0)"
| "copy_strings L as ((uaddr, kaddr, n) # cs) = do {
     r \<leftarrow> copy_to_user L as uaddr kaddr n;
     case r of Inl e \<Rightarrow> Some (Inl e) | Inr _ \<Rightarrow> copy_strings L as cs }"

definition sys_uname where
  "sys_uname L strings u = do {
     r \<leftarrow> copy_strings L (uareas u) strings;
     Some (sys_return r u) }"


subsection \<open>What the handlers promise\<close>

text \<open>The number of live allocations at an address.\<close>

fun kmem_balance :: "u32 \<Rightarrow> kmem_event list \<Rightarrow> int" where
  "kmem_balance k [] = 0"
| "kmem_balance k (KMalloc a # es) = of_bool (a = k) + kmem_balance k es"
| "kmem_balance k (KFree a # es) = kmem_balance k es - of_bool (a = k)"
| "kmem_balance k (UserCopy c # es) = kmem_balance k es"

text \<open>
  Reading up to \<open>m\<close> directory entries with \<^verbatim>\<open>do_getdent\<close>: the error that ended it, if any, and how many have been read.
\<close>

fun read_entries :: "fs_config \<Rightarrow> 'fs vfs_env \<Rightarrow> nat \<Rightarrow> int \<Rightarrow> nat \<Rightarrow> 'fs vfs \<Rightarrow> (errno option \<times> nat \<times> 'fs vfs) option" where
  "read_entries C E n fd 0 st = Some (None, 0, st)"
| "read_entries C E n fd (Suc m) st = do {
     (r, st1) \<leftarrow> do_getdent C E n fd st;
     case r of
       Inl e \<Rightarrow> Some (Some e, 0, st1)
     | Inr k \<Rightarrow> if k = 0 then Some (None, 0, st1)
         else do { (e, j, st2) \<leftarrow> read_entries C E n fd m st1; Some (e, Suc j, st2) } }"

text \<open>What a copy to the user records.\<close>

definition copies :: "errno + mem_event list \<Rightarrow> kmem_event list" where
  "copies c = (case c of Inl e \<Rightarrow> [] | Inr ev \<Rightarrow> [UserCopy ev])"

definition kmem_balanced :: "'fs ustate \<Rightarrow> 'fs ustate \<Rightarrow> bool" where
  "kmem_balanced u u' \<longleftrightarrow> (\<forall>k. kmem_balance k (us_kmem u') = kmem_balance k (us_kmem u))"

text \<open>
  The contract of a handler: \<open>copied\<close> tells whether its arguments could be copied, \<open>call\<close> is the result of the
  \<^verbatim>\<open>do_\<close> function.  The address space is untouched and no kernel memory is lost.
\<close>

definition sys_contract :: "bool \<Rightarrow> ((errno + int) \<times> 'fs vfs) \<Rightarrow> 'fs ustate \<Rightarrow> int \<times> 'fs ustate \<Rightarrow> bool" where
  "sys_contract copied call u res = (case res of (n, u') \<Rightarrow>
     kmem_balanced u u' \<and> us_map u' = us_map u \<and> us_mm u' = us_mm u
     \<and> (if copied then us_vfs u' = snd call
          \<and> (case fst call of Inl e \<Rightarrow> n = - 1 \<and> us_errno u' = Some e | Inr m \<Rightarrow> n = m \<and> us_errno u' = us_errno u)
        else n = - 1 \<and> us_vfs u' = us_vfs u \<and> us_errno u' \<in> {Some EFAULT, Some EINVAL}))"

definition readable :: "layout \<Rightarrow> 'fs ustate \<Rightarrow> u32 \<Rightarrow> u32 \<Rightarrow> bool" where
  "readable L u a n = range_perm L (uareas u) a n {PROT_READ}"

definition string_readable :: "layout \<Rightarrow> 'fs ustate \<Rightarrow> u32 option \<Rightarrow> ustr \<Rightarrow> bool" where
  "string_readable L u alloc s \<longleftrightarrow> alloc \<noteq> None \<and> readable L u (as_str s) (as_len s + 1)"

text \<open>A directory descriptor that \<^verbatim>\<open>do_getdent\<close> can read without failing an assertion.\<close>

definition getdent_safe :: "'fs vfs_env \<Rightarrow> int \<Rightarrow> 'fs vfs \<Rightarrow> bool" where
  "getdent_safe E fd st \<longleftrightarrow> (\<forall>p. fget E fd (vproc st) = Some p \<longrightarrow>
     (\<exists>v. f_vnode (open_files st p) = Some v \<and> vn_has E v V_readdir))"

definition demo_ustate :: "demo_fs ustate" where
  "demo_ustate = \<lparr>us_vfs = demo_vfs, us_map = \<lparr>vmm_id = 1, vmm_list = demo_areas, vmm_proc = None\<rparr>, us_errno = None,
     us_kmem = [], us_mm = []\<rparr>"

text \<open>A directory that cannot be read: descriptor 0 is open on vnode 1.\<close>

definition demo_readdir_env :: "demo_fs vfs_env" where
  "demo_readdir_env = demo_vfs_env\<lparr>op_readdir := (\<lambda>v pos s. (Inl EACCES, s))\<rparr>"

definition demo_dir_ustate :: "demo_fs ustate" where
  "demo_dir_ustate = demo_ustate\<lparr>us_vfs := demo_vfs\<lparr>open_files := (\<lambda>_. \<lparr>f_pos = 0, f_mode = {FMODE_READ}, f_vnode = Some 1\<rparr>)\<rparr>\<rparr>"

definition demo_path :: ustr where
  "demo_path = \<lparr>as_str = 0x401000, as_len = 8, as_text = ''/bin/new''\<rparr>"

section \<open>Properties of the handlers\<close>

lemma kmem_balance_append [simp]: "kmem_balance k (xs @ ys) = kmem_balance k xs + kmem_balance k ys"
  by (induction k xs rule: kmem_balance.induct) auto

lemma kmem_frame [simp]:
  "us_vfs (kmem ev u) = us_vfs u" "us_map (kmem ev u) = us_map u" "us_errno (kmem ev u) = us_errno u"
  "us_mm (kmem ev u) = us_mm u" "us_kmem (kmem ev u) = us_kmem u @ ev"
  by (simp_all add: kmem_def)

lemma set_errno_frame [simp]:
  "us_vfs (set_errno e u) = us_vfs u" "us_map (set_errno e u) = us_map u" "us_errno (set_errno e u) = Some e"
  "us_mm (set_errno e u) = us_mm u" "us_kmem (set_errno e u) = us_kmem u"
  by (simp_all add: set_errno_def)

text \<open>Copying is never stuck when every area has an object.\<close>

lemma read_areas_returns:
  assumes "\<forall>a\<in>set as. vma_obj a \<noteq> None"
  shows "read_areas L vi vf n st as \<noteq> None"
  using assms by (induction as arbitrary: st) (auto simp: Option.bind_eq_None_conv simp del: not_None_eq split: prod.split)

lemma write_areas_returns:
  assumes "\<forall>a\<in>set as. vma_obj a \<noteq> None"
  shows "write_areas L vi vf n st as \<noteq> None"
  using assms by (induction as arbitrary: st) (auto simp: Option.bind_eq_None_conv simp del: not_None_eq split: prod.split)

lemma copy_from_user_cases:
  assumes "good_map L as"
  obtains (denied) "\<not> range_perm L as a n {PROT_READ}" "copy_from_user L as k a n = Some (Inl EFAULT)"
    | (copied) ev where "range_perm L as a n {PROT_READ}" "copy_from_user L as k a n = Some (Inr ev)"
proof -
  obtain ev where "vmmap_read L as a k n = Some ev"
    using read_areas_returns [of as] assms unfolding vmmap_read_def good_map_def by blast
  then show thesis using denied copied by (cases "range_perm L as a n {PROT_READ}") (auto simp: copy_from_user_def)
qed

lemma copy_to_user_cases:
  assumes "good_map L as"
  obtains (denied) "\<not> range_perm L as a n {PROT_WRITE}" "copy_to_user L as a k n = Some (Inl EFAULT)"
    | (copied) ev where "range_perm L as a n {PROT_WRITE}" "copy_to_user L as a k n = Some (Inr ev)"
proof -
  obtain ev where "vmmap_write L as a k n = Some ev"
    using write_areas_returns [of as] assms unfolding vmmap_write_def good_map_def by blast
  then show thesis using denied copied by (cases "range_perm L as a n {PROT_WRITE}") (auto simp: copy_to_user_def)
qed

text \<open>The two copies that begin a handler.\<close>

lemma with_args_run:
  assumes "good_map L (uareas u)"
  shows "with_args L kbuf arg argsz body u = (if readable L u arg argsz then body u else Some (- 1, set_errno EFAULT u))"
  by (rule copy_from_user_cases [OF assms, of arg argsz kbuf]) (auto simp: with_args_def readable_def)

lemma with_string_run:
  assumes "good_map L (uareas u)"
  shows "\<exists>k ev. with_string L alloc s body cleanup u =
      (if string_readable L u alloc s then body k (kmem [KMalloc k, UserCopy ev] u)
       else Some (- 1, cleanup (set_errno EINVAL (kmem (case alloc of None \<Rightarrow> [] | Some a \<Rightarrow> [KMalloc a, KFree a]) u))))"
proof (cases alloc)
  case None
  then show ?thesis by (simp add: with_string_def user_strdup_def string_readable_def)
next
  case (Some k)
  show ?thesis
    by (rule copy_from_user_cases [OF assms, of "as_str s" "as_len s + 1" k])
      (auto simp: Some with_string_def user_strdup_def string_readable_def readable_def)
qed

lemma call_do_run:
  assumes "f (us_vfs u) = Some (r, v)"
  shows "call_do f res frees u = Some (sys_return (map_sum id res r) (kmem (map KFree frees) (u\<lparr>us_vfs := v\<rparr>)))"
  using assms by (simp add: call_do_def)

lemma readable_kmem [simp]: "readable L (kmem ev u) = readable L u" "string_readable L (kmem ev u) = string_readable L u"
  by (simp_all add: readable_def string_readable_def fun_eq_iff)

lemma contract_return:
  assumes "kmem_balanced u u1" "us_map u1 = us_map u" "us_mm u1 = us_mm u" "us_errno u1 = us_errno u"
  shows "sys_contract True (r, us_vfs u1) u (sys_return r u1)"
  using assms by (cases r) (auto simp: sys_contract_def sys_return_def kmem_balanced_def)

lemma contract_denied:
  assumes "kmem_balanced u u1" "us_map u1 = us_map u" "us_mm u1 = us_mm u" "us_vfs u1 = us_vfs u"
    "us_errno u1 = Some EFAULT \<or> us_errno u1 = Some EINVAL"
  shows "sys_contract False call u (- 1, u1)"
  using assms by (auto simp: sys_contract_def)

text \<open>A handler that allocates a buffer, copies to or from it and frees it.\<close>

lemma buffered_contract:
  "sys_contract True (r, v) u (sys_return r
     (kmem ([KMalloc k] @ (case c of Inl e \<Rightarrow> [] | Inr ev \<Rightarrow> [UserCopy ev]) @ [KFree k]) (u\<lparr>us_vfs := v\<rparr>)))"
  using contract_return [of u "kmem ([KMalloc k] @ (case c of Inl e \<Rightarrow> [] | Inr ev \<Rightarrow> [UserCopy ev]) @ [KFree k]) (u\<lparr>us_vfs := v\<rparr>)" r]
  by (simp add: kmem_balanced_def split: sum.split)

text \<open>Handlers with one path.\<close>

lemma one_path_handler:
  assumes good: "good_map L (uareas u)" and call: "f (us_vfs u) = Some (r, v)"
  shows "\<exists>res'. with_args L kbuf arg argsz (with_string L alloc s (\<lambda>k. call_do f res [k]) id) u = Some res'
    \<and> sys_contract (readable L u arg argsz \<and> string_readable L u alloc s) (map_sum id res r, v) u res'"
proof -
  obtain k ev where "with_string L alloc s (\<lambda>k. call_do f res [k]) id u =
      (if string_readable L u alloc s then call_do f res [k] (kmem [KMalloc k, UserCopy ev] u)
       else Some (- 1, id (set_errno EINVAL (kmem (case alloc of None \<Rightarrow> [] | Some a \<Rightarrow> [KMalloc a, KFree a]) u))))"
    using with_string_run [OF good] by blast
  moreover have "call_do f res [k] (kmem [KMalloc k, UserCopy ev] u) = Some (sys_return (map_sum id res r)
      (kmem [KFree k] (kmem [KMalloc k, UserCopy ev] u\<lparr>us_vfs := v\<rparr>)))" (is "_ = Some (sys_return ?r ?u)")
    using call_do_run [of f "kmem [KMalloc k, UserCopy ev] u"] call by simp
  moreover have "sys_contract True (?r, v) u (sys_return ?r ?u)"
    using contract_return [of u ?u ?r] by (simp add: kmem_balanced_def)
  ultimately show ?thesis
    by (cases "readable L u arg argsz"; cases "string_readable L u alloc s")
      (auto simp: with_args_run [OF good] kmem_balanced_def intro!: contract_denied split: option.split)
qed

text \<open>Handlers with two paths; the second copy is made in a state that already holds the first.\<close>

lemma two_path_handler:
  assumes good: "good_map L (uareas u)" and call: "f (us_vfs u) = Some (r, v)"
    and frees: "\<And>k1 k2 k. kmem_balance k (map KFree (frees k1 k2)) = - of_bool (k1 = k) - of_bool (k2 = k)"
  shows "\<exists>res'. with_args L kbuf arg argsz (with_string L alloc1 s1 (\<lambda>k1.
      with_string L alloc2 s2 (\<lambda>k2. call_do f res (frees k1 k2)) (kmem [KFree k1])) id) u = Some res'
    \<and> sys_contract (readable L u arg argsz \<and> string_readable L u alloc1 s1 \<and> string_readable L u alloc2 s2)
        (map_sum id res r, v) u res'"
proof -
  let ?body = "\<lambda>k1. with_string L alloc2 s2 (\<lambda>k2. call_do f res (frees k1 k2)) (kmem [KFree k1])"
  obtain k1 ev1 where w1: "with_string L alloc1 s1 ?body id u =
      (if string_readable L u alloc1 s1 then ?body k1 (kmem [KMalloc k1, UserCopy ev1] u)
       else Some (- 1, id (set_errno EINVAL (kmem (case alloc1 of None \<Rightarrow> [] | Some a \<Rightarrow> [KMalloc a, KFree a]) u))))"
    using with_string_run [OF good] by blast
  let ?u1 = "kmem [KMalloc k1, UserCopy ev1] u"
  obtain k2 ev2 where w2: "?body k1 ?u1 =
      (if string_readable L ?u1 alloc2 s2 then call_do f res (frees k1 k2) (kmem [KMalloc k2, UserCopy ev2] ?u1)
       else Some (- 1, kmem [KFree k1] (set_errno EINVAL (kmem (case alloc2 of None \<Rightarrow> [] | Some a \<Rightarrow> [KMalloc a, KFree a]) ?u1))))"
    using with_string_run [of L ?u1] good by (simp del: readable_kmem) blast
  have "call_do f res (frees k1 k2) (kmem [KMalloc k2, UserCopy ev2] ?u1) = Some (sys_return (map_sum id res r)
      (kmem (map KFree (frees k1 k2)) (kmem [KMalloc k2, UserCopy ev2] ?u1\<lparr>us_vfs := v\<rparr>)))" (is "_ = Some (sys_return ?r ?u)")
    using call_do_run [of f "kmem [KMalloc k2, UserCopy ev2] ?u1"] call by simp
  moreover have "sys_contract True (?r, v) u (sys_return ?r ?u)"
    using contract_return [of u ?u ?r] by (simp add: kmem_balanced_def frees)
  ultimately show ?thesis using w1 w2
    by (cases "readable L u arg argsz"; cases "string_readable L u alloc1 s1"; cases "string_readable L u alloc2 s2")
      (auto simp: with_args_run [OF good] kmem_balanced_def intro!: contract_denied split: option.split)
qed

text \<open>\<^verbatim>\<open>do_\<close> functions that return, put through a handler.\<close>

lemma handler_returns:
  assumes "f st \<noteq> None" and "\<And>r v. f st = Some (r, v) \<Longrightarrow> \<exists>res. h = Some res \<and> P r v res"
  shows "\<exists>r v res. f st = Some (r, v) \<and> h = Some res \<and> P r v res"
  using assms by fastforce

text \<open>C27: The handlers that take paths.  When the argument structure and the strings can be copied, the handler
  makes exactly the call of the file system, with the text of the path, and returns its result with
  \<^verbatim>\<open>kt_errno\<close> unchanged, or -1 with \<^verbatim>\<open>kt_errno\<close> set to its error; when they cannot, the handler returns -1 with
  \<^verbatim>\<open>EFAULT\<close> or \<^verbatim>\<open>EINVAL\<close> and has not touched the file system.  On every branch each kernel string that was
  allocated has been freed exactly once.\<close>

theorem path_handlers_correct:
  assumes good: "good_map L (uareas u)" and E: "dirs_complete C E" and p: "length (as_text path) < MAXPATHLEN C"
  shows "(let ok = readable L u arg argsz \<and> string_readable L u alloc path; text = as_text path; st = us_vfs u in
      (\<exists>r v res. do_mkdir C E text st = Some (r, v) \<and> sys_mkdir L C E kbuf arg argsz alloc path u = Some res
        \<and> sys_contract ok (map_sum id ret0 r, v) u res)
    \<and> (\<exists>r v res. do_rmdir C E text st = Some (r, v) \<and> sys_rmdir L C E kbuf arg argsz alloc path u = Some res
        \<and> sys_contract ok (map_sum id ret0 r, v) u res)
    \<and> (\<exists>r v res. do_unlink C E text st = Some (r, v) \<and> sys_unlink L C E kbuf arg argsz alloc path u = Some res
        \<and> sys_contract ok (map_sum id ret0 r, v) u res)
    \<and> (\<exists>r v res. do_chdir C E text st = Some (r, v) \<and> sys_chdir L C E kbuf arg argsz alloc path u = Some res
        \<and> sys_contract ok (map_sum id ret0 r, v) u res)
    \<and> (\<forall>r v. do_open C E new text flags st = Some (r, v) \<longrightarrow> (\<exists>res.
        sys_open L C E kbuf arg argsz alloc path new flags u = Some res \<and> sys_contract ok (map_sum id int r, v) u res))
    \<and> (\<forall>r v. do_link C E (as_text path2) text st = Some (r, v) \<longrightarrow> (\<exists>res.
        sys_link L C E kbuf arg argsz alloc alloc2 path path2 u = Some res
        \<and> sys_contract (ok \<and> string_readable L u alloc2 path2) (map_sum id ret0 r, v) u res))
    \<and> (\<forall>r v. do_rename C E text (as_text path2) st = Some (r, v) \<longrightarrow> (\<exists>res.
        sys_rename L C E kbuf arg argsz alloc alloc2 path path2 u = Some res
        \<and> sys_contract (ok \<and> string_readable L u alloc2 path2) (map_sum id ret0 r, v) u res)))"
  unfolding Let_def sys_mkdir_def sys_rmdir_def sys_unlink_def sys_chdir_def sys_open_def sys_link_def sys_rename_def conj_assoc
  using path_calls_return [OF E p]
  by (intro conjI handler_returns allI impI one_path_handler [OF good] two_path_handler [OF good]) simp_all

theorem path_handlers_correct_witness:
  "\<exists>r v res. do_mkdir demo_fs_config demo_vfs_env ''/bin/new'' demo_vfs = Some (r, v)
    \<and> sys_mkdir demo_layout demo_fs_config demo_vfs_env 0x9000 0x401020 8 (Some 0xA000) demo_path demo_ustate = Some res
    \<and> sys_contract True (map_sum id ret0 r, v) demo_ustate res"
proof -
  have good: "good_map demo_layout (uareas demo_ustate)" by (simp add: demo_ustate_def)
  have "length (as_text demo_path) < MAXPATHLEN demo_fs_config" by (simp add: demo_path_def demo_fs_config_def)
  moreover have "readable demo_layout demo_ustate 0x401020 8 \<and> string_readable demo_layout demo_ustate (Some 0xA000) demo_path" by code_simp
  ultimately show ?thesis
    using path_handlers_correct [OF good demo_dirs_complete, where path = demo_path and arg = "0x401020" and argsz = 8
        and alloc = "Some 0xA000" and kbuf = "0x9000"]
    unfolding Let_def by (simp add: demo_path_def demo_ustate_def) 
qed

subsection \<open>Reading and writing\<close>

text \<open>\<^verbatim>\<open>sys_read\<close> and \<^verbatim>\<open>sys_write\<close>.  With memory for the buffer both make the call of the file system and return its
  result or -1 with its error, and free the buffer on every branch, whether or not the data could be
  copied: a failing copy is not reported.  Without memory \<^verbatim>\<open>sys_read\<close> returns -1, but \<^verbatim>\<open>sys_write\<close> returns 0, the
  value of a successful write of no bytes, although it sets \<^verbatim>\<open>kt_errno\<close> too.\<close>

theorem read_write_handlers:
  assumes good: "good_map L (uareas u)" and args: "readable L u arg argsz"
  shows "(\<forall>tempMem r v. do_read C E fd (unat nbytes) (us_vfs u) = Some (r, v) \<longrightarrow>
      (\<exists>res. sys_read L C E kbuf arg argsz (Some tempMem) fd nbytes ubuf u = Some res
        \<and> sys_contract True (map_sum id int r, v) u res))
    \<and> (\<forall>tempMem r v. do_write C E fd data (us_vfs u) = Some (r, v) \<longrightarrow>
      (\<exists>res. sys_write L C E kbuf arg argsz (Some tempMem) fd nbytes ubuf data u = Some res
        \<and> sys_contract True (map_sum id int r, v) u res))
    \<and> sys_read L C E kbuf arg argsz None fd nbytes ubuf u = Some (- 1, set_errno ENOMEM u)
    \<and> sys_write L C E kbuf arg argsz None fd nbytes ubuf data u = Some (0, set_errno ENOMEM u)"
proof (intro conjI allI impI)
  fix tempMem r v
  assume call: "do_read C E fd (unat nbytes) (us_vfs u) = Some (r, v)"
  obtain c where "copy_to_user L (uareas u) ubuf tempMem nbytes = Some c" by (rule copy_to_user_cases [OF good])
  then have "sys_read L C E kbuf arg argsz (Some tempMem) fd nbytes ubuf u = Some (sys_return (map_sum id int r)
      (kmem ([KMalloc tempMem] @ (case c of Inl e \<Rightarrow> [] | Inr ev \<Rightarrow> [UserCopy ev]) @ [KFree tempMem]) (u\<lparr>us_vfs := v\<rparr>)))"
    using call args by (simp add: sys_read_def with_args_run [OF good] Let_def)
  then show "\<exists>res. sys_read L C E kbuf arg argsz (Some tempMem) fd nbytes ubuf u = Some res
        \<and> sys_contract True (map_sum id int r, v) u res"
    using buffered_contract by blast
next
  fix tempMem r v
  assume call: "do_write C E fd data (us_vfs u) = Some (r, v)"
  obtain c where "copy_from_user L (uareas u) tempMem ubuf nbytes = Some c" by (rule copy_from_user_cases [OF good])
  then have "sys_write L C E kbuf arg argsz (Some tempMem) fd nbytes ubuf data u = Some (sys_return (map_sum id int r)
      (kmem ([KMalloc tempMem] @ (case c of Inl e \<Rightarrow> [] | Inr ev \<Rightarrow> [UserCopy ev]) @ [KFree tempMem]) (u\<lparr>us_vfs := v\<rparr>)))"
    using call args by (simp add: sys_write_def with_args_run [OF good] Let_def)
  then show "\<exists>res. sys_write L C E kbuf arg argsz (Some tempMem) fd nbytes ubuf data u = Some res
        \<and> sys_contract True (map_sum id int r, v) u res"
    using buffered_contract by blast
qed (simp_all add: sys_read_def sys_write_def with_args_run [OF good] args)

theorem read_write_handlers_witness:
  "\<exists>r v res. do_read demo_fs_config demo_vfs_env 0 16 demo_vfs = Some (r, v)
    \<and> sys_read demo_layout demo_fs_config demo_vfs_env 0x9000 0x401020 8 (Some 0xA000) 0 16 0x402000 demo_ustate = Some res
    \<and> sys_contract True (map_sum id int r, v) demo_ustate res"
proof -
  have good: "good_map demo_layout (uareas demo_ustate)" by (simp add: demo_ustate_def)
  have args: "readable demo_layout demo_ustate 0x401020 8" by code_simp
  have "\<exists>r v. do_read demo_fs_config demo_vfs_env 0 (unat (16 :: u32)) (us_vfs demo_ustate) = Some (r, v)"
    by (simp add: demo_ustate_def do_read_def demo_fs_config_def demo_vfs_env_def demo_vfs_def emit_def call_op_def set_file_def Let_def)
  then show ?thesis
    using conjunct1 [OF read_write_handlers [OF good args, where C = demo_fs_config and E = demo_vfs_env and fd = 0
          and nbytes = 16 and ubuf = "0x402000" and kbuf = "0x9000"]]
    by (fastforce simp: demo_ustate_def)
qed

subsection \<open>Reading directories\<close>

text \<open>Every call keeps the descriptor readable and returns 0, an error or the size of an entry.\<close>

lemma do_getdent_result:
  assumes "getdent_safe E fd st"
  obtains r st' where "do_getdent C E n fd st = Some (r, st')" "getdent_safe E fd st'" "\<forall>m. r = Inr m \<longrightarrow> m = 0 \<or> m = n"
proof (cases "fd_bad C fd \<or> fget E fd (vproc st) = None")
  case True
  then show ?thesis using assms by (intro that [of "Inl EBADF" st]) (auto simp: do_getdent_def)
next
  case False
  then obtain p v where p: "fget E fd (vproc st) = Some p" "f_vnode (open_files st p) = Some v" "vn_has E v V_readdir"
    using assms by (auto simp: getdent_safe_def)
  obtain r st2 where op: "call_op (op_readdir E v (f_pos (open_files st p))) (emit (FGet p) st) = (r, st2)" by force
  have fr: "vproc st2 = vproc st" "open_files st2 = open_files st" using call_op_frame [OF op] by (auto simp: path_frame_def)
  then have safe: "getdent_safe E fd (emit e st2)"
    "getdent_safe E fd (emit e (set_file p (\<lambda>f. f\<lparr>f_pos := h f\<rparr>) st2))" for e h
    using assms by (auto simp: getdent_safe_def set_file_def)
  show ?thesis
  proof (cases "vn_mode E v (fs_state st) = S_IFDIR")
    case True
    have run: "do_getdent C E n fd st = (case r of Inl e \<Rightarrow> Some (Inl e, emit (FPut p) st2) | Inr 0 \<Rightarrow> Some (Inr 0, emit (FPut p) st2)
       | Inr n' \<Rightarrow> Some (Inr n, emit (FPut p) (set_file p (\<lambda>f. f\<lparr>f_pos := wrap32 (f_pos f + int n')\<rparr>) st2)))"
      using True False p op by (simp add: do_getdent_def Let_def)
    consider e where "r = Inl e" | "r = Inr 0" | m where "r = Inr (Suc m)" by (metis old.nat.exhaust sum.exhaust)
    then show ?thesis
    proof cases
      case 1
      with run have "do_getdent C E n fd st = Some (Inl e, emit (FPut p) st2)" by simp
      from that [OF this safe(1)] show ?thesis by simp
    next
      case 2
      with run have "do_getdent C E n fd st = Some (Inr 0, emit (FPut p) st2)" by simp
      from that [OF this safe(1)] show ?thesis by simp
    next
      case 3
      with run have "do_getdent C E n fd st = Some (Inr n, emit (FPut p)
          (set_file p (\<lambda>f. f\<lparr>f_pos := wrap32 (f_pos f + int (Suc m))\<rparr>) st2))" by simp
      from that [OF this safe(2)] show ?thesis by simp
    qed
  next
    case notdir: False
    with False p assms show ?thesis
      by (intro that [of "Inl ENOTDIR" "emit (FPut p) (emit (FGet p) st)"]) (auto simp: do_getdent_def getdent_safe_def Let_def)
  qed
qed

text \<open>The loop is the reference: each turn but the last reads an entry, counts its size and copies the buffer.\<close>

lemma getdents_loop_reads:
  assumes "good_map L (uareas u)" and "getdent_safe E fd (us_vfs u)" and "0 < dsize" and "unat count + unat dsize < 2 ^ 31"
    and "unat bCount < unat count + unat dsize" and "turns = (unat count - unat bCount + unat dsize - 1) div unat dsize"
    and "copy_to_user L (uareas u) dirp ptr dsize = Some c"
  shows "\<exists>e j v. read_entries C E (unat dsize) fd turns (us_vfs u) = Some (e, j, v) \<and> j \<le> turns
    \<and> getdents_loop L C E ptr fd dirp dsize count bCount u
      = Some (case e of None \<Rightarrow> Inr (bCount + of_nat (j * unat dsize)) | Some err \<Rightarrow> Inl err, kmem (concat (replicate j (copies c))) (u\<lparr>us_vfs := v\<rparr>))"
  using assms
proof (induction turns arbitrary: bCount u)
  case 0
  have d: "0 < unat dsize" using "0.prems"(3) by (simp add: less_unat)
  have "\<not> count > bCount"
  proof
    assume "count > bCount"
    then have "unat dsize \<le> unat count - unat bCount + unat dsize - 1" by (simp add: less_unat)
    moreover have "unat count - unat bCount + unat dsize - 1 < unat dsize"
      using "0.prems"(6) d div_eq_0_iff [of "unat count - unat bCount + unat dsize - 1" "unat dsize"] by auto
    ultimately show False by simp
  qed
  then show ?case by (subst getdents_loop.simps) (simp add: kmem_def)
next
  case (Suc m)
  have d: "0 < unat dsize" using Suc.prems(3) by (simp add: less_unat)
  have lt: "unat bCount < unat count"
  proof (rule ccontr)
    assume "\<not> unat bCount < unat count"
    then have "unat count - unat bCount + unat dsize - 1 < unat dsize" using d by simp
    then show False using Suc.prems(6) by simp
  qed
  then have gt: "count > bCount" by (simp add: less_unat)
  obtain r v where call: "do_getdent C E (unat dsize) fd (us_vfs u) = Some (r, v)"
    and safe: "getdent_safe E fd v" and r: "\<forall>m. r = Inr m \<longrightarrow> m = 0 \<or> m = unat dsize"
    by (rule do_getdent_result [OF Suc.prems(2), of C "unat dsize"]) (rule that)
  show ?case
  proof (cases "r = Inr (unat dsize)")
    case False
    then have "(\<exists>e. r = Inl e) \<or> r = Inr 0" using r by (cases r) auto
    then show ?thesis using call gt by (subst getdents_loop.simps) (auto simp: kmem_def)
  next
    case True
    let ?u2 = "kmem (copies c) (u\<lparr>us_vfs := v\<rparr>)"
    have sum: "unat (bCount + dsize) = unat bCount + unat dsize" using lt Suc.prems(4) by (intro unat_add_le) simp
    have step: "getdents_loop L C E ptr fd dirp dsize count bCount u = getdents_loop L C E ptr fd dirp dsize count (bCount + dsize) ?u2"
      using True call gt Suc.prems(7) d by (subst getdents_loop.simps) (simp add: copies_def)
    have "m = (unat count - unat (bCount + dsize) + unat dsize - 1) div unat dsize"
    proof (cases "unat dsize \<le> unat count - unat bCount")
      case True
      define X where "X = unat count - unat (bCount + dsize) + unat dsize - 1"
      have "unat count - unat bCount + unat dsize - 1 = X + unat dsize" unfolding X_def using True sum lt d by simp
      then have "Suc m = (X + unat dsize) div unat dsize" using Suc.prems(6) by (simp only:)
      then have "m = X div unat dsize" using div_add_self2 [of "unat dsize" X] d by linarith
      then show ?thesis by (simp only: X_def)
    next
      case small: False
      then have "unat count - unat bCount + unat dsize - 1 = (unat count - unat bCount - 1) + unat dsize" using lt by simp
      moreover have "unat count - unat bCount - 1 < unat dsize" using small by simp
      ultimately have "m = 0" using Suc.prems(6) d by (simp only: div_add_self2) simp
      then show ?thesis using small sum d by simp
    qed
    then obtain e j w where ih: "read_entries C E (unat dsize) fd m v = Some (e, j, w)" "j \<le> m"
      "getdents_loop L C E ptr fd dirp dsize count (bCount + dsize) ?u2
        = Some (case e of None \<Rightarrow> Inr (bCount + dsize + of_nat (j * unat dsize)) | Some err \<Rightarrow> Inl err, kmem (concat (replicate j (copies c))) (?u2\<lparr>us_vfs := w\<rparr>))"
      using Suc.IH [of ?u2 "bCount + dsize"] Suc.prems(1,3,4,7) safe sum lt by (auto simp: kmem_def)
    have "kmem (concat (replicate j (copies c))) (?u2\<lparr>us_vfs := w\<rparr>) = kmem (concat (replicate (Suc j) (copies c))) (u\<lparr>us_vfs := w\<rparr>)"
      by (simp add: kmem_def)
    moreover have "bCount + dsize + of_nat (j * unat dsize) = bCount + of_nat (Suc j * unat dsize)" by simp
    ultimately show ?thesis using step ih True call d
      by (intro exI [of _ e] exI [of _ "Suc j"] exI [of _ w]) (auto split: option.split)
  qed
qed

text \<open>C28: \<^verbatim>\<open>sys_getdents\<close> reads entries with \<^verbatim>\<open>do_getdent\<close> one after the other, as many as it takes to reach the bytes asked for, and stops
  before at the end of the directory or at an error (\<open>read_entries\<close>).  When \<open>j\<close> entries have been read, it returns their size, the buffer
  has been copied to the user \<open>j\<close> times (each time to the same address, so that only the last entry arrives) and freed, and \<^verbatim>\<open>kt_errno\<close> is
  unchanged; an error of \<^verbatim>\<open>do_getdent\<close> is stored in \<^verbatim>\<open>kt_errno\<close> and -1 returned, but the buffer is then not freed.  Without memory
  for the buffer the handler returns 0 although it sets \<^verbatim>\<open>kt_errno\<close>.\<close>

theorem sys_getdents_correct:
  assumes good: "good_map L (uareas u)" and safe: "getdent_safe E fd (us_vfs u)" and args: "readable L u arg argsz"
    and sizes: "0 < dsize" "unat count + unat dsize < 2 ^ 31"
  shows "(\<exists>e j v c. read_entries C E (unat dsize) fd ((unat count + unat dsize - 1) div unat dsize) (us_vfs u) = Some (e, j, v)
      \<and> copy_to_user L (uareas u) dirp ptr dsize = Some c
      \<and> sys_getdents L C E kbuf arg argsz (Some ptr) fd dirp dsize count u = Some (case e of
          None \<Rightarrow> (int (j * unat dsize), kmem ([KMalloc ptr] @ concat (replicate j (copies c)) @ [KFree ptr]) (u\<lparr>us_vfs := v\<rparr>))
        | Some err \<Rightarrow> (- 1, set_errno err (kmem ([KMalloc ptr] @ concat (replicate j (copies c))) (u\<lparr>us_vfs := v\<rparr>)))))
    \<and> sys_getdents L C E kbuf arg argsz None fd dirp dsize count u = Some (0, set_errno ENOMEM u)"
proof
  let ?u = "kmem [KMalloc ptr] u" and ?m = "(unat count + unat dsize - 1) div unat dsize"
  obtain c where c: "copy_to_user L (uareas u) dirp ptr dsize = Some c" by (rule copy_to_user_cases [OF good])
  have d: "0 < unat dsize" using sizes(1) by (simp add: less_unat)
  obtain e j v where run: "read_entries C E (unat dsize) fd ?m (us_vfs u) = Some (e, j, v)" "j \<le> ?m"
    "getdents_loop L C E ptr fd dirp dsize count 0 ?u
      = Some (case e of None \<Rightarrow> Inr (of_nat (j * unat dsize)) | Some err \<Rightarrow> Inl err, kmem (concat (replicate j (copies c))) (?u\<lparr>us_vfs := v\<rparr>))"
    using getdents_loop_reads [of L ?u E fd dsize count 0 ?m dirp ptr c C, unfolded add_0] good safe sizes d c by (auto simp: kmem_def)
  have "j * unat dsize \<le> ?m * unat dsize" using run(2) by simp
  also have "\<dots> \<le> unat count + unat dsize - 1" by simp
  also have "\<dots> < 2 ^ 31" using sizes(2) by simp
  finally have small: "j * unat dsize < 2 ^ 31" .
  have w: "unat (of_nat (j * unat dsize) :: u32) = j * unat dsize" using small by (simp only: unat_of_nat) simp
  then have "as_int (of_nat (j * unat dsize)) = int (unat (of_nat (j * unat dsize) :: u32))" using small as_int_small [of "of_nat (j * unat dsize)"] by (simp only: w uint_nat)
  then have n: "as_int (of_nat (j * unat dsize)) = int (j * unat dsize)" by (simp only: w)
  have "kmem xs (kmem ys (u\<lparr>us_vfs := v\<rparr>)) = kmem (ys @ xs) (u\<lparr>us_vfs := v\<rparr>)" for xs ys by (simp add: kmem_def)
  moreover have "?u\<lparr>us_vfs := v\<rparr> = kmem [KMalloc ptr] (u\<lparr>us_vfs := v\<rparr>)" by (simp add: kmem_def)
  ultimately show "\<exists>e j v c. read_entries C E (unat dsize) fd ?m (us_vfs u) = Some (e, j, v)
      \<and> copy_to_user L (uareas u) dirp ptr dsize = Some c
      \<and> sys_getdents L C E kbuf arg argsz (Some ptr) fd dirp dsize count u = Some (case e of
          None \<Rightarrow> (int (j * unat dsize), kmem ([KMalloc ptr] @ concat (replicate j (copies c)) @ [KFree ptr]) (u\<lparr>us_vfs := v\<rparr>))
        | Some err \<Rightarrow> (- 1, set_errno err (kmem ([KMalloc ptr] @ concat (replicate j (copies c))) (u\<lparr>us_vfs := v\<rparr>))))"
    using run(1,3) c n args
    by (intro exI [of _ e] exI [of _ j] exI [of _ v] exI [of _ c])
      (simp add: sys_getdents_def with_args_run [OF good] del: of_nat_mult split: option.split)
qed (simp add: sys_getdents_def with_args_run [OF good] args)

theorem sys_getdents_correct_witness:
  "\<exists>u'. sys_getdents demo_layout demo_fs_config demo_readdir_env 0x9000 0x401020 8 (Some 0xA000) 0 0x402000 32 100 demo_dir_ustate
      = Some (- 1, u') \<and> us_errno u' = Some EACCES \<and> us_kmem u' = [KMalloc 0xA000]"
proof -
  have good: "good_map demo_layout (uareas demo_dir_ustate)" by (simp add: demo_dir_ustate_def demo_ustate_def)
  have safe: "getdent_safe demo_readdir_env 0 (us_vfs demo_dir_ustate)"
    by (simp add: getdent_safe_def demo_dir_ustate_def demo_readdir_env_def demo_vfs_env_def)
  have args: "readable demo_layout demo_dir_ustate 0x401020 8" by code_simp
  have "do_getdent demo_fs_config demo_readdir_env 32 0 (us_vfs demo_dir_ustate)
      = Some (Inl EACCES, emit (FPut 7) (emit (FGet 7) (us_vfs demo_dir_ustate)))"
    by (simp add: do_getdent_def call_op_def emit_def demo_dir_ustate_def demo_readdir_env_def demo_vfs_env_def demo_fs_config_def
        demo_vfs_def Let_def)
  moreover have "(unat (100 :: u32) + unat (32 :: u32) - 1) div unat (32 :: u32) = Suc 3" "unat (32 :: u32) = 32" by simp_all
  ultimately have "read_entries demo_fs_config demo_readdir_env (unat (32 :: u32)) 0 ((unat (100 :: u32) + unat (32 :: u32) - 1) div unat (32 :: u32))
      (us_vfs demo_dir_ustate) = Some (Some EACCES, 0, emit (FPut 7) (emit (FGet 7) (us_vfs demo_dir_ustate)))"
    by (simp only: read_entries.simps) simp
  moreover have "us_kmem demo_dir_ustate = []" by (simp add: demo_dir_ustate_def demo_ustate_def)
  ultimately show ?thesis
    using conjunct1 [OF sys_getdents_correct [OF good safe args, of 32 100 demo_fs_config "0x402000" "0xA000" "0x9000"]]
    by (auto simp: kmem_def set_errno_def)
qed

end
