(* ===== verification/Pframe.thy ===== *)
theory Pframe
  imports Vmmap "HOL-Library.Multiset"
begin

section \<open>Page frames: \<^verbatim>\<open>kernel/mm/pframe.c\<close>\<close>

text \<open>
  The cache of pages: frames, their lists, the hash table by which they are found, pinning, writing back and
  reclaiming.

  \<^item> A frame (\<open>pfid\<close> is its address) and a memory object (\<open>objid\<close>) are records of the state \<open>mm\<close>; the intrusive lists
    are lists of frames: \<open>alloc_list\<close> and \<open>pinned_list\<close> for \<^verbatim>\<open>pf_link\<close>, the chains of \<open>pframe_hash\<close> for \<^verbatim>\<open>pf_hlink\<close>,
    \<open>mmo_respages\<close> for \<^verbatim>\<open>pf_olink\<close>.  \<open>page_mem\<close> holds the contents of the page at an address.
  \<^item> The allocators, \<^verbatim>\<open>page_free_count\<close>, the areas that map an object with the page directories of their processes,
    \<^verbatim>\<open>mmobj_init\<close> and the operations of the file systems are fields of the record \<open>mm_env\<close>, an argument.
  \<^item> The macros of \<^verbatim>\<open>mm/pframe.h\<close>, which is not in the repository, are the obvious tests and updates of the fields:
    busy, dirty, pinned (a positive pin count, as the comments say), free (no object).
  \<^item> Operations of memory objects are run to their end; a thread that finds a page busy would wait for another
    thread to finish, and the model stops there with \<open>None\<close>, as it does at a failed \<^verbatim>\<open>KASSERT\<close> and at a null pointer.
    Wake-ups, TLB flushes and page-table updates are recorded as events.
  \<^item> Where a function calls an operation of a memory object that can call back (\<^verbatim>\<open>put\<close>, \<^verbatim>\<open>fillpage\<close>), that operation is an
    argument; the theory of the memory objects ties the knot.

  The lemmas show that the lists, the hash table, the counters and the objects' lists of resident pages always agree
  (\<open>mm_inv\<close>), so that a page has one frame at most, and what each operation does to them.
\<close>

type_synonym pfid = nat
type_synonym page = "8 word list"

record pframe =
  pf_addr :: u32
  pf_obj :: "objid option"
  pf_pagenum :: u32
  pf_busy :: bool
  pf_dirty :: bool
  pf_pincount :: int

datatype mmobj_ops = anon_mmobj_ops | shadow_mmobj_ops | vnode_mmobj_ops

record mmobj =
  mmo_ops :: mmobj_ops
  mmo_refcount :: int
  mmo_nrespages :: int
  mmo_respages :: "pfid list"
  mmo_shadowed :: "objid option"
  mmo_bottom_obj :: "objid option"

datatype vops = fs_vops | bytedev_spec_vops | blockdev_spec_vops

record vnode =
  vn_fs :: nat
  vn_vno :: int
  vn_busy :: bool
  vn_mode :: vmode
  vn_devid :: nat
  vn_len :: u32
  vn_ops :: vops
  vn_cdev :: "nat option"
  vn_bdev :: "nat option"

datatype pf_event =
    PfBroadcast pfid
  | PfTlbFlush u32
  | PfUnmap nat u32
  | PageFreed u32
  | ObjFreed objid
  | PageoutdWakeup
  | WrittenBack objid u32 page
  | VnodeDeleted objid
  | VnBroadcast objid

record mm =
  frames :: "pfid \<rightharpoonup> pframe"
  alloc_list :: "pfid list"
  nallocated :: int
  pinned_list :: "pfid list"
  npinned :: int
  pframe_hash :: "nat \<Rightarrow> pfid list"
  nfreepages_min :: nat
  nfreepages_target :: nat
  mmobjs :: "objid \<rightharpoonup> mmobj"
  vnodes :: "objid \<rightharpoonup> vnode"
  vnode_inuse_list :: "objid list"
  page_mem :: "u32 \<Rightarrow> page"
  anon_temp_c :: u32
  shadow_num :: u32
  mm_log :: "pf_event list"

record mm_env =
  PF_HASH_SIZE :: nat
  slab_pframe :: "mm \<Rightarrow> pfid option"
  page_alloc :: "mm \<Rightarrow> u32 option"
  page_free_count :: "mm \<Rightarrow> nat"
  mmobj_init :: "mmobj_ops \<Rightarrow> mmobj"
  bottom_vmas :: "objid \<Rightarrow> (vmarea \<times> nat option) list"
  fs_fillpage :: "objid \<Rightarrow> u32 \<Rightarrow> page \<Rightarrow> int \<times> page"
  fs_dirtypage :: "objid \<Rightarrow> u32 \<Rightarrow> int"
  fs_cleanpage :: "objid \<Rightarrow> u32 \<Rightarrow> page \<Rightarrow> int"
  query_vnode :: "vnode \<Rightarrow> bool"
  delete_vnode :: "nat \<Rightarrow> bool"

subsection \<open>Accessors\<close>

definition upd_frame :: "pfid \<Rightarrow> (pframe \<Rightarrow> pframe) \<Rightarrow> mm \<Rightarrow> mm option" where
  "upd_frame pf g st = do { f \<leftarrow> frames st pf; Some (st\<lparr>frames := (frames st)(pf \<mapsto> g f)\<rparr>) }"

definition upd_obj :: "objid \<Rightarrow> (mmobj \<Rightarrow> mmobj) \<Rightarrow> mm \<Rightarrow> mm option" where
  "upd_obj ob g st = do { mo \<leftarrow> mmobjs st ob; Some (st\<lparr>mmobjs := (mmobjs st)(ob \<mapsto> g mo)\<rparr>) }"

definition mm_event :: "pf_event \<Rightarrow> mm \<Rightarrow> mm" where
  "mm_event e st = st\<lparr>mm_log := mm_log st @ [e]\<rparr>"

text \<open>\<^verbatim>\<open>list_remove(&pf->pf_link)\<close>: the frame leaves the list that it is on.\<close>

definition unlink_frame :: "pfid \<Rightarrow> mm \<Rightarrow> mm" where
  "unlink_frame pf st = st\<lparr>alloc_list := remove1 pf (alloc_list st), pinned_list := remove1 pf (pinned_list st)\<rparr>"

definition hash_page :: "mm_env \<Rightarrow> objid \<Rightarrow> u32 \<Rightarrow> nat" where
  "hash_page E ob pagenum = unat (of_nat ob + pagenum :: u32) mod PF_HASH_SIZE E"

definition set_busy :: "pfid \<Rightarrow> bool \<Rightarrow> mm \<Rightarrow> mm option" where
  "set_busy pf b = upd_frame pf (\<lambda>f. f\<lparr>pf_busy := b\<rparr>)"

definition set_dirty :: "pfid \<Rightarrow> bool \<Rightarrow> mm \<Rightarrow> mm option" where
  "set_dirty pf b = upd_frame pf (\<lambda>f. f\<lparr>pf_dirty := b\<rparr>)"

definition is_pinned :: "pframe \<Rightarrow> bool" where
  "is_pinned f \<longleftrightarrow> 0 < pf_pincount f"

definition has_identity :: "mm \<Rightarrow> objid \<Rightarrow> u32 \<Rightarrow> pfid \<Rightarrow> bool" where
  "has_identity st ob pagenum pf = (case frames st pf of None \<Rightarrow> False | Some f \<Rightarrow> pf_obj f = Some ob \<and> pf_pagenum f = pagenum)"

subsection \<open>Start\<close>

text \<open>\<^verbatim>\<open>pframe_init\<close>: the allocator, \<open>slab\<close>, must have been created.\<close>

definition pframe_init :: "mm_env \<Rightarrow> bool \<Rightarrow> mm \<Rightarrow> mm option" where
  "pframe_init E slab st = do {
     let st1 = st\<lparr>npinned := 0, pinned_list := [], nallocated := 0, alloc_list := []\<rparr>;
     kassert slab;
     let st2 = st1\<lparr>pframe_hash := (\<lambda>i. if i < PF_HASH_SIZE E then [] else pframe_hash st1 i)\<rparr>;
     Some (st2\<lparr>nfreepages_target := page_free_count E st2 div 2, nfreepages_min := 0\<rparr>) }"

subsection \<open>Finding and allocating\<close>

definition pframe_get_resident :: "mm_env \<Rightarrow> objid \<Rightarrow> u32 \<Rightarrow> mm \<Rightarrow> pfid option \<times> mm" where
  "pframe_get_resident E ob pagenum st =
     (case List.find (has_identity st ob pagenum) (pframe_hash st (hash_page E ob pagenum)) of
        None \<Rightarrow> (None, st)
      | Some pf \<Rightarrow> (Some pf,
          if is_pinned (the (frames st pf)) then st
          else (let st1 = unlink_frame pf st in st1\<lparr>alloc_list := alloc_list st1 @ [pf]\<rparr>)))"

text \<open>The \<^verbatim>\<open>ref\<close> operation of the object is an argument.\<close>

definition pframe_alloc :: "(objid \<Rightarrow> mm \<Rightarrow> mm option) \<Rightarrow> mm_env \<Rightarrow> objid \<Rightarrow> u32 \<Rightarrow> mm \<Rightarrow> (pfid option \<times> mm) option" where
  "pframe_alloc ref E ob pagenum st = (case slab_pframe E st of
     None \<Rightarrow> Some (None, st)
   | Some pf \<Rightarrow> (case page_alloc E st of
       None \<Rightarrow> Some (None, st)
     | Some addr \<Rightarrow> do {
         let f = \<lparr>pf_addr = addr, pf_obj = Some ob, pf_pagenum = pagenum, pf_busy = False, pf_dirty = False, pf_pincount = 0\<rparr>;
         let st1 = st\<lparr>nallocated := nallocated st + 1, alloc_list := alloc_list st @ [pf], frames := (frames st)(pf \<mapsto> f)\<rparr>;
         let h = hash_page E ob pagenum;
         let st2 = st1\<lparr>pframe_hash := (pframe_hash st1)(h := pf # pframe_hash st1 h)\<rparr>;
         st3 \<leftarrow> ref ob st2;
         st4 \<leftarrow> upd_obj ob (\<lambda>mo. mo\<lparr>mmo_nrespages := mmo_nrespages mo + 1, mmo_respages := pf # mmo_respages mo\<rparr>) st3;
         Some (Some pf, st4) }))"

definition pframe_fill :: "(objid \<Rightarrow> pfid \<Rightarrow> mm \<Rightarrow> (int \<times> mm) option) \<Rightarrow> pfid \<Rightarrow> mm \<Rightarrow> (int \<times> mm) option" where
  "pframe_fill fillpage pf st = do {
     st1 \<leftarrow> set_busy pf True st;
     f \<leftarrow> frames st1 pf;
     ob \<leftarrow> pf_obj f;
     (ret, st2) \<leftarrow> fillpage ob pf st1;
     st3 \<leftarrow> set_busy pf False st2;
     Some (ret, mm_event (PfBroadcast pf) st3) }"

definition pageoutd_needed :: "mm_env \<Rightarrow> mm \<Rightarrow> bool" where
  "pageoutd_needed E st \<longleftrightarrow> page_free_count E st \<le> nfreepages_min st \<and> alloc_list st \<noteq> []"

text \<open>The loop that looks for the page again while it is busy: nothing in it lets another thread run.\<close>

partial_function (option) unbusy_loop :: "mm_env \<Rightarrow> objid \<Rightarrow> u32 \<Rightarrow> pfid \<Rightarrow> mm \<Rightarrow> (pfid \<times> mm) option" where
  "unbusy_loop E ob pagenum pf st = do {
     f \<leftarrow> frames st pf;
     if pf_busy f then do {
       let (r, st1) = pframe_get_resident E ob pagenum st;
       pf1 \<leftarrow> r;
       unbusy_loop E ob pagenum pf1 st1 }
     else Some (pf, st) }"

text \<open>The result is the return value and the frame stored in \<^verbatim>\<open>*result\<close>.\<close>

definition pframe_get_with :: "(objid \<Rightarrow> mm \<Rightarrow> mm option) \<Rightarrow> (objid \<Rightarrow> pfid \<Rightarrow> mm \<Rightarrow> (int \<times> mm) option) \<Rightarrow> mm_env \<Rightarrow> objid \<Rightarrow> u32
    \<Rightarrow> mm \<Rightarrow> (int \<times> pfid \<times> mm) option" where
  "pframe_get_with ref fillpage E ob pagenum st = (case pframe_get_resident E ob pagenum st of
     (None, st1) \<Rightarrow> do {
       let st2 = (if pageoutd_needed E st1 then mm_event PageoutdWakeup st1 else st1);
       (r, st3) \<leftarrow> pframe_alloc ref E ob pagenum st2;
       pf \<leftarrow> r;
       (ret, st4) \<leftarrow> pframe_fill fillpage pf st3;
       Some (ret, pf, st4) }
   | (Some pf, st1) \<Rightarrow> do {
       (pf1, st2) \<leftarrow> unbusy_loop E ob pagenum pf st1;
       Some (0, pf1, st2) })"

subsection \<open>Pinning\<close>

definition pframe_pin :: "pfid \<Rightarrow> mm \<Rightarrow> mm option" where
  "pframe_pin pf st =
     (if pf \<in> set (alloc_list st) then do {
        let st1 = unlink_frame pf (st\<lparr>nallocated := nallocated st - 1, npinned := npinned st + 1\<rparr>);
        upd_frame pf (\<lambda>f. f\<lparr>pf_pincount := pf_pincount f + 1\<rparr>) (st1\<lparr>pinned_list := pinned_list st1 @ [pf]\<rparr>) }
      else if pf \<in> set (pinned_list st) then upd_frame pf (\<lambda>f. f\<lparr>pf_pincount := pf_pincount f + 1\<rparr>) st
      else Some st)"

definition pframe_unpin :: "pfid \<Rightarrow> mm \<Rightarrow> mm option" where
  "pframe_unpin pf st =
     (if pf \<in> set (pinned_list st) then do {
        st1 \<leftarrow> upd_frame pf (\<lambda>f. f\<lparr>pf_pincount := pf_pincount f - 1\<rparr>) st;
        f \<leftarrow> frames st1 pf;
        if pf_pincount f = 0 then do {
          let st2 = unlink_frame pf st1;
          Some (st2\<lparr>alloc_list := alloc_list st2 @ [pf], npinned := npinned st2 - 1, nallocated := nallocated st2 + 1\<rparr>) }
        else Some st1 }
      else Some st)"

subsection \<open>Dirtying, cleaning and freeing\<close>

text \<open>\<^verbatim>\<open>pframe_remove_from_pts\<close>: the page is unmapped wherever an area of the bottom object shows it.\<close>

definition pts_entry :: "layout \<Rightarrow> u32 \<Rightarrow> vmarea \<times> nat option \<Rightarrow> pf_event list" where
  "pts_entry L pagenum = (\<lambda>(vma, pagedir).
     if pagenum \<ge> vma_off vma \<and> pagenum < vma_off vma + (vma_end vma - vma_start vma)
     then (case pagedir of None \<Rightarrow> [] | Some pd \<Rightarrow> [PfUnmap pd (PN_TO_ADDR L (vma_start vma + pagenum - vma_off vma))])
     else [])"

definition pframe_remove_from_pts :: "layout \<Rightarrow> mm_env \<Rightarrow> pfid \<Rightarrow> mm \<Rightarrow> mm option" where
  "pframe_remove_from_pts L E pf st = do {
     f \<leftarrow> frames st pf;
     ob \<leftarrow> pf_obj f;
     Some (st\<lparr>mm_log := mm_log st @ concat (map (pts_entry L (pf_pagenum f)) (bottom_vmas E ob))\<rparr>) }"

definition pframe_dirty :: "(objid \<Rightarrow> pfid \<Rightarrow> mm \<Rightarrow> int option) \<Rightarrow> pfid \<Rightarrow> mm \<Rightarrow> (int \<times> mm) option" where
  "pframe_dirty dirtypage pf st = do {
     f \<leftarrow> frames st pf;
     kassert (\<not> pf_busy f);
     st1 \<leftarrow> set_busy pf True st;
     ob \<leftarrow> pf_obj f;
     ret \<leftarrow> dirtypage ob pf st1;
     st2 \<leftarrow> (if ret = 0 then set_dirty pf True st1 else Some st1);
     st3 \<leftarrow> set_busy pf False st2;
     Some (ret, mm_event (PfBroadcast pf) st3) }"

definition pframe_clean :: "(objid \<Rightarrow> pfid \<Rightarrow> mm \<Rightarrow> (int \<times> mm) option) \<Rightarrow> layout \<Rightarrow> mm_env \<Rightarrow> pfid \<Rightarrow> mm \<Rightarrow> (int \<times> mm) option" where
  "pframe_clean cleanpage L E pf st = do {
     f \<leftarrow> frames st pf;
     kassert (pf_dirty f);
     kassert (pf_pincount f = 0);
     st1 \<leftarrow> set_dirty pf False st;
     let st2 = mm_event (PfTlbFlush (pf_addr f)) st1;
     st3 \<leftarrow> pframe_remove_from_pts L E pf st2;
     st4 \<leftarrow> set_busy pf True st3;
     ob \<leftarrow> pf_obj f;
     (ret, st5) \<leftarrow> cleanpage ob pf st4;
     st6 \<leftarrow> (if ret < 0 then set_dirty pf True st5 else Some st5);
     st7 \<leftarrow> set_busy pf False st6;
     Some (ret, mm_event (PfBroadcast pf) st7) }"

text \<open>
  \<^verbatim>\<open>pframe_free\<close>, up to the call of \<^verbatim>\<open>put\<close>: the frame leaves the hash table, the list of allocated pages and the object's
  list (this last after the frame's own memory has been freed).
\<close>

definition pframe_detach :: "layout \<Rightarrow> mm_env \<Rightarrow> pfid \<Rightarrow> mm \<Rightarrow> (objid \<times> mm) option" where
  "pframe_detach L E pf st = do {
     f \<leftarrow> frames st pf;
     kassert (\<not> is_pinned f);
     ob \<leftarrow> pf_obj f;
     kassert (\<not> pf_busy f);
     let st1 = mm_event (PfTlbFlush (pf_addr f)) st;
     st2 \<leftarrow> pframe_remove_from_pts L E pf st1;
     let st3 = st2\<lparr>pframe_hash := (\<lambda>h. remove1 pf (pframe_hash st2 h)), nallocated := nallocated st2 - 1\<rparr>;
     let st4 = mm_event (PageFreed (pf_addr f)) (unlink_frame pf st3);
     st5 \<leftarrow> upd_obj ob (\<lambda>mo. mo\<lparr>mmo_nrespages := mmo_nrespages mo - 1, mmo_respages := remove1 pf (mmo_respages mo)\<rparr>)
       (st4\<lparr>frames := (frames st4)(pf := None)\<rparr>);
     Some (ob, st5) }"

definition pframe_free :: "(objid \<Rightarrow> mm \<Rightarrow> mm option) \<Rightarrow> layout \<Rightarrow> mm_env \<Rightarrow> pfid \<Rightarrow> mm \<Rightarrow> mm option" where
  "pframe_free put L E pf st = do {
     (ob, st1) \<leftarrow> pframe_detach L E pf st;
     put ob st1 }"

definition pframe_migrate :: "(objid \<Rightarrow> mm \<Rightarrow> mm option) \<Rightarrow> (objid \<Rightarrow> mm \<Rightarrow> mm option) \<Rightarrow> (objid \<Rightarrow> pfid \<Rightarrow> mm \<Rightarrow> (int \<times> mm) option)
    \<Rightarrow> layout \<Rightarrow> mm_env \<Rightarrow> pfid \<Rightarrow> objid \<Rightarrow> mm \<Rightarrow> mm option" where
  "pframe_migrate ref put cleanpage L E pf dest st = do {
     f \<leftarrow> frames st pf;
     kassert (\<not> pf_busy f);
     case pframe_get_resident E dest (pf_pagenum f) st of
       (Some _, st1) \<Rightarrow> do {
         st2 \<leftarrow> pframe_unpin pf st1;
         (_, st3) \<leftarrow> pframe_clean cleanpage L E pf st2;
         pframe_free put L E pf st3 }
     | (None, st1) \<Rightarrow> do {
         src \<leftarrow> pf_obj f;
         st2 \<leftarrow> upd_frame pf (\<lambda>f. f\<lparr>pf_obj := Some dest\<rparr>) st1;
         let st3 = st2\<lparr>pframe_hash := (\<lambda>h. remove1 pf (pframe_hash st2 h))\<rparr>;
         st4 \<leftarrow> upd_obj src (\<lambda>mo. mo\<lparr>mmo_respages := remove1 pf (mmo_respages mo), mmo_nrespages := mmo_nrespages mo - 1\<rparr>) st3;
         st5 \<leftarrow> put src st4;
         let h = hash_page E dest (pf_pagenum f);
         let st6 = st5\<lparr>pframe_hash := (pframe_hash st5)(h := pf # pframe_hash st5 h)\<rparr>;
         st7 \<leftarrow> upd_obj dest (\<lambda>mo. mo\<lparr>mmo_respages := pf # mmo_respages mo, mmo_nrespages := mmo_nrespages mo + 1\<rparr>) st6;
         ref dest st7 } }"

subsection \<open>Cleaning everything and paging out\<close>

text \<open>\<^verbatim>\<open>pframe_clean_all\<close>: after a page has been cleaned the search starts again at the head of the list.\<close>

fun first_dirty :: "pfid list \<Rightarrow> mm \<Rightarrow> pfid option option" where
  "first_dirty [] st = Some None"
| "first_dirty (pf # pfs) st = do {
     f \<leftarrow> frames st pf;
     kassert (\<not> is_pinned f);
     kassert (pf_obj f \<noteq> None);
     kassert (\<not> pf_busy f);
     if pf_dirty f then Some (Some pf) else first_dirty pfs st }"

partial_function (option) pframe_clean_all ::
  "(objid \<Rightarrow> pfid \<Rightarrow> mm \<Rightarrow> (int \<times> mm) option) \<Rightarrow> layout \<Rightarrow> mm_env \<Rightarrow> mm \<Rightarrow> mm option" where
  "pframe_clean_all cleanpage L E st = do {
     r \<leftarrow> first_dirty (alloc_list st) st;
     case r of
       None \<Rightarrow> Some st
     | Some pf \<Rightarrow> do {
         (_, st1) \<leftarrow> pframe_clean cleanpage L E pf st;
         pframe_clean_all cleanpage L E st1 } }"

text \<open>One round of the page-out daemon, between two of its sleeps.\<close>

partial_function (option) pageoutd_loop ::
  "(objid \<Rightarrow> mm \<Rightarrow> mm option) \<Rightarrow> (objid \<Rightarrow> pfid \<Rightarrow> mm \<Rightarrow> (int \<times> mm) option) \<Rightarrow> layout \<Rightarrow> mm_env \<Rightarrow> mm \<Rightarrow> mm option" where
  "pageoutd_loop put cleanpage L E st =
     (if page_free_count E st \<ge> nfreepages_target st \<or> alloc_list st = [] then Some st
      else do {
        let pf = hd (alloc_list st);
        f \<leftarrow> frames st pf;
        kassert (\<not> pf_busy f);
        st1 \<leftarrow> (if pf_dirty f then map_option snd (pframe_clean cleanpage L E pf st) else pframe_free put L E pf st);
        pageoutd_loop put cleanpage L E st1 })"

definition pageoutd_round ::
  "(objid \<Rightarrow> mm \<Rightarrow> mm option) \<Rightarrow> (objid \<Rightarrow> pfid \<Rightarrow> mm \<Rightarrow> (int \<times> mm) option) \<Rightarrow> layout \<Rightarrow> mm_env \<Rightarrow> mm \<Rightarrow> mm option" where
  "pageoutd_round put cleanpage L E st = do {
     kassert (0 \<le> nallocated st);
     pageoutd_loop put cleanpage L E st }"

subsection \<open>The invariant\<close>

text \<open>Each frame is on one of the two lists, which are counted; it is on the pinned list just when it is pinned.\<close>

definition lists_ok :: "mm \<Rightarrow> bool" where
  "lists_ok st \<longleftrightarrow> distinct (alloc_list st @ pinned_list st) \<and> set (alloc_list st) \<union> set (pinned_list st) = dom (frames st)
     \<and> nallocated st = int (length (alloc_list st)) \<and> npinned st = int (length (pinned_list st))
     \<and> (\<forall>pf f. frames st pf = Some f \<longrightarrow> 0 \<le> pf_pincount f \<and> (pf \<in> set (pinned_list st) \<longleftrightarrow> is_pinned f))"

text \<open>Each frame is in the chain of its page, and in no other.\<close>

definition hash_ok :: "mm_env \<Rightarrow> mm \<Rightarrow> bool" where
  "hash_ok E st \<longleftrightarrow> (\<forall>h. distinct (pframe_hash st h)
     \<and> (\<forall>pf. pf \<in> set (pframe_hash st h) \<longleftrightarrow> (\<exists>ob n. has_identity st ob n pf \<and> hash_page E ob n = h)))"

text \<open>Objects list their resident pages, count them and have a reference for each of them; a vnode's object has a vnode.\<close>

definition obj_ok :: "mm \<Rightarrow> objid \<Rightarrow> mmobj \<Rightarrow> bool" where
  "obj_ok st ob mo \<longleftrightarrow> distinct (mmo_respages mo) \<and> (\<forall>pf. pf \<in> set (mmo_respages mo) \<longleftrightarrow> (\<exists>n. has_identity st ob n pf))
     \<and> mmo_nrespages mo = int (length (mmo_respages mo)) \<and> int (length (mmo_respages mo)) \<le> mmo_refcount mo
     \<and> (mmo_ops mo = vnode_mmobj_ops \<longrightarrow> (\<exists>v. vnodes st ob = Some v \<and> \<not> vn_busy v))"

definition objs_ok :: "mm \<Rightarrow> bool" where
  "objs_ok st \<longleftrightarrow> (\<forall>pf f. frames st pf = Some f \<longrightarrow> (\<exists>ob. pf_obj f = Some ob \<and> ob \<in> dom (mmobjs st)))
     \<and> (\<forall>ob mo. mmobjs st ob = Some mo \<longrightarrow> obj_ok st ob mo)"

text \<open>A page has one frame at most, and frames do not share memory.\<close>

definition unique_ok :: "mm \<Rightarrow> bool" where
  "unique_ok st \<longleftrightarrow> (\<forall>ob n pf pf'. has_identity st ob n pf \<and> has_identity st ob n pf' \<longrightarrow> pf = pf')
     \<and> (\<forall>pf pf' f f'. frames st pf = Some f \<and> frames st pf' = Some f' \<and> pf_addr f = pf_addr f' \<longrightarrow> pf = pf')"

definition mm_inv :: "mm_env \<Rightarrow> mm \<Rightarrow> bool" where
  "mm_inv E st \<longleftrightarrow> lists_ok st \<and> hash_ok E st \<and> objs_ok st \<and> unique_ok st"

text \<open>No frame is busy: no operation is under way.\<close>

definition quiet :: "mm \<Rightarrow> bool" where
  "quiet st \<longleftrightarrow> (\<forall>pf f. frames st pf = Some f \<longrightarrow> \<not> pf_busy f)"

text \<open>The allocators return memory that is not in use.\<close>

definition alloc_fresh :: "mm_env \<Rightarrow> bool" where
  "alloc_fresh E \<longleftrightarrow> (\<forall>st. mm_inv E st \<longrightarrow> (\<forall>pf. slab_pframe E st = Some pf \<longrightarrow> frames st pf = None)
     \<and> (\<forall>a pf f. page_alloc E st = Some a \<and> frames st pf = Some f \<longrightarrow> pf_addr f \<noteq> a))"

definition new_frame :: "objid \<Rightarrow> u32 \<Rightarrow> u32 \<Rightarrow> pframe" where
  "new_frame ob n a = \<lparr>pf_addr = a, pf_obj = Some ob, pf_pagenum = n, pf_busy = False, pf_dirty = False, pf_pincount = 0\<rparr>"

definition add_frame :: "mm_env \<Rightarrow> objid \<Rightarrow> u32 \<Rightarrow> pfid \<Rightarrow> u32 \<Rightarrow> mmobj \<Rightarrow> mm \<Rightarrow> mm" where
  "add_frame E ob n pf a mo st = st\<lparr>nallocated := nallocated st + 1, alloc_list := alloc_list st @ [pf],
     frames := (frames st)(pf \<mapsto> new_frame ob n a),
     pframe_hash := (pframe_hash st)(hash_page E ob n := pf # pframe_hash st (hash_page E ob n)),
     mmobjs := (mmobjs st)(ob \<mapsto> mo\<lparr>mmo_refcount := mmo_refcount mo + 1, mmo_nrespages := mmo_nrespages mo + 1,
       mmo_respages := pf # mmo_respages mo\<rparr>)\<rparr>"

definition drop_frame :: "objid \<Rightarrow> pfid \<Rightarrow> mmobj \<Rightarrow> mm \<Rightarrow> mm" where
  "drop_frame ob pf mo st = st\<lparr>frames := (frames st)(pf := None), alloc_list := remove1 pf (alloc_list st),
     nallocated := nallocated st - 1, pframe_hash := (\<lambda>h. remove1 pf (pframe_hash st h)),
     mmobjs := (mmobjs st)(ob \<mapsto> mo\<lparr>mmo_nrespages := mmo_nrespages mo - 1, mmo_respages := remove1 pf (mmo_respages mo)\<rparr>)\<rparr>"

text \<open>A frame changes its pin count and moves to the list where it then belongs.\<close>

definition repin :: "pfid \<Rightarrow> pframe \<Rightarrow> int \<Rightarrow> pfid list \<Rightarrow> pfid list \<Rightarrow> int \<Rightarrow> int \<Rightarrow> mm \<Rightarrow> mm" where
  "repin pf f k al pl na np st = st\<lparr>frames := (frames st)(pf \<mapsto> f\<lparr>pf_pincount := k\<rparr>), alloc_list := al, pinned_list := pl,
    nallocated := na, npinned := np\<rparr>"

text \<open>
  \<^verbatim>\<open>ref\<close> adds a reference; \<^verbatim>\<open>put\<close> takes one away and nothing else as long as references other than those of the resident
  pages remain, or pages of a file that is linked; without pages, the last \<^verbatim>\<open>put\<close> frees a vnode; \<^verbatim>\<open>cleanpage\<close> changes nothing but the log.
\<close>

definition ref_state :: "objid \<Rightarrow> mmobj \<Rightarrow> int \<Rightarrow> mm \<Rightarrow> mm" where
  "ref_state ob mo d st = st\<lparr>mmobjs := (mmobjs st)(ob \<mapsto> mo\<lparr>mmo_refcount := mmo_refcount mo + d\<rparr>)\<rparr>"

text \<open>The contents of a page of a file have been written back.\<close>

definition saved :: "mm \<Rightarrow> pf_event list \<Rightarrow> pframe \<Rightarrow> bool" where
  "saved st log f \<longleftrightarrow> (\<forall>ob. pf_obj f = Some ob \<and> map_option mmo_ops (mmobjs st ob) = Some vnode_mmobj_ops \<longrightarrow>
     WrittenBack ob (pf_pagenum f) (page_mem st (pf_addr f)) \<in> set log)"

definition vnode_ready :: "mm \<Rightarrow> objid \<Rightarrow> mmobj \<Rightarrow> bool" where
  "vnode_ready st ob mo \<longleftrightarrow> (mmo_ops mo = vnode_mmobj_ops \<longrightarrow> (\<exists>v. vnodes st ob = Some v \<and> \<not> vn_busy v))"

text \<open>Frames that are the same but for their flags.\<close>

definition same_frame :: "pframe option \<Rightarrow> pframe option \<Rightarrow> bool" where
  "same_frame x y \<longleftrightarrow> (case (x, y) of (None, None) \<Rightarrow> True
     | (Some f, Some g) \<Rightarrow> pf_obj g = pf_obj f \<and> pf_pagenum g = pf_pagenum f \<and> pf_addr g = pf_addr f \<and> pf_pincount g = pf_pincount f
     | _ \<Rightarrow> False)"

text \<open>
  Cleaning all pages and paging out end when the dirty pages can be written back, in any state in which the page has the same contents and
  its object the same operations.
\<close>

definition alike :: "mm \<Rightarrow> mm \<Rightarrow> pfid \<Rightarrow> bool" where
  "alike st s pf \<longleftrightarrow> same_frame (frames st pf) (frames s pf) \<and> page_mem s = page_mem st
     \<and> (\<forall>f ob. frames st pf = Some f \<and> pf_obj f = Some ob \<longrightarrow> map_option mmo_ops (mmobjs s ob) = map_option mmo_ops (mmobjs st ob))"

definition cleanable :: "(objid \<Rightarrow> pfid \<Rightarrow> mm \<Rightarrow> (int \<times> mm) option) \<Rightarrow> mm \<Rightarrow> bool" where
  "cleanable cleanpage st \<longleftrightarrow> (\<forall>pf f ob s ret s'. pf \<in> set (alloc_list st) \<and> frames st pf = Some f \<and> pf_dirty f \<and> pf_obj f = Some ob
     \<and> alike st s pf \<and> cleanpage ob pf s = Some (ret, s') \<longrightarrow> 0 \<le> ret)"

definition dirty_count :: "mm \<Rightarrow> nat" where
  "dirty_count st = length (filter (\<lambda>pf. pf_dirty (the (frames st pf))) (alloc_list st))"

text \<open>
  Objects whose pages may be reclaimed: something else than the pages holds a reference to them, or they are the objects of files that nobody
  has open but that are linked in the file system.  Objects none of whose pages is up for reclaiming do not matter.
\<close>

definition linked_vnode :: "mm_env \<Rightarrow> mm \<Rightarrow> objid \<Rightarrow> mmobj \<Rightarrow> bool" where
  "linked_vnode E st ob mo \<longleftrightarrow> mmo_ops mo = vnode_mmobj_ops \<and> (case vnodes st ob of None \<Rightarrow> False | Some v \<Rightarrow> query_vnode E v)"

definition reclaimable :: "mm_env \<Rightarrow> mm \<Rightarrow> bool" where
  "reclaimable E st \<longleftrightarrow> (\<forall>pf\<in>set (alloc_list st). \<forall>f ob mo. frames st pf = Some f \<and> pf_obj f = Some ob \<and> mmobjs st ob = Some mo \<longrightarrow>
     mmo_nrespages mo < mmo_refcount mo \<or> linked_vnode E st ob mo)"

text \<open>The last reference to a vnode is gone: the vnode and its memory object are freed.\<close>

definition forget_vnode :: "objid \<Rightarrow> pf_event list \<Rightarrow> mm \<Rightarrow> mm" where
  "forget_vnode ob ev st = st\<lparr>mmobjs := (mmobjs st)(ob := None), vnodes := (vnodes st)(ob := None),
     vnode_inuse_list := remove1 ob (vnode_inuse_list st), mm_log := mm_log st @ ev\<rparr>"

text \<open>The objects that are still there are referred to as before, by others than their pages, and have their vnodes.\<close>

definition kept_objects :: "mm \<Rightarrow> mm \<Rightarrow> bool" where
  "kept_objects st st' \<longleftrightarrow> (\<forall>ob mo'. mmobjs st' ob = Some mo' \<longrightarrow> vnodes st' ob = vnodes st ob \<and> (\<exists>mo. mmobjs st ob = Some mo
     \<and> mmo_ops mo' = mmo_ops mo \<and> mmo_refcount mo' - mmo_nrespages mo' = mmo_refcount mo - mmo_nrespages mo))"

text \<open>\<^verbatim>\<open>page_free_count\<close> counts: as long as frames are only freed, there is one free page more for each of them.\<close>

definition frames_counted :: "mm_env \<Rightarrow> mm \<Rightarrow> bool" where
  "frames_counted E st \<longleftrightarrow> (\<forall>s. mm_inv E s \<and> dom (frames s) \<subseteq> dom (frames st) \<longrightarrow>
     page_free_count E s + card (dom (frames s)) = page_free_count E st + card (dom (frames st)))"

text \<open>A round of the page-out daemon has freed the first \<open>k\<close> pages of the list.\<close>

definition paged_out :: "nat \<Rightarrow> mm \<Rightarrow> mm \<Rightarrow> bool" where
  "paged_out k st st' \<longleftrightarrow> alloc_list st' = drop k (alloc_list st) \<and> pinned_list st' = pinned_list st
     \<and> (\<forall>pf. if pf \<in> set (take k (alloc_list st)) then frames st' pf = None else same_frame (frames st pf) (frames st' pf))
     \<and> (\<forall>pf\<in>set (take k (alloc_list st)). \<forall>f. frames st pf = Some f \<and> pf_dirty f \<longrightarrow> saved st (mm_log st') f)
     \<and> set (mm_log st) \<subseteq> set (mm_log st')"

text \<open>What freeing a frame records, and what has been freed according to the log.\<close>

definition detach_events :: "layout \<Rightarrow> mm_env \<Rightarrow> objid \<Rightarrow> pframe \<Rightarrow> pf_event list" where
  "detach_events L E ob f =
     PfTlbFlush (pf_addr f) # concat (map (pts_entry L (pf_pagenum f)) (bottom_vmas E ob)) @ [PageFreed (pf_addr f)]"

definition objs_freed :: "pf_event list \<Rightarrow> objid list" where
  "objs_freed log = concat (map (\<lambda>e. case e of ObjFreed ob \<Rightarrow> [ob] | _ \<Rightarrow> []) log)"

definition pages_freed :: "pf_event list \<Rightarrow> u32 list" where
  "pages_freed log = concat (map (\<lambda>e. case e of PageFreed a \<Rightarrow> [a] | _ \<Rightarrow> []) log)"

section \<open>Properties of page frames\<close>

lemma objs_freed_simps [simp]: "objs_freed [] = []" "objs_freed (e # log) = (case e of ObjFreed ob \<Rightarrow> [ob] | _ \<Rightarrow> []) @ objs_freed log"
  "objs_freed (xs @ ys) = objs_freed xs @ objs_freed ys"
  by (simp_all add: objs_freed_def)

lemma pages_freed_simps [simp]: "pages_freed [] = []" "pages_freed (e # log) = (case e of PageFreed a \<Rightarrow> [a] | _ \<Rightarrow> []) @ pages_freed log"
  "pages_freed (xs @ ys) = pages_freed xs @ pages_freed ys"
  by (simp_all add: pages_freed_def)

lemma int_length_remove1: "x \<in> set xs \<Longrightarrow> int (length (remove1 x xs)) = int (length xs) - 1"
  by (induction xs) auto

lemma filter_neq_remove1: "filter (\<lambda>y. y \<noteq> x) (remove1 x xs) = filter (\<lambda>y. y \<noteq> x) xs"
  by (induction xs) auto

named_theorems frame_upd "effects of the elementary updates of the page cache"

lemma upd_frame_Some [frame_upd]:
  "upd_frame pf g st = Some st' \<longleftrightarrow> (\<exists>f. frames st pf = Some f \<and> st' = st\<lparr>frames := (frames st)(pf \<mapsto> g f)\<rparr>)"
  by (auto simp: upd_frame_def split: Option.bind_splits)

lemma upd_obj_Some [frame_upd]:
  "upd_obj ob g st = Some st' \<longleftrightarrow> (\<exists>mo. mmobjs st ob = Some mo \<and> st' = st\<lparr>mmobjs := (mmobjs st)(ob \<mapsto> g mo)\<rparr>)"
  by (auto simp: upd_obj_def split: Option.bind_splits)

lemma mm_event_sel [simp]:
  "frames (mm_event e st) = frames st" "alloc_list (mm_event e st) = alloc_list st" "pinned_list (mm_event e st) = pinned_list st"
  "nallocated (mm_event e st) = nallocated st" "npinned (mm_event e st) = npinned st" "pframe_hash (mm_event e st) = pframe_hash st"
  "mmobjs (mm_event e st) = mmobjs st" "vnodes (mm_event e st) = vnodes st" "page_mem (mm_event e st) = page_mem st"
  "vnode_inuse_list (mm_event e st) = vnode_inuse_list st" "anon_temp_c (mm_event e st) = anon_temp_c st"
  "shadow_num (mm_event e st) = shadow_num st"
  "nfreepages_target (mm_event e st) = nfreepages_target st" "nfreepages_min (mm_event e st) = nfreepages_min st"
  by (simp_all add: mm_event_def)

lemma has_identity_iff: "has_identity st ob n pf \<longleftrightarrow> (\<exists>f. frames st pf = Some f \<and> pf_obj f = Some ob \<and> pf_pagenum f = n)"
  by (simp add: has_identity_def split: option.split)

text \<open>Changes that the invariant does not see: the log, the contents of pages, counters of the garbage collection.\<close>

lemma mm_inv_cong:
  assumes "mm_inv E st" and "frames st' = frames st" and "alloc_list st' = alloc_list st" and "pinned_list st' = pinned_list st"
    and "nallocated st' = nallocated st" and "npinned st' = npinned st" and "pframe_hash st' = pframe_hash st"
    and "mmobjs st' = mmobjs st" and "vnodes st' = vnodes st"
  shows "mm_inv E st'"
proof -
  have "has_identity st' = has_identity st" using assms(2) by (simp add: has_identity_def fun_eq_iff)
  with assms(1) show ?thesis
    unfolding mm_inv_def lists_ok_def hash_ok_def objs_ok_def obj_ok_def unique_ok_def assms(2-) by simp
qed

lemma mm_inv_event [simp]: "mm_inv E (mm_event e st) = mm_inv E st"
  using mm_inv_cong [of E st "mm_event e st"] mm_inv_cong [of E "mm_event e st" st] by auto

lemma mm_inv_mem [simp]: "mm_inv E (st\<lparr>page_mem := m\<rparr>) = mm_inv E st"
  using mm_inv_cong [of E st "st\<lparr>page_mem := m\<rparr>"] mm_inv_cong [of E "st\<lparr>page_mem := m\<rparr>" st] by auto

text \<open>A frame changes its flags only.\<close>

lemma has_identity_upd:
  assumes "frames st pf = Some f" and "pf_obj g = pf_obj f" and "pf_pagenum g = pf_pagenum f"
  shows "has_identity (st\<lparr>frames := (frames st)(pf \<mapsto> g)\<rparr>) = has_identity st"
  using assms by (auto simp: has_identity_def fun_eq_iff)

lemma mm_inv_flags:
  assumes inv: "mm_inv E st" and f: "frames st pf = Some f" and g: "pf_obj g = pf_obj f" "pf_pagenum g = pf_pagenum f"
    "pf_addr g = pf_addr f" and pin: "pf_pincount g = pf_pincount f"
  shows "mm_inv E (st\<lparr>frames := (frames st)(pf \<mapsto> g)\<rparr>)"
proof -
  note id = has_identity_upd [OF f g(1,2)]
  have "lists_ok (st\<lparr>frames := (frames st)(pf \<mapsto> g)\<rparr>)"
    using inv f pin by (auto simp: mm_inv_def lists_ok_def is_pinned_def)
  moreover have "objs_ok (st\<lparr>frames := (frames st)(pf \<mapsto> g)\<rparr>)"
    using inv f g by (auto simp: mm_inv_def objs_ok_def obj_ok_def id)
  moreover have "unique_ok (st\<lparr>frames := (frames st)(pf \<mapsto> g)\<rparr>)"
    using inv f g unfolding mm_inv_def unique_ok_def id by auto
  ultimately show ?thesis using inv by (simp add: mm_inv_def hash_ok_def id)
qed

subsection \<open>Finding a page\<close>

lemma hash_member:
  assumes "mm_inv E st"
  shows "pf \<in> set (pframe_hash st h) \<longleftrightarrow> (\<exists>ob n. has_identity st ob n pf \<and> hash_page E ob n = h)"
  using assms by (simp add: mm_inv_def hash_ok_def)

lemma identity_unique: "mm_inv E st \<Longrightarrow> has_identity st ob n pf \<Longrightarrow> has_identity st ob n pf' \<Longrightarrow> pf = pf'"
  by (auto simp: mm_inv_def unique_ok_def)

lemma find_resident:
  assumes "mm_inv E st"
  shows "List.find (has_identity st ob n) (pframe_hash st (hash_page E ob n)) = Some pf \<longleftrightarrow> has_identity st ob n pf"
proof
  assume "List.find (has_identity st ob n) (pframe_hash st (hash_page E ob n)) = Some pf"
  then show "has_identity st ob n pf" by (auto simp: find_Some_iff)
next
  assume h: "has_identity st ob n pf"
  then have "pf \<in> set (pframe_hash st (hash_page E ob n))" by (auto simp: hash_member [OF assms])
  then obtain pf' where "List.find (has_identity st ob n) (pframe_hash st (hash_page E ob n)) = Some pf'"
    using h by (cases "List.find (has_identity st ob n) (pframe_hash st (hash_page E ob n))") (auto simp: find_None_iff)
  moreover from this have "has_identity st ob n pf'" by (auto simp: find_Some_iff)
  ultimately show "List.find (has_identity st ob n) (pframe_hash st (hash_page E ob n)) = Some pf"
    using identity_unique [OF assms h] by simp
qed

lemma find_not_resident:
  assumes "mm_inv E st"
  shows "List.find (has_identity st ob n) (pframe_hash st (hash_page E ob n)) = None \<longleftrightarrow> (\<nexists>pf. has_identity st ob n pf)"
  using find_resident [OF assms, of ob n] by (metis not_None_eq)

lemma mm_inv_alloc_order:
  assumes "mm_inv E st" and "mset al = mset (alloc_list st)"
  shows "mm_inv E (st\<lparr>alloc_list := al\<rparr>)"
proof -
  have "set al = set (alloc_list st)" "length al = length (alloc_list st)" "distinct al = distinct (alloc_list st)"
    using assms(2) by (auto dest: mset_eq_setD mset_eq_length simp: distinct_count_atmost_1 count_mset)
  with assms(1) show ?thesis
    by (simp add: mm_inv_def lists_ok_def hash_ok_def objs_ok_def obj_ok_def unique_ok_def has_identity_def)
qed

lemma get_resident_cases:
  assumes inv: "mm_inv E st"
  obtains (absent) "\<nexists>pf. has_identity st ob n pf" "pframe_get_resident E ob n st = (None, st)"
    | (present) pf al where "has_identity st ob n pf" "pframe_get_resident E ob n st = (Some pf, st\<lparr>alloc_list := al\<rparr>)"
      "mset al = mset (alloc_list st)"
proof (cases "List.find (has_identity st ob n) (pframe_hash st (hash_page E ob n))")
  case None
  with absent show thesis by (simp add: pframe_get_resident_def find_not_resident [OF inv])
next
  case (Some pf)
  then have id: "has_identity st ob n pf" by (simp add: find_resident [OF inv])
  then obtain f where f: "frames st pf = Some f" by (auto simp: has_identity_iff)
  show thesis
  proof (cases "is_pinned f")
    case True
    with Some f id show thesis using present [of pf "alloc_list st"] by (simp add: pframe_get_resident_def)
  next
    case False
    with inv f have "pf \<notin> set (pinned_list st)" "pf \<in> set (alloc_list st)"
      by (auto simp: mm_inv_def lists_ok_def dom_def)
    then have "unlink_frame pf st = st\<lparr>alloc_list := remove1 pf (alloc_list st)\<rparr>" "mset (remove1 pf (alloc_list st) @ [pf]) = mset (alloc_list st)"
      by (simp_all add: unlink_frame_def remove1_idem)
    with Some f id False show thesis
      using present [of pf "remove1 pf (alloc_list st) @ [pf]"] by (simp add: pframe_get_resident_def)
  qed
qed

lemma has_identity_alloc_list [simp]: "has_identity (st\<lparr>alloc_list := al\<rparr>) = has_identity st"
  by (simp add: has_identity_def fun_eq_iff)

lemma unbusy_loop_quiet:
  assumes "frames st pf = Some f" and "\<not> pf_busy f"
  shows "unbusy_loop E ob n pf st = Some (pf, st)"
  using assms by (subst unbusy_loop.simps) simp

subsection \<open>Adding and removing a frame\<close>

lemma has_identity_add:
  assumes "frames st pf = None"
  shows "has_identity (add_frame E ob n pf a mo st) ob' n' pf' \<longleftrightarrow> has_identity st ob' n' pf' \<or> ob' = ob \<and> n' = n \<and> pf' = pf"
  using assms by (auto simp: has_identity_def add_frame_def new_frame_def)

lemma add_frame_inv:
  assumes inv: "mm_inv E st" and pf: "frames st pf = None" and a: "\<And>pf' f. frames st pf' = Some f \<Longrightarrow> pf_addr f \<noteq> a"
    and mo: "mmobjs st ob = Some mo" and new: "\<nexists>pf. has_identity st ob n pf"
  shows "mm_inv E (add_frame E ob n pf a mo st)"
proof -
  let ?st = "add_frame E ob n pf a mo st"
  note id = has_identity_add [OF pf]
  have out: "pf \<notin> set (alloc_list st)" "pf \<notin> set (pinned_list st)" "\<not> has_identity st ob' n' pf" for ob' n'
    using inv pf by (auto simp: mm_inv_def lists_ok_def has_identity_iff)
  have "lists_ok ?st" using inv out by (auto simp: mm_inv_def lists_ok_def add_frame_def is_pinned_def new_frame_def)
  moreover have "hash_ok E ?st"
    using inv out unfolding mm_inv_def hash_ok_def id by (auto simp: add_frame_def)
  moreover have "obj_ok ?st ob' mo'" if "mmobjs ?st ob' = Some mo'" for ob' mo'
  proof (cases "ob' = ob")
    case True
    then have mo': "mo' = mo\<lparr>mmo_refcount := mmo_refcount mo + 1, mmo_nrespages := mmo_nrespages mo + 1, mmo_respages := pf # mmo_respages mo\<rparr>"
      using that by (simp add: add_frame_def)
    have "obj_ok st ob mo" using inv mo by (auto simp: mm_inv_def objs_ok_def)
    with True out show ?thesis unfolding obj_ok_def id mo' by (auto simp: add_frame_def)
  next
    case False
    then have "obj_ok st ob' mo'" using inv that by (auto simp: mm_inv_def objs_ok_def add_frame_def)
    with False show ?thesis unfolding obj_ok_def id by (simp add: add_frame_def)
  qed
  moreover have "\<forall>pf' f. frames ?st pf' = Some f \<longrightarrow> (\<exists>ob. pf_obj f = Some ob \<and> ob \<in> dom (mmobjs ?st))"
    using inv by (auto simp: mm_inv_def objs_ok_def add_frame_def new_frame_def) blast
  moreover have "unique_ok ?st"
  proof -
    have "\<forall>pf1 pf2 f1 f2. frames ?st pf1 = Some f1 \<and> frames ?st pf2 = Some f2 \<and> pf_addr f1 = pf_addr f2 \<longrightarrow> pf1 = pf2"
      using inv a by (auto simp: mm_inv_def unique_ok_def add_frame_def new_frame_def) 
    then show ?thesis using inv new out unfolding mm_inv_def unique_ok_def id by blast
  qed
  ultimately show ?thesis by (simp add: mm_inv_def objs_ok_def)
qed

lemma has_identity_drop:
  "has_identity (drop_frame ob pf mo st) ob' n' pf' \<longleftrightarrow> has_identity st ob' n' pf' \<and> pf' \<noteq> pf"
  by (auto simp: has_identity_def drop_frame_def split: option.split)

lemma drop_frame_inv:
  assumes inv: "mm_inv E st" and f: "frames st pf = Some f" "\<not> is_pinned f" "pf_obj f = Some ob" and mo: "mmobjs st ob = Some mo"
  shows "mm_inv E (drop_frame ob pf mo st)"
proof -
  let ?st = "drop_frame ob pf mo st"
  have al: "pf \<in> set (alloc_list st)" "pf \<notin> set (pinned_list st)" using inv f by (auto simp: mm_inv_def lists_ok_def dom_def)
  with inv have "lists_ok ?st" by (auto simp: mm_inv_def lists_ok_def drop_frame_def int_length_remove1)
  moreover have "hash_ok E ?st"
    using inv unfolding mm_inv_def hash_ok_def has_identity_drop by (auto simp: drop_frame_def)
  moreover have "obj_ok ?st ob' mo'" if mo': "mmobjs ?st ob' = Some mo'" for ob' mo'
  proof (cases "ob' = ob")
    case True
    have ok: "obj_ok st ob mo" using inv mo by (auto simp: mm_inv_def objs_ok_def)
    then have "pf \<in> set (mmo_respages mo)" using f by (auto simp: obj_ok_def has_identity_iff)
    then have "int (length (remove1 pf (mmo_respages mo))) = int (length (mmo_respages mo)) - 1" by (rule int_length_remove1)
    then show ?thesis
      using ok True mo' unfolding obj_ok_def has_identity_drop by (auto simp: drop_frame_def)
  next
    case False
    then have ok: "obj_ok st ob' mo'" using inv mo' by (auto simp: mm_inv_def objs_ok_def drop_frame_def)
    have "\<not> has_identity st ob' n pf" for n using f False by (auto simp: has_identity_iff)
    with ok False show ?thesis unfolding obj_ok_def has_identity_drop by (auto simp: drop_frame_def)
  qed
  moreover have "\<forall>pf' f. frames ?st pf' = Some f \<longrightarrow> (\<exists>ob. pf_obj f = Some ob \<and> ob \<in> dom (mmobjs ?st))"
    using inv by (auto simp: mm_inv_def objs_ok_def drop_frame_def) blast
  moreover have "unique_ok ?st"
    using inv unfolding mm_inv_def unique_ok_def has_identity_drop by (auto simp: drop_frame_def split: if_splits)
  ultimately show ?thesis by (simp add: mm_inv_def objs_ok_def)
qed

lemma pframe_detach_eq:
  assumes inv: "mm_inv E st" and f: "frames st pf = Some f" "\<not> is_pinned f" "\<not> pf_busy f" "pf_obj f = Some ob"
    and mo: "mmobjs st ob = Some mo"
  shows "pframe_detach L E pf st = Some (ob, (drop_frame ob pf mo st)\<lparr>mm_log := mm_log st @ detach_events L E ob f\<rparr>)"
proof -
  have "pf \<notin> set (pinned_list st)" using inv f by (auto simp: mm_inv_def lists_ok_def)
  then show ?thesis using f mo
    by (simp add: pframe_detach_def pframe_remove_from_pts_def mm_event_def Let_def unlink_frame_def upd_obj_def drop_frame_def
        remove1_idem detach_events_def)
qed

lemma freed_detach_events [simp]: "objs_freed (detach_events L E ob f) = []" "pages_freed (detach_events L E ob f) = [pf_addr f]"
proof -
  have "objs_freed (pts_entry L n x) = [] \<and> pages_freed (pts_entry L n x) = []" for n x
    by (simp add: pts_entry_def split: prod.split option.split)
  then have "objs_freed (concat (map (pts_entry L n) xs)) = [] \<and> pages_freed (concat (map (pts_entry L n) xs)) = []" for n xs
    by (induction xs) simp_all
  then show "objs_freed (detach_events L E ob f) = []" "pages_freed (detach_events L E ob f) = [pf_addr f]"
    by (simp_all add: detach_events_def)
qed

subsection \<open>Pinning\<close>

lemma mm_inv_repin:
  assumes inv: "mm_inv E st" and f: "frames st pf = Some f" and k: "0 \<le> k"
    and lists: "distinct (al @ pl)" "set al \<union> set pl = dom (frames st)" "na = int (length al)" "np = int (length pl)"
    and moved: "pf \<in> set pl \<longleftrightarrow> 0 < k" "\<And>x. x \<noteq> pf \<Longrightarrow> x \<in> set pl \<longleftrightarrow> x \<in> set (pinned_list st)"
  shows "mm_inv E (repin pf f k al pl na np st)"
  unfolding repin_def
proof -
  let ?st = "st\<lparr>frames := (frames st)(pf \<mapsto> f\<lparr>pf_pincount := k\<rparr>), alloc_list := al, pinned_list := pl,
    nallocated := na, npinned := np\<rparr>" 
  have id: "has_identity ?st = has_identity st"
    using f by (auto simp: has_identity_def fun_eq_iff)
  have "lists_ok ?st" using inv f k lists moved by (auto simp: mm_inv_def lists_ok_def is_pinned_def)
  moreover have "objs_ok ?st" using inv f by (auto simp: mm_inv_def objs_ok_def obj_ok_def id)
  moreover have "unique_ok ?st" using inv f unfolding mm_inv_def unique_ok_def id by auto
  ultimately show "mm_inv E ?st" using inv by (simp add: mm_inv_def hash_ok_def id)
qed

lemma frame_on_list:
  assumes "mm_inv E st" and "frames st pf = Some f"
  shows "is_pinned f \<Longrightarrow> pf \<in> set (pinned_list st)" and "is_pinned f \<Longrightarrow> pf \<notin> set (alloc_list st)"
    and "\<not> is_pinned f \<Longrightarrow> pf \<in> set (alloc_list st)" and "\<not> is_pinned f \<Longrightarrow> pf \<notin> set (pinned_list st)" and "0 \<le> pf_pincount f"
  using assms by (auto simp: mm_inv_def lists_ok_def dom_def)

lemma pframe_pin_ok:
  assumes inv: "mm_inv E st" and f: "frames st pf = Some f"
  obtains al pl na np where "pframe_pin pf st = Some (repin pf f (pf_pincount f + 1) al pl na np st)"
    and "mm_inv E (repin pf f (pf_pincount f + 1) al pl na np st)" and "set al = set (alloc_list st) - {pf}"
proof (cases "is_pinned f")
  case True
  note on = frame_on_list [OF inv f]
  have "pframe_pin pf st = Some (repin pf f (pf_pincount f + 1) (alloc_list st) (pinned_list st) (nallocated st) (npinned st) st)"
    using on True f by (simp add: repin_def pframe_pin_def upd_frame_def)
  moreover have "mm_inv E (repin pf f (pf_pincount f + 1) (alloc_list st) (pinned_list st) (nallocated st) (npinned st) st)"
    using inv on True by (intro mm_inv_repin [OF inv f]) (auto simp: mm_inv_def lists_ok_def)
  ultimately show thesis using that on True by blast
next
  case False
  note on = frame_on_list [OF inv f]
  let ?al = "remove1 pf (alloc_list st)" and ?pl = "pinned_list st @ [pf]"
  have L: "lists_ok st" using inv by (simp add: mm_inv_def)
  have "pframe_pin pf st = Some (repin pf f (pf_pincount f + 1) ?al ?pl (nallocated st - 1) (npinned st + 1) st)"
    using on False f by (simp add: repin_def pframe_pin_def upd_frame_def unlink_frame_def remove1_idem Let_def)
  moreover have "mm_inv E (repin pf f (pf_pincount f + 1) ?al ?pl (nallocated st - 1) (npinned st + 1) st)"
    using L on False int_length_remove1 [of pf "alloc_list st"]
    by (intro mm_inv_repin [OF inv f]) (auto simp: lists_ok_def)
  ultimately show thesis using that L by (auto simp: lists_ok_def)
qed

lemma pframe_unpin_ok:
  assumes inv: "mm_inv E st" and f: "frames st pf = Some f" and le: "pf_pincount f \<le> 1"
  obtains al pl na np where "pframe_unpin pf st = Some (repin pf f 0 al pl na np st)"
    and "mm_inv E (repin pf f 0 al pl na np st)" and "filter (\<lambda>x. x \<noteq> pf) al = filter (\<lambda>x. x \<noteq> pf) (alloc_list st)"
    and "filter (\<lambda>x. x \<noteq> pf) pl = filter (\<lambda>x. x \<noteq> pf) (pinned_list st)"
proof (cases "is_pinned f")
  case True
  note on = frame_on_list [OF inv f]
  let ?pl = "remove1 pf (pinned_list st)" and ?al = "alloc_list st @ [pf]"
  have one: "pf_pincount f = 1" using True le by (simp add: is_pinned_def)
  have L: "lists_ok st" using inv by (simp add: mm_inv_def)
  have run: "pframe_unpin pf st = Some (repin pf f 0 ?al ?pl (nallocated st + 1) (npinned st - 1) st)"
    using on True f one by (simp add: repin_def pframe_unpin_def upd_frame_def unlink_frame_def remove1_idem Let_def)
  have inv': "mm_inv E (repin pf f 0 ?al ?pl (nallocated st + 1) (npinned st - 1) st)"
    using L on True int_length_remove1 [of pf "pinned_list st"]
    by (intro mm_inv_repin [OF inv f]) (auto simp: lists_ok_def)
  show thesis by (rule that [OF run inv']) (simp_all add: filter_neq_remove1)
next
  case False
  note on = frame_on_list [OF inv f]
  have "pf_pincount f = 0" using False on(5) by (simp add: is_pinned_def)
  then have "f\<lparr>pf_pincount := 0\<rparr> = f" by simp
  then have "(frames st)(pf \<mapsto> f\<lparr>pf_pincount := 0\<rparr>) = frames st" using f by auto
  with on False that [of "alloc_list st" "pinned_list st" "nallocated st" "npinned st"] inv show thesis
    by (simp add: repin_def pframe_unpin_def)
qed

subsection \<open>What the page cache expects of memory objects\<close>

lemma mm_inv_refcount:
  assumes inv: "mm_inv E st" and mo: "mmobjs st ob = Some mo" and le: "mmo_nrespages mo \<le> mmo_refcount mo + d"
  shows "mm_inv E (ref_state ob mo d st)"
proof -
  have id: "has_identity (ref_state ob mo d st) = has_identity st" by (simp add: ref_state_def has_identity_def fun_eq_iff)
  have "obj_ok (ref_state ob mo d st) ob' mo'" if mo': "mmobjs (ref_state ob mo d st) ob' = Some mo'" for ob' mo'
  proof (cases "ob' = ob")
    case True
    have "obj_ok st ob mo" using inv mo by (auto simp: mm_inv_def objs_ok_def)
    with True mo' le show ?thesis unfolding obj_ok_def id by (auto simp: ref_state_def)
  next
    case False
    then have "obj_ok st ob' mo'" using inv mo' by (auto simp: mm_inv_def objs_ok_def ref_state_def)
    then show ?thesis unfolding obj_ok_def id by (simp add: ref_state_def)
  qed
  moreover have "frames (ref_state ob mo d st) = frames st" "dom (mmobjs (ref_state ob mo d st)) = dom (mmobjs st)"
    using mo by (auto simp: ref_state_def)
  ultimately have "objs_ok (ref_state ob mo d st)" using inv by (simp add: mm_inv_def objs_ok_def)
  then show ?thesis
    using inv unfolding mm_inv_def lists_ok_def hash_ok_def unique_ok_def id by (simp add: ref_state_def)
qed

text \<open>An object without pages can go.\<close>

lemma no_pages:
  assumes "mm_inv E st" and "mmobjs st ob = Some mo" and "mmo_respages mo = []" and "frames st pf = Some f"
  shows "pf_obj f \<noteq> Some ob"
proof -
  have "obj_ok st ob mo" using assms(1,2) by (auto simp: mm_inv_def objs_ok_def)
  then show ?thesis using assms(3,4) by (force simp: obj_ok_def has_identity_iff)
qed

lemma mm_inv_drop_object:
  assumes inv: "mm_inv E st" and mo: "mmobjs st ob = Some mo" "mmo_respages mo = []"
  shows "mm_inv E (st\<lparr>mmobjs := (mmobjs st)(ob := None)\<rparr>)"
  using no_pages [OF assms] inv
  by (fastforce simp: mm_inv_def lists_ok_def hash_ok_def objs_ok_def obj_ok_def unique_ok_def has_identity_def)

lemma mm_inv_forget_vnode:
  assumes inv: "mm_inv E st" and mo: "mmobjs st ob = Some mo" "mmo_respages mo = []"
  shows "mm_inv E (forget_vnode ob ev st)"
  using no_pages [OF assms] inv
  by (fastforce simp: mm_inv_def lists_ok_def hash_ok_def objs_ok_def obj_ok_def unique_ok_def has_identity_def forget_vnode_def)

lemma same_frame_refl [simp]: "same_frame x x"
  by (cases x) (simp_all add: same_frame_def)

lemma same_frame_trans: "same_frame x y \<Longrightarrow> same_frame y z \<Longrightarrow> same_frame x z"
  by (auto simp: same_frame_def split: option.splits)

lemma kept_objects_refl: "mmobjs st' = mmobjs st \<Longrightarrow> vnodes st' = vnodes st \<Longrightarrow> kept_objects st st'"
  by (simp add: kept_objects_def)

lemma kept_ops:
  assumes "kept_objects st st'" and "mm_inv E st'" and "frames st' pf = Some f" and "pf_obj f = Some ob"
  shows "map_option mmo_ops (mmobjs st' ob) = map_option mmo_ops (mmobjs st ob)"
proof -
  obtain mo' where "mmobjs st' ob = Some mo'" using assms(2-4) unfolding mm_inv_def objs_ok_def by (metis domD option.inject)
  moreover from this obtain mo where "mmobjs st ob = Some mo" "mmo_ops mo' = mmo_ops mo" using assms(1) unfolding kept_objects_def by blast
  ultimately show ?thesis by simp
qed

lemma reclaimable_mono:
  assumes "reclaimable E st" and "kept_objects st st'" and "set (alloc_list st') \<subseteq> set (alloc_list st)"
    and "\<And>x f. frames st' x = Some f \<Longrightarrow> \<exists>g. frames st x = Some g \<and> pf_obj g = pf_obj f"
  shows "reclaimable E st'"
  unfolding reclaimable_def
proof (intro ballI allI impI, elim conjE)
  fix pf f ob mo'
  assume h: "pf \<in> set (alloc_list st')" "frames st' pf = Some f" "pf_obj f = Some ob" "mmobjs st' ob = Some mo'"
  obtain g where g: "frames st pf = Some g" "pf_obj g = Some ob" using assms(4) [OF h(2)] h(3) by auto
  obtain mo where mo: "mmobjs st ob = Some mo" "mmo_ops mo' = mmo_ops mo" "vnodes st' ob = vnodes st ob"
    "mmo_refcount mo' - mmo_nrespages mo' = mmo_refcount mo - mmo_nrespages mo" using assms(2) h(4) by (auto simp: kept_objects_def)
  have "mmo_nrespages mo < mmo_refcount mo \<or> linked_vnode E st ob mo" using assms(1,3) h(1) g mo(1) unfolding reclaimable_def by blast
  then show "mmo_nrespages mo' < mmo_refcount mo' \<or> linked_vnode E st' ob mo'" using mo by (auto simp: linked_vnode_def)
qed

lemma frames_counted_mono: "frames_counted E st \<Longrightarrow> mm_inv E st' \<Longrightarrow> dom (frames st') \<subseteq> dom (frames st) \<Longrightarrow> frames_counted E st'"
  unfolding frames_counted_def by (metis order_trans)

lemma cleanable_mono:
  assumes "cleanable cleanpage st" and "page_mem st' = page_mem st" and kept: "kept_objects st st'" "mm_inv E st'"
    and "\<And>x f. x \<in> set (alloc_list st') \<Longrightarrow> frames st' x = Some f \<Longrightarrow> pf_dirty f \<Longrightarrow> x \<in> set (alloc_list st) \<and> frames st x = Some f"
  shows "cleanable cleanpage st'"
  unfolding cleanable_def
proof (intro allI impI, elim conjE)
  fix pf f ob s ret s'
  assume h: "pf \<in> set (alloc_list st')" "frames st' pf = Some f" "pf_dirty f" "pf_obj f = Some ob" "alike st' s pf"
    "cleanpage ob pf s = Some (ret, s')"
  have "pf \<in> set (alloc_list st)" "frames st pf = Some f" using assms(5) [OF h(1-3)] by auto
  moreover from this have "alike st s pf" using h(2,5) assms(2) kept_ops [OF kept h(2)] by (simp add: alike_def)
  ultimately show "0 \<le> ret" using assms(1) h unfolding cleanable_def by blast
qed

locale memory_objects =
  fixes L :: layout and E :: mm_env
    and ref :: "objid \<Rightarrow> mm \<Rightarrow> mm option" and put :: "objid \<Rightarrow> mm \<Rightarrow> mm option"
    and cleanpage :: "objid \<Rightarrow> pfid \<Rightarrow> mm \<Rightarrow> (int \<times> mm) option"
  assumes ref_more: "mmobjs st ob = Some mo \<Longrightarrow> 0 < mmo_refcount mo \<Longrightarrow> ref ob st = Some (ref_state ob mo 1 st)"
    and put_less: "mmobjs st ob = Some mo \<Longrightarrow> vnode_ready st ob mo \<Longrightarrow> 0 \<le> mmo_nrespages mo \<Longrightarrow> mmo_nrespages mo + 1 < mmo_refcount mo \<Longrightarrow>
      put ob st = Some (ref_state ob mo (- 1) st)"
    and put_linked: "mmobjs st ob = Some mo \<Longrightarrow> vnode_ready st ob mo \<Longrightarrow> 0 < mmo_nrespages mo \<Longrightarrow> mmo_nrespages mo + 1 = mmo_refcount mo \<Longrightarrow>
      linked_vnode E st ob mo \<Longrightarrow> put ob st = Some (ref_state ob mo (- 1) st)"
    and put_vnode: "mmobjs st ob = Some mo \<Longrightarrow> vnode_ready st ob mo \<Longrightarrow> mmo_nrespages mo = 0 \<Longrightarrow> mmo_refcount mo = 1 \<Longrightarrow>
      linked_vnode E st ob mo \<Longrightarrow> \<exists>ev. put ob st = Some (forget_vnode ob ev st)"
    and clean_logs: "frames st pf = Some f \<Longrightarrow> pf_obj f = Some ob \<Longrightarrow> ob \<in> dom (mmobjs st) \<Longrightarrow>
      \<exists>ret ev. cleanpage ob pf st = Some (ret, st\<lparr>mm_log := mm_log st @ ev\<rparr>) \<and> (0 \<le> ret \<longrightarrow> saved st ev f)"
begin

lemma pframe_alloc_eq:
  assumes "slab_pframe E st = Some pf" "page_alloc E st = Some a" "mmobjs st ob = Some mo" "0 < mmo_refcount mo"
  shows "pframe_alloc ref E ob n st = Some (Some pf, add_frame E ob n pf a mo st)"
proof -
  let ?h = "hash_page E ob n"
  let ?st = "st\<lparr>nallocated := nallocated st + 1, alloc_list := alloc_list st @ [pf], frames := (frames st)(pf \<mapsto> new_frame ob n a),
    pframe_hash := (pframe_hash st)(?h := pf # pframe_hash st ?h)\<rparr>"
  have "ref ob ?st = Some (ref_state ob mo 1 ?st)" using ref_more [of ?st ob mo] assms(3,4) by simp
  then show ?thesis using assms by (simp add: pframe_alloc_def Let_def new_frame_def ref_state_def upd_obj_def add_frame_def)
qed

text \<open>Cleaning a page that is not pinned: it is written back, and dirty afterwards just when that fails.\<close>

lemma pframe_clean_ok:
  assumes inv: "mm_inv E st" and f: "frames st pf = Some f" "pf_dirty f" "\<not> is_pinned f"
  obtains ret st' where "pframe_clean cleanpage L E pf st = Some (ret, st')" "mm_inv E st'"
    "frames st' = (frames st)(pf \<mapsto> f\<lparr>pf_dirty := ret < 0, pf_busy := False\<rparr>)" "alloc_list st' = alloc_list st"
    "nallocated st' = nallocated st" "mmobjs st' = mmobjs st" "vnodes st' = vnodes st" "nfreepages_target st' = nfreepages_target st"
    "page_mem st' = page_mem st" "pinned_list st' = pinned_list st" "set (mm_log st) \<subseteq> set (mm_log st')"
    "0 \<le> ret \<longrightarrow> saved st (mm_log st') f" "cleanable cleanpage st \<and> pf \<in> set (alloc_list st) \<longrightarrow> 0 \<le> ret"
    "vnode_inuse_list st' = vnode_inuse_list st"
proof -
  obtain ob where ob: "pf_obj f = Some ob" "ob \<in> dom (mmobjs st)" using inv f unfolding mm_inv_def objs_ok_def by blast
  have zero: "pf_pincount f = 0" using frame_on_list(5) [OF inv f(1)] f(3) by (simp add: is_pinned_def)
  let ?ev1 = "PfTlbFlush (pf_addr f) # concat (map (pts_entry L (pf_pagenum f)) (bottom_vmas E ob))"
  let ?st = "st\<lparr>mm_log := mm_log st @ ?ev1, frames := (frames st)(pf \<mapsto> f\<lparr>pf_dirty := False, pf_busy := True\<rparr>)\<rparr>"
  have "frames ?st pf = Some (f\<lparr>pf_dirty := False, pf_busy := True\<rparr>)" by simp
  then obtain ret ev where clean: "cleanpage ob pf ?st = Some (ret, ?st\<lparr>mm_log := mm_log ?st @ ev\<rparr>)"
    and saved: "0 \<le> ret \<longrightarrow> saved ?st ev (f\<lparr>pf_dirty := False, pf_busy := True\<rparr>)"
    using clean_logs [of ?st pf "f\<lparr>pf_dirty := False, pf_busy := True\<rparr>" ob] ob by auto
  let ?g = "f\<lparr>pf_dirty := ret < 0, pf_busy := False\<rparr>"
  let ?st' = "st\<lparr>frames := (frames st)(pf \<mapsto> ?g), mm_log := mm_log st @ ?ev1 @ ev @ [PfBroadcast pf]\<rparr>"
  have "pframe_clean cleanpage L E pf st = Some (ret, ?st')"
    using f zero ob clean
    by (cases "ret < 0") (simp_all add: pframe_clean_def set_dirty_def set_busy_def upd_frame_def pframe_remove_from_pts_def mm_event_def Let_def)
  moreover have "mm_inv E (st\<lparr>frames := (frames st)(pf \<mapsto> ?g)\<rparr>)" by (rule mm_inv_flags [OF inv f(1)]) simp_all
  then have "mm_inv E ?st'" by (rule mm_inv_cong) simp_all
  moreover have "0 \<le> ret \<longrightarrow> saved st (mm_log ?st') f" using saved by (auto simp: saved_def)
  moreover have "alike st ?st pf" using f(1) by (simp add: alike_def same_frame_def)
  then have "cleanable cleanpage st \<and> pf \<in> set (alloc_list st) \<longrightarrow> 0 \<le> ret" using clean f(1,2) ob(1) unfolding cleanable_def by blast
  ultimately show thesis using that [of ret ?st'] by auto
qed

text \<open>Freeing a page whose object is in use elsewhere.\<close>

lemma pframe_free_ok:
  assumes inv: "mm_inv E st" and f: "frames st pf = Some f" "\<not> is_pinned f" "\<not> pf_busy f" "pf_obj f = Some ob"
    and mo: "mmobjs st ob = Some mo" "mmo_nrespages mo < mmo_refcount mo"
  obtains st' where "pframe_free put L E pf st = Some st'" "mm_inv E st'" "frames st' = (frames st)(pf := None)"
    "alloc_list st' = remove1 pf (alloc_list st)" "pinned_list st' = pinned_list st" "nfreepages_target st' = nfreepages_target st"
    "mmobjs st' = (mmobjs st)(ob \<mapsto> mo\<lparr>mmo_nrespages := mmo_nrespages mo - 1, mmo_respages := remove1 pf (mmo_respages mo),
      mmo_refcount := mmo_refcount mo - 1\<rparr>)" "page_mem st' = page_mem st" "set (mm_log st) \<subseteq> set (mm_log st')"
    "vnodes st' = vnodes st" "vnode_inuse_list st' = vnode_inuse_list st"
proof -
  obtain ev where d: "pframe_detach L E pf st = Some (ob, (drop_frame ob pf mo st)\<lparr>mm_log := mm_log st @ ev\<rparr>)" (is "_ = Some (ob, ?st)")
    using pframe_detach_eq [OF inv f mo(1)] by blast
  let ?mo = "mo\<lparr>mmo_nrespages := mmo_nrespages mo - 1, mmo_respages := remove1 pf (mmo_respages mo)\<rparr>"
  have ok: "obj_ok st ob mo" using inv mo by (auto simp: mm_inv_def objs_ok_def)
  then have mem: "pf \<in> set (mmo_respages mo)" using f by (auto simp: obj_ok_def has_identity_iff)
  then have pos: "0 < mmo_nrespages mo" using ok length_pos_if_in_set [OF mem] by (simp add: obj_ok_def)
  have "put ob ?st = Some (ref_state ob ?mo (- 1) ?st)"
    using ok pos mo(2) by (intro put_less) (auto simp: drop_frame_def vnode_ready_def obj_ok_def)
  then have "pframe_free put L E pf st = Some (ref_state ob ?mo (- 1) ?st)" by (simp add: pframe_free_def d)
  moreover have "mm_inv E (ref_state ob ?mo (- 1) ?st)"
  proof (rule mm_inv_refcount)
    show "mm_inv E ?st" by (rule mm_inv_cong [OF drop_frame_inv [OF inv f(1,2,4) mo(1)]]) simp_all
    show "mmobjs ?st ob = Some ?mo" by (simp add: drop_frame_def)
    show "mmo_nrespages ?mo \<le> mmo_refcount ?mo + - 1" using mo by simp
  qed
  ultimately show thesis using that [of "ref_state ob ?mo (- 1) ?st"] by (simp add: ref_state_def drop_frame_def)
qed

text \<open>Freeing a page that may be reclaimed; the vnode of a file that nobody has open goes with its last page.\<close>

lemma pframe_free_reclaims:
  assumes inv: "mm_inv E st" and f: "frames st pf = Some f" "\<not> is_pinned f" "\<not> pf_busy f" "pf_obj f = Some ob"
    and mo: "mmobjs st ob = Some mo" and rec: "mmo_nrespages mo < mmo_refcount mo \<or> linked_vnode E st ob mo"
  obtains st' where "pframe_free put L E pf st = Some st'" "mm_inv E st'" "frames st' = (frames st)(pf := None)"
    "alloc_list st' = remove1 pf (alloc_list st)" "pinned_list st' = pinned_list st" "nfreepages_target st' = nfreepages_target st"
    "kept_objects st st'" "page_mem st' = page_mem st" "set (mm_log st) \<subseteq> set (mm_log st')"
proof (cases "mmo_nrespages mo < mmo_refcount mo")
  case True
  obtain st' where s: "pframe_free put L E pf st = Some st'" "mm_inv E st'" "frames st' = (frames st)(pf := None)"
    "alloc_list st' = remove1 pf (alloc_list st)" "pinned_list st' = pinned_list st" "nfreepages_target st' = nfreepages_target st"
    "mmobjs st' = (mmobjs st)(ob \<mapsto> mo\<lparr>mmo_nrespages := mmo_nrespages mo - 1, mmo_respages := remove1 pf (mmo_respages mo),
      mmo_refcount := mmo_refcount mo - 1\<rparr>)" "page_mem st' = page_mem st" "set (mm_log st) \<subseteq> set (mm_log st')" "vnodes st' = vnodes st"
    by (rule pframe_free_ok [OF inv f mo True])
  have "kept_objects st st'" using s(7,10) mo by (simp add: kept_objects_def)
  then show thesis using that [OF s(1-6) _ s(8,9)] by blast
next
  case False
  let ?ev = "detach_events L E ob f" and ?mo = "mo\<lparr>mmo_nrespages := mmo_nrespages mo - 1, mmo_respages := remove1 pf (mmo_respages mo)\<rparr>"
  let ?st = "(drop_frame ob pf mo st)\<lparr>mm_log := mm_log st @ ?ev\<rparr>"
  have d: "pframe_detach L E pf st = Some (ob, ?st)" by (rule pframe_detach_eq [OF inv f mo])
  have inv1: "mm_inv E ?st" by (rule mm_inv_cong [OF drop_frame_inv [OF inv f(1,2,4) mo]]) simp_all
  have mo1: "mmobjs ?st ob = Some ?mo" by (simp add: drop_frame_def)
  have ok: "obj_ok ?st ob ?mo" using inv1 mo1 by (auto simp: mm_inv_def objs_ok_def)
  have "obj_ok st ob mo" using inv mo by (auto simp: mm_inv_def objs_ok_def)
  then have eq: "mmo_nrespages mo = mmo_refcount mo" using False by (simp add: obj_ok_def)
  have link: "linked_vnode E ?st ob ?mo" "vnode_ready ?st ob ?mo" using rec False ok by (auto simp: linked_vnode_def drop_frame_def vnode_ready_def obj_ok_def)
  show thesis
  proof (cases "mmo_nrespages mo = 1")
    case True
    then obtain ev where put: "put ob ?st = Some (forget_vnode ob ev ?st)" using put_vnode [OF mo1 link(2) _ _ link(1)] eq by auto
    show thesis
    proof (rule that)
      show "pframe_free put L E pf st = Some (forget_vnode ob ev ?st)" by (simp add: pframe_free_def d put)
      show "mm_inv E (forget_vnode ob ev ?st)" by (rule mm_inv_forget_vnode [OF inv1 mo1]) (use ok True in \<open>simp add: obj_ok_def\<close>)
    qed (auto simp: forget_vnode_def drop_frame_def kept_objects_def)
  next
    case False
    moreover have "0 \<le> mmo_nrespages ?mo" using ok by (simp only: obj_ok_def of_nat_0_le_iff)
    ultimately have "0 < mmo_nrespages ?mo" by simp
    then have put: "put ob ?st = Some (ref_state ob ?mo (- 1) ?st)" using put_linked [OF mo1 link(2) _ _ link(1)] eq by simp
    show thesis
    proof (rule that)
      show "pframe_free put L E pf st = Some (ref_state ob ?mo (- 1) ?st)" by (simp add: pframe_free_def d put)
      show "mm_inv E (ref_state ob ?mo (- 1) ?st)" by (rule mm_inv_refcount [OF inv1 mo1]) (use eq in simp)
    qed (use mo in \<open>auto simp: ref_state_def drop_frame_def kept_objects_def\<close>)
  qed
qed

end

lemma first_dirty_ok:
  assumes inv: "mm_inv E st" and quiet: "quiet st" and al: "set al \<subseteq> set (alloc_list st)"
  shows "\<exists>r. first_dirty al st = Some r \<and> (case r of None \<Rightarrow> \<forall>pf\<in>set al. \<forall>f. frames st pf = Some f \<longrightarrow> \<not> pf_dirty f
    | Some pf \<Rightarrow> pf \<in> set al \<and> (\<exists>f. frames st pf = Some f \<and> pf_dirty f))"
  using al
proof (induction al)
  case (Cons pf pfs)
  have "pf \<in> dom (frames st)" using inv Cons.prems by (auto simp: mm_inv_def lists_ok_def)
  then obtain f where f: "frames st pf = Some f" by auto
  then have "\<not> is_pinned f" using inv Cons.prems by (auto simp: mm_inv_def lists_ok_def)
  moreover have "pf_obj f \<noteq> None" using inv f by (fastforce simp: mm_inv_def objs_ok_def)
  moreover have "\<not> pf_busy f" using quiet f by (simp add: quiet_def)
  moreover obtain r where "first_dirty pfs st = Some r" "case r of None \<Rightarrow> \<forall>pf\<in>set pfs. \<forall>f. frames st pf = Some f \<longrightarrow> \<not> pf_dirty f
    | Some pf \<Rightarrow> pf \<in> set pfs \<and> (\<exists>f. frames st pf = Some f \<and> pf_dirty f)" using Cons by auto
  ultimately show ?case using f by (auto split: option.splits)
qed simp

lemma dirty_count_clean:
  assumes "mm_inv E st" and "pf \<in> set (alloc_list st)" and "frames st pf = Some f" and "pf_dirty f"
    and "frames st' = (frames st)(pf \<mapsto> g)" and "\<not> pf_dirty g" and "alloc_list st' = alloc_list st"
  shows "dirty_count st' < dirty_count st"
proof -
  let ?d = "\<lambda>s. filter (\<lambda>x. pf_dirty (the (frames s x))) (alloc_list st)"
  have dist: "distinct (alloc_list st)" using assms(1) by (simp add: mm_inv_def lists_ok_def)
  have "set (?d st') \<subseteq> set (?d st)" using assms(5,6) by (auto split: if_splits)
  moreover have "pf \<in> set (?d st)" "pf \<notin> set (?d st')" using assms(2-6) by auto
  ultimately have "card (set (?d st')) < card (set (?d st))" by (intro psubset_card_mono) auto
  then show ?thesis using dist assms(7) by (simp add: dirty_count_def distinct_card del: set_filter)
qed

context memory_objects
begin

lemma clean_all_ok:
  assumes "mm_inv E st" and "quiet st" and "cleanable cleanpage st"
  shows "\<exists>st'. pframe_clean_all cleanpage L E st = Some st' \<and> mm_inv E st' \<and> quiet st' \<and> alloc_list st' = alloc_list st
    \<and> pinned_list st' = pinned_list st \<and> mmobjs st' = mmobjs st \<and> vnodes st' = vnodes st \<and> page_mem st' = page_mem st
    \<and> (\<forall>pf. same_frame (frames st pf) (frames st' pf))
    \<and> (\<forall>pf\<in>set (alloc_list st). \<forall>f. frames st' pf = Some f \<longrightarrow> \<not> pf_dirty f)
    \<and> set (mm_log st) \<subseteq> set (mm_log st')
    \<and> (\<forall>pf\<in>set (alloc_list st). \<forall>f. frames st pf = Some f \<and> pf_dirty f \<longrightarrow> saved st (mm_log st') f)"
  using assms
proof (induction "dirty_count st" arbitrary: st rule: less_induct)
  case less
  obtain r where r: "first_dirty (alloc_list st) st = Some r"
    and res: "case r of None \<Rightarrow> \<forall>pf\<in>set (alloc_list st). \<forall>f. frames st pf = Some f \<longrightarrow> \<not> pf_dirty f
      | Some pf \<Rightarrow> pf \<in> set (alloc_list st) \<and> (\<exists>f. frames st pf = Some f \<and> pf_dirty f)"
    using first_dirty_ok [OF less.prems(1,2) order_refl] by blast
  show ?case
  proof (cases r)
    case None
    then have "pframe_clean_all cleanpage L E st = Some st" using r by (subst pframe_clean_all.simps) simp
    then show ?thesis using less.prems None res by auto
  next
    case (Some pf)
    then obtain f where f: "pf \<in> set (alloc_list st)" "frames st pf = Some f" "pf_dirty f" using res by auto
    then have np: "\<not> is_pinned f" using less.prems(1) by (auto simp: mm_inv_def lists_ok_def)
    obtain ret st1 where c: "pframe_clean cleanpage L E pf st = Some (ret, st1)" "mm_inv E st1"
      "frames st1 = (frames st)(pf \<mapsto> f\<lparr>pf_dirty := ret < 0, pf_busy := False\<rparr>)" "alloc_list st1 = alloc_list st"
      "pinned_list st1 = pinned_list st" "mmobjs st1 = mmobjs st" "page_mem st1 = page_mem st"
      "set (mm_log st) \<subseteq> set (mm_log st1)" "0 \<le> ret \<longrightarrow> saved st (mm_log st1) f"
      "cleanable cleanpage st \<and> pf \<in> set (alloc_list st) \<longrightarrow> 0 \<le> ret" "vnodes st1 = vnodes st"
      by (rule pframe_clean_ok [OF less.prems(1) f(2,3) np])
    have ret: "0 \<le> ret" using c(10) less.prems(3) f(1) by simp
    have same: "\<forall>x. same_frame (frames st x) (frames st1 x)" using c(3) f(2) by (auto simp: same_frame_def split: option.split)
    have smaller: "dirty_count st1 < dirty_count st" by (rule dirty_count_clean [OF less.prems(1) f c(3) _ c(4)]) (use ret in simp)
    have quiet: "quiet st1" using less.prems(2) c(3) by (auto simp: quiet_def)
    have can: "cleanable cleanpage st1"
      by (rule cleanable_mono [OF less.prems(3) c(7) kept_objects_refl [OF c(6) c(11)] c(2)]) (use c(3,4) ret in \<open>auto split: if_splits\<close>)
    obtain st' where st': "pframe_clean_all cleanpage L E st1 = Some st'" "mm_inv E st'" "quiet st'" "alloc_list st' = alloc_list st1"
      "pinned_list st' = pinned_list st1" "mmobjs st' = mmobjs st1" "page_mem st' = page_mem st1"
      "\<forall>pf. same_frame (frames st1 pf) (frames st' pf)"
      "\<forall>pf\<in>set (alloc_list st1). \<forall>f. frames st' pf = Some f \<longrightarrow> \<not> pf_dirty f" "set (mm_log st1) \<subseteq> set (mm_log st')"
      "\<forall>pf\<in>set (alloc_list st1). \<forall>f. frames st1 pf = Some f \<and> pf_dirty f \<longrightarrow> saved st1 (mm_log st') f" "vnodes st' = vnodes st1"
      using less.hyps [OF smaller c(2) quiet can] by blast
    have run: "pframe_clean_all cleanpage L E st = Some st'" using r Some c(1) st'(1) by (subst pframe_clean_all.simps) simp
    have "saved st (mm_log st') g" if g: "x \<in> set (alloc_list st)" "frames st x = Some g" "pf_dirty g" for x g
    proof (cases "x = pf")
      case True
      then show ?thesis using c(9) ret g f st'(10) by (auto simp: saved_def)
    next
      case False
      then have "frames st1 x = Some g" using c(3) g(2) by simp
      then have "saved st1 (mm_log st') g" using st'(11) g(1,3) unfolding c(4) by simp
      then show ?thesis using c(6,7) by (simp add: saved_def)
    qed
    moreover have "same_frame (frames st x) (frames st' x)" for x using same st'(8) same_frame_trans by blast
    ultimately show ?thesis using run st' c by auto
  qed
qed

end

lemma saved_cong:
  assumes "page_mem st1 = page_mem st" and "\<And>ob. pf_obj f = Some ob \<Longrightarrow> map_option mmo_ops (mmobjs st1 ob) = map_option mmo_ops (mmobjs st ob)"
  shows "saved st1 log f = saved st log f"
  unfolding saved_def assms(1) using assms(2) by metis

lemma paged_out_clean:
  assumes "frames st1 = (frames st)(pf \<mapsto> f\<lparr>pf_dirty := d, pf_busy := b\<rparr>)" and "frames st pf = Some f" and "alloc_list st1 = alloc_list st"
    and "pinned_list st1 = pinned_list st" and "mmobjs st1 = mmobjs st" and "page_mem st1 = page_mem st"
    and "set (mm_log st) \<subseteq> set (mm_log st1)" and "saved st (mm_log st1) f" and "paged_out k st1 st'"
  shows "paged_out k st st'"
proof -
  have same: "same_frame (frames st x) (frames st1 x)" for x using assms(1,2) by (auto simp: same_frame_def split: option.split)
  have "saved st (mm_log st') g" if "x \<in> set (take k (alloc_list st))" "frames st x = Some g" "pf_dirty g" for x g
  proof (cases "x = pf")
    case True
    then show ?thesis using assms(2,8,9) that by (auto simp: paged_out_def saved_def)
  next
    case False
    then have "saved st1 (mm_log st') g" using that assms(1,3,9) by (auto simp: paged_out_def)
    then show ?thesis using assms(5,6) by (simp add: saved_def)
  qed
  then show ?thesis using assms(3,4,7,9) same same_frame_trans unfolding paged_out_def by (metis order_trans)
qed

lemma paged_out_free:
  assumes al: "alloc_list st = pf # al" "alloc_list st1 = al" "distinct (pf # al)" and fr: "frames st1 = (frames st)(pf := None)"
    and rest: "pinned_list st1 = pinned_list st" "page_mem st1 = page_mem st" and kept: "kept_objects st st1" "mm_inv E st1"
    and clean: "frames st pf = Some f" "\<not> pf_dirty f" and log: "set (mm_log st) \<subseteq> set (mm_log st1)" and out: "paged_out k st1 st'"
  shows "paged_out (Suc k) st st'"
proof -
  have "pf \<notin> set (take k (alloc_list st1))" using al by (auto dest: in_set_takeD)
  then have "same_frame (frames st1 pf) (frames st' pf)" using out unfolding paged_out_def by presburger
  then have gone: "frames st' pf = None" using fr by (simp add: same_frame_def split: option.splits)
  have same: "saved st1 (mm_log st') g = saved st (mm_log st') g" if "frames st1 x = Some g" for x g
    using kept_ops [OF kept that] by (intro saved_cong [OF rest(2)]) auto
  have "saved st (mm_log st') g" if g: "x \<in> set (take (Suc k) (alloc_list st))" "frames st x = Some g" "pf_dirty g" for x g
  proof -
    have x: "x \<noteq> pf" using g clean by auto
    then have "x \<in> set (take k (alloc_list st1))" "frames st1 x = Some g" using g al fr by auto
    then have "saved st1 (mm_log st') g" using out g(3) unfolding paged_out_def by blast
    then show ?thesis using same [OF \<open>frames st1 x = Some g\<close>] by simp
  qed
  then show ?thesis using gone out al fr rest log unfolding paged_out_def by (auto split: if_splits)
qed

lemma freed_count:
  assumes inv: "mm_inv E st" and cnt: "frames_counted E st" and f: "frames st pf = Some f" and inv': "mm_inv E st'" and dom: "dom (frames st') = dom (frames st) - {pf}"
  shows "page_free_count E st' = page_free_count E st + 1"
proof -
  have "finite (dom (frames st))" using inv unfolding mm_inv_def lists_ok_def by (metis List.finite_set finite_Un)
  then have "card (dom (frames st)) = Suc (card (dom (frames st')))" using f unfolding dom by (intro card.remove) auto
  moreover have "page_free_count E st' + card (dom (frames st')) = page_free_count E st + card (dom (frames st))"
    using cnt inv' dom unfolding frames_counted_def by blast
  ultimately show ?thesis by simp
qed

lemma same_count:
  assumes "frames_counted E st" and "mm_inv E st'" and "dom (frames st') = dom (frames st)"
  shows "page_free_count E st' = page_free_count E st"
proof -
  have "page_free_count E st' + card (dom (frames st')) = page_free_count E st + card (dom (frames st))"
    using assms unfolding frames_counted_def by blast
  then show ?thesis unfolding assms(3) by simp
qed

context memory_objects
begin

lemma pageoutd_loop_ok:
  assumes "mm_inv E st" and "quiet st" and "cleanable cleanpage st" and "reclaimable E st" and "frames_counted E st"
  shows "\<exists>st' k. pageoutd_loop put cleanpage L E st = Some st' \<and> mm_inv E st' \<and> quiet st' \<and> paged_out k st st'
    \<and> (page_free_count E st' \<ge> nfreepages_target st' \<or> alloc_list st' = [])
    \<and> k = min (length (alloc_list st)) (nfreepages_target st - page_free_count E st)"
  using assms
proof (induction "length (alloc_list st) + dirty_count st" arbitrary: st rule: less_induct)
  case less
  show ?case
  proof (cases "page_free_count E st \<ge> nfreepages_target st \<or> alloc_list st = []")
    case True
    then have "pageoutd_loop put cleanpage L E st = Some st" by (subst pageoutd_loop.simps) simp
    moreover have "paged_out 0 st st" by (simp add: paged_out_def)
    moreover have "0 = min (length (alloc_list st)) (nfreepages_target st - page_free_count E st)" using True by auto
    ultimately show ?thesis using less.prems True by blast
  next
    case False
    then obtain pf al where al: "alloc_list st = pf # al" by (cases "alloc_list st") auto
    then have mem: "pf \<in> set (alloc_list st)" by simp
    then have "pf \<in> dom (frames st)" using less.prems(1) by (auto simp: mm_inv_def lists_ok_def)
    then obtain f where f: "frames st pf = Some f" by auto
    have np: "\<not> is_pinned f" using less.prems(1) f mem by (auto simp: mm_inv_def lists_ok_def)
    have nb: "\<not> pf_busy f" using less.prems(2) f by (simp add: quiet_def)
    show ?thesis
    proof (cases "pf_dirty f")
      case True
      obtain ret st1 where c: "pframe_clean cleanpage L E pf st = Some (ret, st1)" "mm_inv E st1"
        "frames st1 = (frames st)(pf \<mapsto> f\<lparr>pf_dirty := ret < 0, pf_busy := False\<rparr>)" "alloc_list st1 = alloc_list st"
        "pinned_list st1 = pinned_list st" "mmobjs st1 = mmobjs st" "page_mem st1 = page_mem st"
        "set (mm_log st) \<subseteq> set (mm_log st1)" "0 \<le> ret \<longrightarrow> saved st (mm_log st1) f"
        "cleanable cleanpage st \<and> pf \<in> set (alloc_list st) \<longrightarrow> 0 \<le> ret" "vnodes st1 = vnodes st" "nfreepages_target st1 = nfreepages_target st"
        by (rule pframe_clean_ok [OF less.prems(1) f True np])
      have ret: "0 \<le> ret" using c(10) less.prems(3) mem by simp
      have smaller: "dirty_count st1 < dirty_count st"
        by (rule dirty_count_clean [OF less.prems(1) mem f True c(3) _ c(4)]) (use ret in simp)
      have quiet: "quiet st1" using less.prems(2) c(3) by (auto simp: quiet_def)
      note kept = kept_objects_refl [OF c(6) c(11)]
      have can: "cleanable cleanpage st1"
        by (rule cleanable_mono [OF less.prems(3) c(7) kept c(2)]) (use c(3,4) ret in \<open>auto split: if_splits\<close>)
      have rec: "reclaimable E st1" by (rule reclaimable_mono [OF less.prems(4) kept]) (use c(3,4) f in \<open>auto split: if_splits\<close>)
      have dom: "dom (frames st1) = dom (frames st)" using c(3) f by auto
      have cnt: "frames_counted E st1" "page_free_count E st1 = page_free_count E st"
        using frames_counted_mono [OF less.prems(5) c(2)] same_count [OF less.prems(5) c(2) dom] dom by auto
      obtain st' k where st': "pageoutd_loop put cleanpage L E st1 = Some st'" "mm_inv E st'" "quiet st'" "paged_out k st1 st'"
        "page_free_count E st' \<ge> nfreepages_target st' \<or> alloc_list st' = []"
        "k = min (length (alloc_list st1)) (nfreepages_target st1 - page_free_count E st1)"
        using less.hyps [OF _ c(2) quiet can rec cnt(1)] smaller c(4) by auto
      have "pageoutd_loop put cleanpage L E st = Some st'"
        using False al f nb True c(1) st'(1) by (subst pageoutd_loop.simps) simp
      moreover have "paged_out k st st'"
        by (rule paged_out_clean [OF c(3) f c(4-8) _ st'(4)]) (use c(9) ret in simp)
      ultimately show ?thesis using st' unfolding c(4,12) cnt(2) by blast
    next
      case clean: False
      obtain ob where ob: "pf_obj f = Some ob" "ob \<in> dom (mmobjs st)" using less.prems(1) f unfolding mm_inv_def objs_ok_def by blast
      then obtain mo where mo: "mmobjs st ob = Some mo" by auto
      then have may: "mmo_nrespages mo < mmo_refcount mo \<or> linked_vnode E st ob mo" using less.prems(4) mem f ob(1) unfolding reclaimable_def by blast
      obtain st1 where c: "pframe_free put L E pf st = Some st1" "mm_inv E st1" "frames st1 = (frames st)(pf := None)"
        "alloc_list st1 = remove1 pf (alloc_list st)" "pinned_list st1 = pinned_list st" "kept_objects st st1" "page_mem st1 = page_mem st"
        "set (mm_log st) \<subseteq> set (mm_log st1)" "nfreepages_target st1 = nfreepages_target st"
        by (rule pframe_free_reclaims [OF less.prems(1) f np nb ob(1) mo may])
      have al1: "alloc_list st1 = al" using c(4) al by simp
      have dist: "distinct (pf # al)" using less.prems(1) al by (simp add: mm_inv_def lists_ok_def)
      have "filter (\<lambda>x. pf_dirty (the (frames st1 x))) al = filter (\<lambda>x. pf_dirty (the (frames st x))) al"
        using c(3) dist by (intro filter_cong) auto
      then have "dirty_count st1 \<le> dirty_count st" using al al1 by (simp add: dirty_count_def)
      then have smaller: "length (alloc_list st1) + dirty_count st1 < length (alloc_list st) + dirty_count st" using al al1 by simp
      have quiet: "quiet st1" using less.prems(2) c(3) by (auto simp: quiet_def split: if_splits)
      have can: "cleanable cleanpage st1"
        by (rule cleanable_mono [OF less.prems(3) c(7) c(6) c(2)]) (use c(3) al al1 in \<open>auto split: if_splits\<close>)
      have rec: "reclaimable E st1" by (rule reclaimable_mono [OF less.prems(4) c(6)]) (use c(3) al al1 in \<open>auto split: if_splits\<close>)
      have dom: "dom (frames st1) = dom (frames st) - {pf}" using c(3) by auto
      have cnt: "frames_counted E st1" "page_free_count E st1 = page_free_count E st + 1"
        using frames_counted_mono [OF less.prems(5) c(2)] freed_count [OF less.prems(1,5) f c(2) dom] dom by auto
      obtain st' k where st': "pageoutd_loop put cleanpage L E st1 = Some st'" "mm_inv E st'" "quiet st'" "paged_out k st1 st'"
        "page_free_count E st' \<ge> nfreepages_target st' \<or> alloc_list st' = []"
        "k = min (length (alloc_list st1)) (nfreepages_target st1 - page_free_count E st1)"
        using less.hyps [OF smaller c(2) quiet can rec cnt(1)] by blast
      have "pageoutd_loop put cleanpage L E st = Some st'"
        using False al f nb clean c(1) st'(1) by (subst pageoutd_loop.simps) simp
      moreover have "paged_out (Suc k) st st'"
        by (rule paged_out_free [OF al al1 dist c(3,5,7,6,2) f clean c(8) st'(4)])
      moreover have "Suc k = min (length (alloc_list st)) (nfreepages_target st - page_free_count E st)"
        using st'(6) False al unfolding al1 c(9) cnt(2) by auto
      ultimately show ?thesis using st' by blast
    qed
  qed
qed

end

end
