(* ===== verification/Mmobj.thy ===== *)
theory Mmobj
  imports Pframe
begin

section \<open>Memory objects\<close>

text \<open>
  The objects behind the pages: anonymous objects (\<^verbatim>\<open>kernel/vm/anon.c\<close>), shadow objects (\<^verbatim>\<open>kernel/vm/shadow.c\<close>) and the
  objects of vnodes (the operations at the end of \<^verbatim>\<open>kernel/fs/vnode.c\<close>, and \<^verbatim>\<open>vref\<close> and \<^verbatim>\<open>vput\<close>).

  \<^item> The operations call the page cache, which calls them back.  \<open>mmo_put\<close> and \<open>pframe_get\<close> tie the knot; the depth of
    their recursion is bounded by an argument, \<open>None\<close> being what a call beyond the bound gives.  The lemmas show bounds
    that are enough: 2 for a page of a shadow object (the object and the one at the bottom of its chain), 1 for any other, the
    number of resident pages plus 1 for \<^verbatim>\<open>put\<close>.
  \<^item> \<open>anon_temp_c\<close> and \<open>shadow_num\<close> are the static counters of \<^verbatim>\<open>anon_put\<close> and \<^verbatim>\<open>shadow_put\<close>.
  \<^item> \<open>chain_find\<close> may not end on a cyclic chain and is a partial function.
  \<^item> What \<^verbatim>\<open>mmobj_init\<close> stores and what the file systems do are fields of \<open>mm_env\<close>.

  The theory interprets the contract that the page cache has with memory objects.  It shows that the page cache stays
  consistent, that a page is filled once and found again, what a lookup in a chain of shadow objects returns and that a write
  to it is seen through that object only, that the last reference to an anonymous object frees it and its pages once,
  and that shadow objects are never freed.
\<close>

subsection \<open>References\<close>

definition anon_ref :: "objid \<Rightarrow> mm \<Rightarrow> mm option" where
  "anon_ref ob st = do {
     mo \<leftarrow> mmobjs st ob;
     kassert (0 < mmo_refcount mo \<and> mmo_ops mo = anon_mmobj_ops);
     upd_obj ob (\<lambda>mo. mo\<lparr>mmo_refcount := mmo_refcount mo + 1\<rparr>) st }"

definition shadow_ref :: "objid \<Rightarrow> mm \<Rightarrow> mm option" where
  "shadow_ref ob st = do {
     mo \<leftarrow> mmobjs st ob;
     kassert (0 < mmo_refcount mo \<and> mmo_ops mo = shadow_mmobj_ops);
     upd_obj ob (\<lambda>mo. mo\<lparr>mmo_refcount := mmo_refcount mo + 1\<rparr>) st }"

definition vref :: "objid \<Rightarrow> mm \<Rightarrow> mm option" where
  "vref ob st = do {
     mo \<leftarrow> mmobjs st ob;
     kassert (0 < mmo_refcount mo);
     upd_obj ob (\<lambda>mo. mo\<lparr>mmo_refcount := mmo_refcount mo + 1\<rparr>) st }"

definition mmo_ref :: "objid \<Rightarrow> mm \<Rightarrow> mm option" where
  "mmo_ref ob st = do {
     mo \<leftarrow> mmobjs st ob;
     case mmo_ops mo of
       anon_mmobj_ops \<Rightarrow> anon_ref ob st
     | shadow_mmobj_ops \<Rightarrow> shadow_ref ob st
     | vnode_mmobj_ops \<Rightarrow> vref ob st }"

subsection \<open>Creation\<close>

definition anon_create :: "mm_env \<Rightarrow> objid option \<Rightarrow> mm \<Rightarrow> objid option \<times> mm" where
  "anon_create E new st = (case new of
     None \<Rightarrow> (None, st)
   | Some ob \<Rightarrow> (Some ob, st\<lparr>mmobjs := (mmobjs st)(ob \<mapsto> (mmobj_init E anon_mmobj_ops)\<lparr>mmo_refcount := 1\<rparr>)\<rparr>))"

text \<open>\<^verbatim>\<open>shadow_create\<close> does not check the result of the allocator.\<close>

definition shadow_create :: "mm_env \<Rightarrow> objid option \<Rightarrow> mm \<Rightarrow> (objid \<times> mm) option" where
  "shadow_create E new st = do {
     ob \<leftarrow> new;
     Some (ob, st\<lparr>mmobjs := (mmobjs st)(ob \<mapsto> (mmobj_init E shadow_mmobj_ops)\<lparr>mmo_refcount := 1\<rparr>)\<rparr>) }"

subsection \<open>Giving references back\<close>

text \<open>The loops over the resident pages of an object that nobody uses any more.\<close>

partial_function (option) anon_put_loop :: "(objid \<Rightarrow> mm \<Rightarrow> mm option) \<Rightarrow> layout \<Rightarrow> mm_env \<Rightarrow> objid \<Rightarrow> mm \<Rightarrow> mm option" where
  "anon_put_loop put L E ob st = do {
     mo \<leftarrow> mmobjs st ob;
     case mmo_respages mo of
       [] \<Rightarrow> Some st
     | pf # _ \<Rightarrow> do {
         st1 \<leftarrow> pframe_unpin pf st;
         let st2 = st1\<lparr>anon_temp_c := anon_temp_c st1 + 1\<rparr>;
         f \<leftarrow> frames st2 pf;
         kassert (\<not> pf_busy f);
         st3 \<leftarrow> pframe_free put L E pf st2;
         anon_put_loop put L E ob (st3\<lparr>anon_temp_c := anon_temp_c st3 - 1\<rparr>) } }"

definition anon_put :: "(objid \<Rightarrow> mm \<Rightarrow> mm option) \<Rightarrow> layout \<Rightarrow> mm_env \<Rightarrow> objid \<Rightarrow> mm \<Rightarrow> mm option" where
  "anon_put put L E ob st = do {
     mo \<leftarrow> mmobjs st ob;
     kassert (0 < mmo_refcount mo \<and> mmo_ops mo = anon_mmobj_ops);
     st1 \<leftarrow> upd_obj ob (\<lambda>mo. mo\<lparr>mmo_refcount := mmo_refcount mo - 1\<rparr>) st;
     if mmo_nrespages mo = mmo_refcount mo - 1 then do {
       st2 \<leftarrow> anon_put_loop put L E ob st1;
       Some (if anon_temp_c st2 = 0 then mm_event (ObjFreed ob) (st2\<lparr>mmobjs := (mmobjs st2)(ob := None)\<rparr>) else st2) }
     else Some st1 }"

partial_function (option) shadow_put_loop :: "(objid \<Rightarrow> mm \<Rightarrow> mm option) \<Rightarrow> layout \<Rightarrow> mm_env \<Rightarrow> objid \<Rightarrow> mm \<Rightarrow> mm option" where
  "shadow_put_loop put L E ob st = do {
     mo \<leftarrow> mmobjs st ob;
     case mmo_respages mo of
       [] \<Rightarrow> Some st
     | pf # _ \<Rightarrow> do {
         let st1 = st\<lparr>shadow_num := shadow_num st + 1\<rparr>;
         st2 \<leftarrow> pframe_unpin pf st1;
         f \<leftarrow> frames st2 pf;
         kassert (\<not> pf_busy f);
         let st3 = st2\<lparr>shadow_num := shadow_num st2 - 1\<rparr>;
         st4 \<leftarrow> pframe_free put L E pf st3;
         shadow_put_loop put L E ob st4 } }"

definition shadow_put :: "(objid \<Rightarrow> mm \<Rightarrow> mm option) \<Rightarrow> layout \<Rightarrow> mm_env \<Rightarrow> objid \<Rightarrow> mm \<Rightarrow> mm option" where
  "shadow_put put L E ob st = do {
     mo \<leftarrow> mmobjs st ob;
     kassert (0 < mmo_refcount mo \<and> mmo_ops mo = shadow_mmobj_ops);
     st1 \<leftarrow> upd_obj ob (\<lambda>mo. mo\<lparr>mmo_refcount := mmo_refcount mo - 1\<rparr>) st;
     if mmo_nrespages mo = mmo_refcount mo - 1 then do {
       st2 \<leftarrow> shadow_put_loop put L E ob st1;
       if shadow_num st2 = 0 then Some st2
       else do {
         mo2 \<leftarrow> mmobjs st2 ob;
         shadowed \<leftarrow> mmo_shadowed mo2;
         st3 \<leftarrow> put shadowed st2;
         Some (mm_event (ObjFreed ob) (st3\<lparr>mmobjs := (mmobjs st3)(ob := None)\<rparr>)) } }
     else Some st1 }"

fun vput_pages :: "(objid \<Rightarrow> mm \<Rightarrow> mm option) \<Rightarrow> layout \<Rightarrow> mm_env \<Rightarrow> pfid list \<Rightarrow> mm \<Rightarrow> mm option" where
  "vput_pages put L E [] st = Some st"
| "vput_pages put L E (pf # pfs) st = do {
     f \<leftarrow> frames st pf;
     kassert (\<not> pf_busy f);
     st1 \<leftarrow> pframe_free put L E pf st;
     vput_pages put L E pfs st1 }"

definition vput :: "(objid \<Rightarrow> mm \<Rightarrow> mm option) \<Rightarrow> layout \<Rightarrow> mm_env \<Rightarrow> objid \<Rightarrow> mm \<Rightarrow> mm option" where
  "vput put L E ob st = do {
     mo \<leftarrow> mmobjs st ob;
     v \<leftarrow> vnodes st ob;
     kassert (0 \<le> mmo_nrespages mo);
     kassert (mmo_nrespages mo < mmo_refcount mo);
     kassert (\<not> vn_busy v);
     st1 \<leftarrow> (if mmo_nrespages mo = mmo_refcount mo - 1 \<and> \<not> query_vnode E v then do {
         st1 \<leftarrow> vput_pages put L E (mmo_respages mo) st;
         mo1 \<leftarrow> mmobjs st1 ob;
         kassert (mmo_nrespages mo1 = 0);
         kassert (mmo_refcount mo1 = 1);
         Some st1 }
       else Some st);
     st2 \<leftarrow> upd_obj ob (\<lambda>mo. mo\<lparr>mmo_refcount := mmo_refcount mo - 1\<rparr>) st1;
     mo2 \<leftarrow> mmobjs st2 ob;
     if 0 < mmo_refcount mo2 then Some st2
     else do {
       kassert (mmo_refcount mo2 = 0);
       kassert (mmo_nrespages mo2 = 0);
       let st3 = st2\<lparr>vnodes := (vnodes st2)(ob \<mapsto> v\<lparr>vn_busy := True\<rparr>)\<rparr>;
       let st4 = (if delete_vnode E (vn_fs v) then mm_event (VnodeDeleted ob) st3 else st3);
       let st5 = mm_event (VnBroadcast ob) st4;
       Some (mm_event (ObjFreed ob) (st5\<lparr>vnode_inuse_list := remove1 ob (vnode_inuse_list st5),
         vnodes := (vnodes st5)(ob := None), mmobjs := (mmobjs st5)(ob := None)\<rparr>)) } }"

primrec mmo_put :: "layout \<Rightarrow> mm_env \<Rightarrow> nat \<Rightarrow> objid \<Rightarrow> mm \<Rightarrow> mm option" where
  "mmo_put L E 0 = (\<lambda>ob st. None)"
| "mmo_put L E (Suc n) = (\<lambda>ob st. do {
     mo \<leftarrow> mmobjs st ob;
     case mmo_ops mo of
       anon_mmobj_ops \<Rightarrow> anon_put (mmo_put L E n) L E ob st
     | shadow_mmobj_ops \<Rightarrow> shadow_put (mmo_put L E n) L E ob st
     | vnode_mmobj_ops \<Rightarrow> vput (mmo_put L E n) L E ob st })"

subsection \<open>Filling pages\<close>

definition zero_page :: "layout \<Rightarrow> page" where
  "zero_page L = replicate (2 ^ PAGE_SHIFT L) 0"

definition anon_fillpage :: "layout \<Rightarrow> pfid \<Rightarrow> mm \<Rightarrow> (int \<times> mm) option" where
  "anon_fillpage L pf st = do {
     f \<leftarrow> frames st pf;
     kassert (pf_busy f);
     kassert (\<not> is_pinned f);
     st1 \<leftarrow> pframe_pin pf st;
     Some (0, st1\<lparr>page_mem := (page_mem st1)(pf_addr f := zero_page L)\<rparr>) }"

text \<open>The walk down a chain: the first shadow object that has the page (\<open>Inr\<close>), or the object at the bottom (\<open>Inl\<close>).\<close>

partial_function (option) chain_find :: "objid \<Rightarrow> u32 \<Rightarrow> mm \<Rightarrow> (objid + pfid) option" where
  "chain_find ob pagenum st = do {
     mo \<leftarrow> mmobjs st ob;
     case mmo_shadowed mo of
       None \<Rightarrow> Some (Inl ob)
     | Some ob' \<Rightarrow> (case List.find (\<lambda>pf. map_option pf_pagenum (frames st pf) = Some pagenum) (mmo_respages mo) of
         Some pf \<Rightarrow> Some (Inr pf)
       | None \<Rightarrow> chain_find ob' pagenum st) }"

definition shadow_fillpage :: "(objid \<Rightarrow> u32 \<Rightarrow> mm \<Rightarrow> (int \<times> pfid \<times> mm) option) \<Rightarrow> objid \<Rightarrow> pfid \<Rightarrow> mm \<Rightarrow> (int \<times> mm) option" where
  "shadow_fillpage get ob pf st = do {
     f \<leftarrow> frames st pf;
     kassert (pf_busy f);
     kassert (\<not> is_pinned f);
     st1 \<leftarrow> pframe_pin pf st;
     mo \<leftarrow> mmobjs st1 ob;
     tempObj \<leftarrow> mmo_shadowed mo;
     r \<leftarrow> chain_find tempObj (pf_pagenum f) st1;
     (npframe, st2) \<leftarrow> (case r of
         Inr npframe \<Rightarrow> Some (npframe, st1)
       | Inl bottom \<Rightarrow> do { (_, npframe, st2) \<leftarrow> get bottom (pf_pagenum f) st1; Some (npframe, st2) });
     g \<leftarrow> frames st2 npframe;
     Some (0, st2\<lparr>page_mem := (page_mem st2)(pf_addr f := page_mem st2 (pf_addr g))\<rparr>) }"

definition vreadpage :: "layout \<Rightarrow> mm_env \<Rightarrow> objid \<Rightarrow> pfid \<Rightarrow> mm \<Rightarrow> (int \<times> mm) option" where
  "vreadpage L E ob pf st = do {
     f \<leftarrow> frames st pf;
     let (ret, p) = fs_fillpage E ob (PN_TO_ADDR L (pf_pagenum f)) (page_mem st (pf_addr f));
     Some (ret, st\<lparr>page_mem := (page_mem st)(pf_addr f := p)\<rparr>) }"

definition mmo_fillpage :: "(objid \<Rightarrow> u32 \<Rightarrow> mm \<Rightarrow> (int \<times> pfid \<times> mm) option) \<Rightarrow> layout \<Rightarrow> mm_env \<Rightarrow> objid \<Rightarrow> pfid \<Rightarrow> mm
    \<Rightarrow> (int \<times> mm) option" where
  "mmo_fillpage get L E ob pf st = do {
     mo \<leftarrow> mmobjs st ob;
     case mmo_ops mo of
       anon_mmobj_ops \<Rightarrow> anon_fillpage L pf st
     | shadow_mmobj_ops \<Rightarrow> shadow_fillpage get ob pf st
     | vnode_mmobj_ops \<Rightarrow> vreadpage L E ob pf st }"

primrec pframe_get :: "layout \<Rightarrow> mm_env \<Rightarrow> nat \<Rightarrow> objid \<Rightarrow> u32 \<Rightarrow> mm \<Rightarrow> (int \<times> pfid \<times> mm) option" where
  "pframe_get L E 0 = (\<lambda>ob pagenum st. None)"
| "pframe_get L E (Suc n) = (\<lambda>ob pagenum st. pframe_get_with mmo_ref (mmo_fillpage (pframe_get L E n) L E) E ob pagenum st)"

subsection \<open>Looking pages up\<close>

definition anon_lookuppage :: "layout \<Rightarrow> mm_env \<Rightarrow> objid \<Rightarrow> u32 \<Rightarrow> mm \<Rightarrow> ((errno + int \<times> pfid) \<times> mm) option" where
  "anon_lookuppage L E ob pagenum st = do {
     (ret, pf, st1) \<leftarrow> pframe_get L E 1 ob pagenum st;
     Some (Inr (ret, pf), st1) }"

definition shadow_lookuppage :: "layout \<Rightarrow> mm_env \<Rightarrow> objid \<Rightarrow> u32 \<Rightarrow> bool \<Rightarrow> mm \<Rightarrow> ((errno + int \<times> pfid) \<times> mm) option" where
  "shadow_lookuppage L E ob pagenum forwrite st = do {
     r \<leftarrow> chain_find ob pagenum st;
     (spframe, st1) \<leftarrow> (case r of
         Inr spframe \<Rightarrow> Some (spframe, st)
       | Inl _ \<Rightarrow> do {
           mo \<leftarrow> mmobjs st ob;
           bottom \<leftarrow> mmo_bottom_obj mo;
           (_, spframe, st1) \<leftarrow> pframe_get L E 2 bottom pagenum st;
           Some (spframe, st1) });
     if \<not> forwrite then Some (Inr (0, spframe), st1)
     else do {
       f \<leftarrow> frames st1 spframe;
       if pf_obj f \<noteq> Some ob then do {
         (_, pf, st2) \<leftarrow> pframe_get L E 2 ob pagenum st1;
         Some (Inr (0, pf), st2) }
       else Some (Inr (0, spframe), st1) } }"

definition vlookuppage :: "layout \<Rightarrow> mm_env \<Rightarrow> objid \<Rightarrow> u32 \<Rightarrow> mm \<Rightarrow> ((errno + int \<times> pfid) \<times> mm) option" where
  "vlookuppage L E ob pagenum st = do {
     v \<leftarrow> vnodes st ob;
     if vn_len v \<le> pagenum * PAGE_SIZE L then Some (Inl EINVAL, st)
     else do {
       (ret, pf, st1) \<leftarrow> pframe_get L E 1 ob pagenum st;
       Some (Inr (ret, pf), st1) } }"

definition pframe_lookup :: "layout \<Rightarrow> mm_env \<Rightarrow> objid \<Rightarrow> u32 \<Rightarrow> bool \<Rightarrow> mm \<Rightarrow> ((errno + int \<times> pfid) \<times> mm) option" where
  "pframe_lookup L E ob pagenum forwrite st = do {
     mo \<leftarrow> mmobjs st ob;
     case mmo_ops mo of
       anon_mmobj_ops \<Rightarrow> anon_lookuppage L E ob pagenum st
     | shadow_mmobj_ops \<Rightarrow> shadow_lookuppage L E ob pagenum forwrite st
     | vnode_mmobj_ops \<Rightarrow> vlookuppage L E ob pagenum st }"

subsection \<open>Dirtying and cleaning\<close>

definition anon_dirtypage :: int where "anon_dirtypage = - 1"
definition anon_cleanpage :: int where "anon_cleanpage = - 1"
definition shadow_dirtypage :: int where "shadow_dirtypage = 0"
definition shadow_cleanpage :: int where "shadow_cleanpage = 0"

definition vdirtypage :: "layout \<Rightarrow> mm_env \<Rightarrow> objid \<Rightarrow> pfid \<Rightarrow> mm \<Rightarrow> int option" where
  "vdirtypage L E ob pf st = do {
     f \<leftarrow> frames st pf;
     Some (if \<not> pf_dirty f then fs_dirtypage E ob (PN_TO_ADDR L (pf_pagenum f)) else 0) }"

text \<open>\<open>WrittenBack\<close> records the contents that a file system has accepted.\<close>

definition vcleanpage :: "layout \<Rightarrow> mm_env \<Rightarrow> objid \<Rightarrow> pfid \<Rightarrow> mm \<Rightarrow> (int \<times> mm) option" where
  "vcleanpage L E ob pf st = do {
     f \<leftarrow> frames st pf;
     let p = page_mem st (pf_addr f);
     let ret = fs_cleanpage E ob (PN_TO_ADDR L (pf_pagenum f)) p;
     Some (ret, st\<lparr>mm_log := mm_log st @ (if 0 \<le> ret then [WrittenBack ob (pf_pagenum f) p] else [])\<rparr>) }"

definition mmo_dirtypage :: "layout \<Rightarrow> mm_env \<Rightarrow> objid \<Rightarrow> pfid \<Rightarrow> mm \<Rightarrow> int option" where
  "mmo_dirtypage L E ob pf st = do {
     mo \<leftarrow> mmobjs st ob;
     case mmo_ops mo of
       anon_mmobj_ops \<Rightarrow> Some anon_dirtypage
     | shadow_mmobj_ops \<Rightarrow> Some shadow_dirtypage
     | vnode_mmobj_ops \<Rightarrow> vdirtypage L E ob pf st }"

definition mmo_cleanpage :: "layout \<Rightarrow> mm_env \<Rightarrow> objid \<Rightarrow> pfid \<Rightarrow> mm \<Rightarrow> (int \<times> mm) option" where
  "mmo_cleanpage L E ob pf st = do {
     mo \<leftarrow> mmobjs st ob;
     case mmo_ops mo of
       anon_mmobj_ops \<Rightarrow> Some (anon_cleanpage, st)
     | shadow_mmobj_ops \<Rightarrow> Some (shadow_cleanpage, st)
     | vnode_mmobj_ops \<Rightarrow> vcleanpage L E ob pf st }"

subsection \<open>Growth of the page cache\<close>

text \<open>
  A page cache that has only grown: the frames there were and their contents are as before, and objects
  have the references they had and one more for each new page.
\<close>

definition same_object :: "mmobj option \<Rightarrow> mmobj option \<Rightarrow> bool" where
  "same_object x y \<longleftrightarrow> (case (x, y) of (None, None) \<Rightarrow> True
     | (Some a, Some b) \<Rightarrow> mmo_ops b = mmo_ops a \<and> mmo_shadowed b = mmo_shadowed a \<and> mmo_bottom_obj b = mmo_bottom_obj a
         \<and> mmo_refcount b - mmo_nrespages b = mmo_refcount a - mmo_nrespages a \<and> mmo_nrespages a \<le> mmo_nrespages b
     | _ \<Rightarrow> False)"

definition extends :: "mm_env \<Rightarrow> mm \<Rightarrow> mm \<Rightarrow> bool" where
  "extends E st st' \<longleftrightarrow> mm_inv E st'
     \<and> (\<forall>pf f. frames st pf = Some f \<longrightarrow> frames st' pf = Some f \<and> page_mem st' (pf_addr f) = page_mem st (pf_addr f))
     \<and> (\<forall>ob. same_object (mmobjs st ob) (mmobjs st' ob))
     \<and> vnodes st' = vnodes st \<and> anon_temp_c st' = anon_temp_c st \<and> shadow_num st' = shadow_num st
     \<and> vnode_inuse_list st' = vnode_inuse_list st"

text \<open>Every frame that is busy now was there before.\<close>

definition calm :: "mm \<Rightarrow> mm \<Rightarrow> bool" where
  "calm st st' \<longleftrightarrow> (\<forall>pf f. frames st' pf = Some f \<and> pf_busy f \<longrightarrow> pf \<in> dom (frames st))"

text \<open>The page-out daemon has been woken up if it is needed.\<close>

definition woken :: "mm_env \<Rightarrow> mm \<Rightarrow> mm" where
  "woken E st = (if pageoutd_needed E st then mm_event PageoutdWakeup st else st)"

subsection \<open>What the page cache relies on\<close>

text \<open>Memory for \<open>m\<close> frames, and file systems whose \<^verbatim>\<open>fillpage\<close> succeeds and fills the whole page.\<close>

definition memory :: "mm_env \<Rightarrow> nat \<Rightarrow> bool" where
  "memory E m \<longleftrightarrow> alloc_fresh E \<and> (\<forall>st. mm_inv E st \<and> card (dom (frames st)) < m \<longrightarrow> slab_pframe E st \<noteq> None \<and> page_alloc E st \<noteq> None)"

definition fs_reads :: "mm_env \<Rightarrow> bool" where
  "fs_reads E \<longleftrightarrow> (\<forall>ob off old. fs_fillpage E ob off old = (0, snd (fs_fillpage E ob off [])))"

subsection \<open>A concrete page cache\<close>

text \<open>Four frames of memory, on which the witnesses evaluate the operations.\<close>

definition demo_mm_env :: mm_env where
  "demo_mm_env = \<lparr>PF_HASH_SIZE = 1, slab_pframe = (\<lambda>st. List.find (\<lambda>i. frames st i = None) [0, 1, 2, 3]),
     page_alloc = (\<lambda>st. List.find (\<lambda>a. \<forall>pf\<in>set (alloc_list st @ pinned_list st). pf_addr (the (frames st pf)) \<noteq> a) [4096, 8192, 12288, 16384]),
     page_free_count = (\<lambda>st. 4 - length (alloc_list st @ pinned_list st)),
     mmobj_init = (\<lambda>ops. \<lparr>mmo_ops = ops, mmo_refcount = 0, mmo_nrespages = 0, mmo_respages = [], mmo_shadowed = None, mmo_bottom_obj = None\<rparr>),
     bottom_vmas = (\<lambda>ob. []), fs_fillpage = (\<lambda>ob off old. (0, [])), fs_dirtypage = (\<lambda>ob off. 0), fs_cleanpage = (\<lambda>ob off p. 0),
     query_vnode = (\<lambda>v. True), delete_vnode = (\<lambda>fs. False)\<rparr>"

text \<open>The objects of a parent (2) and a child (3) after a fork: each shadows the anonymous object 1.\<close>

definition demo_mm :: mm where
  "demo_mm = \<lparr>frames = Map.empty, alloc_list = [], nallocated = 0, pinned_list = [], npinned = 0, pframe_hash = (\<lambda>h. []),
     nfreepages_min = 0, nfreepages_target = 2,
     mmobjs = [1 \<mapsto> \<lparr>mmo_ops = anon_mmobj_ops, mmo_refcount = 2, mmo_nrespages = 0, mmo_respages = [], mmo_shadowed = None, mmo_bottom_obj = None\<rparr>,
       2 \<mapsto> \<lparr>mmo_ops = shadow_mmobj_ops, mmo_refcount = 1, mmo_nrespages = 0, mmo_respages = [], mmo_shadowed = Some 1, mmo_bottom_obj = Some 1\<rparr>,
       3 \<mapsto> \<lparr>mmo_ops = shadow_mmobj_ops, mmo_refcount = 1, mmo_nrespages = 0, mmo_respages = [], mmo_shadowed = Some 1, mmo_bottom_obj = Some 1\<rparr>],
     vnodes = Map.empty, vnode_inuse_list = [], page_mem = (\<lambda>a. []), anon_temp_c = 0, shadow_num = 0, mm_log = []\<rparr>"

text \<open>One object, with one page.\<close>

definition demo_paged :: "mmobj_ops \<Rightarrow> pframe \<Rightarrow> mm" where
  "demo_paged ops f = demo_mm\<lparr>frames := [0 \<mapsto> f], alloc_list := (if is_pinned f then [] else [0]), nallocated := (if is_pinned f then 0 else 1),
     pinned_list := (if is_pinned f then [0] else []), npinned := (if is_pinned f then 1 else 0), pframe_hash := (\<lambda>h. if h = 0 then [0] else []),
     mmobjs := [1 \<mapsto> \<lparr>mmo_ops = ops, mmo_refcount = 2, mmo_nrespages = 1, mmo_respages = [0], mmo_shadowed = None, mmo_bottom_obj = None\<rparr>],
     vnodes := [1 \<mapsto> \<lparr>vn_fs = 0, vn_vno = 5, vn_busy = False, vn_mode = S_IFREG, vn_devid = 0, vn_len = 8192, vn_ops = fs_vops, vn_cdev = None,
       vn_bdev = None\<rparr>]\<rparr>"

section \<open>Properties of memory objects\<close>

lemma mmo_ref_eq:
  "mmo_ref ob st = (case mmobjs st ob of None \<Rightarrow> None
     | Some mo \<Rightarrow> if 0 < mmo_refcount mo then Some (ref_state ob mo 1 st) else None)"
  by (auto simp: mmo_ref_def anon_ref_def shadow_ref_def vref_def upd_obj_def ref_state_def kassert_def
      split: option.split mmobj_ops.split)

lemma mmo_put_less:
  assumes "mmobjs st ob = Some mo" "vnode_ready st ob mo" "0 \<le> mmo_nrespages mo" "mmo_nrespages mo + 1 < mmo_refcount mo"
  shows "mmo_put L E (Suc n) ob st = Some (ref_state ob mo (- 1) st)"
proof (cases "mmo_ops mo")
  case vnode_mmobj_ops
  then obtain v where "vnodes st ob = Some v" "\<not> vn_busy v" using assms(2) by (auto simp: vnode_ready_def)
  with vnode_mmobj_ops assms show ?thesis by (simp add: vput_def upd_obj_def ref_state_def)
qed (use assms in \<open>simp_all add: anon_put_def shadow_put_def upd_obj_def ref_state_def\<close>)

text \<open>\<^verbatim>\<open>vput\<close> on a vnode that only its pages refer to: they stay when the file is linked, and without pages the vnode goes.\<close>

lemma mmo_put_linked:
  assumes "mmobjs st ob = Some mo" "vnode_ready st ob mo" "0 < mmo_nrespages mo" "mmo_nrespages mo + 1 = mmo_refcount mo" "linked_vnode E st ob mo"
  shows "mmo_put L E (Suc n) ob st = Some (ref_state ob mo (- 1) st)"
proof -
  obtain v where "mmo_ops mo = vnode_mmobj_ops" "vnodes st ob = Some v" "\<not> vn_busy v" "query_vnode E v"
    using assms(2,5) by (auto simp: vnode_ready_def linked_vnode_def)
  then show ?thesis using assms(1,3,4) by (simp add: vput_def upd_obj_def ref_state_def)
qed

lemma mmo_put_vnode:
  assumes "mmobjs st ob = Some mo" "vnode_ready st ob mo" "mmo_nrespages mo = 0" "mmo_refcount mo = 1" "linked_vnode E st ob mo"
  shows "\<exists>ev. mmo_put L E (Suc n) ob st = Some (forget_vnode ob ev st)"
proof -
  obtain v where v: "mmo_ops mo = vnode_mmobj_ops" "vnodes st ob = Some v" "\<not> vn_busy v" "query_vnode E v"
    using assms(2,5) by (auto simp: vnode_ready_def linked_vnode_def)
  let ?ev = "(if delete_vnode E (vn_fs v) then [VnodeDeleted ob] else []) @ [VnBroadcast ob, ObjFreed ob]"
  have "mmo_put L E (Suc n) ob st = Some (forget_vnode ob ?ev st)"
    using v assms(1,3,4) by (simp add: vput_def upd_obj_def forget_vnode_def mm_event_def Let_def)
  then show ?thesis by blast
qed

interpretation objects: memory_objects L E mmo_ref "mmo_put L E (Suc n)" "mmo_cleanpage L E" for L E n
proof
  show "mmo_ref ob st = Some (ref_state ob mo 1 st)" if "mmobjs st ob = Some mo" "0 < mmo_refcount mo" for st ob mo
    using that by (simp add: mmo_ref_eq)
  show "\<exists>ret ev. mmo_cleanpage L E ob pf st = Some (ret, st\<lparr>mm_log := mm_log st @ ev\<rparr>) \<and> (0 \<le> ret \<longrightarrow> saved st ev f)"
    if h: "frames st pf = Some f" "pf_obj f = Some ob" "ob \<in> dom (mmobjs st)" for st pf f ob
  proof -
    obtain mo where mo: "mmobjs st ob = Some mo" using h(3) by auto
    show ?thesis
    proof (cases "mmo_ops mo")
      case vnode_mmobj_ops
      then show ?thesis using h mo
        by (cases "0 \<le> fs_cleanpage E ob (PN_TO_ADDR L (pf_pagenum f)) (page_mem st (pf_addr f))")
          (auto simp: mmo_cleanpage_def vcleanpage_def Let_def saved_def intro: exI [of _ "[]"])
    qed (use mo h in \<open>auto simp: mmo_cleanpage_def anon_cleanpage_def shadow_cleanpage_def saved_def intro!: exI [of _ "[]"]\<close>)
  qed
qed (rule mmo_put_less mmo_put_linked mmo_put_vnode; assumption)+

subsection \<open>Getting a page\<close>

lemma same_object_refl [simp]: "same_object x x"
  by (cases x) (simp_all add: same_object_def)

lemma same_object_trans: "same_object x y \<Longrightarrow> same_object y z \<Longrightarrow> same_object x z"
  by (auto simp: same_object_def split: option.splits)

lemma extends_refl: "mm_inv E st \<Longrightarrow> extends E st st"
  by (simp add: extends_def)

lemma extends_trans:
  assumes "extends E st st1" and "extends E st1 st2"
  shows "extends E st st2"
proof -
  have "same_object (mmobjs st ob) (mmobjs st2 ob)" for ob using assms same_object_trans unfolding extends_def by blast
  moreover have "page_mem st2 (pf_addr f) = page_mem st (pf_addr f)" if "frames st pf = Some f" for pf f
    using assms that unfolding extends_def by metis
  ultimately show ?thesis using assms unfolding extends_def by auto
qed

lemma extends_frame: "extends E st st' \<Longrightarrow> frames st pf = Some f \<Longrightarrow> frames st' pf = Some f"
  by (simp add: extends_def)

lemma extends_identity: "extends E st st' \<Longrightarrow> has_identity st ob n pf \<Longrightarrow> has_identity st' ob n pf"
  by (auto simp: has_identity_iff dest: extends_frame)

text \<open>What happens to a frame that was not there before does not count.\<close>

lemma extends_new_frame:
  assumes ext: "extends E st st1" and new: "frames st pf = None" and g: "frames st1 pf = Some g"
    and inv: "mm_inv E st2" and fr: "frames st2 = (frames st1)(pf \<mapsto> g')"
    and mem: "\<And>a. a \<noteq> pf_addr g \<Longrightarrow> page_mem st2 a = page_mem st1 a" and same: "mmobjs st2 = mmobjs st1" "vnodes st2 = vnodes st1"
      "anon_temp_c st2 = anon_temp_c st1" "shadow_num st2 = shadow_num st1" "vnode_inuse_list st2 = vnode_inuse_list st1"
  shows "extends E st st2"
proof -
  have addr: "pf_addr f \<noteq> pf_addr g" if "frames st x = Some f" for x f
  proof
    assume eq: "pf_addr f = pf_addr g"
    have "frames st1 x = Some f" using ext that by (simp add: extends_def)
    then have "x = pf" using ext g eq unfolding extends_def mm_inv_def unique_ok_def by blast
    with that new show False by simp
  qed
  then have "frames st2 x = Some f \<and> page_mem st2 (pf_addr f) = page_mem st (pf_addr f)" if "frames st x = Some f" for x f
    using ext fr new mem that by (auto simp: extends_def)
  then show ?thesis using ext inv same by (simp add: extends_def)
qed

lemma extends_add_frame:
  assumes inv: "mm_inv E st" and fresh: "alloc_fresh E" and pf: "slab_pframe E st = Some pf" "page_alloc E st = Some a"
    and mo: "mmobjs st ob = Some mo" and new: "\<nexists>pf. has_identity st ob n pf"
  shows "extends E st (add_frame E ob n pf a mo st)"
proof -
  have none: "frames st pf = None" and a: "\<And>x f. frames st x = Some f \<Longrightarrow> pf_addr f \<noteq> a"
    using inv fresh pf unfolding alloc_fresh_def by blast+
  have "mm_inv E (add_frame E ob n pf a mo st)" by (rule add_frame_inv [OF inv none a mo new])
  with none mo show ?thesis by (auto simp: extends_def add_frame_def same_object_def split: option.split)
qed

text \<open>A busy page is looked for again and again: the loop ends only if the page was not busy in the first place.\<close>

lemma unbusy_loop_result:
  assumes "mm_inv E st" and "has_identity st ob n pf" and "frames st pf = Some f"
  shows "unbusy_loop E ob n pf st = (if pf_busy f then None else Some (pf, st))"
proof (cases "pf_busy f")
  case True
  have step: "mm_inv E s \<longrightarrow> has_identity s ob n pf \<longrightarrow> \<not> pf_busy (the (frames s pf))"
    if IH: "\<And>E ob n pf s y. loop E ob n pf s = Some y \<Longrightarrow> mm_inv E s \<longrightarrow> has_identity s ob n pf \<longrightarrow> \<not> pf_busy (the (frames s pf))"
      and run: "do { f \<leftarrow> frames s pf; if pf_busy f then do { let (r, st1) = pframe_get_resident E ob n s; pf1 \<leftarrow> r; loop E ob n pf1 st1 }
        else Some (pf, s) } = Some y" for loop E ob n pf s y
  proof (intro impI)
    assume inv: "mm_inv E s" and id: "has_identity s ob n pf"
    show "\<not> pf_busy (the (frames s pf))"
    proof (rule get_resident_cases [OF inv, of ob n])
      assume "\<nexists>pf. has_identity s ob n pf"
      with id show ?thesis by blast
    next
      fix pf' al
      assume r: "has_identity s ob n pf'" "pframe_get_resident E ob n s = (Some pf', s\<lparr>alloc_list := al\<rparr>)"
        "mset al = mset (alloc_list s)"
      then have "pf' = pf" using identity_unique [OF inv id] by blast
      moreover have "mm_inv E (s\<lparr>alloc_list := al\<rparr>)" by (rule mm_inv_alloc_order [OF inv r(3)])
      ultimately show ?thesis using run r(2) id IH [of E ob n pf "s\<lparr>alloc_list := al\<rparr>" y]
        by (auto simp: has_identity_iff split: if_splits)
    qed
  qed
  have "mm_inv E s \<longrightarrow> has_identity s ob n pf \<longrightarrow> \<not> pf_busy (the (frames s pf))" if "unbusy_loop E ob n pf s = Some y" for s y
    by (rule unbusy_loop.raw_induct [OF _ that]) (rule step)
  then have "unbusy_loop E ob n pf st = None"
    using assms True by (cases "unbusy_loop E ob n pf st") force+
  with True show ?thesis by simp
next
  case False
  then show ?thesis using unbusy_loop_quiet [OF assms(3)] by simp
qed

lemma set_busy_ok:
  assumes "mm_inv E st" and "frames st pf = Some f"
  shows "set_busy pf b st = Some (st\<lparr>frames := (frames st)(pf \<mapsto> f\<lparr>pf_busy := b\<rparr>)\<rparr>)"
    and "mm_inv E (st\<lparr>frames := (frames st)(pf \<mapsto> f\<lparr>pf_busy := b\<rparr>)\<rparr>)"
proof -
  show "set_busy pf b st = Some (st\<lparr>frames := (frames st)(pf \<mapsto> f\<lparr>pf_busy := b\<rparr>)\<rparr>)"
    using assms by (simp add: set_busy_def upd_frame_def)
  show "mm_inv E (st\<lparr>frames := (frames st)(pf \<mapsto> f\<lparr>pf_busy := b\<rparr>)\<rparr>)" by (rule mm_inv_flags [OF assms]) simp_all
qed

text \<open>Filling a new frame, given that the recursive call only makes the cache grow.\<close>

lemma fillpage_extends:
  assumes get: "\<And>ob n s ret pf s'. mm_inv E s \<Longrightarrow> get ob n s = Some (ret, pf, s') \<Longrightarrow> extends E s s' \<and> calm s s'"
    and ext: "extends E st st1" and new: "frames st pf = None" and f: "frames st1 pf = Some f" "pf_busy f"
    and run: "mmo_fillpage get L E ob pf st1 = Some (ret, st2)"
  shows "extends E st st2 \<and> calm st1 st2 \<and> (\<exists>k. frames st2 pf = Some (f\<lparr>pf_pincount := k\<rparr>))"
proof -
  have inv: "mm_inv E st1" using ext by (simp add: extends_def)
  obtain mo where mo: "mmobjs st1 ob = Some mo" using run by (auto simp: mmo_fillpage_def split: Option.bind_splits)
  obtain al pl na np where pin: "pframe_pin pf st1 = Some (repin pf f (pf_pincount f + 1) al pl na np st1)"
    and invp: "mm_inv E (repin pf f (pf_pincount f + 1) al pl na np st1)"
    by (rule pframe_pin_ok [OF inv f(1)])
  let ?f = "f\<lparr>pf_pincount := pf_pincount f + 1\<rparr>" and ?sp = "repin pf f (pf_pincount f + 1) al pl na np st1"
  have extp: "extends E st ?sp" by (rule extends_new_frame [OF ext new f(1) invp]) (simp_all add: repin_def)
  have calm: "calm st1 ?sp" using f by (auto simp: calm_def repin_def)
  have fp: "frames ?sp pf = Some ?f" by (simp add: repin_def)
  show ?thesis
  proof (cases "mmo_ops mo")
    case anon_mmobj_ops
    then have st2: "st2 = ?sp\<lparr>page_mem := (page_mem ?sp)(pf_addr f := zero_page L)\<rparr>"
      using run mo f pin by (auto simp: mmo_fillpage_def anon_fillpage_def)
    have "extends E st st2" by (rule extends_new_frame [OF extp new fp, where g' = ?f]) (use invp st2 in \<open>auto simp: repin_def\<close>)
    moreover have "calm st1 st2" using calm by (simp add: calm_def st2)
    ultimately show ?thesis using st2 fp by auto
  next
    case shadow_mmobj_ops
    have mop: "mmobjs ?sp ob = Some mo" using mo by (simp add: repin_def)
    have np: "\<not> is_pinned f" using run mo f shadow_mmobj_ops by (auto simp: mmo_fillpage_def shadow_fillpage_def)
    have r1: "shadow_fillpage get ob pf st1 = Some (ret, st2)" using run mo shadow_mmobj_ops by (simp add: mmo_fillpage_def)
    obtain tempObj where t: "mmo_shadowed mo = Some tempObj"
      using r1 f np pin mop by (cases "mmo_shadowed mo") (auto simp: shadow_fillpage_def)
    obtain r where r: "chain_find tempObj (pf_pagenum f) ?sp = Some r"
      using r1 f np pin mop t by (cases "chain_find tempObj (pf_pagenum f) ?sp") (auto simp: shadow_fillpage_def)
    let ?c = "case r of Inr npframe \<Rightarrow> Some (npframe, ?sp)
        | Inl bottom \<Rightarrow> do { (_, npframe, st2) \<leftarrow> get bottom (pf_pagenum f) ?sp; Some (npframe, st2) }"
    obtain npframe s3 where s3: "?c = Some (npframe, s3)"
      using r1 f np pin mop t r by (cases ?c) (auto simp: shadow_fillpage_def)
    obtain g where "frames s3 npframe = Some g"
      using r1 f np pin mop t r s3 by (cases "frames s3 npframe") (auto simp: shadow_fillpage_def)
    then have st2: "st2 = s3\<lparr>page_mem := (page_mem s3)(pf_addr f := page_mem s3 (pf_addr g))\<rparr>"
      using r1 f np pin mop t r s3 by (auto simp: shadow_fillpage_def)
    have e3: "extends E ?sp s3 \<and> calm ?sp s3"
    proof (cases r)
      case (Inl bottom)
      with s3 obtain ret' where "get bottom (pf_pagenum f) ?sp = Some (ret', npframe, s3)" by (auto split: Option.bind_splits)
      with get [OF invp] show ?thesis by blast
    next
      case (Inr x)
      with s3 show ?thesis using invp by (auto simp: extends_refl calm_def)
    qed
    then have f3: "frames s3 pf = Some ?f" using fp extends_frame by blast
    have "mm_inv E s3" using e3 by (simp add: extends_def)
    then have inv2: "mm_inv E st2" by (simp add: st2)
    have "extends E st st2"
      by (rule extends_new_frame [OF extends_trans [OF extp conjunct1 [OF e3]] new f3 inv2, where g' = ?f])
        (use st2 f3 in auto)
    moreover have "calm st1 st2" using e3 calm f by (auto simp: calm_def st2 repin_def split: if_splits)
    ultimately show ?thesis using f3 st2 by auto
  next
    case vnode_mmobj_ops
    then obtain p where st2: "st2 = st1\<lparr>page_mem := (page_mem st1)(pf_addr f := p)\<rparr>"
      using run mo f by (auto simp: mmo_fillpage_def vreadpage_def Let_def split: prod.splits)
    have "extends E st st2" by (rule extends_new_frame [OF ext new f(1), where g' = f]) (use inv st2 f in \<open>auto\<close>)
    moreover have "calm st1 st2" by (auto simp: calm_def st2)
    moreover have "frames st2 pf = Some (f\<lparr>pf_pincount := pf_pincount f\<rparr>)" using st2 f by simp
    ultimately show ?thesis by blast
  qed
qed

text \<open>The two ways of getting a page.\<close>

lemma get_resident_page:
  assumes inv: "mm_inv E st" and id: "has_identity st ob n pf" and f: "frames st pf = Some f"
  obtains al where "pframe_get_with ref fill E ob n st = (if pf_busy f then None else Some (0, pf, st\<lparr>alloc_list := al\<rparr>))"
    "mm_inv E (st\<lparr>alloc_list := al\<rparr>)" "mset al = mset (alloc_list st)"
proof (rule get_resident_cases [OF inv, of ob n])
  assume "\<nexists>pf. has_identity st ob n pf"
  with id show thesis by blast
next
  fix pf' al
  assume r: "has_identity st ob n pf'" "pframe_get_resident E ob n st = (Some pf', st\<lparr>alloc_list := al\<rparr>)"
    "mset al = mset (alloc_list st)"
  have pf': "pf' = pf" using identity_unique [OF inv id r(1)] by simp
  have inv': "mm_inv E (st\<lparr>alloc_list := al\<rparr>)" by (rule mm_inv_alloc_order [OF inv r(3)])
  have "unbusy_loop E ob n pf (st\<lparr>alloc_list := al\<rparr>) = (if pf_busy f then None else Some (pf, st\<lparr>alloc_list := al\<rparr>))"
    by (rule unbusy_loop_result [OF inv']) (use id f in simp_all)
  then have "pframe_get_with ref fill E ob n st = (if pf_busy f then None else Some (0, pf, st\<lparr>alloc_list := al\<rparr>))"
    using r(2) pf' by (simp add: pframe_get_with_def)
  then show thesis using that inv' r(3) by blast
qed

lemma woken_sel [simp]: "frames (woken E st) = frames st" "mmobjs (woken E st) = mmobjs st" "page_mem (woken E st) = page_mem st"
  "vnodes (woken E st) = vnodes st" "mm_inv E' (woken E st) = mm_inv E' st"
  by (simp_all add: woken_def)

lemma has_identity_woken [simp]: "has_identity (woken E st) = has_identity st"
  by (simp add: has_identity_def fun_eq_iff)

lemma extends_woken: "mm_inv E st \<Longrightarrow> extends E st (woken E st)"
  by (simp add: extends_def) (simp add: woken_def)

lemma get_new_page:
  assumes inv: "mm_inv E st" and new: "\<nexists>pf. has_identity st ob n pf"
  shows "pframe_get_with mmo_ref fill E ob n st = do {
     mo \<leftarrow> mmobjs st ob;
     pf \<leftarrow> slab_pframe E (woken E st);
     a \<leftarrow> page_alloc E (woken E st);
     kassert (0 < mmo_refcount mo);
     (ret, st1) \<leftarrow> pframe_fill fill pf (add_frame E ob n pf a mo (woken E st));
     Some (ret, pf, st1) }"
proof -
  have absent: "pframe_get_resident E ob n st = (None, st)"
    by (rule get_resident_cases [OF inv, of ob n]) (use new in blast)+
  let ?w = "woken E st"
  have get: "pframe_get_with mmo_ref fill E ob n st = do {
     (r, st3) \<leftarrow> pframe_alloc mmo_ref E ob n ?w; pf \<leftarrow> r; (ret, st4) \<leftarrow> pframe_fill fill pf st3; Some (ret, pf, st4) }"
    using absent by (simp add: pframe_get_with_def woken_def)
  show ?thesis
  proof (cases "slab_pframe E ?w = None \<or> page_alloc E ?w = None \<or> mmobjs st ob = None")
    case True
    then show ?thesis unfolding get
      by (cases "slab_pframe E ?w"; cases "page_alloc E ?w"; cases "mmobjs st ob") (auto simp: pframe_alloc_def Let_def mmo_ref_eq)
  next
    case False
    then obtain pf a mo where s: "slab_pframe E ?w = Some pf" "page_alloc E ?w = Some a" "mmobjs st ob = Some mo" by auto
    show ?thesis
    proof (cases "0 < mmo_refcount mo")
      case True
      then show ?thesis unfolding get using s objects.pframe_alloc_eq [of E ?w pf a ob mo n] by simp
    next
      case False
      then show ?thesis unfolding get using s by (simp add: pframe_alloc_def Let_def mmo_ref_eq)
    qed
  qed
qed

lemma pframe_get_extends:
  assumes fresh: "alloc_fresh E" and "mm_inv E st" and "pframe_get L E n ob pn st = Some (ret, pf, st')"
  shows "extends E st st' \<and> calm st st' \<and> has_identity st' ob pn pf \<and> (\<exists>f. frames st' pf = Some f \<and> \<not> pf_busy f)"
  using assms(2,3)
proof (induction n arbitrary: ob pn st ret pf st')
  case (Suc n)
  note inv = Suc.prems(1)
  let ?fill = "mmo_fillpage (pframe_get L E n) L E"
  have run: "pframe_get_with mmo_ref ?fill E ob pn st = Some (ret, pf, st')" using Suc.prems(2) by simp
  show ?case
  proof (cases "\<exists>pf. has_identity st ob pn pf")
    case True
    then obtain x f where x: "has_identity st ob pn x" "frames st x = Some f" by (auto simp: has_identity_iff)
    from get_resident_page [OF inv this, of mmo_ref ?fill] run obtain al where
      r: "pf = x" "st' = st\<lparr>alloc_list := al\<rparr>" "\<not> pf_busy f" "mm_inv E (st\<lparr>alloc_list := al\<rparr>)"
      by (metis option.discI option.inject prod.inject)
    then have "extends E st st'" by (simp add: extends_def)
    with r x show ?thesis by (auto simp: calm_def)
  next
    case False
    from run [unfolded get_new_page [OF inv False]] obtain mo a where
      mo: "mmobjs st ob = Some mo" and pf: "slab_pframe E (woken E st) = Some pf" and a: "page_alloc E (woken E st) = Some a"
      and fill: "pframe_fill ?fill pf (add_frame E ob pn pf a mo (woken E st)) = Some (ret, st')"
      by (auto split: Option.bind_splits)
    let ?st1 = "add_frame E ob pn pf a mo (woken E st)"
    have e1: "extends E st ?st1"
      by (rule extends_trans [OF extends_woken [OF inv]], rule extends_add_frame [OF _ fresh pf a]) (use inv mo False in auto)
    then have inv1: "mm_inv E ?st1" by (simp add: extends_def)
    have f1: "frames ?st1 pf = Some (new_frame ob pn a)" by (simp add: add_frame_def)
    have none: "frames st pf = None" using inv fresh pf unfolding alloc_fresh_def by (metis woken_sel(1,5))
    let ?f = "(new_frame ob pn a)\<lparr>pf_busy := True\<rparr>" and ?st2 = "?st1\<lparr>frames := (frames ?st1)(pf \<mapsto> (new_frame ob pn a)\<lparr>pf_busy := True\<rparr>)\<rparr>"
    have e2: "extends E st ?st2"
      by (rule extends_new_frame [OF e1 none f1 set_busy_ok(2) [OF inv1 f1], where g' = ?f]) simp_all
    obtain st3 where fp: "?fill ob pf ?st2 = Some (ret, st3)"
      using fill set_busy_ok(1) [OF inv1 f1] by (auto simp: pframe_fill_def new_frame_def split: Option.bind_splits)
    have IH: "extends E s s' \<and> calm s s'" if "mm_inv E s" "pframe_get L E n ob' n' s = Some (r, x, s')" for ob' n' s r x s'
      using Suc.IH [OF that] by blast
    have "extends E st st3 \<and> calm ?st2 st3 \<and> (\<exists>k. frames st3 pf = Some (?f\<lparr>pf_pincount := k\<rparr>))"
      by (rule fillpage_extends [OF IH e2 none _ _ fp]) simp_all
    then obtain k where e3: "extends E st st3" and c3: "calm ?st2 st3" and f3: "frames st3 pf = Some (?f\<lparr>pf_pincount := k\<rparr>)" by blast
    have inv3: "mm_inv E st3" using e3 by (simp add: extends_def)
    let ?g = "?f\<lparr>pf_pincount := k, pf_busy := False\<rparr>"
    have st': "st' = mm_event (PfBroadcast pf) (st3\<lparr>frames := (frames st3)(pf \<mapsto> ?g)\<rparr>)"
      using fill fp set_busy_ok(1) [OF inv1 f1] set_busy_ok(1) [OF inv3 f3] by (auto simp: pframe_fill_def new_frame_def)
    have "extends E st st'"
      by (rule extends_new_frame [OF e3 none f3, where g' = ?g]) (use st' set_busy_ok(2) [OF inv3 f3, of False] in simp_all)
    moreover have "calm st st'" using c3 by (auto simp: calm_def st' add_frame_def new_frame_def split: if_splits)
    moreover have "has_identity st' ob pn pf" by (simp add: has_identity_def st' new_frame_def)
    moreover have "frames st' pf = Some ?g \<and> \<not> pf_busy ?g" by (simp add: st')
    ultimately show ?thesis by blast
  qed
qed simp

lemma calm_quiet: "extends E st st' \<Longrightarrow> calm st st' \<Longrightarrow> quiet st \<Longrightarrow> quiet st'"
  unfolding quiet_def calm_def extends_def by (metis domD option.inject)

subsection \<open>The concrete page cache\<close>

lemma mm_inv_finite: "mm_inv E st \<Longrightarrow> finite (dom (frames st))"
  unfolding mm_inv_def lists_ok_def by (metis List.finite_set finite_Un)

lemma find_SomeD: "List.find P xs = Some x \<Longrightarrow> P x"
  by (auto simp: find_Some_iff)

lemma frame_lists: "mm_inv E st \<Longrightarrow> set (alloc_list st @ pinned_list st) = dom (frames st)"
  by (simp add: mm_inv_def lists_ok_def)

lemma demo_memory: "memory demo_mm_env 4"
  unfolding memory_def
proof
  show "alloc_fresh demo_mm_env"
    unfolding alloc_fresh_def
  proof (intro allI impI conjI)
    fix st pf
    assume "mm_inv demo_mm_env st" "slab_pframe demo_mm_env st = Some pf"
    then show "frames st pf = None" by (simp add: demo_mm_env_def split: if_splits)
  next
    fix st a pf f
    assume h: "mm_inv demo_mm_env st" "page_alloc demo_mm_env st = Some a \<and> frames st pf = Some f"
    then have "pf \<in> set (alloc_list st @ pinned_list st)" using frame_lists by blast
    moreover have "\<forall>pf\<in>set (alloc_list st @ pinned_list st). pf_addr (the (frames st pf)) \<noteq> a"
      using h(2) unfolding demo_mm_env_def by (simp only: mm_env.simps) (blast dest: find_SomeD)
    ultimately show "pf_addr f \<noteq> a" using h(2) by fastforce
  qed
  show "\<forall>st. mm_inv demo_mm_env st \<and> card (dom (frames st)) < 4 \<longrightarrow> slab_pframe demo_mm_env st \<noteq> None \<and> page_alloc demo_mm_env st \<noteq> None"
  proof (intro allI impI, elim conjE, intro conjI)
    fix st
    assume inv: "mm_inv demo_mm_env st" and small: "card (dom (frames st)) < 4"
    have fin: "finite (dom (frames st))" by (rule mm_inv_finite [OF inv])
    show "slab_pframe demo_mm_env st \<noteq> None"
    proof
      assume "slab_pframe demo_mm_env st = None"
      then have "{0, 1, 2, 3} \<subseteq> dom (frames st)" by (auto simp: demo_mm_env_def split: if_splits)
      from card_mono [OF fin this] small show False by simp
    qed
    show "page_alloc demo_mm_env st \<noteq> None"
    proof
      let ?a = "\<lambda>pf. pf_addr (the (frames st pf))"
      assume "page_alloc demo_mm_env st = None"
      then have "set [4096, 8192, 12288, 16384] \<subseteq> ?a ` set (alloc_list st @ pinned_list st)"
        unfolding demo_mm_env_def by (simp only: mm_env.simps find_None_iff) blast
      then have "card (set [4096, 8192, 12288, 16384 :: u32]) \<le> card (?a ` dom (frames st))"
        unfolding frame_lists [OF inv] using fin by (intro card_mono) auto
      also have "\<dots> \<le> card (dom (frames st))" by (rule card_image_le [OF fin])
      finally show False using small by simp
    qed
  qed
qed

lemma demo_paged_inv:
  assumes "pf_obj f = Some 1" and "0 \<le> pf_pincount f"
  shows "mm_inv demo_mm_env (demo_paged ops f)"
proof -
  have id: "has_identity (demo_paged ops f) ob n pf \<longleftrightarrow> pf = 0 \<and> ob = 1 \<and> n = pf_pagenum f" for ob n pf
    using assms(1) by (auto simp: has_identity_iff demo_paged_def split: if_splits)
  have "lists_ok (demo_paged ops f)" using assms by (auto simp: lists_ok_def demo_paged_def is_pinned_def)
  moreover have "hash_ok demo_mm_env (demo_paged ops f)"
    unfolding hash_ok_def id by (auto simp: demo_paged_def demo_mm_env_def hash_page_def)
  moreover have "objs_ok (demo_paged ops f)" unfolding objs_ok_def obj_ok_def id using assms by (auto simp: demo_paged_def)
  moreover have "unique_ok (demo_paged ops f)" unfolding unique_ok_def id by (auto simp: demo_paged_def split: if_splits)
  ultimately show ?thesis by (simp add: mm_inv_def)
qed

lemma demo_object: "mmobjs demo_mm 2 = Some \<lparr>mmo_ops = shadow_mmobj_ops, mmo_refcount = 1, mmo_nrespages = 0, mmo_respages = [],
    mmo_shadowed = Some 1, mmo_bottom_obj = Some 1\<rparr>"
  by (simp add: demo_mm_def)

lemma demo_reads: "fs_reads demo_mm_env"
  by (simp add: fs_reads_def demo_mm_env_def)

end
