(* ===== verification/Shadow_Chains.thy ===== *)
theory Shadow_Chains
  imports Mmobj
begin

section \<open>What is seen through chains of shadow objects\<close>

text \<open>
  Shadow objects (\<^verbatim>\<open>kernel/vm/shadow.c\<close>) make private mappings and forked address spaces copy on write.  This theory gives
  the pages of an object a meaning, \<open>visible\<close>: the page of the first shadow object of its chain that has the page, or the page of
  the object at the bottom, as it is resident or as filling a frame would give it.

  Loading pages changes nothing of what is seen (\<open>loaded_views\<close>).  The properties are that \<open>pframe_get\<close> returns the page seen
  through the object, that \<open>shadow_lookuppage\<close> does so for reading and gives the object a page of its own for writing, and that
  what is written there is private to the object.
\<close>

subsection \<open>What is seen through an object\<close>

text \<open>The page that the object at the bottom of a chain has: the resident one, or what filling a frame would give.\<close>

definition bottom_page :: "layout \<Rightarrow> mm_env \<Rightarrow> mm \<Rightarrow> objid \<Rightarrow> u32 \<Rightarrow> page option" where
  "bottom_page L E st ob n = do {
     mo \<leftarrow> mmobjs st ob;
     case List.find (\<lambda>pf. map_option pf_pagenum (frames st pf) = Some n) (mmo_respages mo) of
       Some pf \<Rightarrow> map_option (\<lambda>f. page_mem st (pf_addr f)) (frames st pf)
     | None \<Rightarrow> (case mmo_ops mo of
         anon_mmobj_ops \<Rightarrow> Some (zero_page L)
       | shadow_mmobj_ops \<Rightarrow> None
       | vnode_mmobj_ops \<Rightarrow> Some (snd (fs_fillpage E ob (PN_TO_ADDR L n) []))) }"

definition visible :: "layout \<Rightarrow> mm_env \<Rightarrow> mm \<Rightarrow> objid \<Rightarrow> u32 \<Rightarrow> page option" where
  "visible L E st ob n = do {
     r \<leftarrow> chain_find ob n st;
     case r of
       Inl b \<Rightarrow> bottom_page L E st b n
     | Inr pf \<Rightarrow> map_option (\<lambda>f. page_mem st (pf_addr f)) (frames st pf) }"

definition shadows :: "mm \<Rightarrow> objid \<Rightarrow> objid \<Rightarrow> bool" where
  "shadows st a b \<longleftrightarrow> (\<exists>mo. mmobjs st a = Some mo \<and> mmo_shadowed mo = Some b)"

text \<open>
  Chains of shadow objects: each shadows an existing object that is in use, there are no cycles, and each knows the object at the
  bottom, which is no shadow object.
\<close>

definition chain_link :: "(objid \<Rightarrow> nat) \<Rightarrow> mm \<Rightarrow> objid \<Rightarrow> mmobj \<Rightarrow> bool" where
  "chain_link rank st ob mo \<longleftrightarrow> (case mmo_shadowed mo of
     None \<Rightarrow> mmo_ops mo \<noteq> shadow_mmobj_ops
   | Some ob' \<Rightarrow> mmo_ops mo = shadow_mmobj_ops \<and> rank ob' < rank ob \<and> (\<exists>mo'. mmobjs st ob' = Some mo' \<and> 0 < mmo_refcount mo'
       \<and> mmo_bottom_obj mo = (if mmo_shadowed mo' = None then Some ob' else mmo_bottom_obj mo')))"

definition ranked :: "(objid \<Rightarrow> nat) \<Rightarrow> mm \<Rightarrow> bool" where
  "ranked rank st \<longleftrightarrow> (\<forall>ob mo. mmobjs st ob = Some mo \<longrightarrow> chain_link rank st ob mo)"

definition chains_ok :: "mm \<Rightarrow> bool" where
  "chains_ok st \<longleftrightarrow> (\<exists>rank. ranked rank st)"

text \<open>New frames hold what was seen through their objects before.\<close>

definition loaded :: "layout \<Rightarrow> mm_env \<Rightarrow> mm \<Rightarrow> mm \<Rightarrow> bool" where
  "loaded L E st st' \<longleftrightarrow> (\<forall>ob n pf f. has_identity st' ob n pf \<and> frames st' pf = Some f \<and> frames st pf = None \<longrightarrow>
     visible L E st ob n = Some (page_mem st' (pf_addr f)))"

text \<open>The frame of a page that is being loaded.\<close>

definition loading :: "mm_env \<Rightarrow> objid \<Rightarrow> u32 \<Rightarrow> pfid \<Rightarrow> u32 \<Rightarrow> mmobj \<Rightarrow> mm \<Rightarrow> mm" where
  "loading E ob n pf a mo st = (add_frame E ob n pf a mo (woken E st))
     \<lparr>frames := (frames st)(pf \<mapsto> (new_frame ob n a)\<lparr>pf_busy := True\<rparr>)\<rparr>"

section \<open>Properties of chains\<close>

subsection \<open>Chains of shadow objects\<close>

lemma find_respages:
  assumes inv: "mm_inv E st" and mo: "mmobjs st ob = Some mo"
  shows "List.find (\<lambda>pf. map_option pf_pagenum (frames st pf) = Some n) (mmo_respages mo) = Some pf \<longleftrightarrow> has_identity st ob n pf"
proof -
  have ok: "obj_ok st ob mo" using inv mo by (auto simp: mm_inv_def objs_ok_def)
  have iff: "pf \<in> set (mmo_respages mo) \<and> map_option pf_pagenum (frames st pf) = Some n \<longleftrightarrow> has_identity st ob n pf" for pf
    using ok by (auto simp: obj_ok_def has_identity_iff)
  show ?thesis
  proof
    assume "List.find (\<lambda>pf. map_option pf_pagenum (frames st pf) = Some n) (mmo_respages mo) = Some pf"
    then show "has_identity st ob n pf" unfolding iff [symmetric] by (auto simp: find_Some_iff)
  next
    assume id: "has_identity st ob n pf"
    then obtain x where x: "List.find (\<lambda>pf. map_option pf_pagenum (frames st pf) = Some n) (mmo_respages mo) = Some x"
      using iff [of pf] by (cases "List.find (\<lambda>pf. map_option pf_pagenum (frames st pf) = Some n) (mmo_respages mo)")
        (auto simp: find_None_iff)
    then have "has_identity st ob n x" unfolding iff [symmetric] by (auto simp: find_Some_iff)
    with x show "List.find (\<lambda>pf. map_option pf_pagenum (frames st pf) = Some n) (mmo_respages mo) = Some pf"
      using identity_unique [OF inv id] by simp
  qed
qed

lemma find_respages_None:
  assumes "mm_inv E st" and "mmobjs st ob = Some mo"
  shows "List.find (\<lambda>pf. map_option pf_pagenum (frames st pf) = Some n) (mmo_respages mo) = None \<longleftrightarrow> (\<nexists>pf. has_identity st ob n pf)"
  using find_respages [OF assms] by (metis not_None_eq)

text \<open>The cases of a step down the chain.\<close>

lemma chain_find_bottom: "mmobjs st ob = Some mo \<Longrightarrow> mmo_shadowed mo = None \<Longrightarrow> chain_find ob n st = Some (Inl ob)"
  by (subst chain_find.simps) simp

lemma chain_find_here:
  assumes "mm_inv E st" "mmobjs st ob = Some mo" "mmo_shadowed mo = Some ob'" "has_identity st ob n pf"
  shows "chain_find ob n st = Some (Inr pf)"
proof -
  have "List.find (\<lambda>pf. map_option pf_pagenum (frames st pf) = Some n) (mmo_respages mo) = Some pf"
    using find_respages [OF assms(1,2)] assms(4) by blast
  then show ?thesis using assms(2,3) by (subst chain_find.simps) (simp del: map_option_eq_Some)
qed

lemma chain_find_below:
  assumes "mm_inv E st" "mmobjs st ob = Some mo" "mmo_shadowed mo = Some ob'" "\<nexists>pf. has_identity st ob n pf"
  shows "chain_find ob n st = chain_find ob' n st"
  using assms(2,3) find_respages_None [OF assms(1,2), of n] assms(4)
  by (subst chain_find.simps) (simp del: map_option_eq_Some)

text \<open>A walk down the chain ends: with a page of a shadow object on the way, or with the object at the bottom.\<close>

lemma chain_find_ends:
  assumes inv: "mm_inv E st" and rank: "ranked rank st" and mo: "mmobjs st ob = Some mo"
  shows "(\<exists>pf ob'. chain_find ob n st = Some (Inr pf) \<and> has_identity st ob' n pf \<and> (shadows st)\<^sup>*\<^sup>* ob ob' \<and> (\<exists>c. shadows st ob' c))
    \<or> (\<exists>b mob. chain_find ob n st = Some (Inl b) \<and> mmobjs st b = Some mob \<and> mmo_shadowed mob = None \<and> mmo_ops mob \<noteq> shadow_mmobj_ops
        \<and> rank b \<le> rank ob \<and> (mmo_shadowed mo \<noteq> None \<longrightarrow> mmo_bottom_obj mo = Some b \<and> 0 < mmo_refcount mob \<and> rank b < rank ob))"
  using mo
proof (induction "rank ob" arbitrary: ob mo rule: less_induct)
  case less
  have link: "chain_link rank st ob mo" using rank less.prems by (simp add: ranked_def)
  show ?case
  proof (cases "mmo_shadowed mo")
    case None
    then show ?thesis using link less.prems chain_find_bottom by (auto simp: chain_link_def)
  next
    case (Some ob')
    then obtain mo' where mo': "rank ob' < rank ob" "mmobjs st ob' = Some mo'" "0 < mmo_refcount mo'"
      "mmo_bottom_obj mo = (if mmo_shadowed mo' = None then Some ob' else mmo_bottom_obj mo')"
      using link by (auto simp: chain_link_def)
    have sh: "shadows st ob ob'" using less.prems Some by (simp add: shadows_def)
    show ?thesis
    proof (cases "\<exists>pf. has_identity st ob n pf")
      case True
      then obtain pf where "has_identity st ob n pf" by blast
      then show ?thesis using chain_find_here [OF inv less.prems Some] sh by blast
    next
      case False
      note eq = chain_find_below [OF inv less.prems Some False]
      from less.hyps [OF mo'(1,2)] show ?thesis
      proof (elim disjE exE conjE)
        fix pf ob''
        assume h: "chain_find ob' n st = Some (Inr pf)" "has_identity st ob'' n pf" "(shadows st)\<^sup>*\<^sup>* ob' ob''"
        fix c
        assume "shadows st ob'' c"
        then show ?thesis using h eq sh by (metis converse_rtranclp_into_rtranclp)
      next
        fix b mob
        assume h: "chain_find ob' n st = Some (Inl b)" "mmobjs st b = Some mob" "mmo_shadowed mob = None" "mmo_ops mob \<noteq> shadow_mmobj_ops"
          "rank b \<le> rank ob'" "mmo_shadowed mo' \<noteq> None \<longrightarrow> mmo_bottom_obj mo' = Some b \<and> 0 < mmo_refcount mob \<and> rank b < rank ob'"
        have "mmo_shadowed mo' = None \<Longrightarrow> b = ob' \<and> mob = mo'" using h(1,2) chain_find_bottom [OF mo'(2)] mo'(2) by auto
        then have "mmo_bottom_obj mo = Some b \<and> 0 < mmo_refcount mob" using h mo' by (cases "mmo_shadowed mo'") auto
        then show ?thesis using h eq mo'(1) by auto
      qed
    qed
  qed
qed

subsection \<open>What is seen\<close>

text \<open>What is seen through an object is its resident page or what is below.\<close>

lemma visible_resident:
  assumes inv: "mm_inv E st" and mo: "mmobjs st ob = Some mo" and id: "has_identity st ob n pf" and f: "frames st pf = Some f"
  shows "visible L E st ob n = Some (page_mem st (pf_addr f))"
proof (cases "mmo_shadowed mo")
  case None
  have "List.find (\<lambda>pf. map_option pf_pagenum (frames st pf) = Some n) (mmo_respages mo) = Some pf"
    using find_respages [OF inv mo] id by blast
  then show ?thesis using chain_find_bottom [OF mo None] mo f by (simp add: visible_def bottom_page_def del: map_option_eq_Some)
next
  case (Some ob')
  then show ?thesis using chain_find_here [OF inv mo Some id] f by (simp add: visible_def)
qed

lemma visible_absent:
  assumes inv: "mm_inv E st" and mo: "mmobjs st ob = Some mo" and id: "\<nexists>pf. has_identity st ob n pf"
  shows "visible L E st ob n = (case mmo_shadowed mo of Some ob' \<Rightarrow> visible L E st ob' n
    | None \<Rightarrow> (case mmo_ops mo of anon_mmobj_ops \<Rightarrow> Some (zero_page L) | shadow_mmobj_ops \<Rightarrow> None
        | vnode_mmobj_ops \<Rightarrow> Some (snd (fs_fillpage E ob (PN_TO_ADDR L n) []))))"
proof (cases "mmo_shadowed mo")
  case None
  have "List.find (\<lambda>pf. map_option pf_pagenum (frames st pf) = Some n) (mmo_respages mo) = None"
    using find_respages_None [OF inv mo] id by blast
  then show ?thesis using chain_find_bottom [OF mo None] mo None
    by (simp add: visible_def bottom_page_def del: map_option_eq_Some)
next
  case (Some ob')
  then show ?thesis using chain_find_below [OF inv mo Some id] by (simp add: visible_def)
qed

lemma visible_no_object: "mmobjs st ob = None \<Longrightarrow> visible L E st ob n = None"
  by (subst visible_def, subst chain_find.simps) simp

lemma extends_object:
  assumes "extends E st st'" and "mmobjs st ob = Some mo"
  obtains mo' where "mmobjs st' ob = Some mo'" "mmo_ops mo' = mmo_ops mo" "mmo_shadowed mo' = mmo_shadowed mo"
    "mmo_bottom_obj mo' = mmo_bottom_obj mo" "mmo_refcount mo \<le> mmo_refcount mo'"
proof -
  have "same_object (mmobjs st ob) (mmobjs st' ob)" using assms(1) by (simp add: extends_def)
  with assms(2) that show thesis by (auto simp: same_object_def split: option.splits)
qed

lemma extends_no_object: "extends E st st' \<Longrightarrow> mmobjs st' ob = None \<longleftrightarrow> mmobjs st ob = None"
proof -
  assume "extends E st st'"
  then have "same_object (mmobjs st ob) (mmobjs st' ob)" by (simp add: extends_def)
  then show ?thesis by (simp add: same_object_def split: option.splits)
qed

lemma extends_ranked:
  assumes ext: "extends E st st'" and rank: "ranked rank st"
  shows "ranked rank st'"
  unfolding ranked_def
proof (intro allI impI)
  fix ob mo'
  assume mo': "mmobjs st' ob = Some mo'"
  then obtain mo where mo: "mmobjs st ob = Some mo" using extends_no_object [OF ext, of ob] by fastforce
  obtain mo2 where "mmobjs st' ob = Some mo2" "mmo_ops mo2 = mmo_ops mo" "mmo_shadowed mo2 = mmo_shadowed mo"
    "mmo_bottom_obj mo2 = mmo_bottom_obj mo" by (rule extends_object [OF ext mo])
  with mo' have eq: "mmo_ops mo' = mmo_ops mo" "mmo_shadowed mo' = mmo_shadowed mo" "mmo_bottom_obj mo' = mmo_bottom_obj mo" by auto
  have link: "chain_link rank st ob mo" using rank mo by (simp add: ranked_def)
  show "chain_link rank st' ob mo'"
  proof (cases "mmo_shadowed mo")
    case None
    then show ?thesis using link eq by (simp add: chain_link_def)
  next
    case (Some c)
    then obtain mc where mc: "mmobjs st c = Some mc" "0 < mmo_refcount mc"
      "mmo_bottom_obj mo = (if mmo_shadowed mc = None then Some c else mmo_bottom_obj mc)"
      using link by (auto simp: chain_link_def)
    obtain mc' where "mmobjs st' c = Some mc'" "mmo_shadowed mc' = mmo_shadowed mc"
      "mmo_bottom_obj mc' = mmo_bottom_obj mc" "mmo_refcount mc \<le> mmo_refcount mc'" by (rule extends_object [OF ext mc(1)])
    then show ?thesis using link Some mc eq by (auto simp: chain_link_def)
  qed
qed

lemma extends_new_identity:
  assumes "extends E st st'" and "has_identity st' ob n pf" and "\<not> has_identity st ob n pf"
  shows "frames st pf = None"
proof (cases "frames st pf")
  case (Some f)
  with assms(1) have "frames st' pf = Some f" by (rule extends_frame)
  with assms(2,3) Some show ?thesis by (simp add: has_identity_iff)
qed simp

text \<open>Loading pages into objects at or below a rank changes nothing of what is seen there.\<close>

lemma views_keep:
  assumes inv: "mm_inv E st" and rank: "ranked rank st" and ext: "extends E st st'"
    and new: "\<And>c pf f. rank c \<le> rank ob \<Longrightarrow> has_identity st' c n pf \<Longrightarrow> frames st' pf = Some f \<Longrightarrow> frames st pf = None \<Longrightarrow>
      visible L E st c n = Some (page_mem st' (pf_addr f))"
  shows "visible L E st' ob n = visible L E st ob n"
  using new
proof (induction "rank ob" arbitrary: ob rule: less_induct)
  case less
  show ?case
  proof (cases "mmobjs st ob")
    case None
    then show ?thesis using extends_no_object [OF ext] by (simp add: visible_no_object)
  next
    case (Some mo)
    have inv': "mm_inv E st'" using ext by (simp add: extends_def)
    obtain mo' where mo': "mmobjs st' ob = Some mo'" "mmo_ops mo' = mmo_ops mo" "mmo_shadowed mo' = mmo_shadowed mo"
      by (rule extends_object [OF ext Some])
    consider (old) pf where "has_identity st ob n pf" | (new) pf where "has_identity st' ob n pf" "\<nexists>pf. has_identity st ob n pf"
      | (absent) "\<nexists>pf. has_identity st' ob n pf" "\<nexists>pf. has_identity st ob n pf"
      using extends_identity [OF ext] by blast
    then show ?thesis
    proof cases
      case (old pf)
      then obtain f where f: "frames st pf = Some f" by (auto simp: has_identity_iff)
      with ext have "frames st' pf = Some f" "page_mem st' (pf_addr f) = page_mem st (pf_addr f)" by (simp_all add: extends_def)
      then show ?thesis
        using visible_resident [OF inv Some old f] visible_resident [OF inv' mo'(1) extends_identity [OF ext old]] by simp
    next
      case (new pf)
      then obtain f where f: "frames st' pf = Some f" by (auto simp: has_identity_iff)
      have "frames st pf = None" by (rule extends_new_identity [OF ext new(1)]) (use new(2) in blast)
      then have "visible L E st ob n = Some (page_mem st' (pf_addr f))" by (rule less.prems [OF order_refl new(1) f])
      then show ?thesis using visible_resident [OF inv' mo'(1) new(1) f] by simp
    next
      case absent
      have "visible L E st' c n = visible L E st c n" if c: "mmo_shadowed mo = Some c" for c
      proof (rule less.hyps)
        show lt: "rank c < rank ob" using rank Some c by (fastforce simp: ranked_def chain_link_def)
        show "visible L E st d n = Some (page_mem st' (pf_addr f))"
          if "rank d \<le> rank c" "has_identity st' d n pf" "frames st' pf = Some f" "frames st pf = None" for d pf f
          using less.prems [OF _ that(2-4)] that(1) lt by simp
      qed
      then show ?thesis
        unfolding visible_absent [OF inv Some absent(2)] visible_absent [OF inv' mo'(1) absent(1)]
        using mo' by (auto split: option.split)
    qed
  qed
qed

subsection \<open>Loading a page\<close>

lemma loading_ok:
  assumes inv: "mm_inv E st" and fresh: "alloc_fresh E" and pf: "slab_pframe E (woken E st) = Some pf"
    and a: "page_alloc E (woken E st) = Some a" and mo: "mmobjs st ob = Some mo" and new: "\<nexists>pf. has_identity st ob n pf"
  shows "frames st pf = None" and "extends E st (loading E ob n pf a mo st)"
    and "frames (loading E ob n pf a mo st) pf = Some ((new_frame ob n a)\<lparr>pf_busy := True\<rparr>)"
proof -
  let ?st1 = "add_frame E ob n pf a mo (woken E st)"
  show none: "frames st pf = None" using inv fresh pf unfolding alloc_fresh_def by (metis woken_sel(1,5))
  have e1: "extends E st ?st1"
    by (rule extends_trans [OF extends_woken [OF inv]], rule extends_add_frame [OF _ fresh pf a]) (use inv mo new in auto)
  then have inv1: "mm_inv E ?st1" by (simp add: extends_def)
  have f1: "frames ?st1 pf = Some (new_frame ob n a)" by (simp add: add_frame_def)
  have eq: "loading E ob n pf a mo st = ?st1\<lparr>frames := (frames ?st1)(pf \<mapsto> (new_frame ob n a)\<lparr>pf_busy := True\<rparr>)\<rparr>"
    by (simp add: loading_def add_frame_def)
  show "extends E st (loading E ob n pf a mo st)" unfolding eq
    by (rule extends_new_frame [OF e1 none f1 set_busy_ok(2) [OF inv1 f1], where g' = "(new_frame ob n a)\<lparr>pf_busy := True\<rparr>"]) simp_all
  show "frames (loading E ob n pf a mo st) pf = Some ((new_frame ob n a)\<lparr>pf_busy := True\<rparr>)" by (simp add: loading_def)
qed

lemma get_loaded:
  assumes inv: "mm_inv E st" and pf: "slab_pframe E (woken E st) = Some pf"
    and a: "page_alloc E (woken E st) = Some a" and mo: "mmobjs st ob = Some mo" "0 < mmo_refcount mo"
    and new: "\<nexists>pf. has_identity st ob n pf" and fill: "fill ob pf (loading E ob n pf a mo st) = Some (ret, st3)" and f3: "frames st3 pf = Some f3"
  shows "pframe_get_with mmo_ref fill E ob n st
    = Some (ret, pf, mm_event (PfBroadcast pf) (st3\<lparr>frames := (frames st3)(pf \<mapsto> f3\<lparr>pf_busy := False\<rparr>)\<rparr>))"
proof -
  have "set_busy pf True (add_frame E ob n pf a mo (woken E st)) = Some (loading E ob n pf a mo st)"
    by (simp add: set_busy_def upd_frame_def add_frame_def loading_def)
  moreover have "frames (loading E ob n pf a mo st) pf = Some ((new_frame ob n a)\<lparr>pf_busy := True\<rparr>)" by (simp add: loading_def)
  ultimately have "pframe_fill fill pf (add_frame E ob n pf a mo (woken E st))
    = Some (ret, mm_event (PfBroadcast pf) (st3\<lparr>frames := (frames st3)(pf \<mapsto> f3\<lparr>pf_busy := False\<rparr>)\<rparr>))"
    using fill f3 by (simp add: pframe_fill_def new_frame_def set_busy_def upd_frame_def)
  then show ?thesis unfolding get_new_page [OF inv new] using pf a mo by simp
qed

lemma memory_allocates:
  assumes "memory E m" and "mm_inv E st" and "card (dom (frames st)) < m"
  obtains pf a where "slab_pframe E (woken E st) = Some pf" "page_alloc E (woken E st) = Some a"
proof -
  have "slab_pframe E (woken E st) \<noteq> None \<and> page_alloc E (woken E st) \<noteq> None" using assms by (simp add: memory_def)
  with that show thesis by auto
qed

text \<open>A page of an object that shadows nothing.\<close>

lemma get_bottom:
  assumes inv: "mm_inv E st" and mem: "memory E m" "card (dom (frames st)) < m" and fs: "fs_reads E"
    and mo: "mmobjs st ob = Some mo" "0 < mmo_refcount mo" "mmo_shadowed mo = None" "mmo_ops mo \<noteq> shadow_mmobj_ops"
    and free: "\<And>pf f. has_identity st ob n pf \<Longrightarrow> frames st pf = Some f \<Longrightarrow> \<not> pf_busy f"
  obtains pf f st' where "pframe_get L E (Suc k) ob n st = Some (0, pf, st')" "frames st' pf = Some f"
    "visible L E st ob n = Some (page_mem st' (pf_addr f))" "dom (frames st') \<subseteq> insert pf (dom (frames st))"
proof (cases "\<exists>pf. has_identity st ob n pf")
  case True
  then obtain pf f where id: "has_identity st ob n pf" "frames st pf = Some f" by (auto simp: has_identity_iff)
  then have "\<not> pf_busy f" by (rule free)
  then obtain al where "pframe_get L E (Suc k) ob n st = Some (0, pf, st\<lparr>alloc_list := al\<rparr>)"
    using get_resident_page [OF inv id, of mmo_ref "mmo_fillpage (pframe_get L E k) L E"] by auto
  then show thesis by (rule that) (use id visible_resident [OF inv mo(1) id, of L] in auto)
next
  case False
  obtain pf a where pf: "slab_pframe E (woken E st) = Some pf" and a: "page_alloc E (woken E st) = Some a"
    by (rule memory_allocates [OF mem(1) inv mem(2)])
  have fresh: "alloc_fresh E" using mem(1) by (simp add: memory_def)
  let ?l = "loading E ob n pf a mo st" and ?f = "(new_frame ob n a)\<lparr>pf_busy := True\<rparr>"
  let ?fill = "mmo_fillpage (pframe_get L E k) L E"
  note l = loading_ok [OF inv fresh pf a mo(1) False]
  have invl: "mm_inv E ?l" using l(2) by (simp add: extends_def)
  obtain p where p: "visible L E st ob n = Some p"
    using visible_absent [OF inv mo(1) False, of L] mo(3,4) by (cases "mmo_ops mo") auto
  obtain mo' where mo': "mmobjs ?l ob = Some mo'" "mmo_ops mo' = mmo_ops mo" by (rule extends_object [OF l(2) mo(1)])
  have "\<exists>st3 c. ?fill ob pf ?l = Some (0, st3) \<and> frames st3 = (frames ?l)(pf \<mapsto> ?f\<lparr>pf_pincount := c\<rparr>) \<and> page_mem st3 a = p"
  proof (cases "mmo_ops mo")
    case anon_mmobj_ops
    have "\<not> is_pinned ?f" by (simp add: is_pinned_def new_frame_def)
    obtain al pl na np where "pframe_pin pf ?l = Some (repin pf ?f (pf_pincount ?f + 1) al pl na np ?l)"
      by (rule pframe_pin_ok [OF invl l(3)])
    then show ?thesis
      using anon_mmobj_ops mo' l(3) p \<open>\<not> is_pinned ?f\<close> visible_absent [OF inv mo(1) False, of L] mo(3)
      by (simp add: mmo_fillpage_def anon_fillpage_def new_frame_def repin_def) (rule exI [of _ 1], rule refl)
  next
    case vnode_mmobj_ops
    have fs': "fs_fillpage E ob off old = (0, snd (fs_fillpage E ob off []))" for off old
      using fs unfolding fs_reads_def by blast
    have "?fill ob pf ?l = Some (0, ?l\<lparr>page_mem := (page_mem ?l)(a := p)\<rparr>)"
      using vnode_mmobj_ops mo' l(3) p visible_absent [OF inv mo(1) False, of L] mo(3) fs' [of _ "page_mem ?l a"]
      by (simp add: mmo_fillpage_def vreadpage_def new_frame_def)
    then show ?thesis using l(3) by (auto simp: fun_upd_idem new_frame_def intro!: exI [of _ 0])
  qed (use mo(4) in simp)
  then obtain st3 c where f3: "?fill ob pf ?l = Some (0, st3)" "frames st3 = (frames ?l)(pf \<mapsto> ?f\<lparr>pf_pincount := c\<rparr>)" "page_mem st3 a = p"
    by blast
  have "pframe_get L E (Suc k) ob n st
    = Some (0, pf, mm_event (PfBroadcast pf) (st3\<lparr>frames := (frames st3)(pf \<mapsto> ?f\<lparr>pf_pincount := c, pf_busy := False\<rparr>)\<rparr>))"
    using get_loaded [OF inv pf a mo(1,2) False, where fill = ?fill, OF f3(1), of "?f\<lparr>pf_pincount := c\<rparr>"] f3(2) by simp
  then show thesis by (rule that) (use f3 p in \<open>auto simp: new_frame_def loading_def split: if_splits\<close>)
qed

text \<open>The walk down the chain of an object in use ends at a frame, that of the bottom object being loaded if it has to be.\<close>

lemma chain_get:
  assumes inv: "mm_inv E st" and rank: "ranked rank st" and mem: "memory E m" "card (dom (frames st)) < m" and fs: "fs_reads E"
    and mo: "mmobjs st ob = Some mo" "0 < mmo_refcount mo"
    and free: "\<And>c pf f. rank c \<le> rank ob \<Longrightarrow> has_identity st c n pf \<Longrightarrow> frames st pf = Some f \<Longrightarrow> \<not> pf_busy f"
  obtains r pf f st' where "chain_find ob n st = Some r"
    "(case r of Inr pf \<Rightarrow> Some (pf, st) | Inl b \<Rightarrow> do { (_, pf, st1) \<leftarrow> pframe_get L E (Suc k) b n st; Some (pf, st1) }) = Some (pf, st')"
    "\<And>b. r = Inl b \<Longrightarrow> mmo_shadowed mo \<noteq> None \<Longrightarrow> mmo_bottom_obj mo = Some b"
    "frames st' pf = Some f" "pf_pagenum f = n" "visible L E st ob n = Some (page_mem st' (pf_addr f))" "extends E st st'" "calm st st'"
    "loaded L E st st'" "\<forall>x d n'. has_identity st' d n' x \<and> frames st x = None \<longrightarrow> n' = n \<and> rank d \<le> rank ob"
    "dom (frames st') \<subseteq> insert pf (dom (frames st))"
proof -
  from chain_find_ends [OF inv rank mo(1), of n] consider
      (here) pf c where "chain_find ob n st = Some (Inr pf)" "has_identity st c n pf"
    | (bottom) b mob where "chain_find ob n st = Some (Inl b)" "mmobjs st b = Some mob" "mmo_shadowed mob = None"
        "mmo_ops mob \<noteq> shadow_mmobj_ops" "rank b \<le> rank ob"
        "mmo_shadowed mo \<noteq> None \<longrightarrow> mmo_bottom_obj mo = Some b \<and> 0 < mmo_refcount mob"
    by blast
  then show thesis
  proof cases
    case here
    then obtain f where f: "frames st pf = Some f" by (auto simp: has_identity_iff)
    show thesis
      by (rule that [OF here(1), of pf st f]) (use f here inv in \<open>auto simp: visible_def extends_refl calm_def loaded_def has_identity_iff\<close>)
  next
    case bottom
    have "mmo_shadowed mo = None \<Longrightarrow> b = ob" using chain_find_bottom [OF mo(1)] bottom(1) by auto
    then have ref: "0 < mmo_refcount mob" using bottom(2,6) mo by (cases "mmo_shadowed mo") auto
    have free': "\<not> pf_busy f" if "has_identity st b n pf" "frames st pf = Some f" for pf f by (rule free [OF bottom(5) that])
    obtain pf f st' where g: "pframe_get L E (Suc k) b n st = Some (0, pf, st')" "frames st' pf = Some f"
      "visible L E st b n = Some (page_mem st' (pf_addr f))" "dom (frames st') \<subseteq> insert pf (dom (frames st))"
      by (rule get_bottom [OF inv mem fs bottom(2) ref bottom(3,4) free'])
    have fresh: "alloc_fresh E" using mem(1) by (simp add: memory_def)
    have ext: "extends E st st'" "calm st st'" "has_identity st' b n pf"
      using pframe_get_extends [OF fresh inv g(1)] by auto
    have "visible L E st ob n = visible L E st b n"
      using bottom(1) chain_find_bottom [OF bottom(2,3)] by (simp add: visible_def)
    moreover have "loaded L E st st'"
      unfolding loaded_def using g(2-4) ext(3) by (auto simp: has_identity_iff)
    moreover have "n' = n \<and> rank d \<le> rank ob" if "has_identity st' d n' x" "frames st x = None" for x d n'
      using that g(4) ext(3) bottom(5) by (auto simp: has_identity_iff)
    moreover have "pf_pagenum f = n" using ext(3) g(2) by (simp add: has_identity_iff)
    ultimately show thesis by (intro that [OF bottom(1), of pf st' f]) (use g ext bottom(6) in auto)
  qed
qed

text \<open>What is seen stays the same when pages have only been loaded.\<close>

lemma loaded_views:
  assumes "mm_inv E st" and "ranked rank st" and "extends E st st'" and "loaded L E st st'"
  shows "visible L E st' ob n = visible L E st ob n"
  by (rule views_keep [OF assms(1-3)]) (use assms(4) in \<open>auto simp: loaded_def\<close>)

lemma loaded_trans:
  assumes "mm_inv E st" and "ranked rank st" and "extends E st st1" and "loaded L E st st1" and "extends E st1 st2" and "loaded L E st1 st2"
  shows "loaded L E st st2"
  unfolding loaded_def
proof (intro allI impI, elim conjE)
  fix ob n pf f
  assume h: "has_identity st2 ob n pf" "frames st2 pf = Some f" "frames st pf = None"
  show "visible L E st ob n = Some (page_mem st2 (pf_addr f))"
  proof (cases "frames st1 pf")
    case None
    then show ?thesis using h assms(6) loaded_views [OF assms(1-4)] by (simp add: loaded_def)
  next
    case (Some g)
    then have "g = f" "page_mem st2 (pf_addr f) = page_mem st1 (pf_addr f)" using assms(5) h(2) by (auto simp: extends_def)
    moreover from this have "has_identity st1 ob n pf" using h Some by (simp add: has_identity_iff)
    ultimately show ?thesis using h(3) Some assms(4) unfolding loaded_def by metis
  qed
qed


lemma loading_pinned:
  assumes inv: "mm_inv E st" and fresh: "alloc_fresh E" and pf: "slab_pframe E (woken E st) = Some pf"
    and a: "page_alloc E (woken E st) = Some a" and mo: "mmobjs st ob = Some mo" and new: "\<nexists>pf. has_identity st ob n pf"
  obtains sp where "pframe_pin pf (loading E ob n pf a mo st) = Some sp" "extends E st sp"
    "frames sp = (frames st)(pf \<mapsto> (new_frame ob n a)\<lparr>pf_busy := True, pf_pincount := 1\<rparr>)"
proof -
  let ?l = "loading E ob n pf a mo st" and ?f = "(new_frame ob n a)\<lparr>pf_busy := True\<rparr>"
  note l = loading_ok [OF inv fresh pf a mo new]
  have invl: "mm_inv E ?l" using l(2) by (simp add: extends_def)
  obtain al pl na np where pin: "pframe_pin pf ?l = Some (repin pf ?f (pf_pincount ?f + 1) al pl na np ?l)"
    and invp: "mm_inv E (repin pf ?f (pf_pincount ?f + 1) al pl na np ?l)" by (rule pframe_pin_ok [OF invl l(3)])
  show thesis
  proof (rule that [OF pin])
    show "extends E st (repin pf ?f (pf_pincount ?f + 1) al pl na np ?l)"
      by (rule extends_new_frame [OF l(2,1,3) invp]) (simp_all add: repin_def)
  qed (simp add: repin_def loading_def new_frame_def)
qed

text \<open>A frame is filled by copying from the page found below.\<close>

lemma shadow_fill_copies:
  assumes sp: "mm_inv E sp" "ranked rank sp" "frames sp pf = Some f" "mmobjs sp ob = Some mo" "mmo_shadowed mo = Some c"
    and start: "frames st pf = Some f0" "pf_busy f0" "\<not> is_pinned f0" "pf_pagenum f0 = n" "pf_addr f0 = pf_addr f" "pframe_pin pf st = Some sp"
    and mem: "memory E m" "card (dom (frames sp)) < m" and fs: "fs_reads E" and ref: "mmobjs sp c = Some mc" "0 < mmo_refcount mc"
    and busy: "\<And>d x h. rank d \<le> rank c \<Longrightarrow> has_identity sp d n x \<Longrightarrow> frames sp x = Some h \<Longrightarrow> \<not> pf_busy h"
  obtains s3 p where "shadow_fillpage (pframe_get L E (Suc k)) ob pf st = Some (0, s3\<lparr>page_mem := (page_mem s3)(pf_addr f := p)\<rparr>)"
    "visible L E sp c n = Some p" "extends E sp s3" "loaded L E sp s3"
    "\<forall>x d n'. has_identity s3 d n' x \<and> frames sp x = None \<longrightarrow> n' = n \<and> rank d \<le> rank c"
proof -
  obtain r x g s3 where g: "chain_find c n sp = Some r"
    "(case r of Inr pf \<Rightarrow> Some (pf, sp) | Inl b \<Rightarrow> do { (_, pf, st1) \<leftarrow> pframe_get L E (Suc k) b n sp; Some (pf, st1) }) = Some (x, s3)"
    "frames s3 x = Some g" "visible L E sp c n = Some (page_mem s3 (pf_addr g))" "extends E sp s3" "loaded L E sp s3"
    "\<forall>x d n'. has_identity s3 d n' x \<and> frames sp x = None \<longrightarrow> n' = n \<and> rank d \<le> rank c"
    by (rule chain_get [OF sp(1,2) mem fs ref busy, where L = L and k = k]) auto
  have "shadow_fillpage (pframe_get L E (Suc k)) ob pf st = Some (0, s3\<lparr>page_mem := (page_mem s3)(pf_addr f := page_mem s3 (pf_addr g))\<rparr>)"
    unfolding shadow_fillpage_def using start sp(4,5) g(1-3) by (cases r) (auto split: Option.bind_splits prod.splits)
  then show thesis using that g by blast
qed

text \<open>A page of a shadow object: it is loaded with what is seen below.\<close>

lemma get_shadow:
  assumes inv: "mm_inv E st" and rank: "ranked rank st" and mem: "memory E m" "card (dom (frames st)) + 1 < m" and fs: "fs_reads E"
    and mo: "mmobjs st ob = Some mo" "0 < mmo_refcount mo" "mmo_ops mo = shadow_mmobj_ops" and quiet: "quiet st"
  obtains pf f st' where "pframe_get L E (Suc (Suc k)) ob n st = Some (0, pf, st')" "frames st' pf = Some f" "pf_obj f = Some ob"
    "visible L E st ob n = Some (page_mem st' (pf_addr f))" "loaded L E st st'"
proof (cases "\<exists>pf. has_identity st ob n pf")
  case True
  then obtain pf f where id: "has_identity st ob n pf" "frames st pf = Some f" by (auto simp: has_identity_iff)
  then have "\<not> pf_busy f" using quiet by (simp add: quiet_def)
  then obtain al where "pframe_get L E (Suc (Suc k)) ob n st = Some (0, pf, st\<lparr>alloc_list := al\<rparr>)"
    using get_resident_page [OF inv id, of mmo_ref "mmo_fillpage (pframe_get L E (Suc k)) L E"] by auto
  then show thesis by (rule that) (use id visible_resident [OF inv mo(1) id, of L] in \<open>auto simp: loaded_def has_identity_iff\<close>)
next
  case False
  have link: "chain_link rank st ob mo" using rank mo(1) by (simp add: ranked_def)
  with mo(3) obtain c mc where c: "mmo_shadowed mo = Some c" "rank c < rank ob" "mmobjs st c = Some mc" "0 < mmo_refcount mc"
    by (auto simp: chain_link_def split: option.splits)
  obtain pf a where pf: "slab_pframe E (woken E st) = Some pf" and a: "page_alloc E (woken E st) = Some a"
    by (rule memory_allocates [OF mem(1) inv]) (use mem(2) in simp)
  have fresh: "alloc_fresh E" using mem(1) by (simp add: memory_def)
  let ?l = "loading E ob n pf a mo st" and ?f = "(new_frame ob n a)\<lparr>pf_busy := True, pf_pincount := 1\<rparr>"
  let ?fl = "(new_frame ob n a)\<lparr>pf_busy := True\<rparr>" and ?fill = "mmo_fillpage (pframe_get L E (Suc k)) L E"
  note l = loading_ok [OF inv fresh pf a mo(1) False]
  obtain sp where pin: "pframe_pin pf ?l = Some sp" and extp: "extends E st sp" and frp: "frames sp = (frames st)(pf \<mapsto> ?f)"
    by (rule loading_pinned [OF inv fresh pf a mo(1) False])
  have invp: "mm_inv E sp" using extp by (simp add: extends_def)
  have idp: "has_identity sp d n' x \<longleftrightarrow> has_identity st d n' x" if "rank d \<le> rank c" for d n' x
    using that c(2) l(1) by (auto simp: has_identity_iff frp new_frame_def)
  have seen: "visible L E sp d n = visible L E st d n" if "rank d \<le> rank c" for d
    by (rule views_keep [OF inv rank extp]) (metis idp has_identity_iff option.distinct(1) order_trans that)
  obtain mol where mol: "mmobjs ?l ob = Some mol" "mmo_ops mol = shadow_mmobj_ops" using extends_object [OF l(2) mo(1)] mo(3) by metis
  obtain mop where mop: "mmobjs sp ob = Some mop" "mmo_shadowed mop = Some c" using extends_object [OF extp mo(1)] c(1) by metis
  obtain mc' where mc': "mmobjs sp c = Some mc'" "0 < mmo_refcount mc'" using extends_object [OF extp c(3)] c(4) by (metis less_le_trans)
  have busy: "\<not> pf_busy h" if "rank d \<le> rank c" "has_identity sp d n x" "frames sp x = Some h" for d x h
  proof -
    from idp [OF that(1)] that(2) obtain f where "frames st x = Some f" unfolding has_identity_iff by blast
    moreover from this have "h = f" using extends_frame [OF extp] that(3) by fastforce
    ultimately show ?thesis using quiet by (simp add: quiet_def)
  qed
  have cardp: "card (dom (frames sp)) < m" using mem(2) mm_inv_finite [OF inv] l(1) by (simp add: frp card_insert_if domIff)
  have fp: "frames sp pf = Some ?f" by (simp add: frp)
  have f0: "pf_busy ?fl" "\<not> is_pinned ?fl" "pf_pagenum ?fl = n" "pf_addr ?fl = pf_addr ?f" by (simp_all add: new_frame_def is_pinned_def)
  obtain s3 p where g: "shadow_fillpage (pframe_get L E (Suc k)) ob pf ?l = Some (0, s3\<lparr>page_mem := (page_mem s3)(pf_addr ?f := p)\<rparr>)"
    "visible L E sp c n = Some p" "extends E sp s3" "loaded L E sp s3"
    "\<forall>x d n'. has_identity s3 d n' x \<and> frames sp x = None \<longrightarrow> n' = n \<and> rank d \<le> rank c"
    by (rule shadow_fill_copies [OF invp extends_ranked [OF extp rank] fp mop l(3) f0 pin mem(1) cardp fs mc' busy, where L = L and k = k])
  have f3: "frames s3 pf = Some ?f" using extends_frame [OF g(3)] by (simp add: frp)
  let ?st' = "mm_event (PfBroadcast pf) (s3\<lparr>page_mem := (page_mem s3)(a := p), frames := (frames s3)(pf \<mapsto> ?f\<lparr>pf_busy := False\<rparr>)\<rparr>)"
  have run: "pframe_get L E (Suc (Suc k)) ob n st = Some (0, pf, ?st')"
    using get_loaded [OF inv pf a mo(1,2) False, where fill = ?fill, of 0 _ ?f] g(1) mol f3 by (simp add: mmo_fillpage_def new_frame_def)
  have p: "visible L E st ob n = Some p" using visible_absent [OF inv mo(1) False, of L] c(1) seen [of c] g(2) by simp
  have inv3: "mm_inv E s3" using g(3) by (simp add: extends_def)
  have "visible L E st d n' = Some (page_mem ?st' (pf_addr h))"
    if h: "has_identity ?st' d n' x" "frames ?st' x = Some h" "frames st x = None" for d n' x h
  proof (cases "x = pf")
    case True
    then show ?thesis using h p by (auto simp: has_identity_iff new_frame_def)
  next
    case False
    then have x: "has_identity s3 d n' x" "frames s3 x = Some h" "frames sp x = None" using h by (simp_all add: has_identity_iff frp)
    have "pf_addr h \<noteq> a" using inv3 x(2) f3 False unfolding mm_inv_def unique_ok_def by (force simp: new_frame_def)
    then show ?thesis using g(4,5) seen [of d] x unfolding loaded_def by auto
  qed
  then have ld: "loaded L E st ?st'" unfolding loaded_def by blast
  show thesis by (rule that [where f = "?f\<lparr>pf_busy := False\<rparr>", OF run _ _ _ ld]) (simp_all add: new_frame_def p)
qed


text \<open>Looking a page up through a chain of shadow objects.\<close>

lemma lookup_bottom:
  assumes "mmobjs st ob = Some mo" and "chain_find ob n st = Some r" and "\<And>b. r = Inl b \<Longrightarrow> mmo_bottom_obj mo = Some b"
    and "(case r of Inr pf \<Rightarrow> Some (pf, st) | Inl b \<Rightarrow> do { (_, pf, st1) \<leftarrow> pframe_get L E (Suc (Suc 0)) b n st; Some (pf, st1) }) = Some (pf, st1)"
  shows "shadow_lookuppage L E ob n w st = (if \<not> w then Some (Inr (0, pf), st1) else do {
     f \<leftarrow> frames st1 pf;
     if pf_obj f \<noteq> Some ob then do { (_, pf, st2) \<leftarrow> pframe_get L E (Suc (Suc 0)) ob n st1; Some (Inr (0, pf), st2) } else Some (Inr (0, pf), st1) })"
  using assms by (cases r) (auto simp: shadow_lookuppage_def numeral_2_eq_2 split: Option.bind_splits)

lemma shadow_lookup:
  assumes inv: "mm_inv E st" and quiet: "quiet st" and chains: "chains_ok st" and mo: "mmobjs st ob = Some mo" "mmo_ops mo = shadow_mmobj_ops"
      "0 < mmo_refcount mo"
    and mem: "memory E m" "card (dom (frames st)) + 2 < m" and fs: "fs_reads E"
  shows "\<exists>pf f st'. shadow_lookuppage L E ob n w st = Some (Inr (0, pf), st') \<and> frames st' pf = Some f
    \<and> visible L E st ob n = Some (page_mem st' (pf_addr f)) \<and> pf_pagenum f = n \<and> (w \<longrightarrow> pf_obj f = Some ob)
    \<and> extends E st st' \<and> quiet st' \<and> chains_ok st' \<and> (\<forall>ob' n'. visible L E st' ob' n' = visible L E st ob' n')"
proof -
  obtain rank where rank: "ranked rank st" using chains by (auto simp: chains_ok_def)
  have fresh: "alloc_fresh E" using mem(1) by (simp add: memory_def)
  have sh: "mmo_shadowed mo \<noteq> None" using rank mo by (force simp: ranked_def chain_link_def split: option.splits)
  obtain r pf f st1 where g: "chain_find ob n st = Some r"
    "(case r of Inr pf \<Rightarrow> Some (pf, st) | Inl b \<Rightarrow> do { (_, pf, st1) \<leftarrow> pframe_get L E (Suc (Suc 0)) b n st; Some (pf, st1) }) = Some (pf, st1)"
    "\<And>b. r = Inl b \<Longrightarrow> mmo_shadowed mo \<noteq> None \<Longrightarrow> mmo_bottom_obj mo = Some b" "frames st1 pf = Some f"
    "visible L E st ob n = Some (page_mem st1 (pf_addr f))" "extends E st st1" "calm st st1" "loaded L E st st1"
    "dom (frames st1) \<subseteq> insert pf (dom (frames st))" and page: "pf_pagenum f = n"
    by (rule chain_get [OF inv rank mem(1) _ fs mo(1,3), where L = L and k = "Suc 0"]) (use quiet mem(2) in \<open>auto simp: quiet_def\<close>)
  have look: "shadow_lookuppage L E ob n w st = (if \<not> w then Some (Inr (0, pf), st1) else do {
     f \<leftarrow> frames st1 pf;
     if pf_obj f \<noteq> Some ob then do { (_, pf, st2) \<leftarrow> pframe_get L E (Suc (Suc 0)) ob n st1; Some (Inr (0, pf), st2) } else Some (Inr (0, pf), st1) })"
    by (rule lookup_bottom [OF mo(1) g(1)]) (use g(2,3) sh in auto)
  have inv1: "mm_inv E st1" using g(6) by (simp add: extends_def)
  note rank1 = extends_ranked [OF g(6) rank]
  have quiet1: "quiet st1" by (rule calm_quiet [OF g(6,7) quiet])
  show ?thesis
  proof (cases "w \<and> pf_obj f \<noteq> Some ob")
    case False
    then have "shadow_lookuppage L E ob n w st = Some (Inr (0, pf), st1)" using look g(4) by auto
    then show ?thesis using g(4-6) quiet1 rank1 page False loaded_views [OF inv rank g(6,8)] by (auto simp: chains_ok_def)
  next
    case True
    obtain mo1 where mo1: "mmobjs st1 ob = Some mo1" "0 < mmo_refcount mo1" "mmo_ops mo1 = shadow_mmobj_ops"
      using extends_object [OF g(6) mo(1)] mo(2,3) by (metis less_le_trans)
    have card1: "card (dom (frames st1)) + 1 < m"
      using card_mono [OF _ g(9)] mm_inv_finite [OF inv] mem(2) by (simp add: card_insert_if split: if_splits)
    obtain pf2 f2 st2 where h: "pframe_get L E (Suc (Suc 0)) ob n st1 = Some (0, pf2, st2)" "frames st2 pf2 = Some f2" "pf_obj f2 = Some ob"
      "visible L E st1 ob n = Some (page_mem st2 (pf_addr f2))" "loaded L E st1 st2"
      by (rule get_shadow [OF inv1 rank1 mem(1) card1 fs mo1 quiet1])
    have ext2: "extends E st1 st2" "calm st1 st2" "has_identity st2 ob n pf2" using pframe_get_extends [OF fresh inv1 h(1)] by auto
    have "shadow_lookuppage L E ob n w st = Some (Inr (0, pf2), st2)" using look g(4) True h(1) by simp
    moreover have "quiet st2" by (rule calm_quiet [OF ext2(1,2) quiet1])
    moreover note loaded_views [OF inv rank g(6,8)] loaded_views [OF inv1 rank1 ext2(1) h(5)] extends_trans [OF g(6) ext2(1)]
      extends_ranked [OF ext2(1) rank1]
    ultimately show ?thesis using h ext2(3) by (auto simp: has_identity_iff chains_ok_def)
  qed
qed

subsection \<open>Writing a page\<close>

text \<open>A write into a frame is seen through its object and the objects above only.\<close>

lemma has_identity_mem [simp]: "has_identity (st\<lparr>page_mem := m\<rparr>) = has_identity st"
  by (simp add: has_identity_def fun_eq_iff)

lemma write_elsewhere:
  assumes inv: "mm_inv E st" and rank: "ranked rank st" and f: "frames st pf = Some f" "has_identity st ob n pf"
    and "\<not> (shadows st)\<^sup>*\<^sup>* ob' ob \<or> n' \<noteq> n"
  shows "visible L E (st\<lparr>page_mem := (page_mem st)(pf_addr f := p)\<rparr>) ob' n' = visible L E st ob' n'"
  using assms(5)
proof (induction "rank ob'" arbitrary: ob' rule: less_induct)
  case less
  let ?st = "st\<lparr>page_mem := (page_mem st)(pf_addr f := p)\<rparr>"
  show ?case
  proof (cases "mmobjs st ob'")
    case None
    then show ?thesis by (simp add: visible_no_object)
  next
    case (Some mo)
    have inv': "mm_inv E ?st" and mo': "mmobjs ?st ob' = Some mo" using inv Some by simp_all
    show ?thesis
    proof (cases "\<exists>x. has_identity st ob' n' x")
      case True
      then obtain x g where x: "has_identity st ob' n' x" "frames st x = Some g" by (auto simp: has_identity_iff)
      have "x \<noteq> pf" using less.prems x f by (auto simp: has_identity_iff)
      then have "pf_addr g \<noteq> pf_addr f" using inv x(2) f(1) unfolding mm_inv_def unique_ok_def by blast
      then show ?thesis using visible_resident [OF inv Some x, of L] visible_resident [OF inv' mo', of n' x g L] x by simp
    next
      case False
      then have absent: "\<nexists>x. has_identity ?st ob' n' x" by simp
      have "visible L E ?st c n' = visible L E st c n'" if c: "mmo_shadowed mo = Some c" for c
      proof (rule less.hyps)
        show "rank c < rank ob'" using rank Some c by (fastforce simp: ranked_def chain_link_def)
        have "shadows st ob' c" using Some c by (simp add: shadows_def)
        then show "\<not> (shadows st)\<^sup>*\<^sup>* c ob \<or> n' \<noteq> n" using less.prems by (metis converse_rtranclp_into_rtranclp)
      qed
      then show ?thesis unfolding visible_absent [OF inv Some False] visible_absent [OF inv' mo' absent] by (auto split: option.split)
    qed
  qed
qed

lemma shadows_extends:
  assumes "extends E st st'"
  shows "shadows st' = shadows st"
proof (intro ext)
  fix a b
  show "shadows st' a b = shadows st a b"
  proof (cases "mmobjs st a")
    case None
    then show ?thesis using extends_no_object [OF assms, of a] by (simp add: shadows_def)
  next
    case (Some mo)
    obtain mo' where "mmobjs st' a = Some mo'" "mmo_shadowed mo' = mmo_shadowed mo" by (rule extends_object [OF assms Some])
    with Some show ?thesis by (simp add: shadows_def)
  qed
qed

lemma demo_inv: "mm_inv demo_mm_env demo_mm" "quiet demo_mm" "chains_ok demo_mm"
proof -
  show "mm_inv demo_mm_env demo_mm"
    by (auto simp: mm_inv_def lists_ok_def hash_ok_def objs_ok_def obj_ok_def unique_ok_def has_identity_def demo_mm_def split: if_splits)
  show "quiet demo_mm" by (simp add: quiet_def demo_mm_def)
  have "ranked (\<lambda>ob. ob) demo_mm" by (auto simp: ranked_def chain_link_def demo_mm_def split: if_splits)
  then show "chains_ok demo_mm" by (auto simp: chains_ok_def)
qed

lemma get_page:
  assumes inv: "mm_inv E st" and quiet: "quiet st" and rank: "ranked rank st" and mo: "mmobjs st ob = Some mo" "0 < mmo_refcount mo"
    and mem: "memory E m" "card (dom (frames st)) + 1 < m" and fs: "fs_reads E"
  obtains pf f st' where "pframe_get L E (Suc (Suc k)) ob n st = Some (0, pf, st')" "frames st' pf = Some f"
    "visible L E st ob n = Some (page_mem st' (pf_addr f))" "loaded L E st st'"
proof (cases "mmo_ops mo = shadow_mmobj_ops")
  case True
  then show thesis using get_shadow [OF inv rank mem fs mo _ quiet] that by metis
next
  case False
  then have "mmo_shadowed mo = None" using rank mo(1) by (force simp: ranked_def chain_link_def split: option.splits)
  have less: "card (dom (frames st)) < m" using mem(2) by simp
  have free: "\<not> pf_busy f" if "has_identity st ob n pf" "frames st pf = Some f" for pf f using quiet that by (simp add: quiet_def)
  obtain pf f st' where g: "pframe_get L E (Suc (Suc k)) ob n st = Some (0, pf, st')" "frames st' pf = Some f"
    "visible L E st ob n = Some (page_mem st' (pf_addr f))" "dom (frames st') \<subseteq> insert pf (dom (frames st))"
    by (rule get_bottom [OF inv mem(1) less fs mo \<open>mmo_shadowed mo = None\<close> False free])
  have "alloc_fresh E" using mem(1) by (simp add: memory_def)
  then have "has_identity st' ob n pf" using pframe_get_extends inv g(1) by blast
  then have "loaded L E st st'" unfolding loaded_def using g(2-4) by (auto simp: has_identity_iff)
  with g show thesis using that by blast
qed

text \<open>
  C29: The page cache.  When there is memory and file systems read their pages, \<open>pframe_get\<close> on an object in use returns 0 and a frame of that
  page, holding what is seen through the object; the frames there were, their contents and what is seen through every object stay
  the same, the invariant of the cache holds again, and a second call finds the same frame and loads nothing.
\<close>

theorem pframe_get_correct:
  assumes inv: "mm_inv E st" and quiet: "quiet st" and chains: "chains_ok st" and mo: "mmobjs st ob = Some mo" "0 < mmo_refcount mo"
    and mem: "memory E m" "card (dom (frames st)) + 1 < m" and fs: "fs_reads E"
  shows "\<exists>pf f st'. pframe_get L E (Suc (Suc k)) ob n st = Some (0, pf, st') \<and> frames st' pf = Some f \<and> pf_obj f = Some ob \<and> pf_pagenum f = n
    \<and> visible L E st ob n = Some (page_mem st' (pf_addr f)) \<and> extends E st st' \<and> quiet st' \<and> chains_ok st'
    \<and> (\<forall>ob' n'. visible L E st' ob' n' = visible L E st ob' n')
    \<and> (\<exists>st''. pframe_get L E (Suc (Suc k)) ob n st' = Some (0, pf, st'') \<and> frames st'' = frames st' \<and> page_mem st'' = page_mem st')"
proof -
  obtain rank where rank: "ranked rank st" using chains by (auto simp: chains_ok_def)
  have fresh: "alloc_fresh E" using mem(1) by (simp add: memory_def)
  obtain pf f st' where g: "pframe_get L E (Suc (Suc k)) ob n st = Some (0, pf, st')" "frames st' pf = Some f"
    "visible L E st ob n = Some (page_mem st' (pf_addr f))" "loaded L E st st'"
    by (rule get_page [OF inv quiet rank mo mem fs])
  have e: "extends E st st'" "calm st st'" "has_identity st' ob n pf" using pframe_get_extends [OF fresh inv g(1)] by auto
  have inv': "mm_inv E st'" using e(1) by (simp add: extends_def)
  have quiet': "quiet st'" by (rule calm_quiet [OF e(1,2) quiet])
  then have "\<not> pf_busy f" using g(2) by (simp add: quiet_def)
  then obtain al where "pframe_get L E (Suc (Suc k)) ob n st' = Some (0, pf, st'\<lparr>alloc_list := al\<rparr>)"
    using get_resident_page [OF inv' e(3) g(2), of mmo_ref "mmo_fillpage (pframe_get L E (Suc k)) L E"] by auto
  moreover have "chains_ok st'" using extends_ranked [OF e(1) rank] by (auto simp: chains_ok_def)
  ultimately show ?thesis using g e quiet' loaded_views [OF inv rank e(1) g(4)] by (auto simp: has_identity_iff)
qed

theorem pframe_get_correct_witness:
  "\<exists>pf f st'. pframe_get demo_layout demo_mm_env (Suc (Suc 0)) 2 7 demo_mm = Some (0, pf, st') \<and> frames st' pf = Some f \<and> pf_obj f = Some 2"
proof -
  have "card (dom (frames demo_mm)) + 1 < 4" by (simp add: demo_mm_def)
  then show ?thesis using pframe_get_correct [OF demo_inv demo_object _ demo_memory _ demo_reads, of demo_layout 0 7] by auto
qed

text \<open>
  A page that is busy is never returned: \<^verbatim>\<open>pframe_get\<close> looks it up again and again without giving up the processor, so that the thread
  that could finish with the page does not run.
\<close>

theorem busy_page_never_returned:
  assumes "mm_inv E st" and "has_identity st ob n pf" and "frames st pf = Some f" and "pf_busy f"
  shows "pframe_get L E k ob n st = None"
proof (cases k)
  case (Suc j)
  then show ?thesis using get_resident_page [OF assms(1-3), of mmo_ref "mmo_fillpage (pframe_get L E j) L E"] assms(4) by auto
qed simp

theorem busy_page_never_returned_witness:
  "pframe_get demo_layout demo_mm_env 5 1 7 (demo_paged anon_mmobj_ops ((new_frame 1 7 4096)\<lparr>pf_busy := True\<rparr>)) = None"
proof -
  let ?f = "(new_frame 1 7 4096)\<lparr>pf_busy := True\<rparr>"
  have "mm_inv demo_mm_env (demo_paged anon_mmobj_ops ?f)" by (rule demo_paged_inv) (simp_all add: new_frame_def)
  then show ?thesis
    by (rule busy_page_never_returned [where pf = 0 and f = ?f]) (simp_all add: demo_paged_def has_identity_def new_frame_def)
qed

lemma demo_not_above: "\<not> (shadows demo_mm)\<^sup>*\<^sup>* 3 2"
proof
  assume "(shadows demo_mm)\<^sup>*\<^sup>* 3 2"
  then obtain y where "shadows demo_mm 3 y" "(shadows demo_mm)\<^sup>*\<^sup>* y 2" by (cases rule: converse_rtranclpE) auto
  moreover from this have "y = 1" by (simp add: shadows_def demo_mm_def)
  ultimately obtain z where "shadows demo_mm 1 z" by (auto elim: converse_rtranclpE)
  then show False by (simp add: shadows_def demo_mm_def)
qed

lemma copy_on_write:
  assumes inv: "mm_inv E st" and quiet: "quiet st" and chains: "chains_ok st" and mo: "mmobjs st ob = Some mo" "mmo_ops mo = shadow_mmobj_ops"
      "0 < mmo_refcount mo"
    and mem: "memory E m" "card (dom (frames st)) + 2 < m" and fs: "fs_reads E"
  shows "\<exists>pf f st'. shadow_lookuppage L E ob n True st = Some (Inr (0, pf), st') \<and> frames st' pf = Some f \<and> pf_obj f = Some ob
    \<and> visible L E st ob n = Some (page_mem st' (pf_addr f))
    \<and> visible L E (st'\<lparr>page_mem := (page_mem st')(pf_addr f := p)\<rparr>) ob n = Some p
    \<and> (\<forall>ob' n'. \<not> (shadows st)\<^sup>*\<^sup>* ob' ob \<or> n' \<noteq> n \<longrightarrow>
        visible L E (st'\<lparr>page_mem := (page_mem st')(pf_addr f := p)\<rparr>) ob' n' = visible L E st ob' n')"
proof -
  obtain pf f st' where l: "shadow_lookuppage L E ob n True st = Some (Inr (0, pf), st')" "frames st' pf = Some f"
    "visible L E st ob n = Some (page_mem st' (pf_addr f))" "pf_pagenum f = n" "pf_obj f = Some ob" "extends E st st'" "chains_ok st'"
    "\<forall>ob' n'. visible L E st' ob' n' = visible L E st ob' n'"
    using shadow_lookup [OF assms, of L n True] by blast
  have inv': "mm_inv E st'" using l(6) by (simp add: extends_def)
  have id: "has_identity st' ob n pf" using l by (simp add: has_identity_iff)
  obtain rank where rank: "ranked rank st'" using l(7) by (auto simp: chains_ok_def)
  obtain mo' where mo': "mmobjs st' ob = Some mo'" by (rule extends_object [OF l(6) mo(1)])
  have "visible L E (st'\<lparr>page_mem := (page_mem st')(pf_addr f := p)\<rparr>) ob n = Some p"
    using visible_resident [of E "st'\<lparr>page_mem := (page_mem st')(pf_addr f := p)\<rparr>" ob mo' n pf f L] inv' mo' id l(2) by simp
  moreover have "visible L E (st'\<lparr>page_mem := (page_mem st')(pf_addr f := p)\<rparr>) ob' n' = visible L E st ob' n'"
    if "\<not> (shadows st)\<^sup>*\<^sup>* ob' ob \<or> n' \<noteq> n" for ob' n'
    using write_elsewhere [OF inv' rank l(2) id, of ob' n' L p] that l(8) shadows_extends [OF l(6)] by simp
  ultimately show ?thesis using l(1-3,5) by blast
qed

text \<open>
  C6: Copy on write.  Looking a page up for writing gives a frame of the object itself, holding what was seen through the object
  before; what the caller then writes there is seen through the object, while every page of every object that does not lie above
  it in a chain, and every other page, is seen as it was before the lookup.
\<close>

theorem shadow_copy_on_write:
  assumes inv: "mm_inv E st" and quiet: "quiet st" and chains: "chains_ok st" and mo: "mmobjs st ob = Some mo" "mmo_ops mo = shadow_mmobj_ops"
      "0 < mmo_refcount mo"
    and mem: "memory E m" "card (dom (frames st)) + 2 < m" and fs: "fs_reads E"
  shows "\<exists>pf f st'. shadow_lookuppage L E ob n True st = Some (Inr (0, pf), st') \<and> frames st' pf = Some f \<and> pf_obj f = Some ob
    \<and> visible L E st ob n = Some (page_mem st' (pf_addr f))
    \<and> visible L E (st'\<lparr>page_mem := (page_mem st')(pf_addr f := p)\<rparr>) ob n = Some p
    \<and> (\<forall>ob' n'. \<not> (shadows st)\<^sup>*\<^sup>* ob' ob \<or> n' \<noteq> n \<longrightarrow>
        visible L E (st'\<lparr>page_mem := (page_mem st')(pf_addr f := p)\<rparr>) ob' n' = visible L E st ob' n')"
  by (rule copy_on_write [OF assms])

theorem shadow_copy_on_write_witness:
  "\<exists>pf f st'. shadow_lookuppage demo_layout demo_mm_env 2 7 True demo_mm = Some (Inr (0, pf), st') \<and> frames st' pf = Some f
    \<and> visible demo_layout demo_mm_env (st'\<lparr>page_mem := (page_mem st')(pf_addr f := [1])\<rparr>) 2 7 = Some [1]
    \<and> visible demo_layout demo_mm_env (st'\<lparr>page_mem := (page_mem st')(pf_addr f := [1])\<rparr>) 3 7 = Some (zero_page demo_layout)"
proof -
  have "chain_find 3 7 demo_mm = Some (Inl 1)"
    by (subst chain_find.simps, simp add: demo_mm_def, subst chain_find.simps, simp)
  then have z: "visible demo_layout demo_mm_env demo_mm 3 7 = Some (zero_page demo_layout)"
    by (simp add: visible_def bottom_page_def demo_mm_def)
  have small: "card (dom (frames demo_mm)) + 2 < 4" by (simp add: demo_mm_def)
  show ?thesis
    using shadow_copy_on_write [OF demo_inv demo_object _ _ demo_memory small demo_reads, of demo_layout 7 "[1]"] demo_not_above z by fastforce
qed

end
