(* ===== verification/Reclaim.thy ===== *)
theory Reclaim
  imports Shadow_Chains
begin

section \<open>Giving memory back\<close>

text \<open>
  What happens to pages that are no longer needed: the last reference to an anonymous object (\<^verbatim>\<open>kernel/vm/anon.c\<close>), the last
  reference to a shadow object (\<^verbatim>\<open>kernel/vm/shadow.c\<close>), writing everything back and the page-out daemon (\<^verbatim>\<open>kernel/mm/pframe.c\<close>).

  \<^verbatim>\<open>anon_put\<close> and \<^verbatim>\<open>shadow_put\<close> free the pages of the object in a loop; freeing a page gives the page's reference back, which calls
  \<^verbatim>\<open>put\<close> again, inside the loop.  The nested calls free the remaining pages, each one call deeper; the static counters are meant to tell the
  outermost call, which frees the object, from the others.  The depth of the recursion is the number of resident pages plus 1.
  Cleaning all pages and paging out are proved inside the contract \<open>memory_objects\<close>; here they are stated of the objects of the kernel.
\<close>

text \<open>All the pages of an object are gone, and nothing else.\<close>

definition frame_owner :: "mm \<Rightarrow> pfid \<Rightarrow> objid option" where
  "frame_owner st pf = do { f \<leftarrow> frames st pf; pf_obj f }"

definition released :: "objid \<Rightarrow> mmobj \<Rightarrow> mm \<Rightarrow> mm \<Rightarrow> bool" where
  "released ob mo st st' \<longleftrightarrow> frames st' = (\<lambda>pf. if frame_owner st pf = Some ob then None else frames st pf)
     \<and> page_mem st' = page_mem st \<and> vnodes st' = vnodes st \<and> vnode_inuse_list st' = vnode_inuse_list st
     \<and> pages_freed (mm_log st') = pages_freed (mm_log st) @ map (\<lambda>pf. pf_addr (the (frames st pf))) (mmo_respages mo)"

text \<open>Pages that can be given up: no thread is using them, and only the object has pinned them.\<close>

definition releasable :: "objid \<Rightarrow> mm \<Rightarrow> bool" where
  "releasable ob st \<longleftrightarrow> (\<forall>pf f. frames st pf = Some f \<and> pf_obj f = Some ob \<longrightarrow> pf_pincount f \<le> 1 \<and> \<not> pf_busy f)"

text \<open>
  A page cache with a page of a file that nobody has open, and the shadow object of a process that has exited: only the page refers to the
  object of the file, nothing to the shadow object.  One page more shall be free.
\<close>

definition demo_passive :: "pframe \<Rightarrow> mm" where
  "demo_passive f = (demo_paged vnode_mmobj_ops f)\<lparr>nfreepages_target := 4, mmobjs :=
     [1 \<mapsto> \<lparr>mmo_ops = vnode_mmobj_ops, mmo_refcount = 1, mmo_nrespages = 1, mmo_respages = [0], mmo_shadowed = None, mmo_bottom_obj = None\<rparr>,
      2 \<mapsto> \<lparr>mmo_ops = shadow_mmobj_ops, mmo_refcount = 0, mmo_nrespages = 0, mmo_respages = [], mmo_shadowed = Some 3, mmo_bottom_obj = Some 3\<rparr>]\<rparr>"

section \<open>Properties of reclaiming\<close>

text \<open>One turn of the loops of \<open>anon_put\<close> and \<open>shadow_put\<close>, whatever their counters are then.\<close>

lemma release_page:
  assumes inv: "mm_inv E st" and mo: "mmobjs st ob = Some mo" "mmo_respages mo = pf # pfs" and rel: "releasable ob st"
  obtains s2 st2 f where "pframe_unpin pf st = Some s2" "frames s2 pf = Some f" "\<not> pf_busy f" "anon_temp_c s2 = anon_temp_c st"
    "shadow_num s2 = shadow_num st" "pframe_detach L E pf (s2\<lparr>anon_temp_c := c, shadow_num := d\<rparr>) = Some (ob, st2)" "mm_inv E st2"
    "frames st2 = (frames st)(pf := None)" "frame_owner st pf = Some ob" "page_mem st2 = page_mem st" "vnodes st2 = vnodes st"
    "vnode_inuse_list st2 = vnode_inuse_list st" "anon_temp_c st2 = c" "shadow_num st2 = d"
    "mmobjs st2 = (mmobjs st)(ob \<mapsto> mo\<lparr>mmo_nrespages := mmo_nrespages mo - 1, mmo_respages := pfs\<rparr>)"
    "objs_freed (mm_log st2) = objs_freed (mm_log st)"
    "pages_freed (mm_log st2) = pages_freed (mm_log st) @ [pf_addr (the (frames st pf))]"
proof -
  have ok: "obj_ok st ob mo" using inv mo(1) by (auto simp: mm_inv_def objs_ok_def)
  then obtain g where g: "frames st pf = Some g" "pf_obj g = Some ob" using mo(2) by (force simp: obj_ok_def has_identity_iff)
  then have r: "pf_pincount g \<le> 1" "\<not> pf_busy g" using rel by (auto simp: releasable_def)
  obtain al pl na np where u: "pframe_unpin pf st = Some (repin pf g 0 al pl na np st)" "mm_inv E (repin pf g 0 al pl na np st)"
    by (rule pframe_unpin_ok [OF inv g(1) r(1)])
  let ?s2 = "repin pf g 0 al pl na np st" and ?f = "g\<lparr>pf_pincount := 0\<rparr>"
  let ?s3 = "?s2\<lparr>anon_temp_c := c, shadow_num := d\<rparr>"
  let ?st2 = "(drop_frame ob pf mo ?s3)\<lparr>mm_log := mm_log ?s3 @ detach_events L E ob ?f\<rparr>"
  have inv3: "mm_inv E ?s3" by (rule mm_inv_cong [OF u(2)]) simp_all
  have f3: "frames ?s3 pf = Some ?f" "\<not> is_pinned ?f" "\<not> pf_busy ?f" "pf_obj ?f = Some ob"
    using g r by (simp_all add: repin_def is_pinned_def)
  have mo3: "mmobjs ?s3 ob = Some mo" using mo(1) by (simp add: repin_def)
  note d = pframe_detach_eq [OF inv3 f3 mo3, of L]
  have inv2: "mm_inv E ?st2" by (rule mm_inv_cong [OF drop_frame_inv [OF inv3 f3(1,2,4) mo3]]) simp_all
  show thesis
    by (rule that [of ?s2 ?f ?st2, OF u(1) _ _ _ _ d inv2])
      (use g r mo(2) in \<open>simp_all add: repin_def drop_frame_def frame_owner_def\<close>)
qed

lemma released_step:
  assumes "frames s = (frames st)(pf := None)" and "frame_owner st pf = Some ob" and "page_mem s = page_mem st" and "vnodes s = vnodes st"
    and "vnode_inuse_list s = vnode_inuse_list st" and "mmo_respages mo = pf # mmo_respages m" and "distinct (mmo_respages mo)"
    and "pages_freed (mm_log s) = pages_freed (mm_log st) @ [pf_addr (the (frames st pf))]" and "released ob m s t"
  shows "released ob mo st t"
proof -
  have "frame_owner s x = (if x = pf then None else frame_owner st x)" for x using assms(1) by (simp add: frame_owner_def)
  moreover have "map (\<lambda>pf. pf_addr (the (frames s pf))) (mmo_respages m) = map (\<lambda>pf. pf_addr (the (frames st pf))) (mmo_respages m)"
    using assms(1,6,7) by auto
  ultimately show ?thesis using assms by (auto simp: released_def)
qed

lemma mm_event_log [simp]: "mm_log (mm_event e st) = mm_log st @ [e]"
  by (simp add: mm_event_def)

lemma released_nothing:
  assumes "mm_inv E st" and "mmobjs st ob = Some mo" and "mmo_respages mo = []" and "frames st' = frames st" and "page_mem st' = page_mem st"
    and "vnodes st' = vnodes st" and "vnode_inuse_list st' = vnode_inuse_list st" and "pages_freed (mm_log st') = pages_freed (mm_log st)"
  shows "released ob mo st st'"
proof -
  have "frame_owner st pf \<noteq> Some ob" for pf
    using no_pages [OF assms(1-3), of pf] by (cases "frames st pf") (auto simp: frame_owner_def)
  then show ?thesis using assms(3-) by (simp add: released_def)
qed

lemma anon_put_loop_simps:
  assumes "mmobjs st ob = Some mo"
  shows "mmo_respages mo = [] \<Longrightarrow> anon_put_loop put L E ob st = Some st"
    and "mmo_respages mo = pf # pfs \<Longrightarrow> pframe_unpin pf st = Some s2 \<Longrightarrow> frames s2 pf = Some f \<Longrightarrow> \<not> pf_busy f \<Longrightarrow>
      anon_put_loop put L E ob st = do {
        st3 \<leftarrow> pframe_free put L E pf (s2\<lparr>anon_temp_c := anon_temp_c s2 + 1, shadow_num := shadow_num s2\<rparr>);
        anon_put_loop put L E ob (st3\<lparr>anon_temp_c := anon_temp_c st3 - 1\<rparr>) }"
  using assms by (subst anon_put_loop.simps; simp)+

text \<open>
  \<^verbatim>\<open>put\<close> on an object that only its pages refer to, the counter being \<open>c\<close>: every page is freed by a nested call.  Only the
  outermost call, for which the counter is 0, frees the object.
\<close>

lemma anon_put_releases:
  assumes "mm_inv E st" and "mmobjs st ob = Some mo" and "mmo_ops mo = anon_mmobj_ops" and "mmo_refcount mo = mmo_nrespages mo + 1"
    and "length (mmo_respages mo) = N" and "releasable ob st" and "unat (anon_temp_c st) + N < 2 ^ 32"
  shows "\<exists>st'. mmo_put L E (Suc N) ob st = Some st' \<and> released ob mo st st' \<and> mm_inv E st' \<and> anon_temp_c st' = anon_temp_c st
    \<and> shadow_num st' = shadow_num st
    \<and> mmobjs st' = (mmobjs st)(ob := if anon_temp_c st = 0 then None else Some (mo\<lparr>mmo_refcount := 0, mmo_nrespages := 0, mmo_respages := []\<rparr>))
    \<and> objs_freed (mm_log st') = objs_freed (mm_log st) @ (if anon_temp_c st = 0 then [ob] else [])"
  using assms
proof (induction N arbitrary: st mo)
  case 0
  note inv = "0.prems"(1) and mo = "0.prems"(2)
  have ok: "obj_ok st ob mo" using inv mo by (auto simp: mm_inv_def objs_ok_def)
  then have n: "mmo_nrespages mo = 0" "mmo_respages mo = []" using "0.prems" by (simp_all add: obj_ok_def)
  let ?st1 = "ref_state ob mo (- 1) st"
  have inv1: "mm_inv E ?st1" by (rule mm_inv_refcount [OF inv mo]) (use "0.prems" in simp)
  have mo1: "mmobjs ?st1 ob = Some (mo\<lparr>mmo_refcount := 0\<rparr>)" using "0.prems"(4) n by (simp add: ref_state_def)
  have "anon_put_loop (mmo_put L E 0) L E ob ?st1 = Some ?st1" by (rule anon_put_loop_simps(1) [OF mo1]) (simp add: n)
  then have "mmo_put L E (Suc 0) ob st
    = Some (if anon_temp_c st = 0 then mm_event (ObjFreed ob) (?st1\<lparr>mmobjs := (mmobjs ?st1)(ob := None)\<rparr>) else ?st1)"
    using mo "0.prems" n by (simp add: anon_put_def upd_obj_def ref_state_def)
  moreover have "mm_inv E (?st1\<lparr>mmobjs := (mmobjs ?st1)(ob := None)\<rparr>)" by (rule mm_inv_drop_object [OF inv1 mo1]) (simp add: n)
  moreover have "mo\<lparr>mmo_refcount := 0\<rparr> = mo\<lparr>mmo_refcount := 0, mmo_nrespages := 0, mmo_respages := []\<rparr>" using n by (cases mo) simp
  ultimately show ?case
    using released_nothing [OF inv mo n(2)] inv1 mo1 by (auto simp: ref_state_def simp del: mmo_put.simps)
next
  case (Suc N)
  note inv = Suc.prems(1) and mo = Suc.prems(2)
  have ok: "obj_ok st ob mo" using inv mo by (auto simp: mm_inv_def objs_ok_def)
  then have n: "mmo_nrespages mo = int (Suc N)" "distinct (mmo_respages mo)" "0 \<le> mmo_nrespages mo" using Suc.prems(5) by (auto simp: obj_ok_def)
  obtain pf pfs where pfs: "mmo_respages mo = pf # pfs" using Suc.prems(5) by (cases "mmo_respages mo") auto
  let ?st1 = "ref_state ob mo (- 1) st" and ?mo1 = "mo\<lparr>mmo_refcount := mmo_refcount mo + - 1\<rparr>" and ?c = "anon_temp_c st"
  have inv1: "mm_inv E ?st1" by (rule mm_inv_refcount [OF inv mo]) (use Suc.prems in simp)
  have mo1: "mmobjs ?st1 ob = Some ?mo1" "mmo_respages ?mo1 = pf # pfs" using pfs by (simp_all add: ref_state_def)
  have rel1: "releasable ob ?st1" using Suc.prems(6) by (simp add: releasable_def ref_state_def)
  let ?mo2 = "?mo1\<lparr>mmo_nrespages := mmo_nrespages ?mo1 - 1, mmo_respages := pfs\<rparr>"
  obtain s2 st2 f where s2: "pframe_unpin pf ?st1 = Some s2" "frames s2 pf = Some f" "\<not> pf_busy f" "anon_temp_c s2 = anon_temp_c ?st1"
      "shadow_num s2 = shadow_num ?st1" "pframe_detach L E pf (s2\<lparr>anon_temp_c := ?c + 1, shadow_num := shadow_num st\<rparr>) = Some (ob, st2)"
    and st2: "mm_inv E st2" "frames st2 = (frames ?st1)(pf := None)" "frame_owner ?st1 pf = Some ob" "page_mem st2 = page_mem ?st1"
      "vnodes st2 = vnodes ?st1" "vnode_inuse_list st2 = vnode_inuse_list ?st1" "anon_temp_c st2 = ?c + 1" "shadow_num st2 = shadow_num st"
      "mmobjs st2 = (mmobjs ?st1)(ob \<mapsto> ?mo2)" "objs_freed (mm_log st2) = objs_freed (mm_log ?st1)"
      "pages_freed (mm_log st2) = pages_freed (mm_log ?st1) @ [pf_addr (the (frames ?st1 pf))]"
    by (rule release_page [OF inv1 mo1 rel1])
  have c: "unat (?c + 1) = unat ?c + 1" using Suc.prems(7) by (simp add: unat_word_ariths)
  then have nz: "?c + 1 \<noteq> 0" by (metis add_is_0 unat_0 zero_neq_one)
  have "\<exists>st'. mmo_put L E (Suc N) ob st2 = Some st' \<and> released ob ?mo2 st2 st' \<and> mm_inv E st' \<and> anon_temp_c st' = anon_temp_c st2
    \<and> shadow_num st' = shadow_num st2
    \<and> mmobjs st' = (mmobjs st2)(ob := if anon_temp_c st2 = 0 then None else Some (?mo2\<lparr>mmo_refcount := 0, mmo_nrespages := 0, mmo_respages := []\<rparr>))
    \<and> objs_freed (mm_log st') = objs_freed (mm_log st2) @ (if anon_temp_c st2 = 0 then [ob] else [])"
  proof (rule Suc.IH [OF st2(1)])
    show "releasable ob st2" using rel1 st2(2) by (auto simp: releasable_def split: if_splits)
    show "unat (anon_temp_c st2) + N < 2 ^ 32" using Suc.prems(7) c st2(7) by simp
  qed (use st2(9) Suc.prems pfs n in simp_all)
  then obtain st3 where st3: "mmo_put L E (Suc N) ob st2 = Some st3" "released ob ?mo2 st2 st3" "mm_inv E st3" "anon_temp_c st3 = ?c + 1"
      "shadow_num st3 = shadow_num st" "mmobjs st3 = (mmobjs st)(ob \<mapsto> mo\<lparr>mmo_refcount := 0, mmo_nrespages := 0, mmo_respages := []\<rparr>)"
      "objs_freed (mm_log st3) = objs_freed (mm_log st)"
    using nz st2 by (auto simp: ref_state_def)
  let ?st4 = "st3\<lparr>anon_temp_c := ?c\<rparr>"
  have loop: "anon_put_loop (mmo_put L E (Suc N)) L E ob ?st1 = Some ?st4"
  proof -
    have "anon_put_loop (mmo_put L E (Suc N)) L E ob ?st4 = Some ?st4"
      by (rule anon_put_loop_simps(1) [where mo = "mo\<lparr>mmo_refcount := 0, mmo_nrespages := 0, mmo_respages := []\<rparr>"]) (simp_all add: st3)
    moreover have "anon_temp_c s2 = ?c" "shadow_num s2 = shadow_num st" using s2(4,5) by (simp_all add: ref_state_def)
    moreover have "pframe_free (mmo_put L E (Suc N)) L E pf (s2\<lparr>anon_temp_c := ?c + 1, shadow_num := shadow_num st\<rparr>) = Some st3"
      unfolding pframe_free_def s2(6) using st3(1) by simp
    ultimately show ?thesis using anon_put_loop_simps(2) [OF mo1 s2(1-3)] st3(4) by (simp del: mmo_put.simps)
  qed
  have rel: "released ob mo st st3"
    by (rule released_step [where pf = pf and s = st2 and m = ?mo2]) (use st2 st3(2) pfs n(2) in \<open>simp_all add: ref_state_def frame_owner_def\<close>)
  have put: "mmo_put L E (Suc (Suc N)) ob st
    = Some (if ?c = 0 then mm_event (ObjFreed ob) (?st4\<lparr>mmobjs := (mmobjs ?st4)(ob := None)\<rparr>) else ?st4)"
    using mo Suc.prems(3,4) n(3) loop unfolding mmo_put.simps(2) [of L E "Suc N"]
    by (simp add: anon_put_def upd_obj_def ref_state_def del: mmo_put.simps)
  have inv4: "mm_inv E ?st4" by (rule mm_inv_cong [OF st3(3)]) simp_all
  have "mm_inv E (?st4\<lparr>mmobjs := (mmobjs ?st4)(ob := None)\<rparr>)" 
    by (rule mm_inv_drop_object [OF inv4, where mo = "mo\<lparr>mmo_refcount := 0, mmo_nrespages := 0, mmo_respages := []\<rparr>"]) (simp_all add: st3)
  then show ?case using put inv4 rel st3(5-7) by (auto simp: released_def simp del: mmo_put.simps)
qed


lemma shadow_put_loop_simps:
  assumes "mmobjs st ob = Some mo"
  shows "mmo_respages mo = [] \<Longrightarrow> shadow_put_loop put L E ob st = Some st"
    and "mmo_respages mo = pf # pfs \<Longrightarrow> pframe_unpin pf (st\<lparr>shadow_num := shadow_num st + 1\<rparr>) = Some s2 \<Longrightarrow> frames s2 pf = Some f \<Longrightarrow> \<not> pf_busy f \<Longrightarrow>
      shadow_put_loop put L E ob st = do {
        st3 \<leftarrow> pframe_free put L E pf (s2\<lparr>anon_temp_c := anon_temp_c s2, shadow_num := shadow_num s2 - 1\<rparr>);
        shadow_put_loop put L E ob st3 }"
  using assms by (subst shadow_put_loop.simps; simp)+

text \<open>The same for a shadow object, whose counter is 0 again whenever it is tested.\<close>

lemma shadow_put_releases:
  assumes "mm_inv E st" and "mmobjs st ob = Some mo" and "mmo_ops mo = shadow_mmobj_ops" and "mmo_refcount mo = mmo_nrespages mo + 1"
    and "length (mmo_respages mo) = N" and "releasable ob st" and "shadow_num st = 0"
  shows "\<exists>st'. mmo_put L E (Suc N) ob st = Some st' \<and> released ob mo st st' \<and> mm_inv E st' \<and> anon_temp_c st' = anon_temp_c st
    \<and> shadow_num st' = 0 \<and> mmobjs st' = (mmobjs st)(ob \<mapsto> mo\<lparr>mmo_refcount := 0, mmo_nrespages := 0, mmo_respages := []\<rparr>)
    \<and> objs_freed (mm_log st') = objs_freed (mm_log st)"
  using assms
proof (induction N arbitrary: st mo)
  case 0
  note inv = "0.prems"(1) and mo = "0.prems"(2)
  have ok: "obj_ok st ob mo" using inv mo by (auto simp: mm_inv_def objs_ok_def)
  then have n: "mmo_nrespages mo = 0" "mmo_respages mo = []" using "0.prems" by (simp_all add: obj_ok_def)
  let ?st1 = "ref_state ob mo (- 1) st"
  have inv1: "mm_inv E ?st1" by (rule mm_inv_refcount [OF inv mo]) (use "0.prems" in simp)
  have mo1: "mmobjs ?st1 ob = Some (mo\<lparr>mmo_refcount := 0\<rparr>)" using "0.prems"(4) n by (simp add: ref_state_def)
  have "shadow_put_loop (mmo_put L E 0) L E ob ?st1 = Some ?st1" by (rule shadow_put_loop_simps(1) [OF mo1]) (simp add: n)
  then have "mmo_put L E (Suc 0) ob st = Some ?st1"
    using mo "0.prems" n by (simp add: shadow_put_def upd_obj_def ref_state_def)
  moreover have "mo\<lparr>mmo_refcount := 0\<rparr> = mo\<lparr>mmo_refcount := 0, mmo_nrespages := 0, mmo_respages := []\<rparr>" using n by (cases mo) simp
  ultimately show ?case
    using released_nothing [OF inv mo n(2)] inv1 mo1 "0.prems"(7) by (auto simp: ref_state_def simp del: mmo_put.simps)
next
  case (Suc N)
  note inv = Suc.prems(1) and mo = Suc.prems(2)
  have ok: "obj_ok st ob mo" using inv mo by (auto simp: mm_inv_def objs_ok_def)
  then have n: "mmo_nrespages mo = int (Suc N)" "distinct (mmo_respages mo)" "0 \<le> mmo_nrespages mo" using Suc.prems(5) by (auto simp: obj_ok_def)
  obtain pf pfs where pfs: "mmo_respages mo = pf # pfs" using Suc.prems(5) by (cases "mmo_respages mo") auto
  let ?sr = "ref_state ob mo (- 1) st" and ?mo1 = "mo\<lparr>mmo_refcount := mmo_refcount mo + - 1\<rparr>"
  let ?st1 = "?sr\<lparr>shadow_num := shadow_num ?sr + 1\<rparr>"
  have inv1: "mm_inv E ?st1" by (rule mm_inv_cong [OF mm_inv_refcount [OF inv mo, of "- 1"]]) (use Suc.prems in simp_all)
  have mo1: "mmobjs ?sr ob = Some ?mo1" "mmobjs ?st1 ob = Some ?mo1" "mmo_respages ?mo1 = pf # pfs" using pfs by (simp_all add: ref_state_def)
  have rel1: "releasable ob ?st1" using Suc.prems(6) by (simp add: releasable_def ref_state_def)
  let ?mo2 = "?mo1\<lparr>mmo_nrespages := mmo_nrespages ?mo1 - 1, mmo_respages := pfs\<rparr>"
  obtain s2 st2 f where s2: "pframe_unpin pf ?st1 = Some s2" "frames s2 pf = Some f" "\<not> pf_busy f" "anon_temp_c s2 = anon_temp_c ?st1"
      "shadow_num s2 = shadow_num ?st1" "pframe_detach L E pf (s2\<lparr>anon_temp_c := anon_temp_c st, shadow_num := 0\<rparr>) = Some (ob, st2)"
    and st2: "mm_inv E st2" "frames st2 = (frames ?st1)(pf := None)" "frame_owner ?st1 pf = Some ob" "page_mem st2 = page_mem ?st1"
      "vnodes st2 = vnodes ?st1" "vnode_inuse_list st2 = vnode_inuse_list ?st1" "anon_temp_c st2 = anon_temp_c st" "shadow_num st2 = 0"
      "mmobjs st2 = (mmobjs ?st1)(ob \<mapsto> ?mo2)" "objs_freed (mm_log st2) = objs_freed (mm_log ?st1)"
      "pages_freed (mm_log st2) = pages_freed (mm_log ?st1) @ [pf_addr (the (frames ?st1 pf))]"
    by (rule release_page [OF inv1 mo1(2,3) rel1])
  have "\<exists>st'. mmo_put L E (Suc N) ob st2 = Some st' \<and> released ob ?mo2 st2 st' \<and> mm_inv E st' \<and> anon_temp_c st' = anon_temp_c st2
    \<and> shadow_num st' = 0 \<and> mmobjs st' = (mmobjs st2)(ob \<mapsto> ?mo2\<lparr>mmo_refcount := 0, mmo_nrespages := 0, mmo_respages := []\<rparr>)
    \<and> objs_freed (mm_log st') = objs_freed (mm_log st2)"
  proof (rule Suc.IH [OF st2(1)])
    show "releasable ob st2" using rel1 st2(2) by (auto simp: releasable_def split: if_splits)
  qed (use st2(8,9) Suc.prems pfs n in simp_all)
  then obtain st3 where st3: "mmo_put L E (Suc N) ob st2 = Some st3" "released ob ?mo2 st2 st3" "mm_inv E st3" "anon_temp_c st3 = anon_temp_c st"
      "shadow_num st3 = 0" "mmobjs st3 = (mmobjs st)(ob \<mapsto> mo\<lparr>mmo_refcount := 0, mmo_nrespages := 0, mmo_respages := []\<rparr>)"
      "objs_freed (mm_log st3) = objs_freed (mm_log st)"
    using st2 by (auto simp: ref_state_def)
  have loop: "shadow_put_loop (mmo_put L E (Suc N)) L E ob ?sr = Some st3"
  proof -
    have "shadow_put_loop (mmo_put L E (Suc N)) L E ob st3 = Some st3"
      by (rule shadow_put_loop_simps(1) [where mo = "mo\<lparr>mmo_refcount := 0, mmo_nrespages := 0, mmo_respages := []\<rparr>"]) (simp_all add: st3)
    moreover have "anon_temp_c s2 = anon_temp_c st" "shadow_num s2 - 1 = 0" using s2(4,5) Suc.prems(7) by (simp_all add: ref_state_def)
    moreover have "pframe_free (mmo_put L E (Suc N)) L E pf (s2\<lparr>anon_temp_c := anon_temp_c st, shadow_num := 0\<rparr>) = Some st3"
      unfolding pframe_free_def s2(6) using st3(1) by simp
    ultimately show ?thesis using shadow_put_loop_simps(2) [OF mo1(1,3) s2(1-3)] by (simp del: mmo_put.simps)
  qed
  have rel: "released ob mo st st3"
    by (rule released_step [where pf = pf and s = st2 and m = ?mo2]) (use st2 st3(2) pfs n(2) in \<open>simp_all add: ref_state_def frame_owner_def\<close>)
  have put: "mmo_put L E (Suc (Suc N)) ob st = Some st3"
    using mo Suc.prems(3,4) n(3) loop st3(5) unfolding mmo_put.simps(2) [of L E "Suc N"]
    by (simp add: shadow_put_def upd_obj_def ref_state_def del: mmo_put.simps)
  then show ?case using rel st3 by (auto simp del: mmo_put.simps)
qed

text \<open>
  C32: The last reference to an anonymous object.  When only the resident pages refer to it any more, every page is unpinned and freed, once,
  in the order of the object's list, through nested calls of \<^verbatim>\<open>put\<close>; the object is freed, once; other objects, their pages and all
  contents stay, and the invariant of the page cache holds.
\<close>

theorem anon_last_reference:
  assumes "mm_inv E st" and "mmobjs st ob = Some mo" and "mmo_ops mo = anon_mmobj_ops" and "mmo_refcount mo = mmo_nrespages mo + 1"
    and "releasable ob st" and "anon_temp_c st = 0" and "length (mmo_respages mo) < 2 ^ 32"
  shows "\<exists>st'. mmo_put L E (Suc (length (mmo_respages mo))) ob st = Some st' \<and> mmobjs st' = (mmobjs st)(ob := None) \<and> released ob mo st st'
    \<and> objs_freed (mm_log st') = objs_freed (mm_log st) @ [ob] \<and> anon_temp_c st' = 0 \<and> mm_inv E st'"
  using anon_put_releases [OF assms(1-4) refl assms(5), of L] assms(6,7) by (auto simp del: mmo_put.simps)

text \<open>
  C33: The last reference to a shadow object.  Its pages are freed, but the counter that guards the rest is 0 whenever it is tested:
  the object is never freed, and the reference that it holds to the object below is never given back.
\<close>

theorem shadow_never_freed:
  assumes "mm_inv E st" and "mmobjs st ob = Some mo" and "mmo_ops mo = shadow_mmobj_ops" and "mmo_refcount mo = mmo_nrespages mo + 1"
    and "releasable ob st" and "shadow_num st = 0"
  shows "\<exists>st'. mmo_put L E (Suc (length (mmo_respages mo))) ob st = Some st' \<and> released ob mo st st'
    \<and> mmobjs st' = (mmobjs st)(ob \<mapsto> mo\<lparr>mmo_refcount := 0, mmo_nrespages := 0, mmo_respages := []\<rparr>)
    \<and> objs_freed (mm_log st') = objs_freed (mm_log st) \<and> shadow_num st' = 0 \<and> mm_inv E st'"
  using shadow_put_releases [OF assms(1-4) refl assms(5,6), of L] by (auto simp del: mmo_put.simps)


theorem anon_last_reference_witness:
  "\<exists>st'. mmo_put demo_layout demo_mm_env 2 1 (demo_paged anon_mmobj_ops ((new_frame 1 7 4096)\<lparr>pf_pincount := 1\<rparr>)) = Some st'
    \<and> frames st' 0 = None \<and> mmobjs st' 1 = None \<and> objs_freed (mm_log st') = [1] \<and> pages_freed (mm_log st') = [4096]"
proof -
  let ?f = "(new_frame 1 7 4096)\<lparr>pf_pincount := 1\<rparr>"
  let ?st = "demo_paged anon_mmobj_ops ?f"
  let ?mo = "\<lparr>mmo_ops = anon_mmobj_ops, mmo_refcount = 2, mmo_nrespages = 1, mmo_respages = [0], mmo_shadowed = None, mmo_bottom_obj = None\<rparr>"
  have inv: "mm_inv demo_mm_env ?st" by (rule demo_paged_inv) (simp_all add: new_frame_def)
  have mo: "mmobjs ?st 1 = Some ?mo" by (simp add: demo_paged_def)
  have rel: "releasable 1 ?st" by (auto simp: releasable_def demo_paged_def new_frame_def split: if_splits)
  have st: "frames ?st = [0 \<mapsto> ?f]" "anon_temp_c ?st = 0" "mm_log ?st = []" by (simp_all add: demo_paged_def demo_mm_def)
  have two: "Suc (length (mmo_respages ?mo)) = 2" by simp
  show ?thesis
    using anon_last_reference [OF inv mo _ _ rel, of demo_layout] st unfolding two
    by (auto simp: released_def frame_owner_def new_frame_def simp del: mmo_put.simps)
qed

theorem shadow_never_freed_witness:
  "\<exists>st'. mmo_put demo_layout demo_mm_env 1 2 demo_mm = Some st' \<and> mmobjs st' 2 \<noteq> None \<and> map_option mmo_refcount (mmobjs st' 1) = Some 2
    \<and> objs_freed (mm_log st') = []"
proof -
  have rel: "releasable 2 demo_mm" by (simp add: releasable_def demo_mm_def)
  have st: "shadow_num demo_mm = 0" "map_option mmo_refcount (mmobjs demo_mm 1) = Some 2" "mm_log demo_mm = []" by (simp_all add: demo_mm_def)
  have one: "Suc (length (mmo_respages \<lparr>mmo_ops = shadow_mmobj_ops, mmo_refcount = 1, mmo_nrespages = 0, mmo_respages = [],
    mmo_shadowed = Some 1, mmo_bottom_obj = Some 1\<rparr>)) = 1" by simp
  show ?thesis
    using shadow_never_freed [OF demo_inv(1) demo_object _ _ rel st(1), of demo_layout] st unfolding one by (auto simp del: mmo_put.simps)
qed

text \<open>
  C34: The page-out daemon.  Suppose that no page is busy, that every dirty page that is not pinned can be written back, and that each page that is not
  pinned belongs to an object that something else than its pages refers to, or to a linked file, which may be one that nobody has open
  (\<open>reclaimable\<close>: unlinked files that nobody has open lose their pages at once in \<^verbatim>\<open>vput\<close>, and objects without pages, such as the shadow objects
  of processes that have exited, do not matter).  \<^verbatim>\<open>page_free_count\<close> is to count freed pages (\<open>frames_counted\<close>).  Then a round of the daemon ends.  It
  frees exactly the pages that are missing for its aim, or all that there are when they are too few, the longest unused first, the dirty pages of
  files after their contents have been written back; all other pages stay.
\<close>

theorem pageoutd_reclaims:
  assumes "mm_inv E st" and "quiet st" and "cleanable (mmo_cleanpage L E) st" and "reclaimable E st" and "frames_counted E st"
  shows "\<exists>st' k. pageoutd_round (mmo_put L E (Suc n)) (mmo_cleanpage L E) L E st = Some st' \<and> mm_inv E st' \<and> quiet st' \<and> paged_out k st st'
    \<and> (page_free_count E st' \<ge> nfreepages_target st' \<or> alloc_list st' = [])
    \<and> k = min (length (alloc_list st)) (nfreepages_target st - page_free_count E st)"
proof -
  have "0 \<le> nallocated st" using assms(1) by (simp add: mm_inv_def lists_ok_def)
  then show ?thesis unfolding pageoutd_round_def using objects.pageoutd_loop_ok [OF assms, of n] by (simp del: mmo_put.simps)
qed

text \<open>
  \<^verbatim>\<open>pframe_clean_all\<close> ends when every dirty page that is not pinned can be written back: the pages of files have been written back with their
  contents, no page that is not pinned is dirty, and nothing else has changed.
\<close>

theorem clean_all_writes_back:
  assumes "mm_inv E st" and "quiet st" and "cleanable (mmo_cleanpage L E) st"
  shows "\<exists>st'. pframe_clean_all (mmo_cleanpage L E) L E st = Some st' \<and> mm_inv E st' \<and> quiet st' \<and> alloc_list st' = alloc_list st
    \<and> mmobjs st' = mmobjs st \<and> page_mem st' = page_mem st \<and> (\<forall>pf. same_frame (frames st pf) (frames st' pf))
    \<and> (\<forall>pf\<in>set (alloc_list st). \<forall>f. frames st' pf = Some f \<longrightarrow> \<not> pf_dirty f)
    \<and> (\<forall>pf\<in>set (alloc_list st). \<forall>f. frames st pf = Some f \<and> pf_dirty f \<longrightarrow> saved st (mm_log st') f)"
  using objects.clean_all_ok [OF assms] by blast

lemma demo_cleans:
  assumes "\<And>pf g ob. frames st pf = Some g \<Longrightarrow> pf_obj g = Some ob \<Longrightarrow> map_option mmo_ops (mmobjs st ob) = Some vnode_mmobj_ops"
  shows "cleanable (mmo_cleanpage demo_layout demo_mm_env) st"
  unfolding cleanable_def
proof (intro allI impI, elim conjE)
  fix pf g ob s ret s'
  assume h: "frames st pf = Some g" "pf_obj g = Some ob" "alike st s pf" "mmo_cleanpage demo_layout demo_mm_env ob pf s = Some (ret, s')"
  have "map_option mmo_ops (mmobjs s ob) = Some vnode_mmobj_ops" using assms [OF h(1,2)] h(1-3) by (simp add: alike_def)
  then show "0 \<le> ret"
    using h(4) by (auto simp: mmo_cleanpage_def vcleanpage_def demo_mm_env_def Let_def split: Option.bind_splits)
qed

lemma demo_dirty:
  assumes "f = (new_frame 1 1 4096)\<lparr>pf_dirty := True\<rparr>"
  shows "mm_inv demo_mm_env (demo_paged vnode_mmobj_ops f)" "quiet (demo_paged vnode_mmobj_ops f)"
    "cleanable (mmo_cleanpage demo_layout demo_mm_env) (demo_paged vnode_mmobj_ops f)"
proof -
  show "mm_inv demo_mm_env (demo_paged vnode_mmobj_ops f)" by (rule demo_paged_inv) (simp_all add: assms new_frame_def)
  show "quiet (demo_paged vnode_mmobj_ops f)" by (simp add: quiet_def demo_paged_def assms new_frame_def)
  show "cleanable (mmo_cleanpage demo_layout demo_mm_env) (demo_paged vnode_mmobj_ops f)"
    by (rule demo_cleans) (auto simp: demo_paged_def assms new_frame_def split: if_splits)
qed

lemma demo_passive_ok:
  assumes f: "f = (new_frame 1 1 4096)\<lparr>pf_dirty := True\<rparr>"
  shows "mm_inv demo_mm_env (demo_passive f)" "quiet (demo_passive f)" "cleanable (mmo_cleanpage demo_layout demo_mm_env) (demo_passive f)"
    "reclaimable demo_mm_env (demo_passive f)" "frames_counted demo_mm_env (demo_passive f)"
proof -
  have f': "pf_obj f = Some 1" "pf_pagenum f = 1" "pf_pincount f = 0" "\<not> pf_busy f" "\<not> is_pinned f" using f by (simp_all add: new_frame_def is_pinned_def)
  have st: "frames (demo_passive f) = [0 \<mapsto> f]" by (simp add: demo_passive_def demo_paged_def)
  have id: "has_identity (demo_passive f) ob n pf \<longleftrightarrow> pf = 0 \<and> ob = 1 \<and> n = 1" for ob n pf
    using f' by (auto simp: has_identity_iff st split: if_splits)
  have "lists_ok (demo_passive f)" using f' by (auto simp: lists_ok_def demo_passive_def demo_paged_def)
  moreover have "hash_ok demo_mm_env (demo_passive f)"
    unfolding hash_ok_def id by (auto simp: demo_passive_def demo_paged_def demo_mm_env_def hash_page_def)
  moreover have "objs_ok (demo_passive f)" unfolding objs_ok_def obj_ok_def id using f' by (auto simp: demo_passive_def demo_paged_def)
  moreover have "unique_ok (demo_passive f)" unfolding unique_ok_def id by (auto simp: st split: if_splits)
  ultimately show inv: "mm_inv demo_mm_env (demo_passive f)" by (simp add: mm_inv_def)
  show "quiet (demo_passive f)" using f' by (simp add: quiet_def st)
  show "cleanable (mmo_cleanpage demo_layout demo_mm_env) (demo_passive f)"
    by (rule demo_cleans) (use f' in \<open>auto simp: demo_passive_def demo_paged_def split: if_splits\<close>)
  show "reclaimable demo_mm_env (demo_passive f)"
    using f' by (auto simp: reclaimable_def linked_vnode_def demo_passive_def demo_paged_def demo_mm_env_def split: if_splits)
  have "page_free_count demo_mm_env s + card (dom (frames s)) = 4" if "mm_inv demo_mm_env s" "dom (frames s) \<subseteq> {0}" for s
  proof -
    have "length (alloc_list s @ pinned_list s) = card (dom (frames s))"
      using that(1) distinct_card [of "alloc_list s @ pinned_list s"] frame_lists [OF that(1)] by (simp add: mm_inv_def lists_ok_def)
    moreover have "card (dom (frames s)) \<le> 1" using card_mono [OF _ that(2)] by simp
    ultimately show ?thesis by (simp add: demo_mm_env_def)
  qed
  moreover have "dom (frames (demo_passive f)) = {0}" by (simp add: st)
  ultimately show "frames_counted demo_mm_env (demo_passive f)" using inv unfolding frames_counted_def by (metis order_refl)
qed

theorem pageoutd_reclaims_witness:
  "\<exists>st'. pageoutd_round (mmo_put demo_layout demo_mm_env 1) (mmo_cleanpage demo_layout demo_mm_env) demo_layout demo_mm_env
      (demo_passive ((new_frame 1 1 4096)\<lparr>pf_dirty := True\<rparr>)) = Some st'
    \<and> mm_inv demo_mm_env st' \<and> frames st' 0 = None \<and> WrittenBack 1 1 [] \<in> set (mm_log st')"
proof -
  let ?f = "(new_frame 1 1 4096)\<lparr>pf_dirty := True\<rparr>"
  let ?st = "demo_passive ?f"
  have al: "alloc_list ?st = [0]" "frames ?st = [0 \<mapsto> ?f]" "nfreepages_target ?st - page_free_count demo_mm_env ?st = 1"
    by (simp_all add: demo_passive_def demo_paged_def is_pinned_def new_frame_def demo_mm_env_def)
  obtain st' where st': "pageoutd_round (mmo_put demo_layout demo_mm_env 1) (mmo_cleanpage demo_layout demo_mm_env) demo_layout demo_mm_env ?st = Some st'"
    "mm_inv demo_mm_env st'" "paged_out 1 ?st st'"
    using pageoutd_reclaims [OF demo_passive_ok [OF refl], of 0] al unfolding One_nat_def by auto
  then have "frames st' 0 = None" "saved ?st (mm_log st') ?f" using al(1,2) by (auto simp: paged_out_def)
  moreover from this have "WrittenBack 1 1 [] \<in> set (mm_log st')" by (simp add: saved_def demo_passive_def demo_paged_def demo_mm_def new_frame_def)
  ultimately show ?thesis using st'(1,2) by blast
qed

theorem clean_all_writes_back_witness:
  "\<exists>st'. pframe_clean_all (mmo_cleanpage demo_layout demo_mm_env) demo_layout demo_mm_env
      (demo_paged vnode_mmobj_ops ((new_frame 1 1 4096)\<lparr>pf_dirty := True\<rparr>)) = Some st' \<and> WrittenBack 1 1 [] \<in> set (mm_log st')"
proof -
  let ?f = "(new_frame 1 1 4096)\<lparr>pf_dirty := True\<rparr>"
  let ?st = "demo_paged vnode_mmobj_ops ?f"
  obtain st' where st': "pframe_clean_all (mmo_cleanpage demo_layout demo_mm_env) demo_layout demo_mm_env ?st = Some st'"
    "\<forall>pf\<in>set (alloc_list ?st). \<forall>f. frames ?st pf = Some f \<and> pf_dirty f \<longrightarrow> saved ?st (mm_log st') f"
    using clean_all_writes_back [OF demo_dirty [OF refl]] by blast
  then have "saved ?st (mm_log st') ?f" by (simp add: demo_paged_def is_pinned_def new_frame_def)
  then have "WrittenBack 1 1 [] \<in> set (mm_log st')" by (simp add: saved_def demo_paged_def demo_mm_def new_frame_def)
  with st'(1) show ?thesis by blast
qed

end
