(* ===== verification/Fork.thy ===== *)
theory Fork
  imports Proc Reclaim
begin

section \<open>Fork: \<^verbatim>\<open>kernel/proc/fork.c\<close>\<close>

text \<open>
  \<^verbatim>\<open>do_fork\<close> composes process creation, the clone of the address space, new shadow objects for every private area, the clones of the
  threads and the references to files.

  \<^item> The parent's address space is an argument and a result, as in the other operations on address spaces; \<open>mm\<close> holds the memory
    objects.  \<open>fork_env\<close> holds what the allocators return, the address of \<^verbatim>\<open>userland_entry\<close> and the size of \<^verbatim>\<open>regs_t\<close>.
  \<^item> The lists of areas that memory objects keep, page-table updates, writes to the new kernel stacks and references to files and vnodes are
    recorded as events.  A pointer is 0 where it is null.

  The properties: parent and child see in every area what the parent saw before, and in private areas nothing lies above the
  objects that they get, so that what either writes from then on the other does not see; reference counts grow by one for each
  area; and what the child process and its threads are made of.
\<close>

record regs =
  r_eax :: u32
  r_others :: "u32 list"

datatype fork_event =
    ForkVm vm_event
  | ForkTlbFlushAll
  | ForkStorePtr u32 u32
  | ForkStoreRegs u32 regs
  | ForkFref nat
  | ForkVget nat

record fork_env =
  fe_proc :: proc_alloc
  fe_map :: nat
  fe_area :: "areaid \<Rightarrow> areaid"
  fe_shadow :: "mm \<Rightarrow> objid option"
  fe_thread :: "tid \<Rightarrow> tid option"
  fe_stack :: "tid \<Rightarrow> u32"
  fe_junk :: proc_ptr
  userland_entry :: u32
  sizeof_regs :: u32

subsection \<open>The address space\<close>

text \<open>\<^verbatim>\<open>mmo_un.mmo_bottom_obj\<close> shares its memory with the list of areas of an object that is no shadow object: there it is no object.\<close>

definition fork_private :: "layout \<Rightarrow> mm_env \<Rightarrow> fork_env \<Rightarrow> vmarea \<Rightarrow> vmarea \<Rightarrow> mm \<Rightarrow> (vmarea \<times> vmarea \<times> vm_event list \<times> mm) option" where
  "fork_private L E F c p st = do {
     (sh_p, st1) \<leftarrow> shadow_create E (fe_shadow F st) st;
     (sh_c, st2) \<leftarrow> shadow_create E (fe_shadow F st1) st1;
     ob \<leftarrow> vma_obj p;
     st3 \<leftarrow> upd_obj sh_p (\<lambda>mo. mo\<lparr>mmo_shadowed := Some ob\<rparr>) st2;
     st4 \<leftarrow> upd_obj sh_c (\<lambda>mo. mo\<lparr>mmo_shadowed := Some ob\<rparr>) st3;
     mo \<leftarrow> mmobjs st4 ob;
     bottom \<leftarrow> mmo_bottom_obj mo;
     st5 \<leftarrow> upd_obj sh_c (\<lambda>mo. mo\<lparr>mmo_bottom_obj := Some bottom\<rparr>) st4;
     st6 \<leftarrow> upd_obj sh_p (\<lambda>mo. mo\<lparr>mmo_bottom_obj := Some bottom\<rparr>) st5;
     _ \<leftarrow> mmobjs st6 bottom;
     st7 \<leftarrow> mmo_ref ob st6;
     Some (c\<lparr>vma_obj := Some sh_c\<rparr>, p\<lparr>vma_obj := Some sh_p\<rparr>,
       [OlinkInsert bottom (vma_id c), PtUnmapRange (PN_TO_ADDR L (vma_start p)) (PN_TO_ADDR L (vma_end p))], st7) }"

definition fork_shared :: "vmarea \<Rightarrow> vmarea \<Rightarrow> mm \<Rightarrow> (vmarea \<times> vmarea \<times> vm_event list \<times> mm) option" where
  "fork_shared c p st = do {
     ob \<leftarrow> vma_obj p;
     st1 \<leftarrow> mmo_ref ob st;
     Some (c\<lparr>vma_obj := Some ob\<rparr>, p, [OlinkInsert ob (vma_id c)], st1) }"

text \<open>The loop over the areas of the child, with the parent's list alongside.\<close>

fun fork_areas :: "layout \<Rightarrow> mm_env \<Rightarrow> fork_env \<Rightarrow> vmarea list \<Rightarrow> vmarea list \<Rightarrow> mm \<Rightarrow> (vmarea list \<times> vmarea list \<times> vm_event list \<times> mm) option" where
  "fork_areas L E F [] ps st = Some ([], ps, [], st)"
| "fork_areas L E F (c # cs) [] st = None"
| "fork_areas L E F (c # cs) (p # ps) st = do {
     (c1, p1, ev1, st1) \<leftarrow> (if MAP_SHARED \<notin> vma_flags p then fork_private L E F c p st else fork_shared c p st);
     (cs1, ps1, ev2, st2) \<leftarrow> fork_areas L E F cs ps st1;
     Some (c1 # cs1, p1 # ps1, ev1 @ ev2, st2) }"

subsection \<open>Threads and files\<close>

definition fork_setup_stack :: "kconfig \<Rightarrow> fork_env \<Rightarrow> regs \<Rightarrow> u32 \<Rightarrow> u32 \<times> fork_event list" where
  "fork_setup_stack cfg F regs kstack =
     (let esp = kstack + DEFAULT_STACK_SIZE cfg - (sizeof_regs F + 12)
      in (esp, [ForkStorePtr (esp + 4) (esp + 8), ForkStoreRegs (esp + 8) regs]))"

fun fork_threads :: "kconfig \<Rightarrow> fork_env \<Rightarrow> proc_ptr \<Rightarrow> tid list \<Rightarrow> regs \<Rightarrow> kernel \<Rightarrow> (regs \<times> fork_event list \<times> kernel) option" where
  "fork_threads cfg F newproc [] regs k = Some (regs, [], k)"
| "fork_threads cfg F newproc (t # ts) regs k = do {
     (newthr, k1) \<leftarrow> kthread_clone (fe_thread F t) (fe_stack F t) (fe_junk F) t k;
     kassert (fe_stack F t \<noteq> 0);
     np \<leftarrow> procs k1 newproc;
     let regs1 = regs\<lparr>r_eax := 0\<rparr>;
     let (esp, ev) = fork_setup_stack cfg F regs1 (fe_stack F t);
     s2 \<leftarrow> upd_thread newthr (\<lambda>thr. thr\<lparr>kt_proc := newproc, kt_ctx := (kt_ctx thr)\<lparr>c_eip := userland_entry F, c_pdptr := p_pagedir np, c_esp := esp\<rparr>\<rparr>)
       (ksched k1);
     k2 \<leftarrow> upd_proc newproc (\<lambda>pr. pr\<lparr>p_threads := p_threads pr @ [newthr]\<rparr>) (k1\<lparr>ksched := s2\<rparr>);
     s3 \<leftarrow> (if curthr (ksched k2) = t then sched_make_runnable newthr (ksched k2) else Some (ksched k2));
     (regs2, ev2, k3) \<leftarrow> fork_threads cfg F newproc ts regs1 (k2\<lparr>ksched := s3\<rparr>);
     Some (regs2, ev @ ev2, k3) }"

fun fork_files :: "nat \<Rightarrow> nat option list \<Rightarrow> nat option list \<times> fork_event list" where
  "fork_files 0 files = ([], [])"
| "fork_files (Suc n) [] = ([], [])"
| "fork_files (Suc n) (fd # fds) = (case fork_files n fds of (fs, ev) \<Rightarrow>
     (fd # fs, (case fd of None \<Rightarrow> ev | Some f \<Rightarrow> ForkFref f # ev)))"

definition do_fork :: "layout \<Rightarrow> mm_env \<Rightarrow> kconfig \<Rightarrow> fork_env \<Rightarrow> regs \<Rightarrow> vmmap \<Rightarrow> mm \<Rightarrow> kernel
    \<Rightarrow> (int \<times> vmmap \<times> vmmap \<times> regs \<times> fork_event list \<times> mm \<times> kernel) option" where
  "do_fork L E cfg F regs vm st k = do {
     cur \<leftarrow> procs k (kcur k);
     kassert (p_state cur = PROC_RUNNING);
     (newproc, k1) \<leftarrow> proc_create cfg (fe_proc F) ''newChild'' k;
     np \<leftarrow> procs k1 newproc;
     kassert (p_state np = PROC_RUNNING);
     kassert (p_pagedir np \<noteq> 0);
     let newmap = vmmap_clone (fe_map F) (fe_area F) vm;
     k2 \<leftarrow> upd_proc newproc (\<lambda>pr. pr\<lparr>p_vmmap := Some (fe_map F)\<rparr>) k1;
     (cs, ps, vev, st1) \<leftarrow> fork_areas L E F (vmm_list newmap) (vmm_list vm) st;
     cur2 \<leftarrow> procs k2 (kcur k2);
     (regs1, tev, k3) \<leftarrow> fork_threads cfg F newproc (p_threads cur2) regs k2;
     cur3 \<leftarrow> procs k3 (kcur k3);
     let (files, fev) = fork_files (NFILES cfg) (p_files cur3);
     k4 \<leftarrow> upd_proc newproc (\<lambda>pr. pr\<lparr>p_files := files, p_cwd := p_cwd cur3, p_start_brk := p_start_brk cur3, p_brk := p_brk cur3\<rparr>) k3;
     Some (p_pid np, newmap\<lparr>vmm_list := cs\<rparr>, vm\<lparr>vmm_list := ps\<rparr>, regs1,
       map ForkVm vev @ [ForkTlbFlushAll] @ tev @ fev @ [ForkVget (p_cwd cur3)], st1, k4) }"

subsection \<open>What a fork does to memory objects\<close>

text \<open>Objects get one more reference for each area that shows them; frames and contents stay.\<close>

definition shown :: "objid \<Rightarrow> vmarea list \<Rightarrow> int" where
  "shown ob ps = int (length (filter (\<lambda>p. vma_obj p = Some ob) ps))"

definition forked :: "vmarea list \<Rightarrow> mm \<Rightarrow> mm \<Rightarrow> bool" where
  "forked ps st st' \<longleftrightarrow> frames st' = frames st \<and> page_mem st' = page_mem st
     \<and> (\<forall>ob mo. mmobjs st ob = Some mo \<longrightarrow> mmobjs st' ob = Some (mo\<lparr>mmo_refcount := mmo_refcount mo + shown ob ps\<rparr>))"

definition in_use :: "mm \<Rightarrow> objid \<Rightarrow> bool" where
  "in_use st ob \<longleftrightarrow> (\<exists>mo. mmobjs st ob = Some mo \<and> 0 < mmo_refcount mo)"

text \<open>Nothing lies above the object.\<close>

definition on_top :: "mm \<Rightarrow> objid \<Rightarrow> bool" where
  "on_top st ob \<longleftrightarrow> (\<forall>a. \<not> shadows st a ob)"

text \<open>An area of the parent before (\<open>p\<close>) and after (\<open>p'\<close>) and the child's area (\<open>c'\<close>).\<close>

definition area_forked :: "layout \<Rightarrow> mm_env \<Rightarrow> mm \<Rightarrow> mm \<Rightarrow> vmarea \<Rightarrow> vmarea \<Rightarrow> vmarea \<Rightarrow> bool" where
  "area_forked L E st st' p p' c' \<longleftrightarrow> (\<exists>ob ob1 ob2. vma_obj p = Some ob \<and> vma_obj p' = Some ob1 \<and> vma_obj c' = Some ob2
     \<and> p'\<lparr>vma_obj := vma_obj p\<rparr> = p \<and> in_use st' ob1 \<and> in_use st' ob2
     \<and> (\<forall>n. visible L E st' ob1 n = visible L E st ob n \<and> visible L E st' ob2 n = visible L E st ob n)
     \<and> (if MAP_SHARED \<in> vma_flags p then ob1 = ob \<and> ob2 = ob
        else ob1 \<noteq> ob2 \<and> mmobjs st ob1 = None \<and> mmobjs st ob2 = None \<and> on_top st' ob1 \<and> on_top st' ob2 \<and> shadows st' ob1 ob \<and> shadows st' ob2 ob))"

text \<open>Areas that can be forked: their objects are in use, those of private areas being shadow objects.\<close>

definition forkable :: "mm \<Rightarrow> vmarea \<Rightarrow> bool" where
  "forkable st p \<longleftrightarrow> (\<exists>ob mo. vma_obj p = Some ob \<and> mmobjs st ob = Some mo \<and> 0 < mmo_refcount mo
     \<and> (MAP_SHARED \<notin> vma_flags p \<longrightarrow> mmo_ops mo = shadow_mmobj_ops))"

text \<open>What \<^verbatim>\<open>mmobj_init\<close> stores, and memory for \<open>m\<close> objects.\<close>

definition init_ok :: "mm_env \<Rightarrow> bool" where
  "init_ok E \<longleftrightarrow> (\<forall>ops. mmo_ops (mmobj_init E ops) = ops \<and> mmo_nrespages (mmobj_init E ops) = 0 \<and> mmo_respages (mmobj_init E ops) = [])"

definition shadow_memory :: "mm_env \<Rightarrow> fork_env \<Rightarrow> nat \<Rightarrow> bool" where
  "shadow_memory E F m \<longleftrightarrow> (\<forall>st. mm_inv E st \<and> finite (dom (mmobjs st)) \<longrightarrow>
     (\<forall>ob. fe_shadow F st = Some ob \<longrightarrow> mmobjs st ob = None) \<and> (card (dom (mmobjs st)) < m \<longrightarrow> fe_shadow F st \<noteq> None))"

text \<open>The new shadow objects of a private area.\<close>

definition fork_obj :: "mm_env \<Rightarrow> objid \<Rightarrow> objid \<Rightarrow> mmobj" where
  "fork_obj E ob bottom = (mmobj_init E shadow_mmobj_ops)\<lparr>mmo_refcount := 1, mmo_shadowed := Some ob, mmo_bottom_obj := Some bottom\<rparr>"

text \<open>A page looked up for writing and then written is seen through this object and through no other.\<close>

definition private_write :: "layout \<Rightarrow> mm_env \<Rightarrow> mm \<Rightarrow> objid \<Rightarrow> u32 \<Rightarrow> page \<Rightarrow> bool" where
  "private_write L E st ob n w \<longleftrightarrow> (\<exists>pf f st'. shadow_lookuppage L E ob n True st = Some (Inr (0, pf), st') \<and> frames st' pf = Some f
     \<and> visible L E st ob n = Some (page_mem st' (pf_addr f))
     \<and> visible L E (st'\<lparr>page_mem := (page_mem st')(pf_addr f := w)\<rparr>) ob n = Some w
     \<and> (\<forall>ob' n'. ob' \<noteq> ob \<or> n' \<noteq> n \<longrightarrow> visible L E (st'\<lparr>page_mem := (page_mem st')(pf_addr f := w)\<rparr>) ob' n' = visible L E st ob' n'))"

text \<open>The thread that a fork makes of the calling thread.\<close>

definition fork_thread :: "kconfig \<Rightarrow> fork_env \<Rightarrow> proc_ptr \<Rightarrow> nat \<Rightarrow> tid \<Rightarrow> kthread \<Rightarrow> kthread" where
  "fork_thread cfg F np pd t thr = thr\<lparr>kt_kstack := fe_stack F t, kt_saved_ipl := None, kt_proc := np,
     kt_ctx := (kt_ctx thr)\<lparr>c_kstack := fe_stack F t, c_eip := userland_entry F, c_pdptr := pd,
       c_esp := fe_stack F t + DEFAULT_STACK_SIZE cfg - (sizeof_regs F + 12)\<rparr>,
     kt_state := KT_RUN, kt_wchan := Some kt_runq\<rparr>"

subsection \<open>A concrete fork\<close>

definition demo_fork :: fork_env where
  "demo_fork = \<lparr>fe_proc = demo_alloc 4, fe_map = 4, fe_area = (\<lambda>i. i + 100), fe_shadow = (\<lambda>st. List.find (\<lambda>i. mmobjs st i = None) [0..<20]),
     fe_thread = (\<lambda>t. Some 30), fe_stack = (\<lambda>t. 0xC0010000), fe_junk = 0, userland_entry = 0xC0100000, sizeof_regs = 68\<rparr>"

definition demo_fork_map :: vmmap where
  "demo_fork_map = \<lparr>vmm_id = 1, vmm_list = [(demo_area 2 0x1000 0x1010), (demo_area 1 0x2000 0x2010)\<lparr>vma_flags := {MAP_SHARED}\<rparr>], vmm_proc = Some 2\<rparr>"

text \<open>Process 2, with thread 1, forks.\<close>

definition demo_forking :: kernel where
  "demo_forking = \<lparr>ksched = demo_sched\<lparr>curproc := 2\<rparr>, procs = [1 \<mapsto> demo_proc 0 [2] 1 PROC_RUNNING [2] 8, 2 \<mapsto> demo_proc 1 [] 1 PROC_RUNNING [1] 5],
     proc_list = [1, 2], next_pid = 2, initproc = Some 2, kevents = []\<rparr>"

section \<open>Properties of fork\<close>

subsection \<open>One area\<close>

lemma mm_inv_add_object:
  assumes inv: "mm_inv E st" and new: "mmobjs st ob = None" and mo: "mmo_respages mo = []" "mmo_nrespages mo = 0" "0 \<le> mmo_refcount mo"
    "mmo_ops mo \<noteq> vnode_mmobj_ops"
  shows "mm_inv E (st\<lparr>mmobjs := (mmobjs st)(ob \<mapsto> mo)\<rparr>)"
proof -
  have "pf_obj f \<noteq> Some ob" if "frames st pf = Some f" for pf f
    using inv new that by (fastforce simp: mm_inv_def objs_ok_def)
  then have "obj_ok (st\<lparr>mmobjs := (mmobjs st)(ob \<mapsto> mo)\<rparr>) ob mo" using mo by (auto simp: obj_ok_def has_identity_iff)
  moreover have "obj_ok (st\<lparr>mmobjs := (mmobjs st)(ob \<mapsto> mo)\<rparr>) a b = obj_ok st a b" for a b by (simp add: obj_ok_def has_identity_def)
  ultimately have "objs_ok (st\<lparr>mmobjs := (mmobjs st)(ob \<mapsto> mo)\<rparr>)" using inv by (auto simp: mm_inv_def objs_ok_def) blast
  then show ?thesis using inv by (simp add: mm_inv_def lists_ok_def hash_ok_def unique_ok_def has_identity_def)
qed

text \<open>Forking one area.\<close>

lemma fork_private_eq:
  assumes inv: "mm_inv E st" and init: "init_ok E" and fin: "finite (dom (mmobjs st))" and mem: "shadow_memory E F m" "card (dom (mmobjs st)) + 1 < m"
    and ob: "vma_obj p = Some ob" "mmobjs st ob = Some mo" "0 < mmo_refcount mo" "mmo_bottom_obj mo = Some b" "mmobjs st b = Some mb"
  obtains sp sc ev st' where "fork_private L E F c p st = Some (c\<lparr>vma_obj := Some sc\<rparr>, p\<lparr>vma_obj := Some sp\<rparr>, ev, st')"
    "mmobjs st sp = None" "mmobjs st sc = None" "sp \<noteq> sc" "frames st' = frames st" "page_mem st' = page_mem st" "mm_inv E st'"
    "mmobjs st' = (mmobjs st)(sp \<mapsto> fork_obj E ob b, sc \<mapsto> fork_obj E ob b, ob \<mapsto> mo\<lparr>mmo_refcount := mmo_refcount mo + 1\<rparr>)"
proof -
  let ?m = "(mmobj_init E shadow_mmobj_ops)\<lparr>mmo_refcount := 1\<rparr>"
  have m: "mmo_respages ?m = []" "mmo_nrespages ?m = 0" "0 \<le> mmo_refcount ?m" "mmo_ops ?m \<noteq> vnode_mmobj_ops" using init by (simp_all add: init_ok_def)
  have k: "mmo_respages (fork_obj E ob b) = []" "mmo_nrespages (fork_obj E ob b) = 0" "0 \<le> mmo_refcount (fork_obj E ob b)"
    "mmo_ops (fork_obj E ob b) \<noteq> vnode_mmobj_ops" using init by (simp_all add: init_ok_def fork_obj_def)
  obtain sp where sp: "fe_shadow F st = Some sp" "mmobjs st sp = None" using inv fin mem unfolding shadow_memory_def by fastforce
  let ?st1 = "st\<lparr>mmobjs := (mmobjs st)(sp \<mapsto> ?m)\<rparr>"
  have inv1: "mm_inv E ?st1" by (rule mm_inv_add_object [OF inv sp(2) m])
  have "finite (dom (mmobjs ?st1))" "card (dom (mmobjs ?st1)) < m" using fin mem(2) sp(2) by (simp_all add: card_insert_if domIff)
  then obtain sc where sc: "fe_shadow F ?st1 = Some sc" "mmobjs ?st1 sc = None" using inv1 mem(1) unfolding shadow_memory_def by fastforce
  have ne: "sp \<noteq> sc" "mmobjs st sc = None" "ob \<noteq> sp" "ob \<noteq> sc" "b \<noteq> sp" "b \<noteq> sc" using sc(2) sp(2) ob by (auto split: if_splits)
  let ?s1 = "st\<lparr>mmobjs := (mmobjs st)(sp \<mapsto> fork_obj E ob b)\<rparr>"
  let ?s2 = "?s1\<lparr>mmobjs := (mmobjs ?s1)(sc \<mapsto> fork_obj E ob b)\<rparr>"
  have "mm_inv E ?s1" by (rule mm_inv_add_object [OF inv sp(2) k])
  then have inv2: "mm_inv E ?s2" by (rule mm_inv_add_object [OF _ _ k]) (use ne in simp)
  have ok: "obj_ok st ob mo" using inv ob(2) by (auto simp: mm_inv_def objs_ok_def)
  have inv3: "mm_inv E (ref_state ob mo 1 ?s2)"
    by (rule mm_inv_refcount [OF inv2]) (use ob ne ok in \<open>simp_all add: obj_ok_def\<close>)
  have "fork_private L E F c p st = Some (c\<lparr>vma_obj := Some sc\<rparr>, p\<lparr>vma_obj := Some sp\<rparr>,
    [OlinkInsert b (vma_id c), PtUnmapRange (PN_TO_ADDR L (vma_start p)) (PN_TO_ADDR L (vma_end p))], ref_state ob mo 1 ?s2)"
    using sp sc ne ob
    by (simp add: fork_private_def shadow_create_def upd_obj_def mmo_ref_eq ref_state_def fork_obj_def fun_upd_twist)
  then show thesis using that inv3 sp(2) ne by (simp add: ref_state_def)
qed

lemma shown_simps: "shown ob [] = 0" "shown ob (p # ps) = (if vma_obj p = Some ob then 1 else 0) + shown ob ps" "0 \<le> shown ob ps"
  by (simp_all add: shown_def)

lemma forked_object: "forked ps st st' \<Longrightarrow> mmobjs st ob = Some mo \<Longrightarrow>
  mmobjs st' ob = Some (mo\<lparr>mmo_refcount := mmo_refcount mo + shown ob ps\<rparr>)"
  by (simp add: forked_def)

lemma forked_refl: "forked [] st st"
  by (simp add: forked_def shown_simps)

lemma forked_trans:
  assumes "forked [p] st st1" and "forked ps st1 st2"
  shows "forked (p # ps) st st2"
proof -
  have "mmobjs st2 ob = Some (mo\<lparr>mmo_refcount := mmo_refcount mo + shown ob (p # ps)\<rparr>)" if "mmobjs st ob = Some mo" for ob mo
    using forked_object [OF assms(2) forked_object [OF assms(1) that]] by (simp add: shown_simps algebra_simps)
  then show ?thesis using assms by (simp add: forked_def)
qed

lemma has_identity_cong: "frames st' = frames st \<Longrightarrow> has_identity st' = has_identity st"
  by (simp add: has_identity_def fun_eq_iff)

text \<open>What was seen through an object is still seen.\<close>

lemma forked_views:
  assumes inv: "mm_inv E st" "mm_inv E st'" and rank: "ranked rank st" and f: "forked ps st st'" and "mmobjs st ob = Some mo"
  shows "visible L E st' ob n = visible L E st ob n"
  using assms(5)
proof (induction "rank ob" arbitrary: ob mo rule: less_induct)
  case less
  note mo = less.prems
  note mo' = forked_object [OF f mo]
  have eq: "frames st' = frames st" "page_mem st' = page_mem st" using f by (simp_all add: forked_def)
  note id = has_identity_cong [OF eq(1)]
  show ?case
  proof (cases "\<exists>pf. has_identity st ob n pf")
    case True
    then obtain pf f where pf: "has_identity st ob n pf" "frames st pf = Some f" by (auto simp: has_identity_iff)
    then show ?thesis using visible_resident [OF inv(1) mo pf] visible_resident [OF inv(2) mo', of n pf f] eq id by simp
  next
    case False
    have "visible L E st' c n = visible L E st c n" if c: "mmo_shadowed mo = Some c" for c
    proof -
      obtain mc where "rank c < rank ob" "mmobjs st c = Some mc" using rank mo c by (fastforce simp: ranked_def chain_link_def)
      then show ?thesis by (rule less.hyps)
    qed
    then show ?thesis
      using visible_absent [OF inv(1) mo False] visible_absent [OF inv(2) mo'] False id by (auto split: option.split)
  qed
qed

lemma chain_link_refcount [simp]: "chain_link rank st ob (mo\<lparr>mmo_refcount := k\<rparr>) = chain_link rank st ob mo"
  by (cases "mmo_shadowed mo") (auto simp: chain_link_def)

lemma ref_ranked:
  assumes "ranked rank st" and "mmobjs st ob = Some mo" and "0 < mmo_refcount mo"
  shows "ranked rank (ref_state ob mo 1 st)"
proof -
  have "chain_link rank (ref_state ob mo 1 st) a ma = chain_link rank st a ma" for a ma
    using assms(2,3) by (cases "mmo_shadowed ma") (auto simp: chain_link_def ref_state_def)
  then show ?thesis using assms(1,2) unfolding ranked_def by (auto simp: ref_state_def)
qed

text \<open>Chains stay chains when an object gets two new shadow objects.\<close>

lemma fork_ranked:
  assumes rank: "ranked rank st" and ob: "mmobjs st ob = Some mo" "0 < mmo_refcount mo" "mmo_ops mo = shadow_mmobj_ops" "mmo_bottom_obj mo = Some b"
    and new: "mmobjs st sp = None" "mmobjs st sc = None" and init: "init_ok E"
    and st': "mmobjs st' = (mmobjs st)(sp \<mapsto> fork_obj E ob b, sc \<mapsto> fork_obj E ob b, ob \<mapsto> mo\<lparr>mmo_refcount := mmo_refcount mo + 1\<rparr>)"
  shows "ranked (rank(sp := rank ob + 1, sc := rank ob + 1)) st'"
  unfolding ranked_def
proof (intro allI impI)
  fix a ma
  let ?r = "rank(sp := rank ob + 1, sc := rank ob + 1)"
  assume a: "mmobjs st' a = Some ma"
  have ne: "ob \<noteq> sp" "ob \<noteq> sc" using ob new by auto
  have link: "chain_link rank st x mx" if "mmobjs st x = Some mx" for x mx using rank that by (simp add: ranked_def)
  have sh: "mmo_shadowed mo \<noteq> None" using link [OF ob(1)] ob(3) by (auto simp: chain_link_def split: option.splits)
  have old: "chain_link ?r st' x mx" if x: "mmobjs st x = Some mx" for x mx
  proof (cases "mmo_shadowed mx")
    case None
    then show ?thesis using link [OF x] by (simp add: chain_link_def)
  next
    case (Some y)
    then obtain my where y: "mmo_ops mx = shadow_mmobj_ops" "rank y < rank x" "mmobjs st y = Some my" "0 < mmo_refcount my"
      "mmo_bottom_obj mx = (if mmo_shadowed my = None then Some y else mmo_bottom_obj my)"
      using link [OF x] by (auto simp: chain_link_def)
    have "?r y = rank y" "?r x = rank x" using x y new by auto
    moreover have "\<exists>my'. mmobjs st' y = Some my' \<and> 0 < mmo_refcount my' \<and> mmo_shadowed my' = mmo_shadowed my \<and> mmo_bottom_obj my' = mmo_bottom_obj my"
      using y new st' ob(1) by auto
    ultimately show ?thesis using y Some by (auto simp: chain_link_def)
  qed
  consider "a = sp \<or> a = sc" | "a = ob" | "a \<noteq> sp" "a \<noteq> sc" "a \<noteq> ob" by blast
  then show "chain_link ?r st' a ma"
  proof cases
    case 1
    then have "ma = fork_obj E ob b" using a st' ne by (auto split: if_splits)
    then show ?thesis using 1 st' ne ob sh init by (auto simp: chain_link_def fork_obj_def init_ok_def)
  next
    case 2
    then have "ma = mo\<lparr>mmo_refcount := mmo_refcount mo + 1\<rparr>" using a st' by simp
    then show ?thesis using 2 old [OF ob(1)] by simp
  next
    case 3
    then have "mmobjs st a = Some ma" using a st' by simp
    then show ?thesis by (rule old)
  qed
qed


text \<open>The object at the bottom of a chain exists.\<close>

lemma chain_bottom_object:
  assumes rank: "ranked rank st" and "mmobjs st ob = Some mo" and "mmo_ops mo = shadow_mmobj_ops"
  shows "\<exists>b mb. mmo_bottom_obj mo = Some b \<and> mmobjs st b = Some mb"
  using assms(2,3)
proof (induction "rank ob" arbitrary: ob mo rule: less_induct)
  case less
  have "chain_link rank st ob mo" using rank less.prems(1) by (simp add: ranked_def)
  with less.prems(2) obtain c mc where c: "rank c < rank ob" "mmobjs st c = Some mc"
    "mmo_bottom_obj mo = (if mmo_shadowed mc = None then Some c else mmo_bottom_obj mc)"
    by (auto simp: chain_link_def split: option.splits)
  show ?case
  proof (cases "mmo_shadowed mc = None")
    case True
    then show ?thesis using c by simp
  next
    case False
    have "chain_link rank st c mc" using rank c(2) by (simp add: ranked_def)
    with False have "mmo_ops mc = shadow_mmobj_ops" by (auto simp: chain_link_def)
    from less.hyps [OF c(1,2) this] show ?thesis using c(3) False by simp
  qed
qed

lemma forked_shadows: "forked ps st st' \<Longrightarrow> mmobjs st a = Some mo \<Longrightarrow> shadows st' a b = shadows st a b"
  by (simp add: forked_def shadows_def)

lemma forked_new: "forked ps st st' \<Longrightarrow> mmobjs st' ob = None \<Longrightarrow> mmobjs st ob = None"
  by (cases "mmobjs st ob") (auto dest: forked_object)

lemma forked_forkable: "forked qs st st' \<Longrightarrow> forkable st p \<Longrightarrow> forkable st' p"
  unfolding forkable_def by (fastforce dest: forked_object simp: shown_simps add_pos_nonneg)

lemma forked_in_use: "forked ps st st' \<Longrightarrow> in_use st ob \<Longrightarrow> in_use st' ob"
  unfolding in_use_def by (fastforce dest: forked_object simp: shown_simps add_pos_nonneg)

text \<open>One area of the parent and the child.\<close>

lemma fork_area:
  assumes inv: "mm_inv E st" and chains: "chains_ok st" and init: "init_ok E" and fin: "finite (dom (mmobjs st))"
    and mem: "shadow_memory E F m" "card (dom (mmobjs st)) + 2 \<le> m" and p: "forkable st p"
  obtains c1 p1 ev st1 where "(if MAP_SHARED \<notin> vma_flags p then fork_private L E F c p st else fork_shared c p st) = Some (c1, p1, ev, st1)"
    "mm_inv E st1" "chains_ok st1" "forked [p] st st1" "finite (dom (mmobjs st1))" "card (dom (mmobjs st1)) \<le> card (dom (mmobjs st)) + 2"
    "area_forked L E st st1 p p1 c1" "c1\<lparr>vma_obj := vma_obj c\<rparr> = c"
    "\<forall>ob. mmobjs st ob \<noteq> None \<and> on_top st ob \<and> vma_obj p \<noteq> Some ob \<longrightarrow> on_top st1 ob"
proof -
  obtain rank where rank: "ranked rank st" using chains by (auto simp: chains_ok_def)
  obtain ob mo where ob: "vma_obj p = Some ob" "mmobjs st ob = Some mo" "0 < mmo_refcount mo"
    "MAP_SHARED \<notin> vma_flags p \<longrightarrow> mmo_ops mo = shadow_mmobj_ops" using p by (auto simp: forkable_def)
  have ok: "obj_ok st ob mo" using inv ob(2) by (auto simp: mm_inv_def objs_ok_def)
  show thesis
  proof (cases "MAP_SHARED \<in> vma_flags p")
    case True
    let ?st1 = "ref_state ob mo 1 st"
    have inv1: "mm_inv E ?st1" by (rule mm_inv_refcount [OF inv ob(2)]) (use ok in \<open>simp add: obj_ok_def\<close>)
    have f: "forked [p] st ?st1" using ob by (auto simp: forked_def ref_state_def shown_simps)
    have ch: "chains_ok ?st1" using ref_ranked [OF rank ob(2,3)] by (auto simp: chains_ok_def)
    have sh: "shadows ?st1 = shadows st" using ob(2) by (auto simp: shadows_def ref_state_def fun_eq_iff)
    show thesis
    proof (rule that [OF _ inv1 ch f])
      show "(if MAP_SHARED \<notin> vma_flags p then fork_private L E F c p st else fork_shared c p st)
        = Some (c\<lparr>vma_obj := Some ob\<rparr>, p, [OlinkInsert ob (vma_id c)], ?st1)" using True ob by (simp add: fork_shared_def mmo_ref_eq)
      show "area_forked L E st ?st1 p p (c\<lparr>vma_obj := Some ob\<rparr>)"
        using True ob forked_views [OF inv inv1 rank f ob(2)] by (simp add: area_forked_def in_use_def ref_state_def)
    qed (use fin ob(2) sh in \<open>simp_all add: ref_state_def insert_absorb domI on_top_def\<close>)
  next
    case False
    then have ops: "mmo_ops mo = shadow_mmobj_ops" using ob(4) by simp
    obtain b mb where b: "mmo_bottom_obj mo = Some b" "mmobjs st b = Some mb"
      using chain_bottom_object [OF rank ob(2) ops] by blast
    obtain sp sc ev st1 where s: "fork_private L E F c p st = Some (c\<lparr>vma_obj := Some sc\<rparr>, p\<lparr>vma_obj := Some sp\<rparr>, ev, st1)"
      "mmobjs st sp = None" "mmobjs st sc = None" "sp \<noteq> sc" "frames st1 = frames st" "page_mem st1 = page_mem st" "mm_inv E st1"
      "mmobjs st1 = (mmobjs st)(sp \<mapsto> fork_obj E ob b, sc \<mapsto> fork_obj E ob b, ob \<mapsto> mo\<lparr>mmo_refcount := mmo_refcount mo + 1\<rparr>)"
      by (rule fork_private_eq [OF inv init fin mem(1) _ ob(1-3) b]) (use mem(2) in simp_all)
    have ne: "ob \<noteq> sp" "ob \<noteq> sc" using s(2,3) ob(2) by auto
    have f: "forked [p] st st1" using s ob ne by (auto simp: forked_def shown_simps)
    have rank1: "ranked (rank(sp := rank ob + 1, sc := rank ob + 1)) st1" by (rule fork_ranked [OF rank ob(2,3) ops b(1) s(2,3) init s(8)])
    have sh: "shadows st1 x y \<longleftrightarrow> (if x = sp \<or> x = sc then y = ob else shadows st x y)" for x y
      using s(4,8) ne ob(2) by (auto simp: shadows_def fork_obj_def)
    have none: "\<not> shadows st x y" if "mmobjs st y = None" for x y
      using rank that by (fastforce simp: ranked_def chain_link_def shadows_def)
    have new: "visible L E st1 x n = visible L E st ob n" if "x = sp \<or> x = sc" for x n
    proof -
      have mx: "mmobjs st1 x = Some (fork_obj E ob b)" "mmobjs st x = None" using that s ne by auto
      have "\<nexists>pf. has_identity st1 x n pf"
        using inv mx(2) s(5) by (fastforce simp: has_identity_iff mm_inv_def objs_ok_def)
      then show ?thesis
        using visible_absent [OF s(7) mx(1)] forked_views [OF inv s(7) rank f ob(2)] by (simp add: fork_obj_def)
    qed
    have in_use: "in_use st1 sp" "in_use st1 sc" using s(4,8) ne by (auto simp: in_use_def fork_obj_def)
    show thesis
    proof (rule that [OF _ s(7) _ f])
      show "(if MAP_SHARED \<notin> vma_flags p then fork_private L E F c p st else fork_shared c p st)
        = Some (c\<lparr>vma_obj := Some sc\<rparr>, p\<lparr>vma_obj := Some sp\<rparr>, ev, st1)" using False s(1) by simp
      show "chains_ok st1" using rank1 by (auto simp: chains_ok_def)
      show "finite (dom (mmobjs st1))" using fin s(8) by simp
      show "card (dom (mmobjs st1)) \<le> card (dom (mmobjs st)) + 2"
        using fin s(8) ob(2) by (simp add: card_insert_if insert_absorb domI)
      show "area_forked L E st st1 p (p\<lparr>vma_obj := Some sp\<rparr>) (c\<lparr>vma_obj := Some sc\<rparr>)"
        using False ob(1) s(2-4) new ne none in_use by (auto simp: area_forked_def on_top_def sh)
      show "\<forall>o'. mmobjs st o' \<noteq> None \<and> on_top st o' \<and> vma_obj p \<noteq> Some o' \<longrightarrow> on_top st1 o'"
        using ob(1) by (auto simp: on_top_def sh)
    qed simp
  qed
qed

subsection \<open>All areas\<close>

lemma area_forked_later:
  assumes a: "area_forked L E st st1 p p' c'" and inv: "mm_inv E st1" "mm_inv E st2" and chains: "chains_ok st1"
    and f: "forked ps st1 st2" and objs: "\<And>ob. vma_obj p = Some ob \<Longrightarrow> mmobjs st1 ob \<noteq> None"
    and top: "\<And>ob. mmobjs st ob = None \<Longrightarrow> mmobjs st1 ob \<noteq> None \<Longrightarrow> on_top st1 ob \<Longrightarrow> on_top st2 ob"
  shows "area_forked L E st st2 p p' c'"
proof -
  obtain rank where rank: "ranked rank st1" using chains by (auto simp: chains_ok_def)
  obtain ob ob1 ob2 where o: "vma_obj p = Some ob" "vma_obj p' = Some ob1" "vma_obj c' = Some ob2" "p'\<lparr>vma_obj := vma_obj p\<rparr> = p"
    "in_use st1 ob1" "in_use st1 ob2" "\<forall>n. visible L E st1 ob1 n = visible L E st ob n \<and> visible L E st1 ob2 n = visible L E st ob n"
    and cases: "if MAP_SHARED \<in> vma_flags p then ob1 = ob \<and> ob2 = ob
        else ob1 \<noteq> ob2 \<and> mmobjs st ob1 = None \<and> mmobjs st ob2 = None \<and> on_top st1 ob1 \<and> on_top st1 ob2 \<and> shadows st1 ob1 ob \<and> shadows st1 ob2 ob"
    using a by (auto simp: area_forked_def)
  have "mmobjs st1 ob1 \<noteq> None" "mmobjs st1 ob2 \<noteq> None" using cases objs [OF o(1)] by (auto simp: shadows_def split: if_splits)
  then obtain m1 m2 where m: "mmobjs st1 ob1 = Some m1" "mmobjs st1 ob2 = Some m2" by auto
  have "visible L E st2 ob1 n = visible L E st ob n \<and> visible L E st2 ob2 n = visible L E st ob n" for n
    using o(7) forked_views [OF inv rank f m(1)] forked_views [OF inv rank f m(2)] by simp
  then show ?thesis
    using o(1-4) forked_in_use [OF f o(5)] forked_in_use [OF f o(6)] cases m top forked_shadows [OF f m(1)] forked_shadows [OF f m(2)] by (auto simp: area_forked_def)
qed

lemma area_forked_earlier:
  assumes "area_forked L E st1 st2 p p' c'" and inv: "mm_inv E st" "mm_inv E st1" and chains: "chains_ok st"
    and f: "forked ps st st1" and p: "forkable st p"
  shows "area_forked L E st st2 p p' c'"
proof -
  obtain rank where rank: "ranked rank st" using chains by (auto simp: chains_ok_def)
  obtain ob mo where "vma_obj p = Some ob" "mmobjs st ob = Some mo" using p by (auto simp: forkable_def)
  then show ?thesis using assms(1) forked_views [OF inv rank f] forked_new [OF f] unfolding area_forked_def by (auto split: if_splits)
qed

text \<open>All areas, with room for two objects for each.\<close>

lemma fork_areas_ok:
  assumes "mm_inv E st" and "chains_ok st" and init: "init_ok E" and "finite (dom (mmobjs st))" and mem: "shadow_memory E F m"
    and "card (dom (mmobjs st)) + 2 * length ps \<le> m" and "\<forall>p\<in>set ps. forkable st p" and "length cs = length ps"
  shows "\<exists>cs' ps' ev st'. fork_areas L E F cs ps st = Some (cs', ps', ev, st') \<and> mm_inv E st' \<and> chains_ok st' \<and> forked ps st st'
    \<and> length ps' = length ps \<and> length cs' = length ps \<and> list_all2 (\<lambda>p (p', c'). area_forked L E st st' p p' c') ps (zip ps' cs')
    \<and> list_all2 (\<lambda>c c'. c'\<lparr>vma_obj := vma_obj c\<rparr> = c) cs cs'
    \<and> (\<forall>ob. mmobjs st ob \<noteq> None \<and> on_top st ob \<and> (\<forall>p\<in>set ps. vma_obj p \<noteq> Some ob) \<longrightarrow> on_top st' ob)"
  using assms(1,2,4,6,7,8)
proof (induction ps arbitrary: cs st)
  case Nil
  then show ?case by (simp add: forked_refl)
next
  case (Cons p ps)
  obtain c cs1 where cs: "cs = c # cs1" "length cs1 = length ps" using Cons.prems(6) by (cases cs) auto
  have small: "card (dom (mmobjs st)) + 2 \<le> m" and p: "forkable st p" using Cons.prems(4,5) by simp_all
  obtain c1 p1 ev st1 where
    a: "(if MAP_SHARED \<notin> vma_flags p then fork_private L E F c p st else fork_shared c p st) = Some (c1, p1, ev, st1)"
      "mm_inv E st1" "chains_ok st1" "forked [p] st st1" "finite (dom (mmobjs st1))" "card (dom (mmobjs st1)) \<le> card (dom (mmobjs st)) + 2"
      "area_forked L E st st1 p p1 c1" "c1\<lparr>vma_obj := vma_obj c\<rparr> = c"
      "\<forall>ob. mmobjs st ob \<noteq> None \<and> on_top st ob \<and> vma_obj p \<noteq> Some ob \<longrightarrow> on_top st1 ob"
    by (rule fork_area [OF Cons.prems(1,2) init Cons.prems(3) mem small p])
  have rest: "\<forall>q\<in>set ps. forkable st1 q" using Cons.prems(5) forked_forkable [OF a(4)] by simp
  have small1: "card (dom (mmobjs st1)) + 2 * length ps \<le> m" using a(6) Cons.prems(4) by simp
  obtain cs' ps' ev' st' where b: "fork_areas L E F cs1 ps st1 = Some (cs', ps', ev', st')" "mm_inv E st'" "chains_ok st'" "forked ps st1 st'"
      "length ps' = length ps" "length cs' = length ps" "list_all2 (\<lambda>p (p', c'). area_forked L E st1 st' p p' c') ps (zip ps' cs')"
      "list_all2 (\<lambda>c c'. c'\<lparr>vma_obj := vma_obj c\<rparr> = c) cs1 cs'"
      "\<forall>ob. mmobjs st1 ob \<noteq> None \<and> on_top st1 ob \<and> (\<forall>p\<in>set ps. vma_obj p \<noteq> Some ob) \<longrightarrow> on_top st' ob"
    using Cons.IH [OF a(2,3,5) small1 rest cs(2)] by blast
  have run: "fork_areas L E F cs (p # ps) st = Some (c1 # cs', p1 # ps', ev @ ev', st')" using cs(1) a(1) b(1) by simp
  have used: "mmobjs st1 ob \<noteq> None" if "vma_obj p = Some ob" for ob
    using that forked_forkable [OF a(4) p] by (auto simp: forkable_def)
  have apart: "vma_obj q \<noteq> Some ob" if "mmobjs st ob = None" "q \<in> set ps" for q ob
    using that Cons.prems(5) by (auto simp: forkable_def)
  have first: "area_forked L E st st' p p1 c1"
    by (rule area_forked_later [OF a(7,2) b(2) a(3) b(4)]) (use used b(9) apart in auto)
  have "list_all2 (\<lambda>p (p', c'). area_forked L E st st' p p' c') ps (zip ps' cs')"
  proof (rule list.rel_mono_strong [OF b(7)])
    fix q x
    assume q: "q \<in> set ps" and x: "case x of (p', c') \<Rightarrow> area_forked L E st1 st' q p' c'"
    have "forkable st q" using q Cons.prems(5) by simp
    with x show "case x of (p', c') \<Rightarrow> area_forked L E st st' q p' c'"
      using area_forked_earlier [OF _ Cons.prems(1) a(2) Cons.prems(2) a(4)] by (cases x) auto
  qed
  moreover have "on_top st' ob" if h: "mmobjs st ob \<noteq> None" "on_top st ob" "\<forall>q\<in>set (p # ps). vma_obj q \<noteq> Some ob" for ob
  proof -
    have "on_top st1 ob" using h a(9) by simp
    moreover have "mmobjs st1 ob \<noteq> None" by (rule contrapos_nn [OF h(1)]) (rule forked_new [OF a(4)])
    ultimately show ?thesis using b(9) h(3) by simp
  qed
  ultimately show ?case using run b(2,3,5,6,8) a(8) first forked_trans [OF a(4) b(4)] cs(1) by auto
qed


text \<open>
  C30: Fork and memory.  When the objects of the parent's areas are in use, those of private areas being shadow objects, and there is memory for
  two objects for each area, the loop of \<^verbatim>\<open>do_fork\<close> over the areas ends.  Area by area, parent and child see the pages that the parent
  saw before.  A shared area has the same object in both; in a private area each gets a new object over the parent's old one, with
  nothing above it.  Frames, contents and existing objects stay, each object having one more reference for each area
  that showed it; the page cache and the chains remain consistent.
\<close>

theorem fork_copies_memory:
  assumes "mm_inv E st" and "chains_ok st" and "init_ok E" and "finite (dom (mmobjs st))" and "shadow_memory E F m"
    and "card (dom (mmobjs st)) + 2 * length (vmm_list vm) \<le> m" and "\<forall>p\<in>set (vmm_list vm). forkable st p"
  shows "\<exists>cs ps ev st'. fork_areas L E F (vmm_list (vmmap_clone (fe_map F) (fe_area F) vm)) (vmm_list vm) st = Some (cs, ps, ev, st')
    \<and> length ps = length (vmm_list vm) \<and> length cs = length (vmm_list vm)
    \<and> (\<forall>i<length ps. area_forked L E st st' (vmm_list vm ! i) (ps ! i) (cs ! i)
        \<and> (cs ! i)\<lparr>vma_obj := None\<rparr> = clone_area (fe_map F) (fe_area F (vma_id (vmm_list vm ! i))) (vmm_list vm ! i))
    \<and> forked (vmm_list vm) st st' \<and> mm_inv E st' \<and> chains_ok st'"
proof -
  let ?cs = "vmm_list (vmmap_clone (fe_map F) (fe_area F) vm)"
  have cs: "?cs = map (\<lambda>it. clone_area (fe_map F) (fe_area F (vma_id it)) it) (vmm_list vm)" by (simp add: vmmap_clone_def)
  then have len: "length ?cs = length (vmm_list vm)" by simp
  obtain cs' ps' ev st' where r: "fork_areas L E F ?cs (vmm_list vm) st = Some (cs', ps', ev, st')" "mm_inv E st'" "chains_ok st'"
    "forked (vmm_list vm) st st'" "length ps' = length (vmm_list vm)" "length cs' = length (vmm_list vm)"
    "list_all2 (\<lambda>p (p', c'). area_forked L E st st' p p' c') (vmm_list vm) (zip ps' cs')"
    "list_all2 (\<lambda>c c'. c'\<lparr>vma_obj := vma_obj c\<rparr> = c) ?cs cs'"
    using fork_areas_ok [OF assms(1-7) len, of L] by blast
  have "area_forked L E st st' (vmm_list vm ! i) (ps' ! i) (cs' ! i)" if "i < length ps'" for i
    using list_all2_nthD [OF r(7), of i] that r(5,6) by simp
  moreover have "(cs' ! i)\<lparr>vma_obj := None\<rparr> = clone_area (fe_map F) (fe_area F (vma_id (vmm_list vm ! i))) (vmm_list vm ! i)"
    if "i < length ps'" for i
    using list_all2_nthD [OF r(8), of i] that r(5) by (simp add: cs clone_area_def)
  ultimately show ?thesis using r by blast
qed

lemma demo_shadow_memory: "shadow_memory demo_mm_env demo_fork 20"
proof -
  have "fe_shadow demo_fork st \<noteq> None" if fin: "finite (dom (mmobjs st))" and small: "card (dom (mmobjs st)) < 20" for st
  proof
    assume "fe_shadow demo_fork st = None"
    then have "{0..<20} \<subseteq> dom (mmobjs st)" by (auto simp: demo_fork_def find_None_iff simp del: upt_Suc)
    from card_mono [OF fin this] small show False by simp
  qed
  then show ?thesis by (auto simp: shadow_memory_def demo_fork_def dest: find_SomeD)
qed

lemma demo_fork_ok: "init_ok demo_mm_env" "finite (dom (mmobjs demo_mm))" "card (dom (mmobjs demo_mm)) + 2 * length (vmm_list demo_fork_map) \<le> 20"
  "\<forall>p\<in>set (vmm_list demo_fork_map). forkable demo_mm p"
  by (simp_all add: init_ok_def demo_mm_env_def demo_mm_def demo_fork_map_def card_insert_if forkable_def demo_area_def)

theorem fork_copies_memory_witness:
  "\<exists>cs ps ev st'. fork_areas demo_layout demo_mm_env demo_fork (vmm_list (vmmap_clone 4 (\<lambda>i. i + 100) demo_fork_map)) (vmm_list demo_fork_map) demo_mm
      = Some (cs, ps, ev, st')
    \<and> area_forked demo_layout demo_mm_env demo_mm st' (vmm_list demo_fork_map ! 0) (ps ! 0) (cs ! 0) \<and> vma_obj (ps ! 0) \<noteq> vma_obj (cs ! 0)
    \<and> map_option mmo_refcount (mmobjs st' 2) = Some 2"
proof -
  have env: "fe_map demo_fork = 4" "fe_area demo_fork = (\<lambda>i. i + 100)" by (simp_all add: demo_fork_def)
  have flags: "MAP_SHARED \<notin> vma_flags (vmm_list demo_fork_map ! 0)" "length (vmm_list demo_fork_map) = 2"
    by (simp_all add: demo_fork_map_def demo_area_def)
  have shown: "shown 2 (vmm_list demo_fork_map) = 1" by (simp add: shown_def demo_fork_map_def demo_area_def)
  obtain cs ps ev st' where r: "fork_areas demo_layout demo_mm_env demo_fork (vmm_list (vmmap_clone 4 (\<lambda>i. i + 100) demo_fork_map))
      (vmm_list demo_fork_map) demo_mm = Some (cs, ps, ev, st')" "length ps = 2"
    "\<forall>i<length ps. area_forked demo_layout demo_mm_env demo_mm st' (vmm_list demo_fork_map ! i) (ps ! i) (cs ! i)"
    "forked (vmm_list demo_fork_map) demo_mm st'"
    using fork_copies_memory [OF demo_inv(1,3) demo_fork_ok(1,2) demo_shadow_memory demo_fork_ok(3,4), of demo_layout] flags(2) unfolding env by auto
  then have "area_forked demo_layout demo_mm_env demo_mm st' (vmm_list demo_fork_map ! 0) (ps ! 0) (cs ! 0)" by simp
  moreover from this flags have "vma_obj (ps ! 0) \<noteq> vma_obj (cs ! 0)" by (auto simp: area_forked_def)
  moreover have "map_option mmo_refcount (mmobjs st' 2) = Some 2" using forked_object [OF r(4) demo_object] shown by simp
  ultimately show ?thesis using r(1) by blast
qed

subsection \<open>Isolation\<close>

text \<open>A path that ends at an object with nothing above it starts there.\<close>

lemma on_top_reaches: "on_top st ob \<Longrightarrow> (shadows st)\<^sup>*\<^sup>* a ob \<Longrightarrow> a = ob"
  by (auto simp: on_top_def elim: rtranclp.cases)

lemma write_private:
  assumes "mm_inv E st" and "quiet st" and "chains_ok st" and "in_use st ob" and "shadows st ob c" and "on_top st ob"
    and "memory E m" and "card (dom (frames st)) + 2 < m" and "fs_reads E"
  shows "private_write L E st ob n w"
proof -
  obtain rank where rank: "ranked rank st" using assms(3) by (auto simp: chains_ok_def)
  obtain mo where mo: "mmobjs st ob = Some mo" "0 < mmo_refcount mo" using assms(4) by (auto simp: in_use_def)
  then have "mmo_shadowed mo = Some c" using assms(5) by (simp add: shadows_def)
  then have "mmo_ops mo = shadow_mmobj_ops" using rank mo(1) by (fastforce simp: ranked_def chain_link_def)
  from copy_on_write [OF assms(1-3) mo(1) this mo(2) assms(7-9), of L n w] show ?thesis
    unfolding private_write_def using on_top_reaches [OF assms(6)] by blast
qed

text \<open>
  C2: After a fork parent and child do not see each other's writes.  Let the loop over the areas have run and let no page be busy.  In a
  private area, a page looked up for writing through the object of the parent's area, or of the child's, holds what the parent saw there
  before the fork; what is written then is seen through this object, and through no other object, at no other page.
\<close>

theorem fork_isolates:
  assumes "mm_inv E st" and "quiet st" and "chains_ok st" and "init_ok E" and "finite (dom (mmobjs st))" and "shadow_memory E F k"
    and "card (dom (mmobjs st)) + 2 * length (vmm_list vm) \<le> k" and "\<forall>p\<in>set (vmm_list vm). forkable st p"
    and "memory E m" and "card (dom (frames st)) + 2 < m" and "fs_reads E"
  shows "\<exists>cs ps ev st1. fork_areas L E F (vmm_list (vmmap_clone (fe_map F) (fe_area F) vm)) (vmm_list vm) st = Some (cs, ps, ev, st1)
    \<and> (\<forall>i<length (vmm_list vm). MAP_SHARED \<notin> vma_flags (vmm_list vm ! i) \<longrightarrow> (\<exists>ob obp obc.
        vma_obj (vmm_list vm ! i) = Some ob \<and> vma_obj (ps ! i) = Some obp \<and> vma_obj (cs ! i) = Some obc \<and> obp \<noteq> obc
        \<and> (\<forall>x\<in>{obp, obc}. visible L E st1 x n = visible L E st ob n \<and> private_write L E st1 x n w)))"
proof -
  let ?cs = "vmm_list (vmmap_clone (fe_map F) (fe_area F) vm)"
  have len: "length ?cs = length (vmm_list vm)" by (simp add: vmmap_clone_def)
  obtain cs ps ev st1 where r: "fork_areas L E F ?cs (vmm_list vm) st = Some (cs, ps, ev, st1)" "mm_inv E st1" "chains_ok st1"
    "forked (vmm_list vm) st st1" "length ps = length (vmm_list vm)" "length cs = length (vmm_list vm)"
    "list_all2 (\<lambda>p (p', c'). area_forked L E st st1 p p' c') (vmm_list vm) (zip ps cs)"
    using fork_areas_ok [OF assms(1,3-8) len, of L] by blast
  have fr: "frames st1 = frames st" using r(4) by (simp add: forked_def)
  then have quiet: "quiet st1" and small: "card (dom (frames st1)) + 2 < m" using assms(2,10) by (simp_all add: quiet_def)
  have "\<exists>ob obp obc. vma_obj (vmm_list vm ! i) = Some ob \<and> vma_obj (ps ! i) = Some obp \<and> vma_obj (cs ! i) = Some obc \<and> obp \<noteq> obc
        \<and> (\<forall>x\<in>{obp, obc}. visible L E st1 x n = visible L E st ob n \<and> private_write L E st1 x n w)"
    if i: "i < length (vmm_list vm)" "MAP_SHARED \<notin> vma_flags (vmm_list vm ! i)" for i
  proof -
    have "area_forked L E st st1 (vmm_list vm ! i) (ps ! i) (cs ! i)" using list_all2_nthD [OF r(7), of i] i(1) r(5,6) by simp
    then obtain ob obp obc where o: "vma_obj (vmm_list vm ! i) = Some ob" "vma_obj (ps ! i) = Some obp" "vma_obj (cs ! i) = Some obc"
      "in_use st1 obp" "in_use st1 obc" "\<forall>n. visible L E st1 obp n = visible L E st ob n \<and> visible L E st1 obc n = visible L E st ob n"
      "obp \<noteq> obc" "on_top st1 obp" "on_top st1 obc" "shadows st1 obp ob" "shadows st1 obc ob"
      using i(2) by (auto simp: area_forked_def)
    have "visible L E st1 x n = visible L E st ob n \<and> private_write L E st1 x n w"
      if x: "x \<in> {obp, obc}" for x
      using write_private [OF r(2) quiet r(3) _ _ _ assms(9) small assms(11), of x ob L n w] o x by auto
    then show ?thesis using o(1-3,7) by blast
  qed
  then show ?thesis using r(1) by blast
qed


theorem fork_isolates_witness:
  "\<exists>cs ps ev st1 obp obc. fork_areas demo_layout demo_mm_env demo_fork (vmm_list (vmmap_clone (fe_map demo_fork) (fe_area demo_fork) demo_fork_map))
      (vmm_list demo_fork_map) demo_mm = Some (cs, ps, ev, st1) \<and> vma_obj (ps ! 0) = Some obp \<and> vma_obj (cs ! 0) = Some obc \<and> obp \<noteq> obc
    \<and> private_write demo_layout demo_mm_env st1 obp 3 [1] \<and> private_write demo_layout demo_mm_env st1 obc 3 [1]"
proof -
  have small: "card (dom (frames demo_mm)) + 2 < 4" by (simp add: demo_mm_def)
  have first: "0 < length (vmm_list demo_fork_map)" "MAP_SHARED \<notin> vma_flags (vmm_list demo_fork_map ! 0)"
    by (simp_all add: demo_fork_map_def demo_area_def)
  show ?thesis
    using fork_isolates [OF demo_inv demo_fork_ok(1,2) demo_shadow_memory demo_fork_ok(3,4) demo_memory small demo_reads, of demo_layout 3 "[1]"] first
    by (metis insertCI)
qed

subsection \<open>The new process\<close>

lemma fork_files_all: "length files = n \<Longrightarrow> fork_files n files = (files, map ForkFref (concat (map (\<lambda>fd. case fd of None \<Rightarrow> [] | Some f \<Rightarrow> [f]) files)))"
  by (induction n files rule: fork_files.induct) (auto split: option.split)

lemma fork_one_thread:
  assumes "threads (ksched k) t = Some thr" and "kt_state thr = KT_RUN" and "kt_wchan thr = None" and "curthr (ksched k) = t"
    and "fe_thread F t = Some c" and "c \<noteq> t" and "fe_stack F t \<noteq> 0" and "procs k np = Some pr"
  shows "fork_threads cfg F np [t] regs k = Some (regs\<lparr>r_eax := 0\<rparr>, snd (fork_setup_stack cfg F (regs\<lparr>r_eax := 0\<rparr>) (fe_stack F t)),
    k\<lparr>procs := (procs k)(np \<mapsto> pr\<lparr>p_threads := p_threads pr @ [c]\<rparr>),
      ksched := (ksched k)\<lparr>threads := (threads (ksched k))(c \<mapsto> fork_thread cfg F np (p_pagedir pr) t thr),
        queues := (queues (ksched k))(kt_runq := (queues (ksched k) kt_runq)\<lparr>tq_list := c # qlist (ksched k) kt_runq, tq_size := tq_size (queues (ksched k) kt_runq) + 1\<rparr>)\<rparr>\<rparr>)"
  using assms
  by (simp add: kthread_clone_def fork_setup_stack_def upd_thread_def upd_proc_def sched_make_runnable_def ktqueue_enqueue_def upd_queue_def
      fork_thread_def Let_def fun_upd_twist)


text \<open>
  C31: Fork and processes.  A running process with one thread, which is not waiting, forks: the result is the identifier of a new process, which is a child
  of the caller, has the caller's open files, working directory and break, and one thread.  That thread is a copy of the caller's
  on a stack of its own, runnable, and starts in user mode with the registers of the caller but 0 in \<^verbatim>\<open>eax\<close>.  The caller itself
  and all other processes and threads stay as they are, but for the caller's list of children.  Each open file gets one reference, but
  the working directory gets two, one in \<^verbatim>\<open>proc_create\<close> and one in \<^verbatim>\<open>do_fork\<close>.
\<close>

theorem do_fork_correct:
  assumes cur: "procs k (kcur k) = Some cur" "p_state cur = PROC_RUNNING" "p_threads cur = [t]" "length (p_files cur) = NFILES cfg"
    and create: "proc_create cfg (fe_proc F) ''newChild'' k = Some (np, k1)" "procs k np = None" "proc_list k \<noteq> []"
      "new_pagedir (fe_proc F) \<noteq> 0" "new_wait (fe_proc F) \<noteq> kt_runq"
    and thr: "curthr (ksched k) = t" "threads (ksched k) t = Some thr" "kt_state thr = KT_RUN" "kt_wchan thr = None"
    and new: "fe_thread F t = Some c" "c \<noteq> t" "fe_stack F t \<noteq> 0"
    and areas: "fork_areas L E F (vmm_list (vmmap_clone (fe_map F) (fe_area F) vm)) (vmm_list vm) st = Some (cs, ps, vev, st')"
  shows "\<exists>pr ev k'. do_fork L E cfg F regs vm st k
      = Some (p_pid pr, (vmmap_clone (fe_map F) (fe_area F) vm)\<lparr>vmm_list := cs\<rparr>, vm\<lparr>vmm_list := ps\<rparr>, regs\<lparr>r_eax := 0\<rparr>, ev, st', k')
    \<and> pid_of k1 np = Some (p_pid pr) \<and> procs k' = (procs k)(np \<mapsto> pr, kcur k \<mapsto> cur\<lparr>p_children := p_children cur @ [np]\<rparr>)
    \<and> p_pproc pr = Some (kcur k) \<and> p_state pr = PROC_RUNNING \<and> p_threads pr = [c] \<and> p_files pr = p_files cur \<and> p_cwd pr = p_cwd cur
    \<and> p_brk pr = p_brk cur \<and> p_start_brk pr = p_start_brk cur \<and> p_vmmap pr = Some (fe_map F)
    \<and> proc_list k' = proc_list k @ [np] \<and> kevents k' = kevents k @ (if p_pid cur = 0 then [] else [Vref (p_cwd cur)])
    \<and> threads (ksched k') = (threads (ksched k))(c \<mapsto> fork_thread cfg F np (p_pagedir pr) t thr)
    \<and> qlist (ksched k') kt_runq = c # qlist (ksched k) kt_runq
    \<and> ev = map ForkVm vev @ [ForkTlbFlushAll] @ snd (fork_setup_stack cfg F (regs\<lparr>r_eax := 0\<rparr>) (fe_stack F t))
        @ map ForkFref (concat (map (\<lambda>fd. case fd of None \<Rightarrow> [] | Some f \<Rightarrow> [f]) (p_files cur))) @ [ForkVget (p_cwd cur)]"
proof -
  have ne: "kcur k \<noteq> np" using cur(1) create(2) by auto
  obtain pid nxt pObj evs where pid: "p_pid pObj = pid"
    and pObj: "p_pproc pObj = Some (kcur k)" "p_state pObj = PROC_RUNNING" "p_threads pObj = []" "p_pagedir pObj = new_pagedir (fe_proc F)"
      "evs = (if p_pid cur = 0 then [] else [Vref (p_cwd cur)])"
    and k1: "k1 = k\<lparr>next_pid := nxt, procs := (procs k)(np \<mapsto> pObj, kcur k \<mapsto> cur\<lparr>p_children := p_children cur @ [np]\<rparr>),
        kevents := kevents k @ evs, ksched := sched_queue_init (new_wait (fe_proc F)) (ksched k),
        initproc := (if PID_INIT = pid then Some np else initproc k), proc_list := proc_list k @ [np]\<rparr>"
    using proc_create_effect [OF create(1) cur(1) create(3,2)] by blast
  let ?pr2 = "pObj\<lparr>p_vmmap := Some (fe_map F)\<rparr>"
  let ?k2 = "k1\<lparr>procs := (procs k1)(np \<mapsto> ?pr2)\<rparr>"
  have s1: "threads (ksched ?k2) = threads (ksched k)" "curthr (ksched ?k2) = t" "queues (ksched ?k2) kt_runq = queues (ksched k) kt_runq"
    "kcur ?k2 = kcur k" using thr(1) create(5) by (simp_all add: k1 sched_queue_init_def upd_queue_def)
  have np2: "procs ?k2 np = Some ?pr2" by simp
  have thr2: "threads (ksched ?k2) t = Some thr" using thr(2) s1(1) by simp
  let ?s3 = "(ksched ?k2)\<lparr>threads := (threads (ksched ?k2))(c \<mapsto> fork_thread cfg F np (p_pagedir ?pr2) t thr),
    queues := (queues (ksched ?k2))(kt_runq := (queues (ksched ?k2) kt_runq)\<lparr>tq_list := c # qlist (ksched ?k2) kt_runq,
      tq_size := tq_size (queues (ksched ?k2) kt_runq) + 1\<rparr>)\<rparr>"
  let ?k3 = "?k2\<lparr>procs := (procs ?k2)(np \<mapsto> ?pr2\<lparr>p_threads := p_threads ?pr2 @ [c]\<rparr>), ksched := ?s3\<rparr>"
  let ?stack = "snd (fork_setup_stack cfg F (regs\<lparr>r_eax := 0\<rparr>) (fe_stack F t))"
  have threads: "fork_threads cfg F np [t] regs ?k2 = Some (regs\<lparr>r_eax := 0\<rparr>, ?stack, ?k3)"
    by (rule fork_one_thread [OF thr2 thr(3,4) s1(2) new np2])
  let ?pr = "?pr2\<lparr>p_threads := [c], p_files := p_files cur, p_cwd := p_cwd cur, p_start_brk := p_start_brk cur, p_brk := p_brk cur\<rparr>"
  let ?k4 = "?k3\<lparr>procs := (procs ?k3)(np \<mapsto> ?pr)\<rparr>"
  have procs: "procs k1 np = Some pObj" "procs ?k2 (kcur ?k2) = Some (cur\<lparr>p_children := p_children cur @ [np]\<rparr>)"
    "procs ?k3 (kcur ?k3) = Some (cur\<lparr>p_children := p_children cur @ [np]\<rparr>)" "procs ?k3 np = Some (?pr2\<lparr>p_threads := [c]\<rparr>)"
    using ne pObj(3) s1(4) by (simp_all add: k1 sched_queue_init_def upd_queue_def)
  have run: "do_fork L E cfg F regs vm st k = Some (p_pid ?pr, (vmmap_clone (fe_map F) (fe_area F) vm)\<lparr>vmm_list := cs\<rparr>, vm\<lparr>vmm_list := ps\<rparr>,
    regs\<lparr>r_eax := 0\<rparr>, map ForkVm vev @ [ForkTlbFlushAll] @ ?stack
      @ map ForkFref (concat (map (\<lambda>fd. case fd of None \<Rightarrow> [] | Some f \<Rightarrow> [f]) (p_files cur))) @ [ForkVget (p_cwd cur)], st', ?k4)"
  proof -
    have k2: "upd_proc np (\<lambda>pr. pr\<lparr>p_vmmap := Some (fe_map F)\<rparr>) k1 = Some ?k2" by (simp add: upd_proc_def procs(1))
    have k4: "upd_proc np (\<lambda>pr. pr\<lparr>p_files := p_files cur, p_cwd := p_cwd cur, p_start_brk := p_start_brk cur, p_brk := p_brk cur\<rparr>) ?k3 = Some ?k4"
      unfolding upd_proc_def procs(4) by simp
    have cur2: "p_threads (cur\<lparr>p_children := p_children cur @ [np]\<rparr>) = [t]" "p_files (cur\<lparr>p_children := p_children cur @ [np]\<rparr>) = p_files cur"
      "p_cwd (cur\<lparr>p_children := p_children cur @ [np]\<rparr>) = p_cwd cur" "p_brk (cur\<lparr>p_children := p_children cur @ [np]\<rparr>) = p_brk cur"
      "p_start_brk (cur\<lparr>p_children := p_children cur @ [np]\<rparr>) = p_start_brk cur" by (simp_all add: cur(3))
    have id: "p_pid ?pr = p_pid pObj" by simp
    show ?thesis unfolding do_fork_def id
      by (simp only: cur(1,2) create(1) procs(1) pObj(2,4) create(4) k2 areas procs(2) cur2 threads procs(3) fork_files_all [OF cur(4)]
        Option.bind.bind_lunit kassert_True Let_def prod.case k4 simp_thms)
  qed
  have procs4: "procs ?k4 = (procs k)(np \<mapsto> ?pr, kcur k \<mapsto> cur\<lparr>p_children := p_children cur @ [np]\<rparr>)"
    using ne by (simp add: k1 fun_upd_twist)
  show ?thesis
    by (intro exI [of _ ?pr] exI conjI, rule run, simp add: pid_of_def procs(1), rule procs4)
      (use pObj create(5) in \<open>simp_all add: k1 sched_queue_init_def upd_queue_def\<close>)
qed


theorem do_fork_correct_witness:
  "\<exists>pr vm1 vm2 regs ev st k. do_fork demo_layout demo_mm_env demo_cfg demo_fork \<lparr>r_eax = 7, r_others = [1, 2]\<rparr> demo_fork_map demo_mm demo_forking
      = Some (2, vm1, vm2, regs, ev, st, k) \<and> procs k 4 = Some pr \<and> p_pproc pr = Some 2 \<and> p_files pr = [None, Some 4] \<and> r_eax regs = 0
    \<and> qlist (ksched k) kt_runq = [30, 2, 3] \<and> ForkVget 1 \<in> set ev \<and> Vref 1 \<in> set (kevents k)"
proof -
  let ?k = demo_forking and ?t = "demo_thread KT_RUN None" and ?regs = "\<lparr>r_eax = 7, r_others = [1, 2]\<rparr>"
  obtain cs ps ev st' where areas:
    "fork_areas demo_layout demo_mm_env demo_fork (vmm_list (vmmap_clone (fe_map demo_fork) (fe_area demo_fork) demo_fork_map)) (vmm_list demo_fork_map) demo_mm
      = Some (cs, ps, ev, st')"
    using fork_areas_ok [OF demo_inv(1,3) demo_fork_ok(1,2) demo_shadow_memory demo_fork_ok(3,4), of "vmm_list (vmmap_clone (fe_map demo_fork) (fe_area demo_fork) demo_fork_map)" demo_layout]
    by (auto simp: vmmap_clone_def)
  obtain k1 where create: "proc_create demo_cfg (fe_proc demo_fork) ''newChild'' demo_forking = Some (4, k1)" "pid_of k1 4 = Some 2"
    by (simp add: proc_create_def proc_getid_def getid_loop.simps demo_forking_def demo_cfg_def demo_fork_def demo_alloc_def all_pids_def
        demo_proc_def PID_IDLE_def PID_INIT_def upd_proc_def demo_sched_def Let_def pid_of_def)
  let ?cur = "demo_proc 1 [] 1 PROC_RUNNING [1] 5"
  have k: "procs ?k (kcur ?k) = Some ?cur" "procs ?k 4 = None" "proc_list ?k \<noteq> []" "curthr (ksched ?k) = 1" "threads (ksched ?k) 1 = Some ?t"
    "qlist (ksched ?k) kt_runq = [2, 3]" "kcur ?k = 2" "kevents ?k = []" by (simp_all add: demo_forking_def demo_sched_def kt_runq_def)
  have c: "p_state ?cur = PROC_RUNNING" "p_threads ?cur = [1]" "length (p_files ?cur) = NFILES demo_cfg" "p_files ?cur = [None, Some 4]"
    "p_pid ?cur = 1" "p_cwd ?cur = 1" by (simp_all add: demo_proc_def demo_cfg_def)
  have e: "new_pagedir (fe_proc demo_fork) \<noteq> 0" "new_wait (fe_proc demo_fork) \<noteq> kt_runq" "fe_thread demo_fork 1 = Some 30" "(30 :: tid) \<noteq> 1"
    "fe_stack demo_fork 1 \<noteq> 0" by (simp_all add: demo_fork_def demo_alloc_def kt_runq_def)
  have t: "kt_state ?t = KT_RUN" "kt_wchan ?t = None" by (simp_all add: demo_thread_def)
  show ?thesis
    using do_fork_correct [OF k(1) c(1-3) create(1) k(2,3) e(1,2) k(4,5) t e(3-5) areas, of ?regs] create(2) k(6-8) c(4-6) by auto
qed

end
