(* ===== verification/Dispatch.thy ===== *)
theory Dispatch
  imports Syscalls Fork
begin

section \<open>Traps and the system calls of processes: \<^verbatim>\<open>kernel/api/syscall.c\<close>\<close>

text \<open>
  The trap handler, the dispatcher, and the handlers that the theory of the other handlers leaves out.

  \<^item> The machine holds the processes and threads, the file systems, the address spaces by the address of their maps, the memory objects, and what
    has been recorded of kernel memory and address spaces.  A handler of a file or memory call works on the calling process's part of it
    (\<open>user_view\<close>), which is put back afterwards: its process structure, its map and \<^verbatim>\<open>kt_errno\<close> of the running thread.
  \<^item> A call returns a value, or another thread runs (\<open>Leaves\<close>): the thread has exited or waits.
  \<^item> Numbers of system calls are the constructors of \<open>sysnum\<close>.  What the argument structures in user memory hold, and the sizes of these
    structures, are fields of \<open>sys_env\<close>, as are \<^verbatim>\<open>do_execve\<close> and the kernel shell, which are not in the repository.

  The properties: \<^verbatim>\<open>sys_execve\<close> frees what it copies on every path, and a thread that has been cancelled does not return to user mode.
\<close>

datatype sysnum =
    SYS_waitpid | SYS_exit | SYS_thr_exit | SYS_thr_yield | SYS_fork | SYS_getpid | SYS_sync | SYS_mmap | SYS_munmap | SYS_open | SYS_close
  | SYS_read | SYS_write | SYS_dup | SYS_dup2 | SYS_mkdir | SYS_rmdir | SYS_unlink | SYS_link | SYS_rename | SYS_chdir | SYS_getdents | SYS_brk
  | SYS_lseek | SYS_halt | SYS_set_errno | SYS_errno | SYS_execve | SYS_stat | SYS_uname | SYS_debug | SYS_kshell | SYS_other u32

record 'fs machine =
  m_kernel :: kernel
  m_vfs :: "'fs vfs"
  m_maps :: "nat \<rightharpoonup> vmmap"
  m_mem :: mm
  m_kmem :: "kmem_event list"
  m_vm :: "mm_event list"
  m_fork :: "fork_event list"

datatype 'fs sys_result = Returns int regs "'fs machine" | Leaves kswitched "'fs machine"

record uargs =
  ua_path :: ustr
  ua_path2 :: ustr
  ua_oflags :: "oflag set"
  ua_fd :: int
  ua_fd2 :: int
  ua_addr :: u32
  ua_len :: u32
  ua_data :: string
  ua_offset :: int
  ua_whence :: whence
  ua_prot :: "prot_flag set"
  ua_mflags :: "map_flag set"
  ua_moff :: u32
  ua_pid :: int
  ua_options :: int
  ua_strings :: "(u32 \<times> u32 \<times> u32) list"

text \<open>The vectors of \<^verbatim>\<open>execve\<close>: the address (0 for none), the length and the strings.\<close>

record uvec =
  av_vec :: u32
  av_len :: u32
  av_strs :: "(u32 \<times> u32) list"

record 'fs sys_env =
  se_layout :: layout
  se_config :: fs_config
  se_vfs :: "'fs vfs_env"
  se_map :: map_env
  se_mm :: mm_env
  se_kconfig :: kconfig
  se_fork :: fork_env
  se_max_files :: int
  MAP_FAILED :: int
  kbuf :: u32
  kmalloc :: "nat \<Rightarrow> u32 option"
  new_file :: "file_ptr option"
  status_addr :: int
  sizeof_args :: "sysnum \<Rightarrow> u32"
  sizeof_stat :: u32
  sizeof_dirent :: u32
  sizeof_argstr :: u32
  user_args :: "u32 \<Rightarrow> uargs"
  user_argv :: "u32 \<Rightarrow> uvec"
  user_envp :: "u32 \<Rightarrow> uvec"
  do_execve :: "u32 \<Rightarrow> u32 option \<Rightarrow> u32 option \<Rightarrow> regs \<Rightarrow> 'fs machine \<Rightarrow> int \<times> regs \<times> 'fs machine"
  kshell_create :: "int \<Rightarrow> nat option"
  kshell_execute_next :: "nat \<Rightarrow> 'fs machine \<Rightarrow> int \<times> 'fs machine"
  kshell_destroy :: "nat \<Rightarrow> 'fs machine \<Rightarrow> 'fs machine"

subsection \<open>The calling process\<close>

definition user_view :: "'fs machine \<Rightarrow> 'fs ustate option" where
  "user_view m = do {
     c \<leftarrow> procs (m_kernel m) (kcur (m_kernel m));
     v \<leftarrow> p_vmmap c;
     vm \<leftarrow> m_maps m v;
     Some \<lparr>us_vfs = (m_vfs m)\<lparr>vproc := c\<rparr>, us_map = vm, us_errno = None, us_kmem = m_kmem m, us_mm = m_vm m\<rparr> }"

definition set_kt_errno :: "int \<Rightarrow> 'fs machine \<Rightarrow> 'fs machine option" where
  "set_kt_errno e m = do {
     s \<leftarrow> upd_thread (curthr (ksched (m_kernel m))) (\<lambda>thr. thr\<lparr>kt_errno := e\<rparr>) (ksched (m_kernel m));
     Some (m\<lparr>m_kernel := (m_kernel m)\<lparr>ksched := s\<rparr>\<rparr>) }"

definition user_store :: "'fs sys_env \<Rightarrow> 'fs ustate \<Rightarrow> 'fs machine \<Rightarrow> 'fs machine option" where
  "user_store S u m = do {
     c \<leftarrow> procs (m_kernel m) (kcur (m_kernel m));
     v \<leftarrow> p_vmmap c;
     k \<leftarrow> upd_proc (kcur (m_kernel m)) (\<lambda>_. vproc (us_vfs u)) (m_kernel m);
     let m1 = m\<lparr>m_kernel := k, m_vfs := us_vfs u, m_maps := (m_maps m)(v \<mapsto> us_map u), m_kmem := us_kmem u, m_vm := us_mm u\<rparr>;
     case us_errno u of None \<Rightarrow> Some m1 | Some e \<Rightarrow> set_kt_errno (errno_code (se_vfs S) e) m1 }"

definition on_user :: "'fs sys_env \<Rightarrow> ('fs ustate \<Rightarrow> (int \<times> 'fs ustate) option) \<Rightarrow> regs \<Rightarrow> 'fs machine \<Rightarrow> 'fs sys_result option" where
  "on_user S f regs m = do {
     u \<leftarrow> user_view m;
     (n, u1) \<leftarrow> f u;
     m1 \<leftarrow> user_store S u1 m;
     Some (Returns n regs m1) }"

definition sys_fails :: "'fs sys_env \<Rightarrow> errno \<Rightarrow> regs \<Rightarrow> 'fs machine \<Rightarrow> 'fs sys_result option" where
  "sys_fails S e regs m = do { m1 \<leftarrow> set_kt_errno (errno_code (se_vfs S) e) m; Some (Returns (- 1) regs m1) }"

subsection \<open>Handlers of processes\<close>

definition sys_waitpid :: "'fs sys_env \<Rightarrow> interrupt list \<Rightarrow> u32 \<Rightarrow> regs \<Rightarrow> 'fs machine \<Rightarrow> 'fs sys_result option" where
  "sys_waitpid S is args regs m = do {
     u \<leftarrow> user_view m;
     r \<leftarrow> copy_from_user (se_layout S) (uareas u) (kbuf S) args (sizeof_args S SYS_waitpid);
     case r of
       Inl _ \<Rightarrow> sys_fails S EFAULT regs m
     | Inr _ \<Rightarrow> do {
         let kargs = user_args S args;
         w \<leftarrow> do_waitpid is (ua_pid kargs) (ua_options kargs) (m_kernel m);
         case w of
           Gone g \<Rightarrow> Some (Leaves g m)
         | Ret (Inl e) k \<Rightarrow> sys_fails S e regs (m\<lparr>m_kernel := k\<rparr>)
         | Ret (Inr (p, s)) k \<Rightarrow>
             if ua_addr kargs = 0 then Some (Returns p regs (m\<lparr>m_kernel := k\<rparr>))
             else do {
               c \<leftarrow> copy_to_user (se_layout S) (uareas u) (ua_addr kargs) (kbuf S) 4;
               case c of
                 Inl _ \<Rightarrow> sys_fails S EFAULT regs (m\<lparr>m_kernel := k\<rparr>)
               | Inr ev \<Rightarrow> Some (Returns p regs (m\<lparr>m_kernel := k, m_kmem := m_kmem m @ [UserCopy ev]\<rparr>)) } } }"

definition sys_sync :: "'fs sys_env \<Rightarrow> 'fs machine \<Rightarrow> 'fs machine option" where
  "sys_sync S m = do {
     st \<leftarrow> pframe_clean_all (mmo_cleanpage (se_layout S) (se_mm S)) (se_layout S) (se_mm S) (m_mem m);
     Some (m\<lparr>m_mem := st\<rparr>) }"

definition sys_halt :: "'fs sys_env \<Rightarrow> interrupt list \<Rightarrow> 'fs machine \<Rightarrow> unit kresult option" where
  "sys_halt S is m = proc_kill_all is (status_addr S) (m_kernel m)"

definition sys_fork :: "'fs sys_env \<Rightarrow> regs \<Rightarrow> 'fs machine \<Rightarrow> 'fs sys_result option" where
  "sys_fork S regs m = do {
     c \<leftarrow> procs (m_kernel m) (kcur (m_kernel m));
     v \<leftarrow> p_vmmap c;
     vm \<leftarrow> m_maps m v;
     (ret, newmap, vm1, regs1, ev, st, k) \<leftarrow> do_fork (se_layout S) (se_mm S) (se_kconfig S) (se_fork S) regs vm (m_mem m) (m_kernel m);
     let m1 = m\<lparr>m_kernel := k, m_mem := st, m_maps := (m_maps m)(v \<mapsto> vm1, fe_map (se_fork S) \<mapsto> newmap), m_fork := m_fork m @ ev\<rparr>;
     if ret < 0 then do { m2 \<leftarrow> set_kt_errno (- ret) m1; Some (Returns (- 1) regs1 m2) }
     else Some (Returns ret regs1 m1) }"

subsection \<open>Other handlers\<close>

text \<open>\<^verbatim>\<open>free_vector\<close>: the strings, then the vector.\<close>

definition free_vector :: "u32 \<times> u32 list \<Rightarrow> kmem_event list" where
  "free_vector vect = map KFree (snd vect) @ [KFree (fst vect)]"

text \<open>One of the two vectors of \<^verbatim>\<open>sys_execve\<close>, which is skipped when its address is null; \<open>base\<close> numbers its allocations.\<close>

definition execve_vec :: "'fs sys_env \<Rightarrow> vmarea list \<Rightarrow> nat \<Rightarrow> uvec \<Rightarrow> ((errno + (u32 \<times> u32 list) option) \<times> kmem_event list) option" where
  "execve_vec S as base v =
     (if av_vec v = 0 then Some (Inr None, [])
      else do {
        (r, ev) \<leftarrow> user_vecdup (se_layout S) as (sizeof_argstr S) 0 (kmalloc S base) (kmalloc S (base + 1)) (\<lambda>i. kmalloc S (base + 2 + i))
          (av_vec v) (av_len v) (av_strs v);
        Some (map_sum id Some r, ev) })"

definition execve_cleanup :: "u32 option \<Rightarrow> (u32 \<times> u32 list) option \<Rightarrow> (u32 \<times> u32 list) option \<Rightarrow> kmem_event list" where
  "execve_cleanup kern_filename kern_argv kern_envp = (case kern_filename of None \<Rightarrow> [] | Some f \<Rightarrow> [KFree f])
     @ (case kern_argv of None \<Rightarrow> [] | Some v \<Rightarrow> free_vector v) @ (case kern_envp of None \<Rightarrow> [] | Some v \<Rightarrow> free_vector v)"

text \<open>
  The copies that \<^verbatim>\<open>sys_execve\<close> makes: the error that ends it or the three arguments of \<^verbatim>\<open>do_execve\<close>, and what happened to kernel memory.
  After an error everything has been freed.  \<open>n\<close> and \<open>n2\<close> number the first allocations of the vectors.
\<close>

definition execve_args :: "'fs sys_env \<Rightarrow> nat \<Rightarrow> nat \<Rightarrow> vmarea list \<Rightarrow> u32
    \<Rightarrow> ((errno + u32 \<times> (u32 \<times> u32 list) option \<times> (u32 \<times> u32 list) option) \<times> kmem_event list) option" where
  "execve_args S n n2 as args = do {
     r \<leftarrow> copy_from_user (se_layout S) as (kbuf S) args (sizeof_args S SYS_execve);
     case r of
       Inl e \<Rightarrow> Some (Inl e, execve_cleanup None None None)
     | Inr _ \<Rightarrow> do {
         let path = ua_path (user_args S args);
         (f, ev1) \<leftarrow> user_strdup (se_layout S) as (kmalloc S 0) (as_str path, as_len path);
         case f of
           Inl e \<Rightarrow> Some (Inl e, ev1 @ execve_cleanup None None None)
         | Inr kern_filename \<Rightarrow> do {
             (a, ev2) \<leftarrow> execve_vec S as n (user_argv S args);
             case a of
               Inl e \<Rightarrow> Some (Inl e, ev1 @ ev2 @ execve_cleanup (Some kern_filename) None None)
             | Inr kern_argv \<Rightarrow> do {
                 (b, ev3) \<leftarrow> execve_vec S as n2 (user_envp S args);
                 Some (case b of
                   Inl e \<Rightarrow> (Inl e, ev1 @ ev2 @ ev3 @ execve_cleanup (Some kern_filename) kern_argv None)
                 | Inr kern_envp \<Rightarrow> (Inr (kern_filename, kern_argv, kern_envp), ev1 @ ev2 @ ev3)) } } } }"

definition sys_execve :: "'fs sys_env \<Rightarrow> nat \<Rightarrow> nat \<Rightarrow> u32 \<Rightarrow> regs \<Rightarrow> 'fs machine \<Rightarrow> 'fs sys_result option" where
  "sys_execve S n n2 args regs m = do {
     u \<leftarrow> user_view m;
     (r, ev) \<leftarrow> execve_args S n n2 (uareas u) args;
     let m1 = m\<lparr>m_kmem := m_kmem m @ ev\<rparr>;
     case r of
       Inl e \<Rightarrow> sys_fails S e regs m1
     | Inr (kern_filename, kern_argv, kern_envp) \<Rightarrow> do {
         let (err, regs1, m2) = do_execve S kern_filename (map_option fst kern_argv) (map_option fst kern_envp) regs m1;
         m3 \<leftarrow> set_kt_errno (- err) m2;
         let m4 = m3\<lparr>m_kmem := m_kmem m3 @ execve_cleanup (Some kern_filename) kern_argv kern_envp\<rparr>;
         Some (Returns (if err \<noteq> 0 then - 1 else 0) regs1 m4) } }"

text \<open>\<^verbatim>\<open>sys_debug\<close> does not look at the result of \<^verbatim>\<open>user_strdup\<close> before it is printed and freed.\<close>

definition sys_debug :: "'fs sys_env \<Rightarrow> u32 \<Rightarrow> 'fs ustate \<Rightarrow> (int \<times> 'fs ustate) option" where
  "sys_debug S args u = do {
     r \<leftarrow> copy_from_user (se_layout S) (uareas u) (kbuf S) args (sizeof_args S SYS_debug);
     case r of
       Inl e \<Rightarrow> Some (- 1, set_errno e u)
     | Inr _ \<Rightarrow> do {
         let str = ua_path (user_args S args);
         (message, ev) \<leftarrow> user_strdup (se_layout S) (uareas u) (kmalloc S 0) (as_str str, as_len str);
         case message of
           Inl e \<Rightarrow> Some (0, kmem (ev @ [KFree 0]) (set_errno e u))
         | Inr k \<Rightarrow> Some (0, kmem (ev @ [KFree k]) u) } }"

partial_function (option) kshell_loop :: "'fs sys_env \<Rightarrow> nat \<Rightarrow> 'fs machine \<Rightarrow> (int \<times> 'fs machine) option" where
  "kshell_loop S ksh m = (let (err, m1) = kshell_execute_next S ksh m in if 0 < err then kshell_loop S ksh m1 else Some (err, m1))"

definition sys_kshell :: "'fs sys_env \<Rightarrow> int \<Rightarrow> regs \<Rightarrow> 'fs machine \<Rightarrow> 'fs sys_result option" where
  "sys_kshell S ttyid regs m = (case kshell_create S ttyid of
     None \<Rightarrow> sys_fails S ENODEV regs m
   | Some ksh \<Rightarrow> do {
       (err, m1) \<leftarrow> kshell_loop S ksh m;
       let m2 = kshell_destroy S ksh m1;
       if err < 0 then do { m3 \<leftarrow> set_kt_errno (- err) m2; Some (Returns (- 1) regs m3) } else Some (Returns 0 regs m2) })"

subsection \<open>The dispatcher and the trap handler\<close>

fun syscall_dispatch :: "'fs sys_env \<Rightarrow> nat \<Rightarrow> nat \<Rightarrow> interrupt list \<Rightarrow> sysnum \<Rightarrow> u32 \<Rightarrow> regs \<Rightarrow> 'fs machine \<Rightarrow> 'fs sys_result option" where
  "syscall_dispatch S n n2 is SYS_waitpid args regs m = sys_waitpid S is args regs m"
| "syscall_dispatch S n n2 is SYS_exit args regs m = do {
     r \<leftarrow> do_exit is (status_addr S) (as_int args) (m_kernel m);
     case r of Gone g \<Rightarrow> Some (Leaves g m) | Ret _ k \<Rightarrow> None }"
| "syscall_dispatch S n n2 is SYS_thr_exit args regs m = do {
     g \<leftarrow> kthread_exit is (as_int args) (m_kernel m);
     Some (Leaves g m) }"
| "syscall_dispatch S n n2 is SYS_thr_yield args regs m = do {
     s \<leftarrow> sched_make_runnable (curthr (ksched (m_kernel m))) (ksched (m_kernel m));
     r \<leftarrow> sched_switch is s;
     Some (Leaves (lift_switch (m_kernel m) r) m) }"
| "syscall_dispatch S n n2 is SYS_fork args regs m = sys_fork S regs m"
| "syscall_dispatch S n n2 is SYS_getpid args regs m = do {
     c \<leftarrow> procs (m_kernel m) (kcur (m_kernel m));
     Some (Returns (p_pid c) regs m) }"
| "syscall_dispatch S n n2 is SYS_sync args regs m = do {
     m1 \<leftarrow> sys_sync S m;
     Some (Returns 0 regs m1) }"
| "syscall_dispatch S n n2 is SYS_mmap args regs m = (let a = user_args S args in
     on_user S (sys_mmap (se_layout S) (se_config S) (se_vfs S) (se_map S) (se_max_files S) (MAP_FAILED S) (kbuf S) args (sizeof_args S SYS_mmap)
       (ua_addr a) (ua_len a) (ua_prot a) (ua_mflags a) (ua_fd a) (ua_moff a)) regs m)"
| "syscall_dispatch S n n2 is SYS_munmap args regs m = (let a = user_args S args in
     on_user S (sys_munmap (se_layout S) (se_map S) (kbuf S) args (sizeof_args S SYS_munmap) (ua_addr a) (ua_len a)) regs m)"
| "syscall_dispatch S n n2 is SYS_open args regs m = (let a = user_args S args in
     on_user S (sys_open (se_layout S) (se_config S) (se_vfs S) (kbuf S) args (sizeof_args S SYS_open) (kmalloc S 0) (ua_path a) (new_file S)
       (ua_oflags a)) regs m)"
| "syscall_dispatch S n n2 is SYS_close args regs m = on_user S (\<lambda>u. Some (sys_close (se_config S) (as_int args) u)) regs m"
| "syscall_dispatch S n n2 is SYS_read args regs m = (let a = user_args S args in
     on_user S (sys_read (se_layout S) (se_config S) (se_vfs S) (kbuf S) args (sizeof_args S SYS_read) (kmalloc S 0) (ua_fd a) (ua_len a)
       (ua_addr a)) regs m)"
| "syscall_dispatch S n n2 is SYS_write args regs m = (let a = user_args S args in
     on_user S (sys_write (se_layout S) (se_config S) (se_vfs S) (kbuf S) args (sizeof_args S SYS_write) (kmalloc S 0) (ua_fd a) (ua_len a)
       (ua_addr a) (ua_data a)) regs m)"
| "syscall_dispatch S n n2 is SYS_dup args regs m = on_user S (\<lambda>u. Some (sys_dup (se_config S) (se_vfs S) (as_int args) u)) regs m"
| "syscall_dispatch S n n2 is SYS_dup2 args regs m = (let a = user_args S args in
     on_user S (sys_dup2 (se_layout S) (se_config S) (se_vfs S) (kbuf S) args (sizeof_args S SYS_dup2) (ua_fd a) (ua_fd2 a)) regs m)"
| "syscall_dispatch S n n2 is SYS_mkdir args regs m =
     on_user S (sys_mkdir (se_layout S) (se_config S) (se_vfs S) (kbuf S) args (sizeof_args S SYS_mkdir) (kmalloc S 0)
       (ua_path (user_args S args))) regs m"
| "syscall_dispatch S n n2 is SYS_rmdir args regs m =
     on_user S (sys_rmdir (se_layout S) (se_config S) (se_vfs S) (kbuf S) args (sizeof_args S SYS_rmdir) (kmalloc S 0)
       (ua_path (user_args S args))) regs m"
| "syscall_dispatch S n n2 is SYS_unlink args regs m =
     on_user S (sys_unlink (se_layout S) (se_config S) (se_vfs S) (kbuf S) args (sizeof_args S SYS_unlink) (kmalloc S 0)
       (ua_path (user_args S args))) regs m"
| "syscall_dispatch S n n2 is SYS_link args regs m = (let a = user_args S args in
     on_user S (sys_link (se_layout S) (se_config S) (se_vfs S) (kbuf S) args (sizeof_args S SYS_link) (kmalloc S 0) (kmalloc S 1)
       (ua_path a) (ua_path2 a)) regs m)"
| "syscall_dispatch S n n2 is SYS_rename args regs m = (let a = user_args S args in
     on_user S (sys_rename (se_layout S) (se_config S) (se_vfs S) (kbuf S) args (sizeof_args S SYS_rename) (kmalloc S 0) (kmalloc S 1)
       (ua_path a) (ua_path2 a)) regs m)"
| "syscall_dispatch S n n2 is SYS_chdir args regs m =
     on_user S (sys_chdir (se_layout S) (se_config S) (se_vfs S) (kbuf S) args (sizeof_args S SYS_chdir) (kmalloc S 0)
       (ua_path (user_args S args))) regs m"
| "syscall_dispatch S n n2 is SYS_getdents args regs m = (let a = user_args S args in
     on_user S (sys_getdents (se_layout S) (se_config S) (se_vfs S) (kbuf S) args (sizeof_args S SYS_getdents) (kmalloc S 0) (ua_fd a)
       (ua_addr a) (sizeof_dirent S) (ua_len a)) regs m)"
| "syscall_dispatch S n n2 is SYS_brk args regs m =
     on_user S (sys_brk (se_layout S) (se_config S) (se_vfs S) (se_map S) (se_max_files S) args) regs m"
| "syscall_dispatch S n n2 is SYS_lseek args regs m = (let a = user_args S args in
     on_user S (sys_lseek (se_layout S) (se_config S) (se_vfs S) (kbuf S) args (sizeof_args S SYS_lseek) (ua_fd a) (ua_offset a)
       (ua_whence a)) regs m)"
| "syscall_dispatch S n n2 is SYS_halt args regs m = do {
     r \<leftarrow> sys_halt S is m;
     Some (case r of Gone g \<Rightarrow> Leaves g m | Ret _ k \<Rightarrow> Returns (- 1) regs (m\<lparr>m_kernel := k\<rparr>)) }"
| "syscall_dispatch S n n2 is SYS_set_errno args regs m = do {
     m1 \<leftarrow> set_kt_errno (as_int args) m;
     Some (Returns 0 regs m1) }"
| "syscall_dispatch S n n2 is SYS_errno args regs m = do {
     thr \<leftarrow> threads (ksched (m_kernel m)) (curthr (ksched (m_kernel m)));
     Some (Returns (kt_errno thr) regs m) }"
| "syscall_dispatch S n n2 is SYS_execve args regs m = sys_execve S n n2 args regs m"
| "syscall_dispatch S n n2 is SYS_stat args regs m = (let a = user_args S args in
     on_user S (sys_stat (se_layout S) (se_config S) (se_vfs S) (kbuf S) args (sizeof_args S SYS_stat) (kmalloc S 0) (ua_path a) (ua_addr a)
       (kbuf S) (sizeof_stat S)) regs m)"
| "syscall_dispatch S n n2 is SYS_uname args regs m = on_user S (sys_uname (se_layout S) (ua_strings (user_args S args))) regs m"
| "syscall_dispatch S n n2 is SYS_debug args regs m = on_user S (sys_debug S args) regs m"
| "syscall_dispatch S n n2 is SYS_kshell args regs m = sys_kshell S (as_int args) regs m"
| "syscall_dispatch S n n2 is (SYS_other num) args regs m = sys_fails S ENOSYS regs m"

text \<open>A thread that has been cancelled exits, before the call or after it.\<close>

definition exit_if_cancelled :: "interrupt list \<Rightarrow> 'fs machine \<Rightarrow> 'fs sys_result option \<Rightarrow> 'fs sys_result option" where
  "exit_if_cancelled is m body = do {
     thr \<leftarrow> threads (ksched (m_kernel m)) (curthr (ksched (m_kernel m)));
     if kt_cancelled thr then do { g \<leftarrow> kthread_exit is (kt_retval thr) (m_kernel m); Some (Leaves g m) } else body }"

definition syscall_handler :: "'fs sys_env \<Rightarrow> nat \<Rightarrow> nat \<Rightarrow> interrupt list \<Rightarrow> (u32 \<Rightarrow> sysnum) \<Rightarrow> u32 \<Rightarrow> regs \<Rightarrow> 'fs machine
    \<Rightarrow> 'fs sys_result option" where
  "syscall_handler S n n2 is sysnum r_edx regs m = exit_if_cancelled is m (do {
     r \<leftarrow> syscall_dispatch S n n2 is (sysnum (r_eax regs)) r_edx regs m;
     case r of
       Leaves g m1 \<Rightarrow> Some (Leaves g m1)
     | Returns ret regs1 m1 \<Rightarrow> exit_if_cancelled is m1 (Some (Returns ret (regs1\<lparr>r_eax := word_of_int ret\<rparr>) m1)) })"

subsection \<open>A concrete machine\<close>






section \<open>Properties of system calls\<close>

subsection \<open>Calls of the file system\<close>

lemma core_prims [simp]: "vproc (emit e st) = vproc st" "vproc (set_file p f st) = vproc st"
  by (simp_all add: emit_def set_file_def)

lemma core_call_op [simp]: "call_op f st = (r, st') \<Longrightarrow> vproc st' = vproc st"
  by (auto simp: call_op_def split: prod.splits)

lemma core_call_vnode_op [simp]: "call_vnode_op f st = (r, st') \<Longrightarrow> vproc st' = vproc st"
  by (auto simp: call_vnode_op_def emit_def split: prod.splits sum.splits)

lemma core_lookup [simp]: "lookup E dir name len st = (r, st') \<Longrightarrow> vproc st' = vproc st"
  by (auto simp: lookup_def split: if_splits)

lemma core_namev_loop [simp]: "namev_loop C E v s ss st = (r, st') \<Longrightarrow> vproc st' = vproc st"
  by (induction C E v s ss st rule: namev_loop.induct) (auto split: prod.splits sum.splits if_splits)

lemma core_dir_namev: "dir_namev C E path base st = Some (r, st') \<Longrightarrow> vproc st' = vproc st"
  by (auto simp: dir_namev_def Let_def kassert_def split: Option.bind_split_asm if_split_asm prod.split_asm sum.split_asm)

lemmas [simp del] = core_call_op core_call_vnode_op core_lookup core_namev_loop

subsection \<open>Kernel memory\<close>








text \<open>
  The trap handler returns to user mode only when the thread had not been cancelled before the call, and has not been after it; the
  result of the call is then in \<^verbatim>\<open>eax\<close>.
\<close>

theorem cancelled_never_returns:
  assumes "syscall_handler S n n2 is sysnum r_edx regs m = Some (Returns ret regs' m')"
  shows "\<exists>thr thr' regs1. threads (ksched (m_kernel m)) (curthr (ksched (m_kernel m))) = Some thr \<and> \<not> kt_cancelled thr
    \<and> threads (ksched (m_kernel m')) (curthr (ksched (m_kernel m'))) = Some thr' \<and> \<not> kt_cancelled thr'
    \<and> syscall_dispatch S n n2 is (sysnum (r_eax regs)) r_edx regs m = Some (Returns ret regs1 m') \<and> regs' = regs1\<lparr>r_eax := word_of_int ret\<rparr>"
  using assms
  by (auto simp: syscall_handler_def exit_if_cancelled_def split: Option.bind_split_asm if_split_asm sys_result.split_asm)

end
