(* ===== verification/Shutdown.thy ===== *)
theory Shutdown
  imports Fork
begin

section \<open>Starting and stopping the page-out daemon: \<^verbatim>\<open>kernel/mm/pframe.c\<close>\<close>

text \<open>
  The process of the page-out daemon and the end of the page cache.  The daemon's work is in the theory of page frames.

  \<^item> \<^verbatim>\<open>pageoutd\<close> and \<^verbatim>\<open>pageoutd_thr\<close> are results and arguments.
  \<^item> \<^verbatim>\<open>pframe_shutdown\<close> waits for the daemon (\<open>Gone\<close>) and goes on with \<open>shutdown_memory\<close>, which cleans all pages and frees them.

  The lemmas show that nothing is left in the page cache then, and that what was dirty has been written back.
\<close>

definition pageoutd_init :: "kconfig \<Rightarrow> (u32 \<Rightarrow> nat \<Rightarrow> kcontext) \<Rightarrow> proc_alloc \<Rightarrow> tid option \<Rightarrow> u32 \<Rightarrow> qid \<Rightarrow> kernel
    \<Rightarrow> (proc_ptr \<times> tid \<times> kernel) option" where
  "pageoutd_init cfg context_setup al new stack pageoutd_waitq k = do {
     let k1 = k\<lparr>ksched := sched_queue_init pageoutd_waitq (ksched k)\<rparr>;
     c \<leftarrow> procs k1 (kcur k1);
     kassert (PID_IDLE = p_pid c);
     (pageoutd, k2) \<leftarrow> proc_create cfg al ''pageoutd'' k1;
     (pageoutd_thr, k3) \<leftarrow> kthread_create cfg context_setup new stack pageoutd k2;
     s \<leftarrow> sched_make_runnable pageoutd_thr (ksched k3);
     Some (pageoutd, pageoutd_thr, k3\<lparr>ksched := s\<rparr>) }"

definition pageoutd_exit :: "interrupt list \<Rightarrow> tid option \<Rightarrow> kernel \<Rightarrow> unit kresult option" where
  "pageoutd_exit is pageoutd_thr k = do {
     t \<leftarrow> pageoutd_thr;
     kthread_cancel is t 0 k }"

fun free_pages :: "(objid \<Rightarrow> mm \<Rightarrow> mm option) \<Rightarrow> layout \<Rightarrow> mm_env \<Rightarrow> pfid list \<Rightarrow> mm \<Rightarrow> mm option" where
  "free_pages put L E [] st = Some st"
| "free_pages put L E (pf # pfs) st = do {
     f \<leftarrow> frames st pf;
     kassert (\<not> pf_dirty f);
     kassert (\<not> pf_busy f);
     kassert (\<not> is_pinned f);
     st1 \<leftarrow> pframe_free put L E pf st;
     free_pages put L E pfs st1 }"

definition shutdown_memory :: "(objid \<Rightarrow> mm \<Rightarrow> mm option) \<Rightarrow> (objid \<Rightarrow> pfid \<Rightarrow> mm \<Rightarrow> (int \<times> mm) option) \<Rightarrow> layout \<Rightarrow> mm_env \<Rightarrow> mm
    \<Rightarrow> mm option" where
  "shutdown_memory put cleanpage L E st = do {
     kassert (npinned st = 0);
     st1 \<leftarrow> pframe_clean_all cleanpage L E st;
     free_pages put L E (alloc_list st1) st1 }"

definition pframe_shutdown :: "(objid \<Rightarrow> mm \<Rightarrow> mm option) \<Rightarrow> (objid \<Rightarrow> pfid \<Rightarrow> mm \<Rightarrow> (int \<times> mm) option) \<Rightarrow> layout \<Rightarrow> mm_env
    \<Rightarrow> interrupt list \<Rightarrow> proc_ptr \<Rightarrow> tid option \<Rightarrow> mm \<Rightarrow> kernel \<Rightarrow> mm kresult option" where
  "pframe_shutdown put cleanpage L E is pageoutd pageoutd_thr st k = do {
     c \<leftarrow> procs k (kcur k);
     kassert (PID_IDLE = p_pid c);
     r \<leftarrow> pageoutd_exit is pageoutd_thr k;
     case r of
       Gone g \<Rightarrow> Some (Gone g)
     | Ret _ k1 \<Rightarrow> do {
         pid \<leftarrow> pid_of k1 pageoutd;
         w \<leftarrow> do_waitpid is (- 1) 0 k1;
         case w of
           Gone g \<Rightarrow> Some (Gone g)
         | Ret (Inl e) k2 \<Rightarrow> None
         | Ret (Inr (child, _)) k2 \<Rightarrow> do {
             kassert (pid = child);
             st1 \<leftarrow> shutdown_memory put cleanpage L E st;
             Some (Ret st1 k2) } } }"

section \<open>Properties\<close>

lemma free_pages_ok:
  assumes "mm_inv E st" and "quiet st" and "reclaimable E st" and "alloc_list st = pfs" and "\<And>pf f. pf \<in> set pfs \<Longrightarrow> frames st pf = Some f \<Longrightarrow> \<not> pf_dirty f"
  shows "\<exists>st'. free_pages (mmo_put L E (Suc n)) L E pfs st = Some st' \<and> mm_inv E st' \<and> alloc_list st' = [] \<and> pinned_list st' = pinned_list st
    \<and> page_mem st' = page_mem st \<and> set (mm_log st) \<subseteq> set (mm_log st')"
  using assms
proof (induction pfs arbitrary: st)
  case (Cons pf pfs)
  have mem: "pf \<in> set (alloc_list st)" using Cons.prems(4) by simp
  then have "pf \<in> dom (frames st)" using Cons.prems(1) by (auto simp: mm_inv_def lists_ok_def)
  then obtain f where f: "frames st pf = Some f" by auto
  have np: "\<not> is_pinned f" using Cons.prems(1) f mem by (auto simp: mm_inv_def lists_ok_def)
  have nb: "\<not> pf_busy f" using Cons.prems(2) f by (simp add: quiet_def)
  obtain ob where ob: "pf_obj f = Some ob" "ob \<in> dom (mmobjs st)" using Cons.prems(1) f unfolding mm_inv_def objs_ok_def by blast
  then obtain mo where mo: "mmobjs st ob = Some mo" by auto
  then have may: "mmo_nrespages mo < mmo_refcount mo \<or> linked_vnode E st ob mo" using Cons.prems(3) mem f ob(1) unfolding reclaimable_def by blast
  obtain st1 where s: "pframe_free (mmo_put L E (Suc n)) L E pf st = Some st1" "mm_inv E st1" "frames st1 = (frames st)(pf := None)"
    "alloc_list st1 = remove1 pf (alloc_list st)" "pinned_list st1 = pinned_list st" "kept_objects st st1" "page_mem st1 = page_mem st"
    "set (mm_log st) \<subseteq> set (mm_log st1)"
    by (rule objects.pframe_free_reclaims [OF Cons.prems(1) f np nb ob(1) mo may])
  have q: "quiet st1" using Cons.prems(2) s(3) by (auto simp: quiet_def split: if_splits)
  have al: "alloc_list st1 = pfs" using s(4) Cons.prems(4) by simp
  have r: "reclaimable E st1"
    by (rule reclaimable_mono [OF Cons.prems(3) s(6)]) (use s(3) al Cons.prems(4) in \<open>auto split: if_splits\<close>)
  have cl: "\<not> pf_dirty g" if "x \<in> set pfs" "frames st1 x = Some g" for x g
    using Cons.prems(5) [of x g] that s(3) by (auto split: if_splits)
  obtain st' where st': "free_pages (mmo_put L E (Suc n)) L E pfs st1 = Some st'" "mm_inv E st'" "alloc_list st' = []"
    "pinned_list st' = pinned_list st1" "page_mem st' = page_mem st1" "set (mm_log st1) \<subseteq> set (mm_log st')"
    using Cons.IH [OF s(2) q r al] cl by blast
  have "\<not> pf_dirty f" using Cons.prems(5) [of pf f] f by simp
  then have "free_pages (mmo_put L E (Suc n)) L E (pf # pfs) st = Some st'" using st'(1) s(1) f np nb by simp
  then show ?case using st' s by auto
qed auto

text \<open>
  C39: Stopping the page cache.  \<^verbatim>\<open>kmain.c\<close> calls \<^verbatim>\<open>pframe_shutdown\<close> when all processes have exited, the last working directory has been given back and
  the file systems have been stopped: files are not open any more, and each private area of a process has left a shadow object that nothing refers
  to and that has no page.  In such a state, in which the pages belong to linked files or to objects in use elsewhere (\<open>reclaimable\<close>), no page is busy
  and what is dirty can be written back, and when the daemon has been waited for, the rest of \<^verbatim>\<open>pframe_shutdown\<close> comes to its end if no page is
  pinned: all its assertions hold, the page cache is empty, and the contents of each dirty page of a file have been written back.  A page that is still
  pinned stops it at its first assertion; the pages of an anonymous object stay pinned below a shadow object that has not been freed.
\<close>

theorem shutdown_empties_cache:
  assumes inv: "mm_inv E st" and quiet: "quiet st" and ref: "reclaimable E st" and can: "cleanable (mmo_cleanpage L E) st"
  shows "case shutdown_memory (mmo_put L E (Suc n)) (mmo_cleanpage L E) L E st of None \<Rightarrow> \<exists>pf f. frames st pf = Some f \<and> is_pinned f
    | Some st' \<Rightarrow> mm_inv E st' \<and> frames st' = Map.empty \<and> (\<forall>pf f. frames st pf = Some f \<longrightarrow> \<not> is_pinned f)
        \<and> (\<forall>pf f. frames st pf = Some f \<and> pf_dirty f \<longrightarrow> saved st (mm_log st') f)"
proof (cases "npinned st = 0")
  case False
  then obtain pf where "pf \<in> set (pinned_list st)" using inv by (cases "pinned_list st") (auto simp: mm_inv_def lists_ok_def)
  then have "\<exists>pf f. frames st pf = Some f \<and> is_pinned f" using inv unfolding mm_inv_def lists_ok_def by blast
  with False show ?thesis by (simp add: shutdown_memory_def)
next
  case np: True
  have pin: "pinned_list st = []" using inv np by (simp add: mm_inv_def lists_ok_def)
  then have dom: "set (alloc_list st) = dom (frames st)" using inv by (simp add: mm_inv_def lists_ok_def)
  have free: "\<not> is_pinned f" if "frames st pf = Some f" for pf f using frame_on_list(1) [OF inv that] pin by auto
  obtain st1 where c: "pframe_clean_all (mmo_cleanpage L E) L E st = Some st1" "mm_inv E st1" "quiet st1" "alloc_list st1 = alloc_list st"
    "pinned_list st1 = pinned_list st" "mmobjs st1 = mmobjs st" "page_mem st1 = page_mem st"
    "\<forall>pf\<in>set (alloc_list st). \<forall>f. frames st1 pf = Some f \<longrightarrow> \<not> pf_dirty f" "set (mm_log st) \<subseteq> set (mm_log st1)"
    "\<forall>pf\<in>set (alloc_list st). \<forall>f. frames st pf = Some f \<and> pf_dirty f \<longrightarrow> saved st (mm_log st1) f"
    "\<forall>pf. same_frame (frames st pf) (frames st1 pf)" "vnodes st1 = vnodes st"
    using objects.clean_all_ok [OF inv quiet can] by blast
  have fr: "\<exists>g. frames st x = Some g \<and> pf_obj g = pf_obj f" if "frames st1 x = Some f" for x f
    using c(11) [rule_format, of x] that by (auto simp: same_frame_def split: option.splits)
  have r1: "reclaimable E st1" by (rule reclaimable_mono [OF ref kept_objects_refl [OF c(6,12)]]) (use c(4) fr in auto)
  obtain st' where st': "free_pages (mmo_put L E (Suc n)) L E (alloc_list st1) st1 = Some st'" "mm_inv E st'" "alloc_list st' = []"
    "pinned_list st' = pinned_list st1" "set (mm_log st1) \<subseteq> set (mm_log st')"
    using free_pages_ok [OF c(2,3) r1 refl, of L n] c(4,8) by metis
  have "dom (frames st') = {}" using frame_lists [OF st'(2)] st'(3,4) c(5) pin by simp
  then have "frames st' = Map.empty" by simp
  moreover have "saved st (mm_log st') f" if "frames st pf = Some f" "pf_dirty f" for pf f
  proof -
    have "pf \<in> set (alloc_list st)" using that dom by auto
    then have "saved st (mm_log st1) f" using c(10) that by blast
    then show ?thesis using st'(5) by (auto simp: saved_def)
  qed
  ultimately show ?thesis using c(1) st'(1,2) np free by (auto simp: shutdown_memory_def simp del: mmo_put.simps)
qed

theorem shutdown_empties_cache_witness:
  "\<exists>st'. shutdown_memory (mmo_put demo_layout demo_mm_env 1) (mmo_cleanpage demo_layout demo_mm_env) demo_layout demo_mm_env
      (demo_passive ((new_frame 1 1 4096)\<lparr>pf_dirty := True\<rparr>)) = Some st' \<and> frames st' = Map.empty \<and> WrittenBack 1 1 [] \<in> set (mm_log st')"
proof -
  let ?f = "(new_frame 1 1 4096)\<lparr>pf_dirty := True\<rparr>"
  let ?st = "demo_passive ?f"
  have fr: "frames ?st = [0 \<mapsto> ?f]" "\<not> is_pinned ?f" by (simp_all add: demo_passive_def demo_paged_def is_pinned_def new_frame_def)
  note d = demo_passive_ok [OF refl]
  note res = shutdown_empties_cache [OF d(1,2,4,3), of 0, folded One_nat_def]
  obtain st' where st': "shutdown_memory (mmo_put demo_layout demo_mm_env 1) (mmo_cleanpage demo_layout demo_mm_env) demo_layout demo_mm_env ?st = Some st'"
    using res fr by (auto split: option.splits if_splits)
  then have s: "frames st' = Map.empty" "saved ?st (mm_log st') ?f" using res fr by auto
  then have "WrittenBack 1 1 [] \<in> set (mm_log st')" by (simp add: saved_def demo_passive_def demo_paged_def demo_mm_def new_frame_def)
  then show ?thesis using st' s(1) by blast
qed

end
