(* ===== verification/Boot.thy ===== *)
theory Boot
  imports Dispatch Shutdown
begin

section \<open>Starting and halting the kernel: \<^verbatim>\<open>kernel/main/kmain.c\<close>\<close>

text \<open>
  From the first process to the last: \<^verbatim>\<open>bootstrap\<close> makes the idle process, which makes the init process, waits for it and halts the machine; the
  init process starts the user program and waits for all its children.

  \<^item> The pseudo-context in which \<^verbatim>\<open>bootstrap\<close> runs, the initialisation of the hardware in \<^verbatim>\<open>kmain\<close>, and \<^verbatim>\<open>context_make_active\<close> are not in the
    repository: \<open>bootstrap\<close> ends with the state in which the idle process's thread runs.
  \<^item> \<^verbatim>\<open>init_call_all\<close>, \<^verbatim>\<open>vfs_shutdown\<close>, the identifiers of devices and what the allocators return are fields of \<open>boot_env\<close>.
  \<^item> The idle process and the init process leave (\<open>Idle_leaves\<close>, \<open>Gone\<close>) when they go to sleep.  The loop of the init process starts again
    with its first child when it is woken up.

  The properties: after \<^verbatim>\<open>bootstrap\<close> and \<^verbatim>\<open>initproc_create\<close> there are just the idle process and its child, the init process, in a well-formed
  tree; the init process is runnable before the idle process waits; and init reaps all children that have exited, until it has none
  left or the next one is alive.
\<close>

subsection \<open>The first processes\<close>

definition bootstrap :: "kconfig \<Rightarrow> (u32 \<Rightarrow> nat \<Rightarrow> kcontext) \<Rightarrow> proc_alloc \<Rightarrow> tid option \<Rightarrow> u32 \<Rightarrow> kernel \<Rightarrow> kernel option" where
  "bootstrap cfg context_setup al new stack k = do {
     (idleProc, k1) \<leftarrow> proc_create cfg al ''idle'' k;
     (idleProcThread, k2) \<leftarrow> kthread_create cfg context_setup new stack idleProc k1;
     s \<leftarrow> upd_thread idleProcThread (\<lambda>thr. thr\<lparr>kt_state := KT_RUN\<rparr>) (ksched k2);
     let k3 = k2\<lparr>ksched := s\<lparr>curproc := idleProc, curthr := idleProcThread\<rparr>\<rparr>;
     c \<leftarrow> procs k3 (kcur k3);
     kassert (PID_IDLE = p_pid c);
     Some k3 }"

definition initproc_create :: "kconfig \<Rightarrow> (u32 \<Rightarrow> nat \<Rightarrow> kcontext) \<Rightarrow> proc_alloc \<Rightarrow> tid option \<Rightarrow> u32 \<Rightarrow> kernel \<Rightarrow> (tid \<times> kernel) option" where
  "initproc_create cfg context_setup al new stack k = do {
     (initProc, k1) \<leftarrow> proc_create cfg al ''init'' k;
     pr \<leftarrow> procs k1 initProc;
     kassert (p_pid pr = PID_INIT);
     kthread_create cfg context_setup new stack initProc k1 }"

record 'fs boot_env =
  be_context_setup :: "u32 \<Rightarrow> nat \<Rightarrow> kcontext"
  be_init_alloc :: proc_alloc
  be_init_thread :: "tid option"
  be_init_stack :: u32
  init_call_all :: "'fs machine \<Rightarrow> 'fs machine option"
  vfs_shutdown :: "'fs machine \<Rightarrow> int \<times> 'fs machine"
  MEM_NULL_DEVID :: nat
  MEM_ZERO_DEVID :: nat
  TTY0_DEVID :: nat

subsection \<open>The idle process\<close>

text \<open>A call of the file system by the running process, whose result is only printed.\<close>

definition on_vfs :: "('fs vfs \<Rightarrow> ('a \<times> 'fs vfs) option) \<Rightarrow> 'fs machine \<Rightarrow> 'fs machine option" where
  "on_vfs f m = do {
     c \<leftarrow> procs (m_kernel m) (kcur (m_kernel m));
     (_, v) \<leftarrow> f ((m_vfs m)\<lparr>vproc := c\<rparr>);
     k \<leftarrow> upd_proc (kcur (m_kernel m)) (\<lambda>_. vproc v) (m_kernel m);
     Some (m\<lparr>m_kernel := k, m_vfs := v\<rparr>) }"

definition make_devices :: "'fs sys_env \<Rightarrow> 'fs boot_env \<Rightarrow> 'fs machine \<Rightarrow> 'fs machine option" where
  "make_devices S B m = do {
     m1 \<leftarrow> on_vfs (do_mkdir (se_config S) (se_vfs S) ''/dev'') m;
     m2 \<leftarrow> on_vfs (do_mknod (se_config S) (se_vfs S) ''/dev/null'' S_IFCHR (MEM_NULL_DEVID B)) m1;
     m3 \<leftarrow> on_vfs (do_mknod (se_config S) (se_vfs S) ''/dev/zero'' S_IFCHR (MEM_ZERO_DEVID B)) m2;
     on_vfs (do_mknod (se_config S) (se_vfs S) ''/dev/tty0'' S_IFCHR (TTY0_DEVID B)) m3 }"

definition set_cwd :: "proc_ptr \<Rightarrow> nat \<Rightarrow> kernel \<Rightarrow> kernel option" where
  "set_cwd p v k = do {
     k1 \<leftarrow> upd_proc p (\<lambda>pr. pr\<lparr>p_cwd := v\<rparr>) k;
     Some (log_event (Vref v) k1) }"

text \<open>\<^verbatim>\<open>idleproc_run\<close> up to the wait.\<close>

definition idleproc_start :: "'fs sys_env \<Rightarrow> 'fs boot_env \<Rightarrow> 'fs machine \<Rightarrow> (tid \<times> 'fs machine) option" where
  "idleproc_start S B m = do {
     (initthr, k1) \<leftarrow> initproc_create (se_kconfig S) (be_context_setup B) (be_init_alloc B) (be_init_thread B) (be_init_stack B) (m_kernel m);
     m1 \<leftarrow> init_call_all B (m\<lparr>m_kernel := k1\<rparr>);
     let root = vfs_root_vn (se_kconfig S);
     k2 \<leftarrow> set_cwd (kcur (m_kernel m1)) root (m_kernel m1);
     thr \<leftarrow> threads (ksched k2) initthr;
     k3 \<leftarrow> set_cwd (kt_proc thr) root k2;
     m2 \<leftarrow> make_devices S B (m1\<lparr>m_kernel := k3\<rparr>);
     s \<leftarrow> sched_make_runnable initthr (ksched (m_kernel m2));
     Some (initthr, m2\<lparr>m_kernel := (m_kernel m2)\<lparr>ksched := s\<rparr>\<rparr>) }"

datatype 'fs idle_result = Idle_leaves kswitched "'fs machine" | Idle_halted "'fs machine"

text \<open>\<^verbatim>\<open>idleproc_run\<close> after the wait; \<open>n\<close> bounds the recursion of \<open>mmo_put\<close>.\<close>

definition idleproc_halt :: "'fs sys_env \<Rightarrow> 'fs boot_env \<Rightarrow> nat \<Rightarrow> interrupt list \<Rightarrow> proc_ptr \<Rightarrow> tid option \<Rightarrow> int \<Rightarrow> 'fs machine
    \<Rightarrow> 'fs idle_result option" where
  "idleproc_halt S B n is pageoutd pageoutd_thr child m = do {
     kassert (PID_INIT = child);
     c \<leftarrow> procs (m_kernel m) (kcur (m_kernel m));
     let (r, m1) = vfs_shutdown B (m\<lparr>m_kernel := log_event (Vput (p_cwd c)) (m_kernel m)\<rparr>);
     kassert (r = 0);
     p \<leftarrow> pframe_shutdown (mmo_put (se_layout S) (se_mm S) n) (mmo_cleanpage (se_layout S) (se_mm S)) (se_layout S) (se_mm S) is
       pageoutd pageoutd_thr (m_mem m1) (m_kernel m1);
     Some (case p of Gone g \<Rightarrow> Idle_leaves g m1 | Ret st k \<Rightarrow> Idle_halted (m1\<lparr>m_mem := st, m_kernel := k\<rparr>)) }"

definition idleproc_run :: "'fs sys_env \<Rightarrow> 'fs boot_env \<Rightarrow> nat \<Rightarrow> interrupt list \<Rightarrow> proc_ptr \<Rightarrow> tid option \<Rightarrow> 'fs machine \<Rightarrow> 'fs idle_result option" where
  "idleproc_run S B n is pageoutd pageoutd_thr m = do {
     (_, m1) \<leftarrow> idleproc_start S B m;
     w \<leftarrow> do_waitpid is (- 1) 0 (m_kernel m1);
     case w of
       Gone g \<Rightarrow> Some (Idle_leaves g m1)
     | Ret (Inl e) k \<Rightarrow> None
     | Ret (Inr (child, _)) k \<Rightarrow> idleproc_halt S B n is pageoutd pageoutd_thr child (m1\<lparr>m_kernel := k\<rparr>) }"

subsection \<open>The init process\<close>

partial_function (option) init_loop :: "interrupt list \<Rightarrow> kernel \<Rightarrow> unit kresult option" where
  "init_loop is k = do {
     c \<leftarrow> procs k (kcur k);
     case p_children c of
       [] \<Rightarrow> Some (Ret () k)
     | p # _ \<Rightarrow> do {
         pr \<leftarrow> procs k p;
         r \<leftarrow> do_waitpid is (p_pid pr) 0 k;
         case r of Gone g \<Rightarrow> Some (Gone g) | Ret _ k1 \<Rightarrow> init_loop is k1 } }"

definition initproc_run :: "kconfig \<Rightarrow> (u32 \<Rightarrow> nat \<Rightarrow> kcontext) \<Rightarrow> proc_alloc \<Rightarrow> tid option \<Rightarrow> u32 \<Rightarrow> interrupt list \<Rightarrow> kernel \<Rightarrow> unit kresult option" where
  "initproc_run cfg context_setup al new stack is k = do {
     (vm, k1) \<leftarrow> proc_create cfg al ''VM_Test'' k;
     (kt, k2) \<leftarrow> kthread_create cfg context_setup new stack vm k1;
     s \<leftarrow> sched_make_runnable kt (ksched k2);
     init_loop is (k2\<lparr>ksched := s\<rparr>) }"

text \<open>Each thread of a process exists and names the process.\<close>

definition owned :: "kernel \<Rightarrow> bool" where
  "owned k \<longleftrightarrow> (\<forall>p pr t. procs k p = Some pr \<and> t \<in> set (p_threads pr) \<longrightarrow> (\<exists>thr. threads (ksched k) t = Some thr \<and> kt_proc thr = p))"

text \<open>The init process 2 with its exited child 3; every thread names its process.\<close>

definition demo_orphan :: kernel where
  "demo_orphan = (demo_family 2 PROC_DEAD)\<lparr>ksched := demo_sched\<lparr>curproc := 2, threads := [2 \<mapsto> (demo_thread KT_RUN None)\<lparr>kt_proc := 1\<rparr>,
     4 \<mapsto> (demo_thread KT_RUN None)\<lparr>kt_proc := 2\<rparr>, 6 \<mapsto> (demo_thread KT_RUN None)\<lparr>kt_proc := 2\<rparr>, 9 \<mapsto> (demo_thread KT_EXITED None)\<lparr>kt_proc := 3\<rparr>]\<rparr>\<rparr>"

section \<open>Properties\<close>

subsection \<open>Making the first processes\<close>

lemma create_first:
  assumes "procs k = Map.empty" "proc_list k = []" "initproc k = None" "next_pid k = 0" and "1 < PROC_MAX_COUNT cfg" and "new_ptr al = Some p" "new_vmmap al \<noteq> None"
  obtains k' r where "proc_create cfg al name k = Some (p, k')" "procs k' = [p \<mapsto> r]" "p_pid r = PID_IDLE" "p_children r = []" "p_threads r = []"
    "p_pproc r = Some p" "p_state r = PROC_RUNNING" "proc_list k' = [p]" "initproc k' = None" "next_pid k' = 1" "threads (ksched k') = threads (ksched k)"
proof -
  have "proc_getid (PROC_MAX_COUNT cfg) (all_pids k) (next_pid k) = Some (0, 1)"
    using assms(2,4,5) by (simp add: proc_getid_def all_pids_def getid_loop.simps)
  then have "\<exists>k' r. proc_create cfg al name k = Some (p, k') \<and> procs k' = [p \<mapsto> r] \<and> p_pid r = PID_IDLE \<and> p_children r = [] \<and> p_threads r = []
    \<and> p_pproc r = Some p \<and> p_state r = PROC_RUNNING \<and> proc_list k' = [p] \<and> initproc k' = None \<and> next_pid k' = 1 \<and> threads (ksched k') = threads (ksched k)"
    using assms by (auto simp: proc_create_def PID_IDLE_def PID_INIT_def Let_def sched_queue_init_def upd_queue_def) (rule exI, rule conjI, rule refl, simp)
  then show ?thesis using that by blast
qed

lemma bootstrap_ok:
  assumes k0: "procs k0 = Map.empty" "proc_list k0 = []" "initproc k0 = None" "next_pid k0 = 0" and cfg: "1 < PROC_MAX_COUNT cfg"
    and idle: "new_ptr al0 = Some p0" "new_vmmap al0 \<noteq> None"
  obtains k1 r thr where "bootstrap cfg cs al0 (Some t0) stack0 k0 = Some k1" "kcur k1 = p0" "curthr (ksched k1) = t0" "procs k1 = [p0 \<mapsto> r]"
    "p_pid r = PID_IDLE" "p_children r = []" "p_threads r = [t0]" "p_state r = PROC_RUNNING" "threads (ksched k1) t0 = Some thr" "kt_state thr = KT_RUN"
    "kt_proc thr = p0" "proc_list k1 = [p0]" "initproc k1 = None" "next_pid k1 = 1" "tree_inv (tree_of k1)"
proof -
  obtain ka r where a: "proc_create cfg al0 ''idle'' k0 = Some (p0, ka)" "procs ka = [p0 \<mapsto> r]" "p_pid r = PID_IDLE" "p_children r = []" "p_threads r = []"
    "p_pproc r = Some p0" "p_state r = PROC_RUNNING" "proc_list ka = [p0]" "initproc ka = None" "next_pid ka = 1" "threads (ksched ka) = threads (ksched k0)"
    by (rule create_first [OF k0 cfg idle])
  have "\<exists>k1. bootstrap cfg cs al0 (Some t0) stack0 k0 = Some k1 \<and> kcur k1 = p0 \<and> curthr (ksched k1) = t0 \<and> procs k1 = [p0 \<mapsto> r\<lparr>p_threads := [t0]\<rparr>]
      \<and> map_option kt_state (threads (ksched k1) t0) = Some KT_RUN \<and> map_option kt_proc (threads (ksched k1) t0) = Some p0
      \<and> proc_list k1 = [p0] \<and> initproc k1 = None \<and> next_pid k1 = 1"
    using a by (simp add: bootstrap_def kthread_create_def upd_proc_def upd_thread_def Let_def)
  then obtain k1 where k1: "bootstrap cfg cs al0 (Some t0) stack0 k0 = Some k1" "kcur k1 = p0" "curthr (ksched k1) = t0" "procs k1 = [p0 \<mapsto> r\<lparr>p_threads := [t0]\<rparr>]"
      "map_option kt_state (threads (ksched k1) t0) = Some KT_RUN" "map_option kt_proc (threads (ksched k1) t0) = Some p0"
      "proc_list k1 = [p0]" "initproc k1 = None" "next_pid k1 = 1" by blast
  have "tree_of k1 = tree_of ka" by (intro ptree_eqI) (simp_all add: k1 a node_of_def)
  then have "tree_inv (tree_of k1)" using boot_inv [OF a(1) k0] by simp
  moreover obtain thr where "threads (ksched k1) t0 = Some thr" "kt_state thr = KT_RUN" "kt_proc thr = p0" using k1(5,6) by auto
  ultimately show ?thesis using that [of k1 "r\<lparr>p_threads := [t0]\<rparr>" thr] k1 a by simp
qed

text \<open>Creating the init process in a system with the idle process only, which runs.\<close>

lemma create_init:
  assumes r: "procs k = [kcur k \<mapsto> r]" "p_pid r = PID_IDLE" "p_children r = []" "p_state r = PROC_RUNNING" and k: "proc_list k = [kcur k]" "next_pid k = 1"
    and inv: "tree_inv (tree_of k)" and cfg: "1 < PROC_MAX_COUNT cfg" and al: "new_ptr al = Some p" "new_vmmap al \<noteq> None" and ne: "kcur k \<noteq> p"
  obtains k' r1 where "proc_create cfg al name k = Some (p, k')" "procs k' = [kcur k \<mapsto> r\<lparr>p_children := [p]\<rparr>, p \<mapsto> r1]" "p_pid r1 = PID_INIT"
    "p_children r1 = []" "p_pproc r1 = Some (kcur k)" "p_threads r1 = []" "proc_list k' = [kcur k, p]" "initproc k' = Some p" "kcur k' = kcur k"
    "curthr (ksched k') = curthr (ksched k)" "threads (ksched k') = threads (ksched k)" "tree_inv (tree_of k')"
proof -
  have get: "proc_getid (PROC_MAX_COUNT cfg) (all_pids k) (next_pid k) = Some (1, 2 mod PROC_MAX_COUNT cfg)"
    using k r(1,2) cfg by (simp add: proc_getid_def all_pids_def getid_loop.simps PID_IDLE_def)
  then have "\<exists>kb. proc_create cfg al name k = Some (p, kb)"
    using k r(1,2) al ne by (auto simp: proc_create_def PID_IDLE_def PID_INIT_def upd_proc_def Let_def)
  then obtain kb where b: "proc_create cfg al name k = Some (p, kb)" by blast
  have c: "procs k (kcur k) = Some r" using r by simp
  obtain r1 evs where r1: "p_pid r1 = 1" "p_children r1 = []" "p_pproc r1 = Some (kcur k)" "p_threads r1 = []"
    and kb: "kb = k\<lparr>next_pid := 2 mod PROC_MAX_COUNT cfg, procs := (procs k)(p \<mapsto> r1, kcur k \<mapsto> r\<lparr>p_children := p_children r @ [p]\<rparr>),
        kevents := kevents k @ evs, ksched := sched_queue_init (new_wait al) (ksched k), initproc := Some p, proc_list := proc_list k @ [p]\<rparr>"
    using proc_create_effect [OF b c] k r(1) ne get by (auto simp: PID_INIT_def)
  have "(1 :: int) \<in> {0..<PROC_MAX_COUNT cfg}" "1 \<notin> set (all_pids k)" using cfg k r(1,2) by (simp_all add: all_pids_def PID_IDLE_def)
  then have "\<not> {0..<PROC_MAX_COUNT cfg} \<subseteq> set (all_pids k)" by blast
  then have "proc_step cfg k kb" using proc_step.create [OF b c, of p] r(1,4) al k ne cfg by simp
  then have "tree_inv (tree_of kb)" using proc_step_inv inv by blast
  moreover have "procs kb = [kcur k \<mapsto> r\<lparr>p_children := [p]\<rparr>, p \<mapsto> r1]" using ne r(1,3) by (auto simp: kb fun_eq_iff)
  ultimately show ?thesis using that [OF b, of r1] r1 k by (simp add: kb PID_INIT_def sched_queue_init_def upd_queue_def)
qed

text \<open>
  The first processes.  When no process exists, \<^verbatim>\<open>bootstrap\<close> and \<^verbatim>\<open>initproc_create\<close> succeed if the allocators do, and all their assertions
  hold: the idle process runs with identifier 0, its only child is the init process with identifier 1, each has one thread, and the
  process tree is well formed.
\<close>

theorem boot_correct:
  assumes k0: "procs k0 = Map.empty" "proc_list k0 = []" "initproc k0 = None" "next_pid k0 = 0" and cfg: "1 < PROC_MAX_COUNT cfg"
    and idle: "new_ptr al0 = Some p0" "new_vmmap al0 \<noteq> None" and init: "new_ptr al1 = Some p1" "new_vmmap al1 \<noteq> None"
    and ne: "p0 \<noteq> p1" "t0 \<noteq> t1"
  shows "\<exists>k1 k2 r0 r1. bootstrap cfg cs al0 (Some t0) stack0 k0 = Some k1 \<and> initproc_create cfg cs al1 (Some t1) stack1 k1 = Some (t1, k2)
    \<and> procs k2 = [p0 \<mapsto> r0, p1 \<mapsto> r1] \<and> p_pid r0 = PID_IDLE \<and> p_children r0 = [p1] \<and> p_threads r0 = [t0]
    \<and> p_pid r1 = PID_INIT \<and> p_pproc r1 = Some p0 \<and> p_children r1 = [] \<and> p_threads r1 = [t1]
    \<and> proc_list k2 = [p0, p1] \<and> initproc k2 = Some p1 \<and> kcur k2 = p0 \<and> curthr (ksched k2) = t0
    \<and> map_option kt_state (threads (ksched k2) t0) = Some KT_RUN \<and> map_option kt_state (threads (ksched k2) t1) = Some KT_NO_STATE
    \<and> tree_inv (tree_of k2) \<and> owned k2"
proof -
  obtain k1 r thr where k1: "bootstrap cfg cs al0 (Some t0) stack0 k0 = Some k1" "kcur k1 = p0" "curthr (ksched k1) = t0" "procs k1 = [p0 \<mapsto> r]"
    "p_pid r = PID_IDLE" "p_children r = []" "p_threads r = [t0]" "p_state r = PROC_RUNNING" "threads (ksched k1) t0 = Some thr" "kt_state thr = KT_RUN"
    "kt_proc thr = p0" "proc_list k1 = [p0]" "initproc k1 = None" "next_pid k1 = 1" "tree_inv (tree_of k1)"
    by (rule bootstrap_ok [OF k0 cfg idle])
  obtain kb r1 where b: "proc_create cfg al1 ''init'' k1 = Some (p1, kb)" "procs kb = [kcur k1 \<mapsto> r\<lparr>p_children := [p1]\<rparr>, p1 \<mapsto> r1]" "p_pid r1 = PID_INIT"
    "p_children r1 = []" "p_pproc r1 = Some (kcur k1)" "p_threads r1 = []" "proc_list kb = [kcur k1, p1]" "initproc kb = Some p1" "kcur kb = kcur k1"
    "curthr (ksched kb) = curthr (ksched k1)" "threads (ksched kb) = threads (ksched k1)" "tree_inv (tree_of kb)"
    by (rule create_init [of k1 r cfg al1 p1 "''init''"]) (use k1 cfg init ne in auto)
  define new where "new = \<lparr>kt_state = KT_NO_STATE, kt_cancelled = False, kt_wchan = None, kt_retval = 0, kt_proc = p1,
       kt_saved_ipl = None, kt_kstack = stack1, kt_errno = 0, kt_ctx = cs stack1 (p_pagedir r1)\<rparr>"
  define k2 where "k2 = kb\<lparr>ksched := (ksched kb)\<lparr>threads := (threads (ksched kb))(t1 \<mapsto> new)\<rparr>, procs := (procs kb)(p1 \<mapsto> r1\<lparr>p_threads := [t1]\<rparr>)\<rparr>"
  have thread: "kthread_create cfg cs (Some t1) stack1 p1 kb = Some (t1, k2)"
    using b(2,6) by (simp add: kthread_create_def upd_proc_def Let_def k2_def new_def)
  have inv: "tree_inv (tree_of k2)" using proc_step_inv [OF proc_step.new_thread [OF thread] b(12)] .
  have procs: "procs k2 = [p0 \<mapsto> r\<lparr>p_children := [p1]\<rparr>, p1 \<mapsto> r1\<lparr>p_threads := [t1]\<rparr>]" using b(2) k1(2) by (simp add: k2_def)
  have "owned k2" unfolding owned_def procs using k1(7,9,11) b(11) ne by (auto simp: k2_def new_def split: if_splits)
  moreover have "initproc_create cfg cs al1 (Some t1) stack1 k1 = Some (t1, k2)" using b(1,2,3) thread by (simp add: initproc_create_def)
  ultimately show ?thesis using k1 b procs inv ne
    by (intro exI [of _ k1] exI [of _ k2] exI [of _ "r\<lparr>p_children := [p1]\<rparr>"] exI [of _ "r1\<lparr>p_threads := [t1]\<rparr>"]) (simp add: k2_def new_def)
qed

subsection \<open>Starting the init process\<close>

lemma do_mkdir_vproc: "do_mkdir C E path st = Some (r, st') \<Longrightarrow> vproc st' = vproc st"
  by (auto simp: do_mkdir_def Let_def kassert_def dest!: core_dir_namev core_lookup core_call_op split: Option.bind_split_asm if_split_asm prod.split_asm sum.split_asm)

lemma do_mknod_vproc: "do_mknod C E path mode d st = Some (r, st') \<Longrightarrow> vproc st' = vproc st"
  by (auto simp: do_mknod_def Let_def kassert_def dest!: core_dir_namev core_lookup core_call_op split: Option.bind_split_asm if_split_asm prod.split_asm sum.split_asm)

lemma on_vfs_kernel:
  assumes "on_vfs f m = Some m'" and "\<And>st r st'. f st = Some (r, st') \<Longrightarrow> vproc st' = vproc st"
  shows "m_kernel m' = m_kernel m"
  using assms(1) by (auto simp: on_vfs_def upd_proc_def fun_upd_idem dest!: assms(2) split: Option.bind_split_asm prod.split_asm)

lemma device_calls_kernel:
  "on_vfs (do_mkdir C E path) m = Some m' \<Longrightarrow> m_kernel m' = m_kernel m"
  "on_vfs (do_mknod C E path mode d) m = Some m' \<Longrightarrow> m_kernel m' = m_kernel m"
  by (erule on_vfs_kernel, erule do_mkdir_vproc) (erule on_vfs_kernel, erule do_mknod_vproc)

lemma make_devices_kernel: "make_devices S B m = Some m' \<Longrightarrow> m_kernel m' = m_kernel m"
  by (auto simp: make_devices_def dest!: device_calls_kernel split: Option.bind_split_asm)

text \<open>
  When the idle process comes to its wait, the thread of the init process is on the run queue, the two processes have the root directory
  as working directory, and making the devices has left processes and threads alone.
\<close>

theorem idle_starts_init:
  assumes "idleproc_start S B m = Some (initthr, m')"
  shows "\<exists>thr k1 m1. initproc_create (se_kconfig S) (be_context_setup B) (be_init_alloc B) (be_init_thread B) (be_init_stack B) (m_kernel m) = Some (initthr, k1)
    \<and> init_call_all B (m\<lparr>m_kernel := k1\<rparr>) = Some m1 \<and> kcur (m_kernel m') = kcur (m_kernel m1)
    \<and> threads (ksched (m_kernel m')) initthr = Some thr \<and> kt_state thr = KT_RUN
    \<and> qlist (ksched (m_kernel m')) kt_runq = initthr # qlist (ksched (m_kernel m1)) kt_runq
    \<and> map_option p_cwd (procs (m_kernel m') (kt_proc thr)) = Some (vfs_root_vn (se_kconfig S))
    \<and> map_option p_cwd (procs (m_kernel m') (kcur (m_kernel m'))) = Some (vfs_root_vn (se_kconfig S))"
proof -
  obtain k1 m1 k2 thr0 k3 m2 s where 1: "initproc_create (se_kconfig S) (be_context_setup B) (be_init_alloc B) (be_init_thread B) (be_init_stack B) (m_kernel m) = Some (initthr, k1)"
    "init_call_all B (m\<lparr>m_kernel := k1\<rparr>) = Some m1"
    and k2: "set_cwd (kcur (m_kernel m1)) (vfs_root_vn (se_kconfig S)) (m_kernel m1) = Some k2" and t: "threads (ksched k2) initthr = Some thr0"
    and k3: "set_cwd (kt_proc thr0) (vfs_root_vn (se_kconfig S)) k2 = Some k3" and m2: "make_devices S B (m1\<lparr>m_kernel := k3\<rparr>) = Some m2"
    and s: "sched_make_runnable initthr (ksched (m_kernel m2)) = Some s" and m': "m' = m2\<lparr>m_kernel := (m_kernel m2)\<lparr>ksched := s\<rparr>\<rparr>"
    using assms by (auto simp: idleproc_start_def Let_def split: Option.bind_split_asm prod.split_asm)
  have kernel: "m_kernel m2 = k3" using make_devices_kernel [OF m2] by simp
  have sched: "ksched k2 = ksched (m_kernel m1)" "ksched k3 = ksched (m_kernel m1)"
    using k2 k3 by (auto simp: set_cwd_def upd_proc_def split: Option.bind_split_asm)
  have "kt_wchan thr0 = None" using s t sched kernel
    by (auto simp: sched_make_runnable_def ktqueue_enqueue_def upd_thread_def upd_queue_def kassert_def Let_def split: Option.bind_split_asm if_split_asm)
  then have s': "s = (ksched k3)\<lparr>threads := (threads (ksched k3))(initthr \<mapsto> thr0\<lparr>kt_state := KT_RUN, kt_wchan := Some kt_runq\<rparr>),
      queues := (queues (ksched k3))(kt_runq := (queues (ksched k3) kt_runq)\<lparr>tq_list := initthr # qlist (ksched k3) kt_runq, tq_size := tq_size (queues (ksched k3) kt_runq) + 1\<rparr>)\<rparr>"
    using make_runnable_eq [of "ksched k3" initthr thr0] s t sched kernel by simp
  have cwd: "map_option p_cwd (procs k3 (kt_proc thr0)) = Some (vfs_root_vn (se_kconfig S))"
    "map_option p_cwd (procs k3 (kcur (m_kernel m1))) = Some (vfs_root_vn (se_kconfig S))"
    using k2 k3 by (auto simp: set_cwd_def upd_proc_def split: Option.bind_split_asm)
  show ?thesis
    by (rule exI [of _ "thr0\<lparr>kt_state := KT_RUN, kt_wchan := Some kt_runq\<rparr>"], rule exI [of _ k1], rule exI [of _ m1])
      (use 1 cwd sched kernel s' in \<open>simp add: m'\<close>)
qed

subsection \<open>The loop of the init process\<close>

lemma dispose_exact:
  assumes pr: "procs k z = Some pr" and t: "p_threads pr = t # ts" "threads (ksched k) t = Some thr" "kt_state thr = KT_EXITED"
      "kt_kstack thr \<noteq> 0" "kt_proc thr = z"
    and q: "p_pproc pr = Some q" "procs k q = Some qr" "q \<noteq> z" and pd: "p_pagedir pr \<noteq> 0"
  shows "\<exists>k'. disposeZombie z k = Some k' \<and> procs k' = (procs k)(q \<mapsto> qr\<lparr>p_children := remove1 z (p_children qr)\<rparr>, z := None)
    \<and> threads (ksched k') = (threads (ksched k))(t := None) \<and> kcur k' = kcur k \<and> initproc k' = initproc k"
  using assms by (simp add: disposeZombie_def kthread_destroy_def upd_proc_def log_event_def Let_def fun_upd_twist)

lemma reap_child:
  assumes inv: "tree_inv (tree_of k)" and own: "owned k" and c: "procs k (kcur k) = Some c" and ch: "p_children c = z # zs"
    and dead: "is_dead k z" and ok: "\<forall>ch\<in>set (p_children c). is_dead k ch \<longrightarrow> zombie_ok k ch"
  shows "\<exists>pr k' c'. procs k z = Some pr \<and> 0 < p_pid pr \<and> reap z k = Some (Ret (Inr (p_pid pr, p_status pr)) k') \<and> kcur k' = kcur k
    \<and> procs k' (kcur k) = Some c' \<and> p_children c' = zs \<and> p_wait c' = p_wait c \<and> owned k' \<and> tree_of k' = tree_reap z (tree_of k)
    \<and> (\<forall>x. x \<noteq> z \<longrightarrow> is_dead k' x = is_dead k x \<and> (zombie_ok k x \<longrightarrow> zombie_ok k' x))"
proof -
  have "zombie_ok k z" using ok dead ch by simp
  then obtain pr t ts thr where pr: "procs k z = Some pr" and t: "p_threads pr = t # ts" "threads (ksched k) t = Some thr" "kt_state thr = KT_EXITED"
      "kt_kstack thr \<noteq> 0" and pd: "p_pagedir pr \<noteq> 0"
    by (auto simp: zombie_ok_def split: option.split_asm list.split_asm)
  have own_t: "kt_proc thr = z" using own pr t by (fastforce simp: owned_def)
  have par: "p_pproc pr = Some (kcur k)" "p_pid pr \<noteq> PID_IDLE"
    using tree_child [OF inv, of "kcur k" "node_of c" z] c ch pr by auto
  have ne: "kcur k \<noteq> z" using descends_no_self [OF tree_node(5) [OF inv, of z "node_of pr"], of "node_of pr"] par pr by auto
  have pos: "0 < p_pid pr" using tree_node(1) [OF inv, of z "node_of pr"] pr par(2) by (simp add: PID_IDLE_def)
  obtain k' where k': "disposeZombie z k = Some k'" "procs k' = (procs k)(kcur k \<mapsto> c\<lparr>p_children := remove1 z (p_children c)\<rparr>, z := None)"
    "threads (ksched k') = (threads (ksched k))(t := None)" "kcur k' = kcur k"
    using dispose_exact [OF pr t own_t par(1) c ne pd] by blast
  have thr: "threads (ksched k') u = threads (ksched k) u" if "procs k x = Some xr" "u \<in> set (p_threads xr)" "x \<noteq> z" for x xr u
    using own that own_t t(2) k'(3) by (fastforce simp: owned_def)
  have "owned k'" using own unfolding owned_def k'(2)
    by (auto simp: thr c split: if_splits) (metis c thr)+
  moreover have "is_dead k' x = is_dead k x" if "x \<noteq> z" for x using that c by (simp add: is_dead_def k'(2))
  moreover have "zombie_ok k' x" if x: "x \<noteq> z" "zombie_ok k x" for x
  proof -
    obtain xr where xr: "procs k x = Some xr" using x(2) by (auto simp: zombie_ok_def split: option.split_asm)
    obtain xr' where "procs k' x = Some xr'" "p_threads xr' = p_threads xr" "p_pagedir xr' = p_pagedir xr"
      using xr x(1) c by (cases "x = kcur k") (auto simp: k'(2))
    then show ?thesis using x(2) xr thr [OF xr _ x(1)] by (auto simp: zombie_ok_def split: list.split)
  qed
  moreover have "reap z k = Some (Ret (Inr (p_pid pr, p_status pr)) k')" using pr k'(1) by (simp add: reap_def)
  ultimately show ?thesis using pr pos k' ne ch disposeZombie_tree [OF k'(1)] by simp
qed

text \<open>
  C40: The init process reaps its children.  In a well-formed tree, when exited children can be reaped, the loop of \<^verbatim>\<open>initproc_run\<close> comes to
  an end: it takes the children that have exited out of the tree, one after the other (the status is stored in the child's own structure, where it
  already is), and when it meets one that lives it sleeps
  on the wait queue of the init process; it returns just when all children have exited.
\<close>

theorem init_loop_correct:
  assumes inv: "tree_inv (tree_of k)" and own: "owned k" and c: "procs k (kcur k) = Some c" and init: "initproc k = Some (kcur k)"
    and ok: "\<forall>ch\<in>set (p_children c). is_dead k ch \<longrightarrow> zombie_ok k ch"
  shows "\<exists>k'. tree_of k' = fold tree_reap (takeWhile (is_dead k) (p_children c)) (tree_of k)
    \<and> init_loop is k = (if \<forall>ch\<in>set (p_children c). is_dead k ch then Some (Ret () k')
        else map_option (\<lambda>r. Gone (lift_switch k' r)) (sched_sleep_on is (p_wait c) (ksched k')))"
  using assms
proof (induction "p_children c" arbitrary: k c)
  case Nil
  then show ?case by (intro exI [of _ k]) (simp add: init_loop.simps)
next
  case (Cons z zs)
  have z: "z \<in> set (p_children c)" using Cons.hyps(2) by (metis list.set_intros(1))
  obtain pr where pr: "procs k z = Some pr" "p_pproc pr = Some (kcur k)" "p_pid pr \<noteq> PID_IDLE"
    using tree_child [OF Cons.prems(1), of "kcur k" "node_of c" z] Cons.prems(3) z by auto
  have pos: "0 < p_pid pr" using tree_node(1) [OF Cons.prems(1), of z "node_of pr"] pr by (simp add: PID_IDLE_def)
  have "do_waitpid is (p_pid pr) 0 k = wait_for is z k"
    using find_child [OF Cons.prems(1,3) z, of "p_pid pr"] pr pos Cons.prems(3) Cons.hyps(2) by (auto simp: do_waitpid_def pid_of_def)
  then have step: "init_loop is k = wait_for is z k \<bind> (\<lambda>r. case r of Gone g \<Rightarrow> Some (Gone g) | Ret _ k1 \<Rightarrow> init_loop is k1)"
    using Cons.prems(3) Cons.hyps(2) [symmetric] pr by (simp add: init_loop.simps [of _ k])
  show ?case
  proof (cases "is_dead k z")
    case False
    then have "wait_for is z k = wait_sleep is k" using pr by (simp add: wait_for_def is_dead_def)
    then have "init_loop is k = map_option (\<lambda>r. Gone (lift_switch k r)) (sched_sleep_on is (p_wait c) (ksched k))"
      using step Cons.prems(3) by (cases "sched_sleep_on is (p_wait c) (ksched k)") (simp_all add: wait_sleep_def)
    then show ?thesis using False z Cons.hyps(2) [symmetric] by (intro exI [of _ k]) auto
  next
    case True
    obtain k1 c1 where k1: "reap z k = Some (Ret (Inr (p_pid pr, p_status pr)) k1)" "kcur k1 = kcur k" "procs k1 (kcur k) = Some c1"
      "p_children c1 = zs" "p_wait c1 = p_wait c" "owned k1" "tree_of k1 = tree_reap z (tree_of k)"
      "\<forall>x. x \<noteq> z \<longrightarrow> is_dead k1 x = is_dead k x \<and> (zombie_ok k x \<longrightarrow> zombie_ok k1 x)"
      using reap_child [OF Cons.prems(1,2,3) Cons.hyps(2) [symmetric] True Cons.prems(5)] pr(1) by auto
    have "initproc k \<noteq> Some z" using Cons.prems(1,4) pr True tree_init [OF Cons.prems(1), of z] by (auto simp: is_dead_def)
    then have inv1: "tree_inv (tree_of k1)" unfolding k1(7)
      using tree_reap_inv [OF Cons.prems(1), of z "node_of pr"] pr True by (simp add: is_dead_def)
    have i1: "initproc k1 = Some (kcur k1)" using arg_cong [OF k1(7), of init_node] k1(2) Cons.prems(4) by (simp add: tree_reap_def)
    have dist: "z \<notin> set zs" using tree_node(2) [OF Cons.prems(1), of "kcur k" "node_of c"] Cons.prems(3) Cons.hyps(2) [symmetric] by simp
    then have same: "\<forall>x\<in>set zs. is_dead k1 x = is_dead k x" using k1(8) by metis
    have ok1: "\<forall>ch\<in>set (p_children c1). is_dead k1 ch \<longrightarrow> zombie_ok k1 ch"
      using k1(4,8) Cons.prems(5) Cons.hyps(2) [symmetric] dist by (metis list.set_intros(2))
    have "init_loop is k = init_loop is k1" using step k1(1) pr(1) True by (simp add: wait_for_def is_dead_def)
    moreover have "takeWhile (is_dead k) (z # zs) = z # takeWhile (is_dead k1) zs"
      using True same by (simp cong: takeWhile_cong)
    moreover obtain k' where "tree_of k' = fold tree_reap (takeWhile (is_dead k1) zs) (tree_of k1)"
      "init_loop is k1 = (if \<forall>ch\<in>set zs. is_dead k1 ch then Some (Ret () k')
        else map_option (\<lambda>r. Gone (lift_switch k' r)) (sched_sleep_on is (p_wait c) (ksched k')))"
      using Cons.hyps(1) [OF k1(4) [symmetric] inv1 k1(6) _ i1 ok1] k1(2-5) by auto
    ultimately show ?thesis using same True Cons.hyps(2) [symmetric] k1(7) by (intro exI [of _ k']) (simp cong: ball_cong)
  qed
qed

theorem init_loop_correct_witness:
  "\<exists>k'. init_loop [] demo_orphan = Some (Ret () k') \<and> tree_of k' = tree_reap 3 (tree_of (demo_family 2 PROC_DEAD))"
proof -
  have tree: "tree_of demo_orphan = tree_of (demo_family 2 PROC_DEAD)" by (simp add: demo_orphan_def tree_of_def)
  have c: "procs demo_orphan (kcur demo_orphan) = Some (demo_proc 1 [3] 1 PROC_RUNNING [4, 6] 5)" "initproc demo_orphan = Some (kcur demo_orphan)"
    by (simp_all add: demo_orphan_def demo_family_def)
  have own: "owned demo_orphan" by (auto simp: owned_def demo_orphan_def demo_family_def demo_proc_def split: if_splits)
  have p3: "procs demo_orphan 3 = Some (demo_proc 2 [] 2 PROC_DEAD [9] 7)" by (simp add: demo_orphan_def demo_family_def)
  have dead: "is_dead demo_orphan 3" "zombie_ok demo_orphan 3"
    by (simp_all add: is_dead_def zombie_ok_def p3 demo_proc_def) (simp add: demo_orphan_def demo_thread_def)
  show ?thesis
    using init_loop_correct [OF demo_family_inv [of 2 PROC_DEAD, folded tree] own c, of "[]"] dead by (auto simp: tree demo_proc_def)
qed

end
