(* ===== verification/Vnode.thy ===== *)
theory Vnode
  imports Reclaim
begin

section \<open>Vnodes: \<^verbatim>\<open>kernel/fs/vnode.c\<close>\<close>

text \<open>
  The table of vnodes in use, special files and writing back a file system.  \<^verbatim>\<open>vref\<close>, \<^verbatim>\<open>vput\<close> and the operations of a vnode's
  memory object are in the theory of memory objects.

  \<^item> A vnode and its memory object, a member of the C structure, have the same identifier: \<open>vnodes\<close> holds the vnode, \<open>mmobjs\<close> the object with
    the reference count and the resident pages.
  \<^item> \<^verbatim>\<open>vget\<close> may have to wait: \<open>SleepOn\<close> and \<open>NoMemory\<close> are the places where it gives up the processor before it tries again.
  \<^item> The file systems, the devices and the allocator are fields of the record \<open>vnode_env\<close>; an operation that a device does not have
    is \<open>None\<close>.

  The properties: a file has one vnode at most, \<^verbatim>\<open>vget\<close> finds it or makes it and \<^verbatim>\<open>vput\<close> undoes that; \<^verbatim>\<open>vfs_is_in_use\<close> is exact;
  \<^verbatim>\<open>vnode_flush_all\<close> writes back and frees all pages of all vnodes.
\<close>

datatype vget_result = Got objid | SleepOn objid | NoMemory

record vnode_env =
  slab_vnode :: "mm \<Rightarrow> objid option"
  read_vnode :: "objid \<Rightarrow> vnode \<Rightarrow> vnode"
  bytedev_lookup :: "nat \<Rightarrow> nat option"
  blockdev_lookup :: "nat \<Rightarrow> nat option"
  fs_root :: "nat \<Rightarrow> objid option"
  cd_read :: "nat \<Rightarrow> (int \<Rightarrow> nat \<Rightarrow> int) option"
  cd_write :: "nat \<Rightarrow> (int \<Rightarrow> string \<Rightarrow> int) option"
  cd_mmap :: "nat \<Rightarrow> (vmarea \<Rightarrow> int \<times> objid option) option"
  cd_fillpage :: "nat \<Rightarrow> (int \<Rightarrow> page \<Rightarrow> int \<times> page) option"
  cd_dirtypage :: "nat \<Rightarrow> (int \<Rightarrow> int) option"
  cd_cleanpage :: "nat \<Rightarrow> (int \<Rightarrow> page \<Rightarrow> int) option"
  bd_read_block :: "nat \<Rightarrow> bool"
  bd_write_block :: "nat \<Rightarrow> bool"
  fs_stat :: "objid \<Rightarrow> (objid \<Rightarrow> int) option"

definition vnode_init :: "mm \<Rightarrow> mm" where
  "vnode_init st = st\<lparr>vnode_inuse_list := []\<rparr>"

subsection \<open>Special files\<close>

definition init_special_vnode :: "vnode_env \<Rightarrow> vnode \<Rightarrow> vnode option" where
  "init_special_vnode V vn =
     (if vn_mode vn = S_IFCHR then Some (vn\<lparr>vn_ops := bytedev_spec_vops, vn_cdev := bytedev_lookup V (vn_devid vn)\<rparr>)
      else do {
        kassert (vn_mode vn = S_IFBLK);
        Some (vn\<lparr>vn_ops := blockdev_spec_vops, vn_bdev := blockdev_lookup V (vn_devid vn)\<rparr>) })"

definition special_file_read :: "vnode_env \<Rightarrow> vnode \<Rightarrow> int \<Rightarrow> nat \<Rightarrow> (errno + int) option" where
  "special_file_read V file offset nbytes = do {
     kassert (vn_mode file = S_IFCHR \<or> vn_mode file = S_IFBLK);
     if vn_mode file = S_IFBLK then do {
       bdev \<leftarrow> vn_bdev file;
       kassert (bd_read_block V bdev);
       Some (Inl ENOTSUP) }
     else do {
       cdev \<leftarrow> vn_cdev file;
       read \<leftarrow> cd_read V cdev;
       Some (Inr (read offset nbytes)) } }"

definition special_file_write :: "vnode_env \<Rightarrow> vnode \<Rightarrow> int \<Rightarrow> string \<Rightarrow> (errno + int) option" where
  "special_file_write V file offset buf = do {
     kassert (vn_mode file = S_IFCHR \<or> vn_mode file = S_IFBLK);
     if vn_mode file = S_IFBLK then do {
       bdev \<leftarrow> vn_bdev file;
       kassert (bd_write_block V bdev);
       Some (Inl ENOTSUP) }
     else do {
       cdev \<leftarrow> vn_cdev file;
       write \<leftarrow> cd_write V cdev;
       Some (Inr (write offset buf)) } }"

text \<open>The other operations of a byte device are called, but their return values are dropped.\<close>

definition special_file_mmap :: "vnode_env \<Rightarrow> vnode \<Rightarrow> vmarea \<Rightarrow> (int \<times> objid option) option" where
  "special_file_mmap V file vma = do {
     kassert (vn_mode file = S_IFCHR);
     cdev \<leftarrow> vn_cdev file;
     mmap \<leftarrow> cd_mmap V cdev;
     Some (0, snd (mmap vma)) }"

definition special_file_stat :: "vnode_env \<Rightarrow> objid \<Rightarrow> vnode \<Rightarrow> int option" where
  "special_file_stat V vnode v = do {
     root \<leftarrow> fs_root V (vn_fs v);
     stat \<leftarrow> fs_stat V root;
     Some (stat vnode) }"

definition special_file_fillpage :: "vnode_env \<Rightarrow> vnode \<Rightarrow> int \<Rightarrow> page \<Rightarrow> (int \<times> page) option" where
  "special_file_fillpage V file offset pagebuf = do {
     kassert (vn_mode file = S_IFCHR);
     cdev \<leftarrow> vn_cdev file;
     fillpage \<leftarrow> cd_fillpage V cdev;
     Some (0, snd (fillpage offset pagebuf)) }"

definition special_file_dirtypage :: "vnode_env \<Rightarrow> vnode \<Rightarrow> int \<Rightarrow> int option" where
  "special_file_dirtypage V file offset = do {
     kassert (vn_mode file = S_IFCHR);
     cdev \<leftarrow> vn_cdev file;
     _ \<leftarrow> cd_dirtypage V cdev;
     Some 0 }"

definition special_file_cleanpage :: "vnode_env \<Rightarrow> vnode \<Rightarrow> int \<Rightarrow> page \<Rightarrow> int option" where
  "special_file_cleanpage V file offset pagebuf = do {
     kassert (vn_mode file = S_IFCHR);
     cdev \<leftarrow> vn_cdev file;
     _ \<leftarrow> cd_cleanpage V cdev;
     Some 0 }"

subsection \<open>Getting a vnode\<close>

definition vnode_is :: "mm \<Rightarrow> nat \<Rightarrow> int \<Rightarrow> objid \<Rightarrow> bool" where
  "vnode_is st fs vno vn = (case vnodes st vn of None \<Rightarrow> False | Some v \<Rightarrow> vn_fs v = fs \<and> vn_vno v = vno)"

definition vget :: "mm_env \<Rightarrow> vnode_env \<Rightarrow> nat \<Rightarrow> int \<Rightarrow> mm \<Rightarrow> (vget_result \<times> mm) option" where
  "vget E V fs vno st = (case List.find (vnode_is st fs vno) (vnode_inuse_list st) of
     Some vn \<Rightarrow> do {
       v \<leftarrow> vnodes st vn;
       if vn_busy v then Some (SleepOn vn, st)
       else do { st1 \<leftarrow> vref vn st; Some (Got vn, st1) } }
   | None \<Rightarrow> (case slab_vnode V st of
       None \<Rightarrow> Some (NoMemory, st)
     | Some vn \<Rightarrow> do {
         let v = \<lparr>vn_fs = fs, vn_vno = vno, vn_busy = True, vn_mode = S_IFOTHER, vn_devid = 0, vn_len = 0, vn_ops = fs_vops,
           vn_cdev = None, vn_bdev = None\<rparr>;
         let st1 = st\<lparr>mmobjs := (mmobjs st)(vn \<mapsto> mmobj_init E vnode_mmobj_ops), vnode_inuse_list := vn # vnode_inuse_list st\<rparr>;
         let v1 = (read_vnode V vn v)\<lparr>vn_busy := False\<rparr>;
         v2 \<leftarrow> (if vn_mode v1 = S_IFCHR \<or> vn_mode v1 = S_IFBLK then init_special_vnode V v1 else Some v1);
         st2 \<leftarrow> upd_obj vn (\<lambda>mo. mo\<lparr>mmo_refcount := 1\<rparr>) (st1\<lparr>vnodes := (vnodes st1)(vn \<mapsto> v2)\<rparr>);
         Some (Got vn, st2) }))"

subsection \<open>File systems in use\<close>

fun in_use_loop :: "vnode_env \<Rightarrow> nat \<Rightarrow> objid list \<Rightarrow> mm \<Rightarrow> (errno + unit) \<Rightarrow> (errno + unit) option" where
  "in_use_loop V fs [] st ret = Some ret"
| "in_use_loop V fs (vn # vns) st ret = do {
     v \<leftarrow> vnodes st vn;
     mo \<leftarrow> mmobjs st vn;
     kassert (mmo_refcount mo \<ge> mmo_nrespages mo);
     kassert (mmo_nrespages mo \<ge> 0);
     if fs \<noteq> vn_fs v then in_use_loop V fs vns st ret
     else do {
       let refs = mmo_refcount mo - mmo_nrespages mo;
       let root = (fs_root V fs = Some vn);
       kassert (0 \<le> refs);
       kassert ((root \<and> 1 \<le> refs) \<or> (\<not> root \<and> 0 \<le> refs));
       in_use_loop V fs vns st (if (root \<and> 1 < refs) \<or> (\<not> root \<and> refs \<noteq> 0) then Inl EBUSY else ret) } }"

definition vfs_is_in_use :: "vnode_env \<Rightarrow> nat \<Rightarrow> mm \<Rightarrow> (errno + unit) option" where
  "vfs_is_in_use V fs st = in_use_loop V fs (vnode_inuse_list st) st (Inr ())"

definition vnode_inuse :: "nat \<Rightarrow> mm \<Rightarrow> nat" where
  "vnode_inuse fs st = length (filter (\<lambda>vn. map_option vn_fs (vnodes st vn) = Some fs) (vnode_inuse_list st))"

subsection \<open>Writing back all vnodes\<close>

text \<open>The first dirty page of a vnode in use; the file system given to \<^verbatim>\<open>vnode_flush_all\<close> plays no role.\<close>

fun dirty_page :: "objid list \<Rightarrow> mm \<Rightarrow> pfid option option" where
  "dirty_page [] st = Some None"
| "dirty_page (v # vs) st = do {
     mo \<leftarrow> mmobjs st v;
     case List.find (\<lambda>p. map_option pf_dirty (frames st p) = Some True) (mmo_respages mo) of
       Some p \<Rightarrow> Some (Some p)
     | None \<Rightarrow> dirty_page vs st }"

partial_function (option) flush_clean :: "layout \<Rightarrow> mm_env \<Rightarrow> mm \<Rightarrow> mm option" where
  "flush_clean L E st = do {
     r \<leftarrow> dirty_page (vnode_inuse_list st) st;
     case r of
       None \<Rightarrow> Some st
     | Some p \<Rightarrow> do {
         (err, st1) \<leftarrow> pframe_clean (mmo_cleanpage L E) L E p st;
         kassert (err = 0);
         flush_clean L E st1 } }"

fun flush_pages :: "layout \<Rightarrow> mm_env \<Rightarrow> nat \<Rightarrow> pfid list \<Rightarrow> mm \<Rightarrow> mm option" where
  "flush_pages L E n [] st = Some st"
| "flush_pages L E n (p # ps) st = do {
     f \<leftarrow> frames st p;
     kassert (\<not> pf_dirty f);
     st1 \<leftarrow> pframe_free (mmo_put L E n) L E p st;
     flush_pages L E n ps st1 }"

fun flush_vnodes :: "layout \<Rightarrow> mm_env \<Rightarrow> nat \<Rightarrow> objid list \<Rightarrow> mm \<Rightarrow> mm option" where
  "flush_vnodes L E n [] st = Some st"
| "flush_vnodes L E n (v # vs) st = do {
     mo \<leftarrow> mmobjs st v;
     st1 \<leftarrow> flush_pages L E n (mmo_respages mo) st;
     flush_vnodes L E n vs st1 }"

definition vnode_flush_all :: "layout \<Rightarrow> mm_env \<Rightarrow> nat \<Rightarrow> mm \<Rightarrow> mm option" where
  "vnode_flush_all L E n st = do {
     st1 \<leftarrow> flush_clean L E st;
     flush_vnodes L E n (vnode_inuse_list st1) st1 }"

subsection \<open>The table of vnodes\<close>

text \<open>The list holds the vnodes there are, one for a file; each has its object, with references.\<close>

definition vnode_object :: "mmobj option \<Rightarrow> bool" where
  "vnode_object x \<longleftrightarrow> (case x of None \<Rightarrow> False | Some mo \<Rightarrow> mmo_ops mo = vnode_mmobj_ops \<and> 0 < mmo_refcount mo)"

definition vnodes_ok :: "mm \<Rightarrow> bool" where
  "vnodes_ok st \<longleftrightarrow> distinct (vnode_inuse_list st) \<and> set (vnode_inuse_list st) = dom (vnodes st)
     \<and> (\<forall>vn v. vnodes st vn = Some v \<longrightarrow> \<not> vn_busy v \<and> vnode_object (mmobjs st vn))
     \<and> (\<forall>fs vno vn vn'. vnode_is st fs vno vn \<and> vnode_is st fs vno vn' \<longrightarrow> vn = vn')"

text \<open>The allocator returns unused memory, and \<^verbatim>\<open>read_vnode\<close> leaves the identity of the vnode alone.\<close>

definition vnode_env_ok :: "mm_env \<Rightarrow> vnode_env \<Rightarrow> bool" where
  "vnode_env_ok E V \<longleftrightarrow> (\<forall>st vn. mm_inv E st \<and> slab_vnode V st = Some vn \<longrightarrow> mmobjs st vn = None \<and> vnodes st vn = None)
     \<and> (\<forall>vn v. vn_fs (read_vnode V vn v) = vn_fs v \<and> vn_vno (read_vnode V vn v) = vn_vno v)
     \<and> (\<forall>ops. mmo_ops (mmobj_init E ops) = ops \<and> mmo_nrespages (mmobj_init E ops) = 0 \<and> mmo_respages (mmobj_init E ops) = [])"

text \<open>A vnode for a device has the operations of special files.\<close>

definition special_ops :: "vnode \<Rightarrow> bool" where
  "special_ops v \<longleftrightarrow> (vn_mode v = S_IFCHR \<longrightarrow> vn_ops v = bytedev_spec_vops) \<and> (vn_mode v = S_IFBLK \<longrightarrow> vn_ops v = blockdev_spec_vops)"

text \<open>References of other than the resident pages.\<close>

definition active_refs :: "mm \<Rightarrow> objid \<Rightarrow> int" where
  "active_refs st vn = (case mmobjs st vn of None \<Rightarrow> 0 | Some mo \<Rightarrow> mmo_refcount mo - mmo_nrespages mo)"

text \<open>A vnode that keeps its file system in use; a file system itself holds a reference to its root.\<close>

definition vnode_in_use :: "vnode_env \<Rightarrow> nat \<Rightarrow> mm \<Rightarrow> objid \<Rightarrow> bool" where
  "vnode_in_use V fs st vn \<longleftrightarrow> map_option vn_fs (vnodes st vn) = Some fs \<and> (if fs_root V fs = Some vn then 1 else 0) < active_refs st vn"

text \<open>Frames have been freed, and objects have lost the references of these frames and nothing else.\<close>

definition held :: "mmobj option \<Rightarrow> (mmobj_ops \<times> int) option" where
  "held x = map_option (\<lambda>mo. (mmo_ops mo, mmo_refcount mo - mmo_nrespages mo)) x"

definition evicted :: "mm_env \<Rightarrow> pfid set \<Rightarrow> mm \<Rightarrow> mm \<Rightarrow> bool" where
  "evicted E P st st' \<longleftrightarrow> mm_inv E st' \<and> frames st' = frames st |` (- P) \<and> (\<forall>ob. held (mmobjs st' ob) = held (mmobjs st ob))
     \<and> vnodes st' = vnodes st \<and> vnode_inuse_list st' = vnode_inuse_list st \<and> page_mem st' = page_mem st \<and> set (mm_log st) \<subseteq> set (mm_log st')"

text \<open>The resident pages of vnodes, and those of one vnode.\<close>

definition pages_of :: "mm \<Rightarrow> objid set \<Rightarrow> pfid set" where
  "pages_of st A = {pf. \<exists>f ob. frames st pf = Some f \<and> pf_obj f = Some ob \<and> ob \<in> A}"

text \<open>Files accept what is written back, and the pages of files are not pinned.\<close>

definition flushable :: "mm_env \<Rightarrow> mm \<Rightarrow> bool" where
  "flushable E st \<longleftrightarrow> (\<forall>vn off p. fs_cleanpage E vn off p = 0) \<and> pages_of st (dom (vnodes st)) \<subseteq> set (alloc_list st)
     \<and> (\<forall>vn\<in>dom (vnodes st). 0 < active_refs st vn)"

subsection \<open>A concrete table of vnodes\<close>

text \<open>A file with one dirty page; file number 7 is a byte device.\<close>

definition demo_vnode_env :: vnode_env where
  "demo_vnode_env = \<lparr>slab_vnode = (\<lambda>st. List.find (\<lambda>vn. mmobjs st vn = None \<and> vnodes st vn = None) [1, 2, 3]),
     read_vnode = (\<lambda>vn v. if vn_vno v = 7 then v\<lparr>vn_mode := S_IFCHR, vn_devid := 1\<rparr> else v\<lparr>vn_mode := S_IFREG, vn_len := 8192\<rparr>),
     bytedev_lookup = (\<lambda>d. Some d), blockdev_lookup = (\<lambda>d. None), fs_root = (\<lambda>fs. Some 1),
     cd_read = (\<lambda>d. Some (\<lambda>off n. 0)), cd_write = (\<lambda>d. Some (\<lambda>off s. int (length s))), cd_mmap = (\<lambda>d. None), cd_fillpage = (\<lambda>d. None),
     cd_dirtypage = (\<lambda>d. None), cd_cleanpage = (\<lambda>d. None), bd_read_block = (\<lambda>d. True), bd_write_block = (\<lambda>d. True), fs_stat = (\<lambda>vn. None)\<rparr>"

definition demo_vnode_mm :: mm where
  "demo_vnode_mm = (demo_paged vnode_mmobj_ops ((new_frame 1 1 4096)\<lparr>pf_dirty := True\<rparr>))\<lparr>vnode_inuse_list := [1]\<rparr>"

section \<open>Properties of vnodes\<close>

subsection \<open>Getting and putting vnodes\<close>

lemma find_vnode:
  assumes "vnodes_ok st"
  shows "List.find (vnode_is st fs vno) (vnode_inuse_list st) = Some vn \<longleftrightarrow> vnode_is st fs vno vn"
    and "List.find (vnode_is st fs vno) (vnode_inuse_list st) = None \<longleftrightarrow> (\<nexists>vn. vnode_is st fs vno vn)"
proof -
  have mem: "vn \<in> set (vnode_inuse_list st)" if "vnode_is st fs vno vn" for vn
    using assms that by (auto simp: vnodes_ok_def vnode_is_def split: option.splits)
  show none: "List.find (vnode_is st fs vno) (vnode_inuse_list st) = None \<longleftrightarrow> (\<nexists>vn. vnode_is st fs vno vn)"
    using mem by (auto simp: find_None_iff)
  have uni: "a = b" if "vnode_is st fs vno a" "vnode_is st fs vno b" for a b
    using assms that unfolding vnodes_ok_def by blast
  show "List.find (vnode_is st fs vno) (vnode_inuse_list st) = Some vn \<longleftrightarrow> vnode_is st fs vno vn"
    using none uni find_SomeD [of "vnode_is st fs vno" "vnode_inuse_list st"] by (metis not_None_eq)
qed

lemma init_special_ok:
  assumes "vn_mode v = S_IFCHR \<or> vn_mode v = S_IFBLK"
  obtains v' where "init_special_vnode V v = Some v'" "vn_fs v' = vn_fs v" "vn_vno v' = vn_vno v" "vn_busy v' = vn_busy v" "vn_mode v' = vn_mode v"
    "vn_ops v' = (if vn_mode v = S_IFCHR then bytedev_spec_vops else blockdev_spec_vops)"
  using assms that by (cases "vn_mode v") (auto simp: init_special_vnode_def)

text \<open>A new vnode with its object.\<close>

lemma add_vnode_inv:
  assumes inv: "mm_inv E st" and new: "mmobjs st vn = None" and mo: "mmo_respages mo = []" "mmo_nrespages mo = 0" "0 \<le> mmo_refcount mo"
    and v: "\<not> vn_busy v"
  shows "mm_inv E (st\<lparr>mmobjs := (mmobjs st)(vn \<mapsto> mo), vnodes := (vnodes st)(vn \<mapsto> v), vnode_inuse_list := l\<rparr>)" (is "mm_inv E ?st")
proof -
  have "pf_obj f \<noteq> Some vn" if "frames st pf = Some f" for pf f
    using inv new that by (fastforce simp: mm_inv_def objs_ok_def)
  then have "obj_ok ?st vn mo" using mo v by (auto simp: obj_ok_def has_identity_iff)
  moreover have "obj_ok ?st a b" if "mmobjs st a = Some b" for a b
  proof -
    have "a \<noteq> vn" "obj_ok st a b" using that new inv by (auto simp: mm_inv_def objs_ok_def)
    then show ?thesis by (simp add: obj_ok_def has_identity_def)
  qed
  ultimately have "objs_ok ?st" using inv by (auto simp: mm_inv_def objs_ok_def) blast
  then show ?thesis using inv by (simp add: mm_inv_def lists_ok_def hash_ok_def unique_ok_def has_identity_def)
qed

lemma vget_found:
  assumes ok: "vnodes_ok st" and id: "vnode_is st fs vno vn"
  obtains v mo where "vnodes st vn = Some v" "mmobjs st vn = Some mo" "mmo_ops mo = vnode_mmobj_ops" "0 < mmo_refcount mo" "\<not> vn_busy v"
    "vget E V fs vno st = Some (Got vn, ref_state vn mo 1 st)"
proof -
  obtain v where v: "vnodes st vn = Some v" using id by (auto simp: vnode_is_def split: option.splits)
  then have "\<not> vn_busy v \<and> (\<exists>mo. mmobjs st vn = Some mo \<and> mmo_ops mo = vnode_mmobj_ops \<and> 0 < mmo_refcount mo)"
    using ok unfolding vnodes_ok_def vnode_object_def by (fastforce split: option.splits)
  then obtain mo where mo: "mmobjs st vn = Some mo" "mmo_ops mo = vnode_mmobj_ops" "0 < mmo_refcount mo" "\<not> vn_busy v" by blast
  have "vget E V fs vno st = Some (Got vn, ref_state vn mo 1 st)"
    using v mo by (simp add: vget_def vref_def upd_obj_def ref_state_def find_vnode(1) [OF ok, THEN iffD2, OF id])
  with v mo that show thesis by blast
qed

lemma vget_new:
  assumes inv: "mm_inv E st" and ok: "vnodes_ok st" and env: "vnode_env_ok E V" and none: "\<nexists>vn. vnode_is st fs vno vn"
    and vn: "slab_vnode V st = Some vn"
  obtains v mo where "vget E V fs vno st = Some (Got vn, st\<lparr>mmobjs := (mmobjs st)(vn \<mapsto> mo), vnodes := (vnodes st)(vn \<mapsto> v),
      vnode_inuse_list := vn # vnode_inuse_list st\<rparr>)" "mmobjs st vn = None" "vnodes st vn = None" "vn_fs v = fs" "vn_vno v = vno" "\<not> vn_busy v"
    "mmo_ops mo = vnode_mmobj_ops" "mmo_refcount mo = 1" "mmo_nrespages mo = 0" "mmo_respages mo = []"
    "special_ops v"
proof -
  have new: "mmobjs st vn = None" "vnodes st vn = None" using env inv vn by (auto simp: vnode_env_ok_def)
  let ?v = "\<lparr>vn_fs = fs, vn_vno = vno, vn_busy = True, vn_mode = S_IFOTHER, vn_devid = 0, vn_len = 0, vn_ops = fs_vops, vn_cdev = None, vn_bdev = None\<rparr>"
  let ?v1 = "(read_vnode V vn ?v)\<lparr>vn_busy := False\<rparr>" and ?mo = "(mmobj_init E vnode_mmobj_ops)\<lparr>mmo_refcount := 1\<rparr>"
  have v1: "vn_fs ?v1 = fs" "vn_vno ?v1 = vno" "\<not> vn_busy ?v1" using env by (simp_all add: vnode_env_ok_def)
  have mo: "mmo_ops ?mo = vnode_mmobj_ops" "mmo_refcount ?mo = 1" "mmo_nrespages ?mo = 0" "mmo_respages ?mo = []" using env by (simp_all add: vnode_env_ok_def)
  have "\<exists>v2. (if vn_mode ?v1 = S_IFCHR \<or> vn_mode ?v1 = S_IFBLK then init_special_vnode V ?v1 else Some ?v1) = Some v2
    \<and> vn_fs v2 = fs \<and> vn_vno v2 = vno \<and> \<not> vn_busy v2 \<and> special_ops v2"
  proof (cases "vn_mode ?v1 = S_IFCHR \<or> vn_mode ?v1 = S_IFBLK")
    case True
    then obtain v' where "init_special_vnode V ?v1 = Some v'" "vn_fs v' = vn_fs ?v1" "vn_vno v' = vn_vno ?v1" "vn_busy v' = vn_busy ?v1" "vn_mode v' = vn_mode ?v1"
      "vn_ops v' = (if vn_mode ?v1 = S_IFCHR then bytedev_spec_vops else blockdev_spec_vops)"
      by (rule init_special_ok [where v = ?v1 and V = V])
    then show ?thesis using v1 True by (intro exI [of _ v']) (auto simp: special_ops_def)
  next
    case False
    then show ?thesis using v1 by (intro exI [of _ ?v1]) (auto simp: special_ops_def)
  qed
  then obtain v2 where v2: "(if vn_mode ?v1 = S_IFCHR \<or> vn_mode ?v1 = S_IFBLK then init_special_vnode V ?v1 else Some ?v1) = Some v2"
    "vn_fs v2 = fs" "vn_vno v2 = vno" "\<not> vn_busy v2" "special_ops v2" by blast
  have run: "vget E V fs vno st = Some (Got vn, st\<lparr>mmobjs := (mmobjs st)(vn \<mapsto> ?mo), vnodes := (vnodes st)(vn \<mapsto> v2),
      vnode_inuse_list := vn # vnode_inuse_list st\<rparr>)"
    unfolding vget_def find_vnode(2) [OF ok, THEN iffD2, OF none] using vn by (simp only: option.case Let_def v2(1)) (simp add: upd_obj_def)
  show thesis by (rule that [OF run new v2(2-4) mo v2(5)])
qed

lemma vnodes_ok_ref:
  assumes "vnodes_ok st" and "mmobjs st vn = Some mo" and "0 < mmo_refcount mo + d"
  shows "vnodes_ok (ref_state vn mo d st)"
proof -
  have "vnode_object (mmobjs st a) \<Longrightarrow> vnode_object (mmobjs (ref_state vn mo d st) a)" for a
    using assms(2,3) by (cases "a = vn") (simp_all add: vnode_object_def ref_state_def)
  moreover have "vnode_is (ref_state vn mo d st) = vnode_is st" by (simp add: vnode_is_def ref_state_def fun_eq_iff)
  moreover have "vnodes (ref_state vn mo d st) = vnodes st" "vnode_inuse_list (ref_state vn mo d st) = vnode_inuse_list st"
    by (simp_all add: ref_state_def)
  ultimately show ?thesis using assms(1) unfolding vnodes_ok_def by simp
qed

lemma vnodes_ok_new:
  assumes ok: "vnodes_ok st" and new: "vnodes st vn = None" and v: "\<not> vn_busy v" "mmo_ops mo = vnode_mmobj_ops" "0 < mmo_refcount mo"
    and id: "\<nexists>a. vnode_is st (vn_fs v) (vn_vno v) a"
  shows "vnodes_ok (st\<lparr>mmobjs := (mmobjs st)(vn \<mapsto> mo), vnodes := (vnodes st)(vn \<mapsto> v), vnode_inuse_list := vn # vnode_inuse_list st\<rparr>)"
    (is "vnodes_ok ?st")
proof -
  have vis: "vnode_is ?st fs vno a \<longleftrightarrow> (if a = vn then fs = vn_fs v \<and> vno = vn_vno v else vnode_is st fs vno a)" for fs vno a
    by (auto simp: vnode_is_def)
  have "a = b" if h: "vnode_is ?st fs vno a" "vnode_is ?st fs vno b" for a b fs vno
  proof (cases "a = vn \<or> b = vn")
    case True
    then show ?thesis using h id unfolding vis by (auto split: if_splits)
  next
    case False
    then show ?thesis using h ok unfolding vis vnodes_ok_def by auto
  qed
  moreover have "\<not> vn_busy w \<and> vnode_object (mmobjs ?st a)" if "vnodes ?st a = Some w" for a w
    using that v ok by (cases "a = vn") (simp_all add: vnodes_ok_def vnode_object_def)
  moreover have "distinct (vnode_inuse_list ?st)" "set (vnode_inuse_list ?st) = dom (vnodes ?st)" using ok new by (auto simp: vnodes_ok_def)
  ultimately show ?thesis unfolding vnodes_ok_def by blast
qed

lemma vget_ok:
  assumes inv: "mm_inv E st" and ok: "vnodes_ok st" and env: "vnode_env_ok E V"
  shows "\<exists>r st'. vget E V fs vno st = Some (r, st') \<and> mm_inv E st' \<and> vnodes_ok st' \<and> (case r of
      Got vn \<Rightarrow> vnode_is st' fs vno vn \<and> active_refs st' vn = (if vnode_is st fs vno vn then active_refs st vn + 1 else 1)
        \<and> (vnode_is st fs vno vn \<or> (\<exists>v. vnodes st' vn = Some v \<and> special_ops v))
        \<and> (\<forall>vn'. vn' \<noteq> vn \<longrightarrow> vnodes st' vn' = vnodes st vn' \<and> mmobjs st' vn' = mmobjs st vn')
    | NoMemory \<Rightarrow> st' = st \<and> slab_vnode V st = None \<and> (\<nexists>vn. vnode_is st fs vno vn)
    | SleepOn vn \<Rightarrow> False)"
proof (cases "\<exists>vn. vnode_is st fs vno vn")
  case True
  then obtain vn where id: "vnode_is st fs vno vn" by blast
  obtain v mo where g: "vnodes st vn = Some v" "mmobjs st vn = Some mo" "mmo_ops mo = vnode_mmobj_ops" "0 < mmo_refcount mo"
    "vget E V fs vno st = Some (Got vn, ref_state vn mo 1 st)" by (rule vget_found [OF ok id])
  have "mmo_nrespages mo \<le> mmo_refcount mo" using inv g(2) by (auto simp: mm_inv_def objs_ok_def obj_ok_def)
  then have "mm_inv E (ref_state vn mo 1 st)" using inv g(2) by (intro mm_inv_refcount) auto
  moreover have "vnodes_ok (ref_state vn mo 1 st)" using ok g(2,4) by (intro vnodes_ok_ref) auto
  moreover have "vnode_is (ref_state vn mo 1 st) fs vno vn" using id by (simp add: ref_state_def vnode_is_def)
  moreover have "active_refs (ref_state vn mo 1 st) vn = active_refs st vn + 1" using g(2) by (simp add: active_refs_def ref_state_def)
  ultimately show ?thesis using g(5) id by (auto simp: ref_state_def)
next
  case none: False
  show ?thesis
  proof (cases "slab_vnode V st")
    case None
    have "vget E V fs vno st = Some (NoMemory, st)" unfolding vget_def find_vnode(2) [OF ok, THEN iffD2, OF none] using None by simp
    then show ?thesis using None inv ok none by simp
  next
    case (Some vn)
    obtain v mo where n: "vget E V fs vno st = Some (Got vn, st\<lparr>mmobjs := (mmobjs st)(vn \<mapsto> mo), vnodes := (vnodes st)(vn \<mapsto> v),
        vnode_inuse_list := vn # vnode_inuse_list st\<rparr>)" "mmobjs st vn = None" "vnodes st vn = None" "vn_fs v = fs" "vn_vno v = vno" "\<not> vn_busy v"
      "mmo_ops mo = vnode_mmobj_ops" "mmo_refcount mo = 1" "mmo_nrespages mo = 0" "mmo_respages mo = []" "special_ops v"
      by (rule vget_new [OF inv ok env none Some])
    let ?st = "st\<lparr>mmobjs := (mmobjs st)(vn \<mapsto> mo), vnodes := (vnodes st)(vn \<mapsto> v), vnode_inuse_list := vn # vnode_inuse_list st\<rparr>"
    have "mm_inv E ?st" using inv n by (intro add_vnode_inv) auto
    moreover have "vnodes_ok ?st" using ok n none by (intro vnodes_ok_new) auto
    moreover have "vnode_is ?st fs vno vn" using n by (simp add: vnode_is_def)
    moreover have "active_refs ?st vn = 1" using n by (simp add: active_refs_def)
    ultimately show ?thesis using n(1,11) none by (intro exI [of _ "Got vn"] exI [of _ ?st]) auto
  qed
qed

text \<open>
  C35: while no vnode is being read or deleted, \<^verbatim>\<open>vget\<close> returns the vnode of the file: the one there is with one more reference, or a new one with
  one reference and, for a device, with the operations of special files.  It keeps the page cache and the table of vnodes well formed, in which a
  file has one vnode at most, and leaves all other vnodes alone.  Only without memory does it have to try again.
\<close>

theorem vget_correct:
  assumes inv: "mm_inv E st" and ok: "vnodes_ok st" and env: "vnode_env_ok E V"
  shows "\<exists>r st'. vget E V fs vno st = Some (r, st') \<and> mm_inv E st' \<and> vnodes_ok st' \<and> (case r of
      Got vn \<Rightarrow> vnode_is st' fs vno vn \<and> active_refs st' vn = (if vnode_is st fs vno vn then active_refs st vn + 1 else 1)
        \<and> (vnode_is st fs vno vn \<or> (\<exists>v. vnodes st' vn = Some v \<and> special_ops v))
        \<and> (\<forall>vn'. vn' \<noteq> vn \<longrightarrow> vnodes st' vn' = vnodes st vn' \<and> mmobjs st' vn' = mmobjs st vn')
    | NoMemory \<Rightarrow> st' = st \<and> slab_vnode V st = None \<and> (\<nexists>vn. vnode_is st fs vno vn)
    | SleepOn vn \<Rightarrow> False)"
  using assms by (rule vget_ok)

text \<open>
  C36: \<^verbatim>\<open>vput\<close> undoes \<^verbatim>\<open>vget\<close>: afterwards everything is as before, but for the log when a vnode made for the call is deleted again.  The
  exception is a file without links and active references, whose pages \<^verbatim>\<open>vput\<close> gives up.
\<close>

theorem vget_vput_roundtrip:
  assumes inv: "mm_inv E st" and ok: "vnodes_ok st" and env: "vnode_env_ok E V" and got: "vget E V fs vno st = Some (Got vn, st1)"
    and keep: "vnode_is st fs vno vn \<Longrightarrow> 0 < active_refs st vn \<or> query_vnode E (the (vnodes st vn))"
  shows "\<exists>st2. mmo_put L E (Suc n) vn st1 = Some st2 \<and> st2\<lparr>mm_log := mm_log st\<rparr> = st
    \<and> mm_log st2 = mm_log st @ (if vnode_is st fs vno vn then []
        else (if delete_vnode E fs then [VnodeDeleted vn] else []) @ [VnBroadcast vn, ObjFreed vn])"
proof (cases "\<exists>a. vnode_is st fs vno a")
  case True
  then obtain a where id: "vnode_is st fs vno a" by blast
  obtain v mo where g: "vnodes st a = Some v" "mmobjs st a = Some mo" "mmo_ops mo = vnode_mmobj_ops" "0 < mmo_refcount mo" "\<not> vn_busy v"
    "vget E V fs vno st = Some (Got a, ref_state a mo 1 st)" by (rule vget_found [OF ok id])
  then have [simp]: "a = vn" and st1: "st1 = ref_state vn mo 1 st" using got by auto
  have le: "0 \<le> mmo_nrespages mo" "mmo_nrespages mo \<le> mmo_refcount mo" using inv g(2) by (auto simp: mm_inv_def objs_ok_def obj_ok_def)
  have "mmo_nrespages mo < mmo_refcount mo \<or> query_vnode E v" using keep id g by (simp add: active_refs_def)
  moreover have "(mmobjs st)(vn \<mapsto> mo) = mmobjs st" using g(2) by auto
  ultimately have "mmo_put L E (Suc n) vn st1 = Some st"
    using g le unfolding st1 by (auto simp: vput_def upd_obj_def ref_state_def)
  then show ?thesis using id by simp
next
  case none: False
  then obtain a where slab: "slab_vnode V st = Some a"
    using got find_vnode(2) [OF ok, THEN iffD2, OF none] by (cases "slab_vnode V st") (simp_all add: vget_def)
  obtain v mo where n: "vget E V fs vno st = Some (Got a, st\<lparr>mmobjs := (mmobjs st)(a \<mapsto> mo), vnodes := (vnodes st)(a \<mapsto> v),
      vnode_inuse_list := a # vnode_inuse_list st\<rparr>)" "mmobjs st a = None" "vnodes st a = None" "vn_fs v = fs" "vn_vno v = vno" "\<not> vn_busy v"
    "mmo_ops mo = vnode_mmobj_ops" "mmo_refcount mo = 1" "mmo_nrespages mo = 0" "mmo_respages mo = []"
    by (rule vget_new [OF inv ok env none slab])
  have [simp]: "a = vn" and st1: "st1 = st\<lparr>mmobjs := (mmobjs st)(vn \<mapsto> mo), vnodes := (vnodes st)(vn \<mapsto> v),
      vnode_inuse_list := vn # vnode_inuse_list st\<rparr>" using n(1) got by auto
  have "(mmobjs st)(vn := None) = mmobjs st" "(vnodes st)(vn := None) = vnodes st" using n(2,3) by auto
  then show ?thesis using n none unfolding st1 by (auto simp: vput_def upd_obj_def mm_event_def)
qed

lemma in_use_loop_ok:
  assumes "\<And>vn. vn \<in> set vns \<Longrightarrow> \<exists>v mo. vnodes st vn = Some v \<and> mmobjs st vn = Some mo \<and> 0 \<le> mmo_nrespages mo \<and> mmo_nrespages mo \<le> mmo_refcount mo"
    and "\<And>vn. vn \<in> set vns \<Longrightarrow> fs_root V fs = Some vn \<Longrightarrow> 1 \<le> active_refs st vn"
  shows "in_use_loop V fs vns st ret = Some (if \<exists>vn\<in>set vns. vnode_in_use V fs st vn then Inl EBUSY else ret)"
  using assms
proof (induction vns arbitrary: ret)
  case (Cons vn vns)
  have IH: "in_use_loop V fs vns st r = Some (if \<exists>vn\<in>set vns. vnode_in_use V fs st vn then Inl EBUSY else r)" for r
    by (rule Cons.IH) (use Cons.prems in auto)
  obtain v mo where v: "vnodes st vn = Some v" "mmobjs st vn = Some mo" "0 \<le> mmo_nrespages mo" "mmo_nrespages mo \<le> mmo_refcount mo"
    using Cons.prems(1) [of vn] by auto
  have r: "fs_root V fs = Some vn \<Longrightarrow> 1 \<le> mmo_refcount mo - mmo_nrespages mo" using Cons.prems(2) [of vn] v by (simp add: active_refs_def)
  have u: "vnode_in_use V fs st vn \<longleftrightarrow> vn_fs v = fs \<and> (if fs_root V fs = Some vn then 1 else 0) < mmo_refcount mo - mmo_nrespages mo"
    using v by (simp add: vnode_in_use_def active_refs_def)
  show ?case
  proof (cases "vn_fs v = fs")
    case True
    then show ?thesis using v r by (cases "fs_root V fs = Some vn") (simp_all add: IH u Let_def)
  next
    case False
    then show ?thesis using v by (simp add: IH u)
  qed
qed simp

text \<open>
  C37: \<^verbatim>\<open>vfs_is_in_use\<close> reports \<^verbatim>\<open>EBUSY\<close> just when a vnode of the file system has a reference besides those of its resident pages and the one that
  the file system holds to its root.
\<close>

theorem vfs_is_in_use_exact:
  assumes inv: "mm_inv E st" and ok: "vnodes_ok st"
    and root: "\<And>vn. fs_root V fs = Some vn \<Longrightarrow> vn \<in> dom (vnodes st) \<Longrightarrow> 1 \<le> active_refs st vn"
  shows "vfs_is_in_use V fs st = Some (if \<exists>vn. vnode_in_use V fs st vn then Inl EBUSY else Inr ())"
proof -
  have dom: "set (vnode_inuse_list st) = dom (vnodes st)" using ok by (simp add: vnodes_ok_def)
  have "\<exists>v mo. vnodes st vn = Some v \<and> mmobjs st vn = Some mo \<and> 0 \<le> mmo_nrespages mo \<and> mmo_nrespages mo \<le> mmo_refcount mo"
    if m: "vn \<in> set (vnode_inuse_list st)" for vn
  proof -
    obtain v where v: "vnodes st vn = Some v" using m dom by auto
    then obtain mo where mo: "mmobjs st vn = Some mo" using ok by (fastforce simp: vnodes_ok_def vnode_object_def split: option.splits)
    then have "obj_ok st vn mo" using inv by (auto simp: mm_inv_def objs_ok_def)
    with v mo show ?thesis by (auto simp: obj_ok_def)
  qed
  then have "vfs_is_in_use V fs st = Some (if \<exists>vn\<in>set (vnode_inuse_list st). vnode_in_use V fs st vn then Inl EBUSY else Inr ())"
    unfolding vfs_is_in_use_def by (rule in_use_loop_ok) (use root dom in auto)
  moreover have "(\<exists>vn\<in>set (vnode_inuse_list st). vnode_in_use V fs st vn) \<longleftrightarrow> (\<exists>vn. vnode_in_use V fs st vn)"
    unfolding dom by (auto simp: vnode_in_use_def)
  ultimately show ?thesis by simp
qed

subsection \<open>Writing back all vnodes\<close>

lemma vnodes_okD:
  assumes "vnodes_ok st" and "vn \<in> dom (vnodes st)"
  obtains v mo where "vnodes st vn = Some v" "\<not> vn_busy v" "mmobjs st vn = Some mo" "mmo_ops mo = vnode_mmobj_ops" "0 < mmo_refcount mo"
proof -
  obtain v where v: "vnodes st vn = Some v" using assms(2) by auto
  then have "\<not> vn_busy v" "vnode_object (mmobjs st vn)" using assms(1) unfolding vnodes_ok_def by auto
  then show thesis using v that by (auto simp: vnode_object_def split: option.splits)
qed

lemma resident_pages: "mm_inv E st \<Longrightarrow> mmobjs st ob = Some mo \<Longrightarrow> set (mmo_respages mo) = pages_of st {ob}"
  by (fastforce simp: mm_inv_def objs_ok_def obj_ok_def pages_of_def has_identity_iff)

lemma dirty_page_ok:
  assumes inv: "mm_inv E st" and ok: "vnodes_ok st" and vs: "set vs \<subseteq> dom (vnodes st)"
  shows "\<exists>r. dirty_page vs st = Some r \<and> (case r of
      None \<Rightarrow> \<forall>pf\<in>pages_of st (set vs). \<forall>f. frames st pf = Some f \<longrightarrow> \<not> pf_dirty f
    | Some pf \<Rightarrow> pf \<in> pages_of st (set vs) \<and> (\<exists>f. frames st pf = Some f \<and> pf_dirty f))"
  using vs
proof (induction vs)
  case Nil
  then show ?case by (simp add: pages_of_def)
next
  case (Cons vn vs)
  let ?d = "\<lambda>p. map_option pf_dirty (frames st p) = Some True"
  have pages: "pages_of st (set (vn # vs)) = pages_of st {vn} \<union> pages_of st (set vs)" by (auto simp: pages_of_def)
  obtain mo where mo: "mmobjs st vn = Some mo" by (rule vnodes_okD [OF ok]) (use Cons.prems in auto)
  have res: "set (mmo_respages mo) = pages_of st {vn}" by (rule resident_pages [OF inv mo])
  obtain r where r: "dirty_page vs st = Some r" "case r of
      None \<Rightarrow> \<forall>pf\<in>pages_of st (set vs). \<forall>f. frames st pf = Some f \<longrightarrow> \<not> pf_dirty f
    | Some pf \<Rightarrow> pf \<in> pages_of st (set vs) \<and> (\<exists>f. frames st pf = Some f \<and> pf_dirty f)" using Cons by auto
  show ?case
  proof (cases "List.find ?d (mmo_respages mo)")
    case None
    then have "\<forall>pf\<in>pages_of st {vn}. \<forall>f. frames st pf = Some f \<longrightarrow> \<not> pf_dirty f" by (auto simp: find_None_iff res)
    then show ?thesis using None mo r unfolding pages by (cases r) auto
  next
    case (Some p)
    then have "p \<in> pages_of st {vn}" "?d p" using res by (auto simp: find_Some_iff)
    then show ?thesis using Some mo unfolding pages by auto
  qed
qed

lemma clean_accepted:
  assumes "pframe_clean (mmo_cleanpage L E) L E pf st = Some (ret, st')" and "frames st pf = Some f" "pf_obj f = Some vn"
    and "mmobjs st vn = Some mo" "mmo_ops mo = vnode_mmobj_ops" and "\<And>vn off p. fs_cleanpage E vn off p = 0"
  shows "ret = 0"
  using assms by (auto simp: pframe_clean_def set_dirty_def set_busy_def upd_frame_def pframe_remove_from_pts_def mmo_cleanpage_def vcleanpage_def
      mm_event_def Let_def kassert_def split: if_splits)

lemma flush_clean_ok:
  assumes "mm_inv E st" and "quiet st" and "vnodes_ok st" and "flushable E st"
  shows "\<exists>st'. flush_clean L E st = Some st' \<and> mm_inv E st' \<and> quiet st' \<and> alloc_list st' = alloc_list st
    \<and> mmobjs st' = mmobjs st \<and> vnodes st' = vnodes st \<and> vnode_inuse_list st' = vnode_inuse_list st \<and> page_mem st' = page_mem st
    \<and> (\<forall>pf. same_frame (frames st pf) (frames st' pf)) \<and> set (mm_log st) \<subseteq> set (mm_log st')
    \<and> (\<forall>pf. pf \<notin> pages_of st (dom (vnodes st)) \<longrightarrow> frames st' pf = frames st pf)
    \<and> (\<forall>pf\<in>pages_of st (dom (vnodes st)). \<forall>f. frames st' pf = Some f \<longrightarrow> \<not> pf_dirty f)
    \<and> (\<forall>pf\<in>pages_of st (dom (vnodes st)). \<forall>f. frames st pf = Some f \<and> pf_dirty f \<longrightarrow> saved st (mm_log st') f)"
  using assms
proof (induction "dirty_count st" arbitrary: st rule: less_induct)
  case less
  have dom: "set (vnode_inuse_list st) = dom (vnodes st)" using less.prems(3) by (simp add: vnodes_ok_def)
  obtain r where r: "dirty_page (vnode_inuse_list st) st = Some r" "case r of
      None \<Rightarrow> \<forall>pf\<in>pages_of st (dom (vnodes st)). \<forall>f. frames st pf = Some f \<longrightarrow> \<not> pf_dirty f
    | Some pf \<Rightarrow> pf \<in> pages_of st (dom (vnodes st)) \<and> (\<exists>f. frames st pf = Some f \<and> pf_dirty f)"
    using dirty_page_ok [OF less.prems(1,3), of "vnode_inuse_list st"] unfolding dom by blast
  show ?case
  proof (cases r)
    case None
    then have "flush_clean L E st = Some st" using r by (subst flush_clean.simps) simp
    then show ?thesis using less.prems None r(2) by auto
  next
    case (Some pf)
    then have page: "pf \<in> pages_of st (dom (vnodes st))" and "\<exists>f. frames st pf = Some f \<and> pf_dirty f" using r(2) by auto
    moreover from page obtain f vn where g: "frames st pf = Some f" "pf_obj f = Some vn" "vn \<in> dom (vnodes st)" unfolding pages_of_def by blast
    ultimately have f: "frames st pf = Some f" "pf_dirty f" "pf_obj f = Some vn" "vn \<in> dom (vnodes st)" by auto
    have al: "pf \<in> set (alloc_list st)" using less.prems(4) page by (auto simp: flushable_def)
    then have np: "\<not> is_pinned f" using less.prems(1) f(1) by (auto simp: mm_inv_def lists_ok_def)
    obtain mo where mo: "mmobjs st vn = Some mo" "mmo_ops mo = vnode_mmobj_ops" by (rule vnodes_okD [OF less.prems(3) f(4)])
    obtain ret st1 where c: "pframe_clean (mmo_cleanpage L E) L E pf st = Some (ret, st1)" "mm_inv E st1"
      "frames st1 = (frames st)(pf \<mapsto> f\<lparr>pf_dirty := ret < 0, pf_busy := False\<rparr>)" "alloc_list st1 = alloc_list st"
      "mmobjs st1 = mmobjs st" "vnodes st1 = vnodes st" "page_mem st1 = page_mem st" "set (mm_log st) \<subseteq> set (mm_log st1)"
      "0 \<le> ret \<longrightarrow> saved st (mm_log st1) f" "vnode_inuse_list st1 = vnode_inuse_list st"
      by (rule objects.pframe_clean_ok [OF less.prems(1) f(1,2) np])
    have ret: "ret = 0" by (rule clean_accepted [OF c(1) f(1,3) mo]) (use less.prems(4) in \<open>simp add: flushable_def\<close>)
    have same: "same_frame (frames st x) (frames st1 x)" for x using c(3) f(1) by (auto simp: same_frame_def split: option.split)
    have pages: "pages_of st1 A = pages_of st A" for A using c(3) f(1,3) by (auto simp: pages_of_def)
    have smaller: "dirty_count st1 < dirty_count st" by (rule dirty_count_clean [OF less.prems(1) al f(1,2) c(3) _ c(4)]) (use ret in simp)
    have quiet: "quiet st1" using less.prems(2) c(3) by (auto simp: quiet_def)
    have ok: "vnodes_ok st1" using less.prems(3) unfolding vnodes_ok_def vnode_is_def c(5,6,10) .
    have fl: "flushable E st1" using less.prems(4) unfolding flushable_def active_refs_def c(4-6) pages .
    obtain st' where st': "flush_clean L E st1 = Some st'" "mm_inv E st'" "quiet st'" "alloc_list st' = alloc_list st"
      "mmobjs st' = mmobjs st" "vnodes st' = vnodes st" "vnode_inuse_list st' = vnode_inuse_list st" "page_mem st' = page_mem st"
      "\<forall>pf. same_frame (frames st1 pf) (frames st' pf)" "set (mm_log st1) \<subseteq> set (mm_log st')"
      "\<forall>pf. pf \<notin> pages_of st (dom (vnodes st)) \<longrightarrow> frames st' pf = frames st1 pf"
      "\<forall>pf\<in>pages_of st (dom (vnodes st)). \<forall>f. frames st' pf = Some f \<longrightarrow> \<not> pf_dirty f"
      "\<forall>pf\<in>pages_of st (dom (vnodes st)). \<forall>f. frames st1 pf = Some f \<and> pf_dirty f \<longrightarrow> saved st1 (mm_log st') f"
      using less.hyps [OF smaller c(2) quiet ok fl] unfolding c(4-7,10) pages by blast
    have run: "flush_clean L E st = Some st'" using r(1) Some c(1) st'(1) ret by (subst flush_clean.simps) simp
    have sv: "saved st (mm_log st') g" if g: "x \<in> pages_of st (dom (vnodes st))" "frames st x = Some g" "pf_dirty g" for x g
    proof (cases "x = pf")
      case True
      then show ?thesis using c(9) ret g f st'(10) by (auto simp: saved_def)
    next
      case False
      then have "saved st1 (mm_log st') g" using st'(13) g c(3) by simp
      then show ?thesis using c(5,7) by (simp add: saved_def)
    qed
    have sf: "same_frame (frames st x) (frames st' x)" for x using same st'(9) same_frame_trans by blast
    have fr: "frames st' x = frames st x" if "x \<notin> pages_of st (dom (vnodes st))" for x
      using st'(11) that c(3) page by auto
    show ?thesis
      by (intro exI [of _ st'] conjI run st'(2-8,12)) (use sv sf fr st'(10) c(8) in auto)
  qed
qed

lemma evicted_refl: "mm_inv E st \<Longrightarrow> evicted E {} st st"
  by (simp add: evicted_def restrict_map_def)

lemma evicted_trans: "evicted E P st st1 \<Longrightarrow> evicted E Q st1 st2 \<Longrightarrow> evicted E (P \<union> Q) st st2"
  by (auto simp: evicted_def Int_commute)

lemma evicted_pages: "evicted E P st st1 \<Longrightarrow> pages_of st1 A = pages_of st A - P"
  by (auto simp: evicted_def pages_of_def restrict_map_def split: if_splits)

lemma held_Some: "held x = Some (ops, k) \<longleftrightarrow> (\<exists>mo. x = Some mo \<and> mmo_ops mo = ops \<and> mmo_refcount mo - mmo_nrespages mo = k)"
  by (auto simp: held_def)

lemma flush_pages_ok:
  assumes "mm_inv E st" and "quiet st" and "held (mmobjs st vn) = Some (ops, k)" "0 < k" and "distinct ps" "set ps \<subseteq> pages_of st {vn}"
    and "\<And>pf f. pf \<in> set ps \<Longrightarrow> frames st pf = Some f \<Longrightarrow> \<not> is_pinned f \<and> \<not> pf_dirty f"
  shows "\<exists>st'. flush_pages L E (Suc n) ps st = Some st' \<and> evicted E (set ps) st st'"
  using assms
proof (induction ps arbitrary: st)
  case Nil
  then show ?case using evicted_refl by auto
next
  case (Cons pf ps)
  obtain f where f: "frames st pf = Some f" "pf_obj f = Some vn" using Cons.prems(6) by (auto simp: pages_of_def)
  have flags: "\<not> is_pinned f" "\<not> pf_dirty f" "\<not> pf_busy f" using Cons.prems(2,7) f(1) by (auto simp: quiet_def)
  obtain mo where mo: "mmobjs st vn = Some mo" "mmo_ops mo = ops" "mmo_refcount mo - mmo_nrespages mo = k" using Cons.prems(3) by (auto simp: held_Some)
  then have lt: "mmo_nrespages mo < mmo_refcount mo" using Cons.prems(4) by simp
  obtain st1 where s: "pframe_free (mmo_put L E (Suc n)) L E pf st = Some st1" "mm_inv E st1" "frames st1 = (frames st)(pf := None)"
    "mmobjs st1 = (mmobjs st)(vn \<mapsto> mo\<lparr>mmo_nrespages := mmo_nrespages mo - 1, mmo_respages := remove1 pf (mmo_respages mo),
      mmo_refcount := mmo_refcount mo - 1\<rparr>)" "page_mem st1 = page_mem st" "set (mm_log st) \<subseteq> set (mm_log st1)"
    "vnodes st1 = vnodes st" "vnode_inuse_list st1 = vnode_inuse_list st"
    by (rule objects.pframe_free_ok [OF Cons.prems(1) f(1) flags(1,3) f(2) mo(1) lt])
  have rel: "evicted E {pf} st st1" using s mo by (auto simp: evicted_def held_def restrict_map_def fun_eq_iff)
  have "quiet st1" using Cons.prems(2) s(3) by (auto simp: quiet_def split: if_splits)
  moreover have "held (mmobjs st1 vn) = Some (ops, k)" using rel Cons.prems(3) by (simp add: evicted_def)
  moreover have "set ps \<subseteq> pages_of st1 {vn}" using Cons.prems(5,6) evicted_pages [OF rel] by auto
  moreover have "\<not> is_pinned g \<and> \<not> pf_dirty g" if "x \<in> set ps" "frames st1 x = Some g" for x g
    using that Cons.prems(7) [of x g] s(3) by (auto split: if_splits)
  ultimately obtain st' where st': "flush_pages L E (Suc n) ps st1 = Some st'" "evicted E (set ps) st1 st'"
    using Cons.IH [of st1] s(2) Cons.prems(4,5) by auto
  have "evicted E (set (pf # ps)) st st'" using evicted_trans [OF rel st'(2)] by simp
  then show ?case using st'(1) s(1) f(1) flags(2) by simp
qed

lemma flush_vnodes_ok:
  assumes "mm_inv E st" and "quiet st" and "\<And>vn. vn \<in> set vs \<Longrightarrow> \<exists>k. held (mmobjs st vn) = Some (vnode_mmobj_ops, k) \<and> 0 < k" and "distinct vs"
    and "\<And>pf f. pf \<in> pages_of st (set vs) \<Longrightarrow> frames st pf = Some f \<Longrightarrow> \<not> is_pinned f \<and> \<not> pf_dirty f"
  shows "\<exists>st'. flush_vnodes L E (Suc n) vs st = Some st' \<and> evicted E (pages_of st (set vs)) st st'"
  using assms
proof (induction vs arbitrary: st)
  case Nil
  have "pages_of st (set []) = {}" by (simp add: pages_of_def)
  then show ?case using Nil(1) evicted_refl by simp
next
  case (Cons vn vs)
  have pages: "pages_of st (set (vn # vs)) = pages_of st {vn} \<union> pages_of st (set vs)" by (auto simp: pages_of_def)
  have apart: "pages_of st {vn} \<inter> pages_of st (set vs) = {}" using Cons.prems(4) by (auto simp: pages_of_def)
  obtain k where k: "held (mmobjs st vn) = Some (vnode_mmobj_ops, k)" "0 < k" using Cons.prems(3) [of vn] by auto
  then obtain mo where mo: "mmobjs st vn = Some mo" by (auto simp: held_Some)
  have res: "set (mmo_respages mo) = pages_of st {vn}" by (rule resident_pages [OF Cons.prems(1) mo])
  have dist: "distinct (mmo_respages mo)" using Cons.prems(1) mo by (auto simp: mm_inv_def objs_ok_def obj_ok_def)
  obtain st1 where s: "flush_pages L E (Suc n) (mmo_respages mo) st = Some st1" "evicted E (pages_of st {vn}) st st1"
    using flush_pages_ok [OF Cons.prems(1,2) k dist, of L n] Cons.prems(5) unfolding pages res by blast
  have fr: "frames st1 x = Some g \<Longrightarrow> frames st x = Some g" for x g using s(2) by (auto simp: evicted_def restrict_map_def split: if_splits)
  have p1: "pages_of st1 (set vs) = pages_of st (set vs)" using evicted_pages [OF s(2), of "set vs"] apart by auto
  have "mm_inv E st1" using s(2) by (simp add: evicted_def)
  moreover have "quiet st1" using Cons.prems(2) fr by (auto simp: quiet_def)
  moreover have "\<exists>k. held (mmobjs st1 x) = Some (vnode_mmobj_ops, k) \<and> 0 < k" if "x \<in> set vs" for x
    using Cons.prems(3) [of x] that s(2) by (simp add: evicted_def)
  moreover have "\<not> is_pinned g \<and> \<not> pf_dirty g" if "x \<in> pages_of st1 (set vs)" "frames st1 x = Some g" for x g
    using Cons.prems(5) [of x g] that fr unfolding p1 pages by auto
  ultimately obtain st' where st': "flush_vnodes L E (Suc n) vs st1 = Some st'" "evicted E (pages_of st (set vs)) st1 st'"
    using Cons.IH [of st1] Cons.prems(4) unfolding p1 by auto
  have "evicted E (pages_of st (set (vn # vs))) st st'" using evicted_trans [OF s(2) st'(2)] unfolding pages .
  then show ?case using st'(1) s(1) mo by simp
qed

text \<open>
  C38: \<^verbatim>\<open>vnode_flush_all\<close> returns when the files accept what is written back, the pages of vnodes are not pinned and the vnodes are referenced.  Then
  the pages of all vnodes, of whatever file system, are free and no other frame has changed, each dirty page has been written back, and
  every object has the references it had but for those of its pages.
\<close>

theorem vnode_flush_all_correct:
  assumes inv: "mm_inv E st" and quiet: "quiet st" and ok: "vnodes_ok st" and fl: "flushable E st"
  shows "\<exists>st'. vnode_flush_all L E (Suc n) st = Some st' \<and> evicted E (pages_of st (dom (vnodes st))) st st'
    \<and> (\<forall>pf\<in>pages_of st (dom (vnodes st)). \<forall>f. frames st pf = Some f \<and> pf_dirty f \<longrightarrow> saved st (mm_log st') f)"
proof -
  let ?P = "pages_of st (dom (vnodes st))"
  obtain st1 where c: "flush_clean L E st = Some st1" "mm_inv E st1" "quiet st1" "alloc_list st1 = alloc_list st"
    "mmobjs st1 = mmobjs st" "vnodes st1 = vnodes st" "vnode_inuse_list st1 = vnode_inuse_list st" "page_mem st1 = page_mem st"
    "\<forall>pf. same_frame (frames st pf) (frames st1 pf)" "set (mm_log st) \<subseteq> set (mm_log st1)"
    "\<forall>pf. pf \<notin> ?P \<longrightarrow> frames st1 pf = frames st pf" "\<forall>pf\<in>?P. \<forall>f. frames st1 pf = Some f \<longrightarrow> \<not> pf_dirty f"
    "\<forall>pf\<in>?P. \<forall>f. frames st pf = Some f \<and> pf_dirty f \<longrightarrow> saved st (mm_log st1) f"
    using flush_clean_ok [OF inv quiet ok fl, of L] by blast
  have dom: "set (vnode_inuse_list st1) = dom (vnodes st)" "distinct (vnode_inuse_list st1)" using ok c(7) by (auto simp: vnodes_ok_def)
  have pages: "pages_of st1 A = pages_of st A" for A
  proof -
    have "pf \<in> pages_of st1 A \<longleftrightarrow> pf \<in> pages_of st A" for pf
      using c(9) [THEN spec, of pf] by (auto simp: pages_of_def same_frame_def split: option.splits)
    then show ?thesis by blast
  qed
  have "\<exists>k. held (mmobjs st1 vn) = Some (vnode_mmobj_ops, k) \<and> 0 < k" if vn: "vn \<in> set (vnode_inuse_list st1)" for vn
  proof -
    have d: "vn \<in> dom (vnodes st)" using vn dom by simp
    obtain mo where mo: "mmobjs st vn = Some mo" "mmo_ops mo = vnode_mmobj_ops" by (rule vnodes_okD [OF ok d])
    moreover have "0 < active_refs st vn" using fl d unfolding flushable_def by blast
    ultimately show ?thesis using c(5) by (simp add: active_refs_def held_def)
  qed
  moreover have "\<not> is_pinned f \<and> \<not> pf_dirty f" if h: "pf \<in> pages_of st1 (set (vnode_inuse_list st1))" "frames st1 pf = Some f" for pf f
  proof -
    have p: "pf \<in> ?P" using h(1) unfolding pages dom .
    then have "pf \<in> set (alloc_list st1)" using fl c(4) by (auto simp: flushable_def)
    then have "\<not> is_pinned f" using c(2) h(2) by (auto simp: mm_inv_def lists_ok_def)
    then show ?thesis using c(12) p h(2) by blast
  qed
  ultimately obtain st' where st': "flush_vnodes L E (Suc n) (vnode_inuse_list st1) st1 = Some st'" "evicted E ?P st1 st'"
    using flush_vnodes_ok [OF c(2,3) _ dom(2), of L n] unfolding pages dom(1) by blast
  have "frames st1 |` (- ?P) = frames st |` (- ?P)" using c(11) by (auto simp: restrict_map_def)
  then have "evicted E ?P st st'" using st'(2) c(5-8,10) by (auto simp: evicted_def)
  moreover have "vnode_flush_all L E (Suc n) st = Some st'" using c(1) st'(1) by (simp add: vnode_flush_all_def)
  moreover have "saved st (mm_log st') f" if "pf \<in> ?P" "frames st pf = Some f" "pf_dirty f" for pf f
    using c(13) that st'(2) by (fastforce simp: saved_def evicted_def)
  ultimately show ?thesis by blast
qed

subsection \<open>Witnesses and special files\<close>

lemma demo_vnode_env_ok: "vnode_env_ok demo_mm_env demo_vnode_env"
  unfolding vnode_env_ok_def by (auto simp: demo_vnode_env_def demo_mm_env_def split: if_splits)

lemma demo_vnode_mm_ok: "mm_inv demo_mm_env demo_vnode_mm" "quiet demo_vnode_mm" "vnodes_ok demo_vnode_mm" "flushable demo_mm_env demo_vnode_mm"
proof -
  note d = demo_dirty [OF refl]
  show "mm_inv demo_mm_env demo_vnode_mm" unfolding demo_vnode_mm_def by (rule mm_inv_cong [OF d(1)]) simp_all
  show "quiet demo_vnode_mm" using d(2) by (simp add: quiet_def demo_vnode_mm_def)
  show "vnodes_ok demo_vnode_mm"
    by (auto simp: vnodes_ok_def demo_vnode_mm_def demo_paged_def vnode_object_def vnode_is_def split: if_splits option.splits)
  show "flushable demo_mm_env demo_vnode_mm"
    by (auto simp: flushable_def demo_vnode_mm_def demo_paged_def demo_mm_env_def pages_of_def active_refs_def is_pinned_def new_frame_def split: if_splits)
qed

lemma demo_vget: "\<exists>st1. vget demo_mm_env demo_vnode_env 0 7 demo_vnode_mm = Some (Got 2, st1)" "\<not> vnode_is demo_vnode_mm 0 7 2"
  by (simp_all add: vget_def vnode_is_def demo_vnode_mm_def demo_paged_def demo_vnode_env_def init_special_vnode_def upd_obj_def Let_def)

theorem vget_correct_witness:
  "\<exists>st'. vget demo_mm_env demo_vnode_env 0 7 demo_vnode_mm = Some (Got 2, st') \<and> mm_inv demo_mm_env st' \<and> vnodes_ok st'
    \<and> vnode_is st' 0 7 2 \<and> active_refs st' 2 = 1"
proof -
  obtain st' where g: "vget demo_mm_env demo_vnode_env 0 7 demo_vnode_mm = Some (Got 2, st')" using demo_vget(1) by blast
  show ?thesis using vget_correct [OF demo_vnode_mm_ok(1,3) demo_vnode_env_ok, of 0 7] demo_vget(2) unfolding g by auto
qed

theorem vget_vput_roundtrip_witness:
  "\<exists>st1 st2. vget demo_mm_env demo_vnode_env 0 7 demo_vnode_mm = Some (Got 2, st1) \<and> mmo_put demo_layout demo_mm_env 1 2 st1 = Some st2
    \<and> st2\<lparr>mm_log := mm_log demo_vnode_mm\<rparr> = demo_vnode_mm"
proof -
  obtain st1 where g: "vget demo_mm_env demo_vnode_env 0 7 demo_vnode_mm = Some (Got 2, st1)" using demo_vget(1) by blast
  show ?thesis
    using vget_vput_roundtrip [OF demo_vnode_mm_ok(1,3) demo_vnode_env_ok g, of demo_layout 0] g demo_vget(2) unfolding One_nat_def by blast
qed

theorem vfs_is_in_use_exact_witness:
  "vfs_is_in_use demo_vnode_env 0 demo_vnode_mm = Some (Inr ())"
proof -
  have "\<not> vnode_in_use demo_vnode_env 0 demo_vnode_mm vn" for vn
    by (simp add: vnode_in_use_def demo_vnode_mm_def demo_paged_def demo_vnode_env_def active_refs_def)
  moreover have "1 \<le> active_refs demo_vnode_mm vn" if "fs_root demo_vnode_env 0 = Some vn" for vn
    using that by (simp add: demo_vnode_mm_def demo_paged_def demo_vnode_env_def active_refs_def)
  ultimately show ?thesis using vfs_is_in_use_exact [OF demo_vnode_mm_ok(1,3), of demo_vnode_env 0] by simp
qed

theorem vnode_flush_all_correct_witness:
  "\<exists>st'. vnode_flush_all demo_layout demo_mm_env 1 demo_vnode_mm = Some st' \<and> frames st' = Map.empty \<and> WrittenBack 1 1 [] \<in> set (mm_log st')"
proof -
  obtain st' where st': "vnode_flush_all demo_layout demo_mm_env 1 demo_vnode_mm = Some st'"
    "evicted demo_mm_env (pages_of demo_vnode_mm (dom (vnodes demo_vnode_mm))) demo_vnode_mm st'"
    "\<forall>pf\<in>pages_of demo_vnode_mm (dom (vnodes demo_vnode_mm)). \<forall>f. frames demo_vnode_mm pf = Some f \<and> pf_dirty f \<longrightarrow> saved demo_vnode_mm (mm_log st') f"
    using vnode_flush_all_correct [OF demo_vnode_mm_ok, of demo_layout 0] unfolding One_nat_def by blast
  have p: "pages_of demo_vnode_mm (dom (vnodes demo_vnode_mm)) = {0}"
    by (auto simp: pages_of_def demo_vnode_mm_def demo_paged_def new_frame_def split: if_splits)
  have f: "frames demo_vnode_mm = [0 \<mapsto> (new_frame 1 1 4096)\<lparr>pf_dirty := True\<rparr>]" by (simp add: demo_vnode_mm_def demo_paged_def)
  have "frames st' = Map.empty" using st'(2) unfolding evicted_def p f by (simp add: restrict_map_def fun_eq_iff)
  moreover have "saved demo_vnode_mm (mm_log st') ((new_frame 1 1 4096)\<lparr>pf_dirty := True\<rparr>)" using st'(3) unfolding p f by simp
  then have "WrittenBack 1 1 [] \<in> set (mm_log st')" by (simp add: saved_def demo_vnode_mm_def demo_paged_def demo_mm_def new_frame_def)
  ultimately show ?thesis using st'(1) by blast
qed

text \<open>
  \<^verbatim>\<open>vget\<close> wakes up nobody: a thread that went to sleep on a vnode that was being read is not told when that is done.
\<close>

theorem vget_no_wakeup:
  assumes "vget E V fs vno st = Some (r, st')"
  shows "mm_log st' = mm_log st"
  using assms by (auto simp: vget_def vref_def upd_obj_def kassert_def Let_def bind_eq_Some_conv split: option.splits if_splits)

text \<open>What a byte device's \<^verbatim>\<open>fillpage\<close> and \<^verbatim>\<open>cleanpage\<close> report is lost: the operations of a special file return \<open>0\<close> whenever they return.\<close>

theorem special_errors_dropped: "special_file_fillpage V file off p = Some (r, q) \<Longrightarrow> r = 0" and "special_file_cleanpage V file off p = Some r \<Longrightarrow> r = 0"
    and "special_file_dirtypage V file off = Some r \<Longrightarrow> r = 0" and "special_file_mmap V file vma = Some (r, ob) \<Longrightarrow> r = 0"
  by (auto simp: special_file_fillpage_def special_file_cleanpage_def special_file_dirtypage_def special_file_mmap_def bind_eq_Some_conv)

text \<open>Reading and writing a special file whose vnode has been set up goes to the byte device with its number; block devices are not supported.\<close>

theorem special_file_read_write:
  assumes "init_special_vnode V v = Some v'"
  shows "vn_mode v = S_IFCHR \<Longrightarrow> special_file_read V v' off n = Option.bind (bytedev_lookup V (vn_devid v)) (\<lambda>d. map_option (\<lambda>rd. Inr (rd off n)) (cd_read V d))"
    and "vn_mode v = S_IFCHR \<Longrightarrow> special_file_write V v' off s = Option.bind (bytedev_lookup V (vn_devid v)) (\<lambda>d. map_option (\<lambda>wr. Inr (wr off s)) (cd_write V d))"
    and "vn_mode v \<noteq> S_IFCHR \<Longrightarrow> special_file_read V v' off n = Some r \<Longrightarrow> r = Inl ENOTSUP"
    and "vn_mode v \<noteq> S_IFCHR \<Longrightarrow> special_file_write V v' off s = Some r \<Longrightarrow> r = Inl ENOTSUP"
  using assms by (auto simp: init_special_vnode_def special_file_read_def special_file_write_def kassert_def bind_eq_Some_conv map_conv_bind_option o_def
      split: if_splits)

end
