(* ===== verification/Page_Cache.thy ===== *)
theory Page_Cache
  imports Fork Vnode
begin

section \<open>The states of the page cache\<close>

text \<open>
  The operations on page frames, memory objects and vnodes as the steps of a transition system, in the order in which threads happen to
  call them.  A step is a call that returns; a call that would fail an assertion is not a step.  Who gives a reference to an object back must have
  one (\<open>put\<close>, \<open>migrate\<close>): the object has more references than resident pages.  It may be the last one, and \<^verbatim>\<open>put\<close> then frees the pages of
  the object through nested calls, an anonymous object, and a vnode with its object; likewise freeing a page (\<open>free\<close>), whose own reference it gives
  back, may free the vnode of a file that nobody has open.  Cleaning all pages, flushing vnodes, paging out and the shutdown are sequences of
  these steps.  \<open>set_shadowed\<close> stands for the assignments in \<^verbatim>\<open>vmmap_map\<close> and \<^verbatim>\<open>do_fork\<close> that make chains of shadow objects.

  The invariant \<open>mm_inv\<close> of the page cache and \<open>vnodes_ok\<close> of the table of vnodes hold in every state that is reached from the start of the
  kernel; there is one lemma for each kind of step.  The contract \<open>giving_back\<close> says of a \<^verbatim>\<open>put\<close> operation that it keeps the invariant and creates no
  object; the loops that free pages are proved against it, and \<open>mmo_put\<close> meets it at every depth of its recursion.
\<close>

inductive cache_step :: "layout \<Rightarrow> mm_env \<Rightarrow> vnode_env \<Rightarrow> mm \<Rightarrow> mm \<Rightarrow> bool" for L E V where
  create_anon: "mmobjs st ob = None \<Longrightarrow> vnodes st ob = None \<Longrightarrow> anon_create E (Some ob) st = (r, st') \<Longrightarrow> cache_step L E V st st'"
| create_shadow: "mmobjs st ob = None \<Longrightarrow> vnodes st ob = None \<Longrightarrow> shadow_create E (Some ob) st = Some (ob', st') \<Longrightarrow> cache_step L E V st st'"
| get_vnode: "vget E V fs vno st = Some (r, st') \<Longrightarrow> cache_step L E V st st'"
| ref: "mmo_ref ob st = Some st' \<Longrightarrow> cache_step L E V st st'"
| put: "mmobjs st ob = Some mo \<Longrightarrow> mmo_nrespages mo < mmo_refcount mo \<Longrightarrow> mmo_put L E n ob st = Some st' \<Longrightarrow> cache_step L E V st st'"
| set_shadowed: "upd_obj ob (\<lambda>mo. mo\<lparr>mmo_shadowed := below, mmo_bottom_obj := bottom\<rparr>) st = Some st' \<Longrightarrow> cache_step L E V st st'"
| get: "pframe_get L E n ob pagenum st = Some (ret, pf, st') \<Longrightarrow> cache_step L E V st st'"
| lookup: "pframe_lookup L E ob pagenum forwrite st = Some (r, st') \<Longrightarrow> cache_step L E V st st'"
| write_page: "cache_step L E V st (st\<lparr>page_mem := m\<rparr>)"
| pin: "pframe_pin pf st = Some st' \<Longrightarrow> cache_step L E V st st'"
| unpin: "pframe_unpin pf st = Some st' \<Longrightarrow> cache_step L E V st st'"
| dirty: "pframe_dirty (mmo_dirtypage L E) pf st = Some (ret, st') \<Longrightarrow> cache_step L E V st st'"
| clean: "pframe_clean (mmo_cleanpage L E) L E pf st = Some (ret, st') \<Longrightarrow> cache_step L E V st st'"
| free: "pframe_free (mmo_put L E n) L E pf st = Some st' \<Longrightarrow> cache_step L E V st st'"
| migrate: "frames st pf = Some f \<Longrightarrow> pf_obj f = Some src \<Longrightarrow> mmobjs st src = Some mo \<Longrightarrow> mmo_nrespages mo < mmo_refcount mo
    \<Longrightarrow> pframe_migrate mmo_ref (mmo_put L E n) (mmo_cleanpage L E) L E pf dest st = Some st' \<Longrightarrow> cache_step L E V st st'"

text \<open>The kernel starts with nothing in memory.\<close>

definition no_objects :: "mm \<Rightarrow> bool" where
  "no_objects st \<longleftrightarrow> frames st = Map.empty \<and> mmobjs st = Map.empty \<and> vnodes st = Map.empty \<and> pframe_hash st = (\<lambda>h. [])
     \<and> shadow_num st = 0"

inductive cache_reachable :: "layout \<Rightarrow> mm_env \<Rightarrow> vnode_env \<Rightarrow> mm \<Rightarrow> bool" for L E V where
  start: "no_objects st \<Longrightarrow> pframe_init E True (vnode_init st) = Some st' \<Longrightarrow> cache_reachable L E V st'"
| step: "cache_reachable L E V st \<Longrightarrow> cache_step L E V st st' \<Longrightarrow> cache_reachable L E V st'"

definition cache_inv :: "mm_env \<Rightarrow> mm \<Rightarrow> bool" where
  "cache_inv E st \<longleftrightarrow> mm_inv E st \<and> vnodes_ok st"

text \<open>An operation that keeps the invariant and the counter of \<open>shadow_put\<close>, creates no object and turns none into one of another kind.\<close>

definition shrinks :: "mm_env \<Rightarrow> mm \<Rightarrow> mm \<Rightarrow> bool" where
  "shrinks E st st' \<longleftrightarrow> cache_inv E st' \<and> shadow_num st' = shadow_num st
     \<and> (\<forall>ob mo'. mmobjs st' ob = Some mo' \<longrightarrow> map_option mmo_ops (mmobjs st ob) = Some (mmo_ops mo'))"

text \<open>A page has moved to another object.\<close>

definition move_frame :: "mm_env \<Rightarrow> pfid \<Rightarrow> pframe \<Rightarrow> objid \<Rightarrow> mmobj \<Rightarrow> objid \<Rightarrow> mmobj \<Rightarrow> mm \<Rightarrow> mm" where
  "move_frame E pf f src mo dest md st = st\<lparr>frames := (frames st)(pf \<mapsto> f\<lparr>pf_obj := Some dest\<rparr>),
     pframe_hash := (\<lambda>h. (if h = hash_page E dest (pf_pagenum f) then [pf] else []) @ remove1 pf (pframe_hash st h)),
     mmobjs := (mmobjs st)(
       src \<mapsto> mo\<lparr>mmo_respages := remove1 pf (mmo_respages mo), mmo_nrespages := mmo_nrespages mo - 1, mmo_refcount := mmo_refcount mo - 1\<rparr>,
       dest \<mapsto> md\<lparr>mmo_respages := pf # mmo_respages md, mmo_nrespages := mmo_nrespages md + 1, mmo_refcount := mmo_refcount md + 1\<rparr>)\<rparr>"

text \<open>A kernel that has not started yet.\<close>

definition demo_booted :: mm where
  "demo_booted = demo_mm\<lparr>mmobjs := Map.empty\<rparr>"

section \<open>Preservation of the invariant\<close>

lemma start_inv:
  assumes "no_objects st" and "pframe_init E slab (vnode_init st) = Some st'"
  shows "cache_inv E st' \<and> shadow_num st' = 0"
proof -
  have st': "frames st' = Map.empty" "mmobjs st' = Map.empty" "vnodes st' = Map.empty" "vnode_inuse_list st' = []" "alloc_list st' = []" "pinned_list st' = []"
    "nallocated st' = 0" "npinned st' = 0" "pframe_hash st' = (\<lambda>h. [])" "shadow_num st' = 0"
    using assms by (auto simp: no_objects_def pframe_init_def vnode_init_def Let_def kassert_def split: if_splits)
  have "mm_inv E st'" using st' by (simp add: mm_inv_def lists_ok_def hash_ok_def objs_ok_def unique_ok_def has_identity_iff)
  moreover have "vnodes_ok st'" using st' by (simp add: vnodes_ok_def vnode_is_def)
  ultimately show ?thesis using st' by (simp add: cache_inv_def)
qed

text \<open>The table of vnodes depends on few fields only.\<close>

lemma vnodes_ok_mono:
  assumes "vnodes_ok st" and "vnodes st' = vnodes st" and "vnode_inuse_list st' = vnode_inuse_list st"
    and "\<And>vn. vnode_object (mmobjs st vn) \<Longrightarrow> vnode_object (mmobjs st' vn)"
  shows "vnodes_ok st'"
proof -
  have "vnode_is st' = vnode_is st" using assms(2) by (simp add: vnode_is_def fun_eq_iff)
  then show ?thesis using assms unfolding vnodes_ok_def by simp
qed

lemma extends_cache_inv:
  assumes "cache_inv E st" and "extends E st st'"
  shows "cache_inv E st'"
proof -
  have "vnodes_ok st'"
  proof (rule vnodes_ok_mono [of st])
    show "vnode_object (mmobjs st' vn)" if "vnode_object (mmobjs st vn)" for vn
    proof -
      have "same_object (mmobjs st vn) (mmobjs st' vn)" using assms(2) by (simp add: extends_def)
      then show ?thesis using that by (auto simp: same_object_def vnode_object_def split: option.splits)
    qed
  qed (use assms in \<open>simp_all add: cache_inv_def extends_def\<close>)
  then show ?thesis using assms(2) by (simp add: cache_inv_def extends_def)
qed

lemma create_inv:
  assumes inv: "cache_inv E st" and new: "mmobjs st ob = None" "vnodes st ob = None" and env: "vnode_env_ok E V" and ops: "ops \<noteq> vnode_mmobj_ops"
  shows "cache_inv E (st\<lparr>mmobjs := (mmobjs st)(ob \<mapsto> (mmobj_init E ops)\<lparr>mmo_refcount := 1\<rparr>)\<rparr>)"
proof -
  have "mm_inv E (st\<lparr>mmobjs := (mmobjs st)(ob \<mapsto> (mmobj_init E ops)\<lparr>mmo_refcount := 1\<rparr>)\<rparr>)"
    using inv new env ops by (intro mm_inv_add_object) (auto simp: cache_inv_def vnode_env_ok_def)
  moreover have "vnodes_ok (st\<lparr>mmobjs := (mmobjs st)(ob \<mapsto> (mmobj_init E ops)\<lparr>mmo_refcount := 1\<rparr>)\<rparr>)"
    by (rule vnodes_ok_mono [of st]) (use inv new in \<open>auto simp: cache_inv_def vnode_object_def\<close>)
  ultimately show ?thesis by (simp add: cache_inv_def)
qed

lemma mm_inv_object: "mm_inv E st \<Longrightarrow> mmobjs st ob = Some mo \<Longrightarrow> 0 \<le> mmo_nrespages mo \<and> mmo_nrespages mo \<le> mmo_refcount mo \<and> vnode_ready st ob mo"
  by (auto simp: mm_inv_def objs_ok_def obj_ok_def vnode_ready_def)

lemma lookup_extends:
  assumes fresh: "alloc_fresh E" and inv: "mm_inv E st" and run: "pframe_lookup L E ob pagenum forwrite st = Some (r, st')"
  shows "extends E st st'"
proof -
  have get: "extends E s s'" if "mm_inv E s" "pframe_get L E n x k s = Some (ret, pf, s')" for n x k s ret pf s'
    using pframe_get_extends [OF fresh that] by blast
  obtain mo where mo: "mmobjs st ob = Some mo" using run by (auto simp: pframe_lookup_def split: Option.bind_splits)
  show ?thesis
  proof (cases "mmo_ops mo")
    case anon_mmobj_ops
    then obtain ret pf where "pframe_get L E 1 ob pagenum st = Some (ret, pf, st')"
      using run mo by (auto simp: pframe_lookup_def anon_lookuppage_def bind_eq_Some_conv simp del: pframe_get.simps One_nat_def)
    then show ?thesis by (rule get [OF inv])
  next
    case vnode_mmobj_ops
    then have "st' = st \<or> (\<exists>ret pf. pframe_get L E 1 ob pagenum st = Some (ret, pf, st'))"
      using run mo by (auto simp: pframe_lookup_def vlookuppage_def bind_eq_Some_conv simp del: pframe_get.simps One_nat_def split: if_splits)
    then show ?thesis using get [OF inv] extends_refl [OF inv] by blast
  next
    case shadow_mmobj_ops
    then have run': "shadow_lookuppage L E ob pagenum forwrite st = Some (r, st')" using run mo by (simp add: pframe_lookup_def)
    then obtain c where c: "chain_find ob pagenum st = Some c" by (auto simp: shadow_lookuppage_def bind_eq_Some_conv)
    have "\<exists>st1. (st1 = st \<or> (\<exists>b ret pf. pframe_get L E 2 b pagenum st = Some (ret, pf, st1)))
      \<and> (st' = st1 \<or> (\<exists>ret pf. pframe_get L E 2 ob pagenum st1 = Some (ret, pf, st')))"
      using run' c by (cases c) (auto simp: shadow_lookuppage_def bind_eq_Some_conv simp del: pframe_get.simps split: if_splits; blast)+
    then obtain st1 where l: "extends E st st1" "st' = st1 \<or> (\<exists>ret pf. pframe_get L E 2 ob pagenum st1 = Some (ret, pf, st'))"
      using get [OF inv] extends_refl [OF inv] by blast
    then have "mm_inv E st1" by (simp add: extends_def)
    then show ?thesis using l get extends_trans by blast
  qed
qed

text \<open>Operations on one frame leave objects and vnodes alone.\<close>

lemma frame_cache_inv:
  assumes "cache_inv E st" and "mm_inv E st'" and "mmobjs st' = mmobjs st" and "vnodes st' = vnodes st" and "vnode_inuse_list st' = vnode_inuse_list st"
  shows "cache_inv E st'"
  using assms vnodes_ok_mono [of st st'] by (simp add: cache_inv_def)

lemma no_frame: "cache_inv E st \<Longrightarrow> frames st pf = None \<Longrightarrow> pf \<notin> set (alloc_list st) \<and> pf \<notin> set (pinned_list st)"
  by (auto simp: cache_inv_def mm_inv_def lists_ok_def)

lemma pin_inv:
  assumes inv: "cache_inv E st" and run: "pframe_pin pf st = Some st'"
  shows "cache_inv E st'"
proof (cases "frames st pf")
  case None
  then show ?thesis using inv run no_frame [OF inv] by (simp add: pframe_pin_def)
next
  case (Some f)
  obtain al pl na np where p: "pframe_pin pf st = Some (repin pf f (pf_pincount f + 1) al pl na np st)"
    "mm_inv E (repin pf f (pf_pincount f + 1) al pl na np st)" by (rule pframe_pin_ok [OF _ Some]) (use inv in \<open>auto simp: cache_inv_def\<close>)
  then have "st' = repin pf f (pf_pincount f + 1) al pl na np st" using run by simp
  then show ?thesis using p(2) inv by (intro frame_cache_inv [OF inv]) (auto simp: repin_def)
qed

lemma unpin_inv:
  assumes inv: "cache_inv E st" and run: "pframe_unpin pf st = Some st'"
  shows "cache_inv E st'"
proof (cases "frames st pf")
  case None
  then show ?thesis using inv run no_frame [OF inv] by (simp add: pframe_unpin_def)
next
  case (Some f)
  have mm: "mm_inv E st" using inv by (simp add: cache_inv_def)
  show ?thesis
  proof (cases "pf_pincount f \<le> 1")
    case True
    obtain al pl na np where p: "pframe_unpin pf st = Some (repin pf f 0 al pl na np st)" "mm_inv E (repin pf f 0 al pl na np st)"
      by (rule pframe_unpin_ok [OF mm Some True])
    then have "st' = repin pf f 0 al pl na np st" using run by simp
    then show ?thesis using p(2) by (intro frame_cache_inv [OF inv]) (auto simp: repin_def)
  next
    case False
    then have on: "is_pinned f" "pf \<in> set (pinned_list st)" using frame_on_list(1) [OF mm Some] by (auto simp: is_pinned_def)
    let ?st = "repin pf f (pf_pincount f - 1) (alloc_list st) (pinned_list st) (nallocated st) (npinned st) st"
    have "st' = ?st" using run on(2) Some False by (auto simp: pframe_unpin_def upd_frame_def repin_def)
    moreover have "mm_inv E ?st"
      using mm frame_on_list [OF mm Some] on False by (intro mm_inv_repin [OF mm Some]) (auto simp: mm_inv_def lists_ok_def)
    ultimately show ?thesis by (intro frame_cache_inv [OF inv]) (auto simp: repin_def)
  qed
qed

lemma flags_inv:
  assumes inv: "cache_inv E st" and f: "frames st pf = Some f" and g: "pf_obj g = pf_obj f" "pf_pagenum g = pf_pagenum f" "pf_addr g = pf_addr f"
    "pf_pincount g = pf_pincount f"
  shows "cache_inv E (st\<lparr>frames := (frames st)(pf \<mapsto> g), mm_log := l\<rparr>)"
proof -
  have "mm_inv E (st\<lparr>frames := (frames st)(pf \<mapsto> g)\<rparr>)" using inv by (intro mm_inv_flags [OF _ f]) (use g in \<open>simp_all add: cache_inv_def\<close>)
  then have "mm_inv E (st\<lparr>frames := (frames st)(pf \<mapsto> g), mm_log := l\<rparr>)" by (rule mm_inv_cong) simp_all
  then show ?thesis by (intro frame_cache_inv [OF inv]) simp_all
qed

lemma dirty_inv:
  assumes inv: "cache_inv E st" and run: "pframe_dirty (mmo_dirtypage L E) pf st = Some (ret, st')"
  shows "cache_inv E st'"
proof -
  obtain f where f: "frames st pf = Some f" using run by (auto simp: pframe_dirty_def split: Option.bind_splits)
  let ?g = "if ret = 0 then f\<lparr>pf_dirty := True, pf_busy := False\<rparr> else f\<lparr>pf_busy := False\<rparr>"
  have st': "st' = st\<lparr>frames := (frames st)(pf \<mapsto> ?g), mm_log := mm_log st @ [PfBroadcast pf]\<rparr>"
    using run f by (auto simp: pframe_dirty_def set_busy_def set_dirty_def upd_frame_def mm_event_def bind_eq_Some_conv kassert_def split: if_splits)
  show ?thesis unfolding st' by (rule flags_inv [OF inv f]) simp_all
qed

lemma clean_inv:
  assumes inv: "cache_inv E st" and run: "pframe_clean (mmo_cleanpage L E) L E pf st = Some (ret, st')"
  shows "cache_inv E st'"
proof -
  have mm: "mm_inv E st" using inv by (simp add: cache_inv_def)
  obtain f where f: "frames st pf = Some f" "pf_dirty f" "\<not> is_pinned f"
    using run by (auto simp: pframe_clean_def is_pinned_def kassert_def split: Option.bind_splits if_splits)
  obtain r s where c: "pframe_clean (mmo_cleanpage L E) L E pf st = Some (r, s)" "mm_inv E s" "mmobjs s = mmobjs st" "vnodes s = vnodes st"
    "vnode_inuse_list s = vnode_inuse_list st" by (rule objects.pframe_clean_ok [OF mm f])
  then show ?thesis using run frame_cache_inv [OF inv, of st'] by simp
qed

text \<open>Giving references back.\<close>

lemma shrinks_refl: "cache_inv E st \<Longrightarrow> shrinks E st st"
  by (simp add: shrinks_def)

lemma shrinks_trans: "shrinks E st st1 \<Longrightarrow> shrinks E st1 st2 \<Longrightarrow> shrinks E st st2"
  unfolding shrinks_def by (metis map_option_eq_Some)

lemma shrinks_inv: "shrinks E st st' \<Longrightarrow> cache_inv E st'" "shrinks E st st' \<Longrightarrow> shadow_num st' = shadow_num st"
  by (simp_all add: shrinks_def)

lemma counters_inv:
  assumes inv: "cache_inv E st"
  shows "cache_inv E (st\<lparr>anon_temp_c := c, shadow_num := d\<rparr>)"
proof -
  have "mm_inv E st" using inv by (simp add: cache_inv_def)
  then have "mm_inv E (st\<lparr>anon_temp_c := c, shadow_num := d\<rparr>)" by (rule mm_inv_cong) simp_all
  then show ?thesis by (rule frame_cache_inv [OF inv]) simp_all
qed

lemma counter_inv [simp]: "cache_inv E st \<Longrightarrow> cache_inv E (st\<lparr>anon_temp_c := c\<rparr>)" "cache_inv E st \<Longrightarrow> cache_inv E (st\<lparr>shadow_num := d\<rparr>)"
  using counters_inv [of E st "shadow_num st" c] counters_inv [of E st d "anon_temp_c st"] by simp_all

lemma unpin_sel:
  assumes "pframe_unpin pf st = Some st'"
  shows "mmobjs st' = mmobjs st" "shadow_num st' = shadow_num st" "anon_temp_c st' = anon_temp_c st"
  using assms by (auto simp: pframe_unpin_def unlink_frame_def Let_def bind_eq_Some_conv frame_upd split: if_splits)

text \<open>A reference to an object that is not a vnode's, the last one included.\<close>

lemma ref_state_shrinks:
  assumes inv: "cache_inv E st" and mo: "mmobjs st ob = Some mo" "mmo_nrespages mo \<le> mmo_refcount mo + d"
    and d: "mmo_ops mo \<noteq> vnode_mmobj_ops \<or> 0 < mmo_refcount mo + d"
  shows "shrinks E st (ref_state ob mo d st)"
proof -
  have "vnodes_ok (ref_state ob mo d st)"
    by (rule vnodes_ok_mono [of st]) (use inv mo d in \<open>auto simp: cache_inv_def ref_state_def vnode_object_def\<close>)
  then show ?thesis using inv mo mm_inv_refcount [of E st ob mo d] by (auto simp: shrinks_def cache_inv_def ref_state_def)
qed

text \<open>Objects that have no pages can go: an anonymous one, and a vnode's together with the vnode.\<close>

lemma drop_object_shrinks:
  assumes inv: "cache_inv E st" and mo: "mmobjs st ob = Some mo" "mmo_respages mo = []" "mmo_ops mo \<noteq> vnode_mmobj_ops"
  shows "shrinks E st (mm_event e (st\<lparr>mmobjs := (mmobjs st)(ob := None)\<rparr>))"
proof -
  have "vnodes_ok (mm_event e (st\<lparr>mmobjs := (mmobjs st)(ob := None)\<rparr>))"
    by (rule vnodes_ok_mono [of st]) (use inv mo in \<open>auto simp: cache_inv_def vnode_object_def\<close>)
  then show ?thesis using inv mm_inv_drop_object [OF _ mo(1,2)] by (auto simp: shrinks_def cache_inv_def)
qed

lemma forget_vnode_shrinks:
  assumes inv: "cache_inv E st" and mo: "mmobjs st ob = Some mo" "mmo_respages mo = []"
  shows "shrinks E st (forget_vnode ob ev st)"
proof -
  have ok: "vnodes_ok st" using inv by (simp add: cache_inv_def)
  have ident: "vnode_is (forget_vnode ob ev st) fs vno vn \<longleftrightarrow> vn \<noteq> ob \<and> vnode_is st fs vno vn" for fs vno vn
    by (simp add: vnode_is_def forget_vnode_def)
  have "vnodes_ok (forget_vnode ob ev st)"
    using ok unfolding vnodes_ok_def ident by (auto simp: forget_vnode_def)
  then show ?thesis using inv mm_inv_forget_vnode [OF _ mo, of E ev] by (auto simp: shrinks_def cache_inv_def forget_vnode_def)
qed

locale giving_back =
  fixes E :: mm_env and put :: "objid \<Rightarrow> mm \<Rightarrow> mm option"
  assumes put_shrinks: "cache_inv E st \<Longrightarrow> shadow_num st = 0 \<Longrightarrow> mmobjs st ob = Some mo \<Longrightarrow> mmo_nrespages mo < mmo_refcount mo \<Longrightarrow>
    put ob st = Some st' \<Longrightarrow> shrinks E st st'"
begin

lemma free_shrinks:
  assumes inv: "cache_inv E st" and zero: "shadow_num st = 0" and run: "pframe_free put L E pf st = Some st'"
  shows "shrinks E st st'"
proof -
  have mm: "mm_inv E st" using inv by (simp add: cache_inv_def)
  obtain f where f: "frames st pf = Some f" "\<not> is_pinned f" "\<not> pf_busy f"
    using run by (auto simp: pframe_free_def pframe_detach_def bind_eq_Some_conv kassert_def split: if_splits)
  obtain ob mo where ob: "pf_obj f = Some ob" and mo: "mmobjs st ob = Some mo" using mm f(1) unfolding mm_inv_def objs_ok_def by blast
  let ?st = "(drop_frame ob pf mo st)\<lparr>mm_log := mm_log st @ detach_events L E ob f\<rparr>"
    and ?mo = "mo\<lparr>mmo_nrespages := mmo_nrespages mo - 1, mmo_respages := remove1 pf (mmo_respages mo)\<rparr>"
  have put: "put ob ?st = Some st'" using run pframe_detach_eq [OF mm f ob mo, of L] by (simp add: pframe_free_def)
  have "mm_inv E ?st" by (rule mm_inv_cong [OF drop_frame_inv [OF mm f(1,2) ob mo]]) simp_all
  moreover have "vnodes_ok ?st"
    by (rule vnodes_ok_mono [of st]) (use inv mo in \<open>auto simp: cache_inv_def drop_frame_def vnode_object_def\<close>)
  ultimately have s: "shrinks E st ?st" using mo by (auto simp: shrinks_def cache_inv_def drop_frame_def)
  have "mmobjs ?st ob = Some ?mo" "mmo_nrespages ?mo < mmo_refcount ?mo" using mm_inv_object [OF mm mo] by (simp_all add: drop_frame_def)
  then have "shrinks E ?st st'" using put_shrinks [OF shrinks_inv(1) [OF s] _ _ _ put] zero shrinks_inv(2) [OF s] by auto
  with s show ?thesis by (rule shrinks_trans)
qed

lemma vput_pages_shrinks:
  "vput_pages put L E pfs st = Some st' \<Longrightarrow> cache_inv E st \<Longrightarrow> shadow_num st = 0 \<Longrightarrow> shrinks E st st'"
proof (induction pfs arbitrary: st)
  case Nil
  then show ?case by (simp add: shrinks_refl)
next
  case (Cons pf pfs)
  then obtain st1 where st1: "pframe_free put L E pf st = Some st1" "vput_pages put L E pfs st1 = Some st'"
    by (auto simp: bind_eq_Some_conv)
  have s: "shrinks E st st1" by (rule free_shrinks [OF Cons.prems(2,3) st1(1)])
  then show ?case using Cons.IH [OF st1(2)] Cons.prems(3) shrinks_trans shrinks_inv by metis
qed

lemma vput_shrinks:
  assumes inv: "cache_inv E st" and zero: "shadow_num st = 0" and run: "vput put L E ob st = Some st'"
  shows "shrinks E st st'"
proof -
  obtain mo v where mo: "mmobjs st ob = Some mo" and v: "vnodes st ob = Some v" "mmo_nrespages mo < mmo_refcount mo"
    using run by (auto simp: vput_def bind_eq_Some_conv kassert_def split: if_splits)
  let ?c = "mmo_nrespages mo = mmo_refcount mo - 1 \<and> \<not> query_vnode E v"
  obtain st1 where st1: "if ?c then vput_pages put L E (mmo_respages mo) st = Some st1 \<and> map_option mmo_refcount (mmobjs st1 ob) = Some 1 else st1 = st"
    and rest: "do { st2 \<leftarrow> upd_obj ob (\<lambda>mo. mo\<lparr>mmo_refcount := mmo_refcount mo - 1\<rparr>) st1; mo2 \<leftarrow> mmobjs st2 ob;
      if 0 < mmo_refcount mo2 then Some st2 else do { kassert (mmo_refcount mo2 = 0); kassert (mmo_nrespages mo2 = 0);
        let st3 = st2\<lparr>vnodes := (vnodes st2)(ob \<mapsto> v\<lparr>vn_busy := True\<rparr>)\<rparr>;
        let st4 = (if delete_vnode E (vn_fs v) then mm_event (VnodeDeleted ob) st3 else st3); let st5 = mm_event (VnBroadcast ob) st4;
        Some (mm_event (ObjFreed ob) (st5\<lparr>vnode_inuse_list := remove1 ob (vnode_inuse_list st5),
          vnodes := (vnodes st5)(ob := None), mmobjs := (mmobjs st5)(ob := None)\<rparr>)) } } = Some st'"
    using run mo v by (auto simp: vput_def bind_eq_Some_conv kassert_def split: if_splits)
  have s1: "shrinks E st st1" using st1 vput_pages_shrinks [OF _ inv zero] shrinks_refl [OF inv] by (auto split: if_splits)
  obtain mo1 where mo1: "mmobjs st1 ob = Some mo1" using rest by (auto simp: upd_obj_def bind_eq_Some_conv)
  have inv1: "mm_inv E st1" "cache_inv E st1" using s1 by (simp_all add: shrinks_def cache_inv_def)
  note ok1 = mm_inv_object [OF inv1(1) mo1]
  show ?thesis
  proof (cases "1 < mmo_refcount mo1")
    case True
    then have "st' = ref_state ob mo1 (- 1) st1" using rest mo1 by (simp add: upd_obj_def ref_state_def)
    moreover have "mmo_nrespages mo1 \<le> mmo_refcount mo1 - 1" using st1 True mo mo1 v(2) by (auto split: if_splits)
    ultimately show ?thesis using shrinks_trans [OF s1 ref_state_shrinks [OF inv1(2) mo1, of "- 1"]] True by simp
  next
    case False
    let ?ev = "(if delete_vnode E (vn_fs v) then [VnodeDeleted ob] else []) @ [VnBroadcast ob, ObjFreed ob]"
    have "st' = forget_vnode ob ?ev st1 \<and> mmo_nrespages mo1 = 0"
      using rest mo1 False by (auto simp: upd_obj_def forget_vnode_def mm_event_def Let_def kassert_def split: if_splits)
    moreover from this have "mmo_respages mo1 = []" using inv1(1) mo1 by (auto simp: mm_inv_def objs_ok_def obj_ok_def)
    ultimately show ?thesis using shrinks_trans [OF s1 forget_vnode_shrinks [OF inv1(2) mo1]] by simp
  qed
qed

end

text \<open>The loops, by induction on their computation.\<close>

lemma anon_put_loop_shrinks:
  assumes "giving_back E put" and "anon_put_loop put L E ob st = Some st'" and "cache_inv E st" and "shadow_num st = 0"
  shows "shrinks E st st' \<and> (\<exists>mo. mmobjs st' ob = Some mo \<and> mmo_respages mo = [])"
proof -
  have step: "giving_back E put \<longrightarrow> cache_inv E st \<longrightarrow> shadow_num st = 0 \<longrightarrow> shrinks E st y \<and> (\<exists>mo. mmobjs y ob = Some mo \<and> mmo_respages mo = [])"
    if IH: "\<And>put L E ob st y. loop put L E ob st = Some y \<Longrightarrow> giving_back E put \<longrightarrow> cache_inv E st \<longrightarrow> shadow_num st = 0 \<longrightarrow>
        shrinks E st y \<and> (\<exists>mo. mmobjs y ob = Some mo \<and> mmo_respages mo = [])"
      and run: "do { mo \<leftarrow> mmobjs st ob; case mmo_respages mo of [] \<Rightarrow> Some st | pf # _ \<Rightarrow> do {
        st1 \<leftarrow> pframe_unpin pf st; let st2 = st1\<lparr>anon_temp_c := anon_temp_c st1 + 1\<rparr>; f \<leftarrow> frames st2 pf; kassert (\<not> pf_busy f);
        st3 \<leftarrow> pframe_free put L E pf st2; loop put L E ob (st3\<lparr>anon_temp_c := anon_temp_c st3 - 1\<rparr>) } } = Some y"
    for loop put L E ob st y
  proof (intro impI)
    assume gb: "giving_back E put" and inv: "cache_inv E st" and zero: "shadow_num st = 0"
    obtain mo where mo: "mmobjs st ob = Some mo" using run by (auto simp: bind_eq_Some_conv)
    show "shrinks E st y \<and> (\<exists>mo. mmobjs y ob = Some mo \<and> mmo_respages mo = [])"
    proof (cases "mmo_respages mo")
      case Nil
      then show ?thesis using run mo shrinks_refl [OF inv] by simp
    next
      case (Cons pf pfs)
      then obtain st1 st3 where u: "pframe_unpin pf st = Some st1"
        and fr: "pframe_free put L E pf (st1\<lparr>anon_temp_c := anon_temp_c st1 + 1\<rparr>) = Some st3"
        and rest: "loop put L E ob (st3\<lparr>anon_temp_c := anon_temp_c st3 - 1\<rparr>) = Some y" using run mo by (auto simp: bind_eq_Some_conv Let_def)
      have s1: "shrinks E st (st1\<lparr>anon_temp_c := anon_temp_c st1 + 1\<rparr>)"
        using unpin_inv [OF inv u] unpin_sel [OF u] by (simp add: shrinks_def)
      have s3: "shrinks E (st1\<lparr>anon_temp_c := anon_temp_c st1 + 1\<rparr>) st3"
        by (rule giving_back.free_shrinks [OF gb shrinks_inv(1) [OF s1] _ fr]) (use shrinks_inv(2) [OF s1] zero in simp)
      have s: "shrinks E st (st3\<lparr>anon_temp_c := anon_temp_c st3 - 1\<rparr>)" using shrinks_trans [OF s1 s3] by (simp add: shrinks_def)
      show ?thesis using IH [OF rest] gb s zero shrinks_trans [OF s] shrinks_inv [OF s] by auto
    qed
  qed
  have "giving_back E put \<longrightarrow> cache_inv E st \<longrightarrow> shadow_num st = 0 \<longrightarrow> shrinks E st st' \<and> (\<exists>mo. mmobjs st' ob = Some mo \<and> mmo_respages mo = [])"
    by (rule anon_put_loop.raw_induct [OF _ assms(2)]) (rule step)
  with assms show ?thesis by blast
qed

lemma shadow_put_loop_shrinks:
  assumes "giving_back E put" and "shadow_put_loop put L E ob st = Some st'" and "cache_inv E st" and "shadow_num st = 0"
  shows "shrinks E st st'"
proof -
  have step: "giving_back E put \<longrightarrow> cache_inv E st \<longrightarrow> shadow_num st = 0 \<longrightarrow> shrinks E st y"
    if IH: "\<And>put L E ob st y. loop put L E ob st = Some y \<Longrightarrow> giving_back E put \<longrightarrow> cache_inv E st \<longrightarrow> shadow_num st = 0 \<longrightarrow> shrinks E st y"
      and run: "do { mo \<leftarrow> mmobjs st ob; case mmo_respages mo of [] \<Rightarrow> Some st | pf # _ \<Rightarrow> do {
        let st1 = st\<lparr>shadow_num := shadow_num st + 1\<rparr>; st2 \<leftarrow> pframe_unpin pf st1; f \<leftarrow> frames st2 pf; kassert (\<not> pf_busy f);
        let st3 = st2\<lparr>shadow_num := shadow_num st2 - 1\<rparr>; st4 \<leftarrow> pframe_free put L E pf st3; loop put L E ob st4 } } = Some y"
    for loop put L E ob st y
  proof (intro impI)
    assume gb: "giving_back E put" and inv: "cache_inv E st" and zero: "shadow_num st = 0"
    obtain mo where mo: "mmobjs st ob = Some mo" using run by (auto simp: bind_eq_Some_conv)
    show "shrinks E st y"
    proof (cases "mmo_respages mo")
      case Nil
      then show ?thesis using run mo shrinks_refl [OF inv] by simp
    next
      case (Cons pf pfs)
      then obtain st2 st4 where u: "pframe_unpin pf (st\<lparr>shadow_num := shadow_num st + 1\<rparr>) = Some st2"
        and fr: "pframe_free put L E pf (st2\<lparr>shadow_num := shadow_num st2 - 1\<rparr>) = Some st4"
        and rest: "loop put L E ob st4 = Some y" using run mo by (auto simp: bind_eq_Some_conv Let_def)
      let ?s = "st2\<lparr>shadow_num := shadow_num st2 - 1\<rparr>"
      have inv1: "cache_inv E (st\<lparr>shadow_num := shadow_num st + 1\<rparr>)" using inv by simp
      have s1: "shrinks E st ?s" using unpin_inv [OF inv1 u] unpin_sel [OF u] by (simp add: shrinks_def)
      have s4: "shrinks E ?s st4" by (rule giving_back.free_shrinks [OF gb shrinks_inv(1) [OF s1] _ fr]) (use shrinks_inv(2) [OF s1] zero in simp)
      note s = shrinks_trans [OF s1 s4]
      show ?thesis using IH [OF rest] gb s zero shrinks_trans [OF s] shrinks_inv [OF s] by auto
    qed
  qed
  have "giving_back E put \<longrightarrow> cache_inv E st \<longrightarrow> shadow_num st = 0 \<longrightarrow> shrinks E st st'"
    by (rule shadow_put_loop.raw_induct [OF _ assms(2)]) (rule step)
  with assms show ?thesis by blast
qed

text \<open>The counter of \<open>shadow_put\<close> is not touched by the operations on frames and vnodes.\<close>

lemma pin_counter: "pframe_pin pf st = Some st' \<Longrightarrow> shadow_num st' = shadow_num st"
  by (auto simp: pframe_pin_def unlink_frame_def Let_def frame_upd split: if_splits)

lemma dirty_counter: "pframe_dirty dirtypage pf st = Some (ret, st') \<Longrightarrow> shadow_num st' = shadow_num st"
  by (auto simp: pframe_dirty_def set_busy_def set_dirty_def bind_eq_Some_conv frame_upd split: if_splits)

lemma cleanpage_counter:
  assumes "mmo_cleanpage L E ob pf st = Some (ret, st')"
  shows "shadow_num st' = shadow_num st"
proof -
  obtain mo where "mmobjs st ob = Some mo" using assms by (auto simp: mmo_cleanpage_def bind_eq_Some_conv)
  with assms show ?thesis by (cases "mmo_ops mo") (auto simp: mmo_cleanpage_def vcleanpage_def Let_def bind_eq_Some_conv)
qed

lemma clean_counter: "pframe_clean (mmo_cleanpage L E) L E pf st = Some (ret, st') \<Longrightarrow> shadow_num st' = shadow_num st"
  by (auto simp: pframe_clean_def set_busy_def set_dirty_def pframe_remove_from_pts_def Let_def bind_eq_Some_conv frame_upd dest!: cleanpage_counter split: if_splits)

lemma vget_counter: "vget E V fs vno st = Some (r, st') \<Longrightarrow> shadow_num st' = shadow_num st"
  by (auto simp: vget_def vref_def Let_def bind_eq_Some_conv frame_upd split: option.splits if_splits)

lemma set_shadowed_inv:
  assumes inv: "cache_inv E st" and run: "upd_obj ob (\<lambda>mo. mo\<lparr>mmo_shadowed := below, mmo_bottom_obj := bottom\<rparr>) st = Some st'"
  shows "cache_inv E st' \<and> shadow_num st' = shadow_num st"
proof -
  obtain mo where mo: "mmobjs st ob = Some mo" and st': "st' = st\<lparr>mmobjs := (mmobjs st)(ob \<mapsto> mo\<lparr>mmo_shadowed := below, mmo_bottom_obj := bottom\<rparr>)\<rparr>"
    using run by (auto simp: frame_upd)
  have id: "has_identity st' = has_identity st" by (simp add: st' has_identity_def fun_eq_iff)
  have dom: "dom (mmobjs st') = dom (mmobjs st)" using mo by (auto simp: st')
  have "obj_ok st' x m" if "mmobjs st' x = Some m" for x m
    using inv mo that unfolding cache_inv_def mm_inv_def objs_ok_def obj_ok_def id by (cases "x = ob") (auto simp: st')
  then have "objs_ok st'" using inv unfolding cache_inv_def mm_inv_def objs_ok_def dom by (simp add: st')
  then have "mm_inv E st'" using inv unfolding cache_inv_def mm_inv_def lists_ok_def hash_ok_def unique_ok_def id by (simp add: st')
  moreover have "vnodes_ok st'"
    by (rule vnodes_ok_mono [of st]) (use inv mo in \<open>auto simp: cache_inv_def st' vnode_object_def\<close>)
  ultimately show ?thesis by (simp add: cache_inv_def st')
qed

lemma anon_put_shrinks:
  assumes gb: "giving_back E put" and inv: "cache_inv E st" and zero: "shadow_num st = 0" and mo: "mmobjs st ob = Some mo" "mmo_nrespages mo < mmo_refcount mo"
    and run: "anon_put put L E ob st = Some st'"
  shows "shrinks E st st'"
proof -
  let ?st = "ref_state ob mo (- 1) st"
  have ops: "mmo_ops mo = anon_mmobj_ops" using run mo by (auto simp: anon_put_def kassert_def split: if_splits)
  have upd: "upd_obj ob (\<lambda>mo. mo\<lparr>mmo_refcount := mmo_refcount mo - 1\<rparr>) st = Some ?st" using mo by (simp add: upd_obj_def ref_state_def)
  have s: "shrinks E st ?st" by (rule ref_state_shrinks [OF inv mo(1)]) (use mo ops in auto)
  show ?thesis
  proof (cases "mmo_nrespages mo = mmo_refcount mo - 1")
    case False
    then have "st' = ?st" using run mo ops upd by (auto simp: anon_put_def kassert_def split: if_splits)
    then show ?thesis using s by simp
  next
    case True
    then obtain st2 where loop: "anon_put_loop put L E ob ?st = Some st2"
      using run mo ops upd by (auto simp: anon_put_def bind_eq_Some_conv kassert_def split: if_splits)
    then have st': "st' = (if anon_temp_c st2 = 0 then mm_event (ObjFreed ob) (st2\<lparr>mmobjs := (mmobjs st2)(ob := None)\<rparr>) else st2)"
      using run mo ops upd True by (auto simp: anon_put_def kassert_def split: if_splits)
    obtain mo2 where s2: "shrinks E ?st st2" and mo2: "mmobjs st2 ob = Some mo2" "mmo_respages mo2 = []"
      using anon_put_loop_shrinks [OF gb loop shrinks_inv(1) [OF s]] shrinks_inv(2) [OF s] zero by auto
    have s12: "shrinks E st st2" by (rule shrinks_trans [OF s s2])
    then have "mmo_ops mo2 = anon_mmobj_ops" using mo(1) ops mo2(1) unfolding shrinks_def by fastforce
    then show ?thesis using st' s12 shrinks_trans [OF s12 drop_object_shrinks [OF shrinks_inv(1) [OF s12] mo2]] by simp
  qed
qed

lemma shadow_put_shrinks:
  assumes gb: "giving_back E put" and inv: "cache_inv E st" and zero: "shadow_num st = 0" and mo: "mmobjs st ob = Some mo" "mmo_nrespages mo < mmo_refcount mo"
    and run: "shadow_put put L E ob st = Some st'"
  shows "shrinks E st st'"
proof -
  let ?st = "ref_state ob mo (- 1) st"
  have ops: "mmo_ops mo = shadow_mmobj_ops" using run mo by (auto simp: shadow_put_def kassert_def split: if_splits)
  have upd: "upd_obj ob (\<lambda>mo. mo\<lparr>mmo_refcount := mmo_refcount mo - 1\<rparr>) st = Some ?st" using mo by (simp add: upd_obj_def ref_state_def)
  have s: "shrinks E st ?st" by (rule ref_state_shrinks [OF inv mo(1)]) (use mo ops in auto)
  show ?thesis
  proof (cases "mmo_nrespages mo = mmo_refcount mo - 1")
    case False
    then have "st' = ?st" using run mo ops upd by (auto simp: shadow_put_def kassert_def split: if_splits)
    then show ?thesis using s by simp
  next
    case True
    then obtain st2 where loop: "shadow_put_loop put L E ob ?st = Some st2"
      using run mo ops upd by (auto simp: shadow_put_def bind_eq_Some_conv kassert_def split: if_splits)
    have s2: "shrinks E ?st st2" using shadow_put_loop_shrinks [OF gb loop shrinks_inv(1) [OF s]] shrinks_inv(2) [OF s] zero by simp
    have "shadow_num st2 = 0" using shrinks_inv(2) [OF s] shrinks_inv(2) [OF s2] zero by simp
    then have "st' = st2" using run mo ops upd loop True by (auto simp: shadow_put_def kassert_def split: if_splits)
    then show ?thesis using shrinks_trans [OF s s2] by simp
  qed
qed

lemma mmo_put_gives_back: "giving_back E (mmo_put L E n)"
proof (induction n)
  case 0
  show ?case by unfold_locales simp
next
  case (Suc n)
  show ?case
  proof
    fix st ob mo st'
    assume h: "cache_inv E st" "shadow_num st = 0" "mmobjs st ob = Some mo" "mmo_nrespages mo < mmo_refcount mo" "mmo_put L E (Suc n) ob st = Some st'"
    show "shrinks E st st'"
    proof (cases "mmo_ops mo")
      case anon_mmobj_ops
      then show ?thesis using h by (intro anon_put_shrinks [OF Suc.IH h(1-4)]) simp
    next
      case shadow_mmobj_ops
      then show ?thesis using h by (intro shadow_put_shrinks [OF Suc.IH h(1-4)]) simp
    next
      case vnode_mmobj_ops
      then show ?thesis using h by (intro giving_back.vput_shrinks [OF Suc.IH h(1,2)]) simp
    qed
  qed
qed

interpretation puts: giving_back E "mmo_put L E n" for L E n
  by (rule mmo_put_gives_back)

text \<open>Moving a page to an object that does not have it.\<close>

lemma move_frame_inv:
  assumes inv: "mm_inv E st" and f: "frames st pf = Some f" "pf_obj f = Some src" and mo: "mmobjs st src = Some mo" "mmo_nrespages mo \<le> mmo_refcount mo"
    and md: "mmobjs st dest = Some md" and new: "\<nexists>pf. has_identity st dest (pf_pagenum f) pf"
  shows "mm_inv E (move_frame E pf f src mo dest md st)"
proof -
  let ?st = "move_frame E pf f src mo dest md st" and ?n = "pf_pagenum f"
  have ne: "dest \<noteq> src" using new f by (auto simp: has_identity_iff)
  have id: "has_identity ?st ob n x \<longleftrightarrow> (if x = pf then ob = dest \<and> n = ?n else has_identity st ob n x)" for ob n x
    by (auto simp: has_identity_iff move_frame_def)
  have "lists_ok ?st" using inv f by (auto simp: mm_inv_def lists_ok_def move_frame_def is_pinned_def)
  moreover have "hash_ok E ?st"
    unfolding hash_ok_def id using inv unfolding mm_inv_def hash_ok_def by (auto simp: move_frame_def)
  moreover have "obj_ok ?st ob m" if m: "mmobjs ?st ob = Some m" for ob m
  proof -
    have src: "obj_ok st src mo" and dst: "obj_ok st dest md" using inv mo(1) md by (auto simp: mm_inv_def objs_ok_def)
    have mem: "pf \<in> set (mmo_respages mo)" "pf \<notin> set (mmo_respages md)" using src dst f ne by (auto simp: obj_ok_def has_identity_iff)
    consider "ob = src" | "ob = dest" | "ob \<noteq> src" "ob \<noteq> dest" by blast
    then show ?thesis
    proof cases
      case 1
      then show ?thesis using m src ne mem int_length_remove1 [OF mem(1)] mo(2) unfolding obj_ok_def id by (auto simp: move_frame_def)
    next
      case 2
      then have m2: "m = md\<lparr>mmo_respages := pf # mmo_respages md, mmo_nrespages := mmo_nrespages md + 1, mmo_refcount := mmo_refcount md + 1\<rparr>"
        and v: "vnodes ?st = vnodes st" using m by (simp_all add: move_frame_def)
      have "(x = pf \<or> x \<in> set (mmo_respages md)) \<longleftrightarrow> (\<exists>n. has_identity ?st dest n x)" for x
        using dst unfolding id obj_ok_def by (cases "x = pf") auto
      then show ?thesis using 2 dst mem v unfolding obj_ok_def m2 by simp
    next
      case 3
      then have "obj_ok st ob m" using m inv by (auto simp: mm_inv_def objs_ok_def move_frame_def)
      then show ?thesis using 3 f unfolding obj_ok_def id by (auto simp: move_frame_def has_identity_iff)
    qed
  qed
  moreover have "\<exists>ob. pf_obj g = Some ob \<and> ob \<in> dom (mmobjs ?st)" if "frames ?st x = Some g" for x g
    using that inv md by (cases "x = pf") (auto simp: mm_inv_def objs_ok_def move_frame_def; blast)+
  moreover have "unique_ok ?st"
  proof -
    have "\<forall>x y f1 f2. frames ?st x = Some f1 \<and> frames ?st y = Some f2 \<and> pf_addr f1 = pf_addr f2 \<longrightarrow> x = y"
      using inv f(1) unfolding mm_inv_def unique_ok_def by (auto simp: move_frame_def)
    moreover have "\<forall>ob n x y. has_identity ?st ob n x \<and> has_identity ?st ob n y \<longrightarrow> x = y"
      using inv new unfolding id mm_inv_def unique_ok_def by (auto split: if_splits)
    ultimately show ?thesis by (simp add: unique_ok_def)
  qed
  ultimately show ?thesis by (simp add: mm_inv_def objs_ok_def)
qed

lemma migrate_inv:
  assumes inv: "cache_inv E st" and zero: "shadow_num st = 0" and f: "frames st pf = Some f" "pf_obj f = Some src"
    and mo: "mmobjs st src = Some mo" "mmo_nrespages mo < mmo_refcount mo"
    and run: "pframe_migrate mmo_ref (mmo_put L E n) (mmo_cleanpage L E) L E pf dest st = Some st'"
  shows "cache_inv E st' \<and> shadow_num st' = 0"
proof -
  have mm: "mm_inv E st" using inv by (simp add: cache_inv_def)
  show ?thesis
  proof (rule get_resident_cases [OF mm, of dest "pf_pagenum f"])
    fix x al
    assume r: "pframe_get_resident E dest (pf_pagenum f) st = (Some x, st\<lparr>alloc_list := al\<rparr>)" "mset al = mset (alloc_list st)"
    have "mm_inv E (st\<lparr>alloc_list := al\<rparr>)" by (rule mm_inv_alloc_order [OF mm r(2)])
    then have inv1: "cache_inv E (st\<lparr>alloc_list := al\<rparr>)" by (rule frame_cache_inv [OF inv]) simp_all
    obtain st2 st3 ret where s: "pframe_unpin pf (st\<lparr>alloc_list := al\<rparr>) = Some st2" "pframe_clean (mmo_cleanpage L E) L E pf st2 = Some (ret, st3)"
      "pframe_free (mmo_put L E n) L E pf st3 = Some st'"
      using run f r(1) by (auto simp: pframe_migrate_def bind_eq_Some_conv)
    have inv3: "cache_inv E st3" by (rule clean_inv [OF unpin_inv [OF inv1 s(1)] s(2)])
    have "shadow_num st3 = 0" using clean_counter [OF s(2)] unpin_sel(2) [OF s(1)] zero by simp
    then show ?thesis using puts.free_shrinks [OF inv3 _ s(3)] by (simp add: shrinks_def)
  next
    assume new: "\<nexists>x. has_identity st dest (pf_pagenum f) x" and r: "pframe_get_resident E dest (pf_pagenum f) st = (None, st)"
    have ne: "dest \<noteq> src" using new f by (auto simp: has_identity_iff)
    let ?mo = "mo\<lparr>mmo_respages := remove1 pf (mmo_respages mo), mmo_nrespages := mmo_nrespages mo - 1\<rparr>"
    let ?st4 = "st\<lparr>frames := (frames st)(pf \<mapsto> f\<lparr>pf_obj := Some dest\<rparr>), pframe_hash := (\<lambda>h. remove1 pf (pframe_hash st h)),
      mmobjs := (mmobjs st)(src \<mapsto> ?mo)\<rparr>"
    let ?h = "hash_page E dest (pf_pagenum f)"
    have ok: "obj_ok st src mo" using mm mo(1) by (auto simp: mm_inv_def objs_ok_def)
    then have "pf \<in> set (mmo_respages mo)" using f by (auto simp: obj_ok_def has_identity_iff)
    then have pos: "0 < mmo_nrespages mo" using ok by (auto simp: obj_ok_def)
    obtain m where n: "n = Suc m" using run f r by (cases n) (auto simp: pframe_migrate_def bind_eq_Some_conv)
    have put: "mmo_put L E n src ?st4 = Some (ref_state src ?mo (- 1) ?st4)"
      unfolding n using ok pos mo(2) by (intro mmo_put_less) (auto simp: vnode_ready_def obj_ok_def)
    obtain md where md: "mmobjs st dest = Some md"
      using run f r mo ne put by (auto simp: pframe_migrate_def upd_frame_def upd_obj_def ref_state_def Let_def bind_eq_Some_conv)
    have "st' = move_frame E pf f src mo dest md st"
      using run f r mo ne put md
      by (auto simp: pframe_migrate_def upd_frame_def upd_obj_def ref_state_def mmo_ref_eq Let_def move_frame_def bind_eq_Some_conv kassert_def fun_eq_iff
          split: if_splits)
    moreover have "mm_inv E (move_frame E pf f src mo dest md st)" using mo by (intro move_frame_inv [OF mm f _ _ md new]) auto
    moreover have "vnodes_ok (move_frame E pf f src mo dest md st)"
    proof (rule vnodes_ok_mono [of st])
      show "vnode_object (mmobjs (move_frame E pf f src mo dest md st) vn)" if "vnode_object (mmobjs st vn)" for vn
        using that mo md pos by (auto simp: move_frame_def vnode_object_def)
    qed (use inv in \<open>auto simp: cache_inv_def move_frame_def\<close>)
    ultimately show ?thesis using zero by (simp add: cache_inv_def move_frame_def)
  qed
qed

lemma step_inv:
  assumes env: "alloc_fresh E" "vnode_env_ok E V" and step: "cache_step L E V st st'" and inv: "cache_inv E st" and zero: "shadow_num st = 0"
  shows "cache_inv E st' \<and> shadow_num st' = 0"
  using step
proof cases
  case (create_anon ob r)
  then show ?thesis using create_inv [OF inv _ _ env(2), of ob anon_mmobj_ops] zero by (auto simp: anon_create_def)
next
  case (create_shadow ob ob')
  then show ?thesis using create_inv [OF inv _ _ env(2), of ob shadow_mmobj_ops] zero by (auto simp: shadow_create_def)
next
  case (get_vnode fs vno r)
  then show ?thesis using vget_ok [OF _ _ env(2), of st fs vno] inv vget_counter zero by (auto simp: cache_inv_def)
next
  case (ref ob)
  then obtain mo where mo: "mmobjs st ob = Some mo" "0 < mmo_refcount mo" "st' = ref_state ob mo 1 st"
    by (auto simp: mmo_ref_eq split: option.splits if_splits)
  moreover have "mmo_nrespages mo \<le> mmo_refcount mo" using inv mm_inv_object [of E st ob mo] mo(1) by (simp add: cache_inv_def)
  ultimately show ?thesis using ref_state_shrinks [OF inv, of ob mo 1] zero by (simp add: shrinks_def)
next
  case (put ob mo n)
  then show ?thesis using puts.put_shrinks [OF inv zero] zero by (auto simp: shrinks_def)
next
  case (set_shadowed ob below bottom)
  then show ?thesis using set_shadowed_inv [OF inv] zero by auto
next
  case (get n ob pagenum ret pf)
  then have "extends E st st'" using pframe_get_extends [OF env(1)] inv by (auto simp: cache_inv_def)
  then show ?thesis using extends_cache_inv [OF inv] zero by (simp add: extends_def)
next
  case (lookup ob pagenum forwrite r)
  then have "extends E st st'" using lookup_extends [OF env(1)] inv by (auto simp: cache_inv_def)
  then show ?thesis using extends_cache_inv [OF inv] zero by (simp add: extends_def)
next
  case (write_page m)
  then show ?thesis using inv frame_cache_inv [OF inv, of st'] zero by (simp add: cache_inv_def)
next
  case (pin pf)
  then show ?thesis using pin_inv [OF inv] pin_counter zero by simp
next
  case (unpin pf)
  then show ?thesis using unpin_inv [OF inv] unpin_sel zero by simp
next
  case (dirty pf ret)
  then show ?thesis using dirty_inv [OF inv] dirty_counter zero by simp
next
  case (clean pf ret)
  then show ?thesis using clean_inv [OF inv] clean_counter zero by simp
next
  case (free n pf)
  then show ?thesis using puts.free_shrinks [OF inv zero] zero by (simp add: shrinks_def)
next
  case (migrate pf f src mo n dest)
  then show ?thesis by (intro migrate_inv [OF inv zero])
qed

text \<open>
  C3: The page cache is always well formed.  From the start of the kernel on, whatever objects and vnodes are created and made to shadow one another, pages
  brought in, written to, pinned, written back, moved and freed, and references taken and given back by who has them, the last one of an object
  or a vnode included: the lists, the counters and the hash table agree with the frames, each object lists exactly its resident pages and has a
  reference for each of them, a page has one frame at most, the vnodes in use are exactly those that there are, each with a referenced object, and a
  file has one vnode.  The counter of \<^verbatim>\<open>shadow_put\<close> is 0 between two operations.
\<close>

theorem page_cache_invariant:
  assumes "alloc_fresh E" and "vnode_env_ok E V" and "cache_reachable L E V st"
  shows "mm_inv E st \<and> vnodes_ok st \<and> shadow_num st = 0"
proof -
  have "cache_inv E st \<and> shadow_num st = 0"
    using assms(3)
  proof induction
    case (start st st')
    then show ?case by (rule start_inv)
  next
    case (step st st')
    show ?case by (rule step_inv [OF assms(1,2) step.hyps(2)]) (use step.IH in auto)
  qed
  then show ?thesis by (simp add: cache_inv_def)
qed

lemma demo_reachable:
  "\<exists>st. cache_reachable demo_layout demo_mm_env demo_vnode_env st \<and> (\<exists>pf f. frames st pf = Some f \<and> pf_obj f = Some 1)"
proof -
  let ?E = demo_mm_env
  let ?mo = "(mmobj_init ?E anon_mmobj_ops)\<lparr>mmo_refcount := 1\<rparr>"
  let ?s1 = "demo_booted\<lparr>nfreepages_target := 2\<rparr>" and ?s2 = "demo_booted\<lparr>nfreepages_target := 2, mmobjs := [1 \<mapsto> ?mo]\<rparr>"
  have no: "no_objects demo_booted" by (simp add: no_objects_def demo_booted_def demo_mm_def)
  have boot: "pframe_init ?E True (vnode_init demo_booted) = Some ?s1"
    by (simp add: pframe_init_def vnode_init_def demo_booted_def demo_mm_def demo_mm_env_def Let_def fun_eq_iff)
  have r1: "cache_reachable demo_layout ?E demo_vnode_env ?s1" by (rule cache_reachable.start [OF no boot])
  have "cache_step demo_layout ?E demo_vnode_env ?s1 ?s2"
    by (rule cache_step.create_anon [where ob = 1]) (simp_all add: demo_booted_def demo_mm_def anon_create_def)
  then have r2: "cache_reachable demo_layout ?E demo_vnode_env ?s2" by (rule cache_reachable.step [OF r1])
  have "cache_inv ?E ?s1" using start_inv [OF no boot] by blast
  then have "cache_inv ?E (?s1\<lparr>mmobjs := (mmobjs ?s1)(1 \<mapsto> ?mo)\<rparr>)"
    by (rule create_inv [OF _ _ _ demo_vnode_env_ok]) (simp_all add: demo_booted_def demo_mm_def)
  then have inv: "mm_inv ?E ?s2" by (simp add: cache_inv_def demo_booted_def)
  have quiet: "quiet ?s2" by (simp add: quiet_def demo_booted_def demo_mm_def)
  have rank: "ranked id ?s2" by (simp add: ranked_def chain_link_def demo_mm_env_def)
  have mo: "mmobjs ?s2 1 = Some ?mo" "0 < mmo_refcount ?mo" by simp_all
  have small: "card (dom (frames ?s2)) + 1 < 4" by (simp add: demo_booted_def demo_mm_def)
  obtain pf f st where g: "pframe_get demo_layout ?E (Suc (Suc 0)) 1 7 ?s2 = Some (0, pf, st)" "frames st pf = Some f"
    by (rule get_page [OF inv quiet rank mo demo_memory small demo_reads])
  have fresh: "alloc_fresh ?E" using demo_memory by (simp add: memory_def)
  have e: "extends ?E ?s2 st" "has_identity st 1 7 pf" using pframe_get_extends [OF fresh inv g(1)] by auto
  have r3: "cache_reachable demo_layout ?E demo_vnode_env st" by (rule cache_reachable.step [OF r2 cache_step.get [OF g(1)]])
  show ?thesis using r3 e(2) by (auto simp: has_identity_iff)
qed

theorem page_cache_invariant_witness:
  "\<exists>st. cache_reachable demo_layout demo_mm_env demo_vnode_env st \<and> frames st \<noteq> Map.empty \<and> mm_inv demo_mm_env st \<and> vnodes_ok st"
proof -
  obtain st where st: "cache_reachable demo_layout demo_mm_env demo_vnode_env st" "\<exists>pf f. frames st pf = Some f" using demo_reachable by blast
  have "alloc_fresh demo_mm_env" using demo_memory by (simp add: memory_def)
  then show ?thesis using page_cache_invariant [OF _ demo_vnode_env_ok st(1)] st by auto
qed

end
