(* ===== verification/Spec2Isabelle.thy ===== *)
theory Spec2Isabelle
  imports Sort402 Kmutex Boot Page_Cache
begin

text \<open>
  \<^bold>\<open>Verification of the CSCI 402 kernel and list assignments.\<close>

  The repository holds the course work of an operating-system class: a generic list and a sorting program (\<^verbatim>\<open>src/warmup1\<close>), and a kernel
  of the Weenix family in three stages, of which \<^verbatim>\<open>src/vm-submit\<close> is the last and complete one.  The development models the core of
  \<^verbatim>\<open>vm-submit/kernel\<close> and of \<^verbatim>\<open>warmup1\<close>, function by function, and proves what makes each part correct; where the code does not do what it
  means to, it proves what it does.

  \<^bold>\<open>The kernel and its parts.\<close>  A user process traps into \<^verbatim>\<open>api/syscall.c\<close>, whose handlers copy their arguments (\<^verbatim>\<open>api/access.c\<close>, over the address
  space of \<^verbatim>\<open>vm/vmmap.c\<close>) and call the file system (\<^verbatim>\<open>fs/namev.c\<close>, \<^verbatim>\<open>fs/open.c\<close>, \<^verbatim>\<open>fs/vfs_syscall.c\<close>) or the memory calls (\<^verbatim>\<open>vm/mmap.c\<close>,
  \<^verbatim>\<open>vm/brk.c\<close>).  Areas of an address space show memory objects (\<^verbatim>\<open>vm/anon.c\<close>, \<^verbatim>\<open>vm/shadow.c\<close>, the objects of vnodes in \<^verbatim>\<open>fs/vnode.c\<close>), whose
  pages live in the page cache (\<^verbatim>\<open>mm/pframe.c\<close>); page faults (\<^verbatim>\<open>vm/pagefault.c\<close>) bring them in.  \<^verbatim>\<open>proc/fork.c\<close> copies a process
  (\<^verbatim>\<open>proc/proc.c\<close>, \<^verbatim>\<open>proc/kthread.c\<close>), sharing pages through shadow objects.  Threads run, sleep and wake up in \<^verbatim>\<open>proc/sched.c\<close>, on which
  \<^verbatim>\<open>proc/kmutex.c\<close> is built.

  \<^bold>\<open>Theories, in the order of their imports.\<close>

  \<^item> \<open>Weenix_Prelude\<close>: 32-bit words and page arithmetic, error numbers, assertions (\<open>kassert\<close>), the memory layout, shared lemmas and
    collections.

  \<^item> \<open>My402List\<close> (\<^verbatim>\<open>warmup1/my402list.c\<close>): the circular list over a heap of cells, with allocation failure and freed cells.  Insertion and
    removal implement the operations on HOL lists; the locale of lists it provides is what the sorter uses.

  \<^item> \<open>Sort402\<close> (\<^verbatim>\<open>warmup1/my402sort.c\<close>): reading and checking a file of transactions, sorting it and printing the statement.  The program as
    a whole is a function of the contents of its file.

  \<^item> \<open>Sched\<close> (\<^verbatim>\<open>proc/sched.c\<close>): thread queues, sleeping, waking up, cancelling, the switch to the next thread with the interrupts that arrive
    while the processor is idle.  No thread is lost; queues are first-in first-out.

  \<^item> \<open>Kmutex\<close> (\<^verbatim>\<open>proc/kmutex.c\<close>): mutual exclusion under every interleaving, and hand-over to the longest waiting thread.

  \<^item> \<open>Proc\<close> (\<^verbatim>\<open>proc/proc.c\<close>, \<^verbatim>\<open>proc/kthread.c\<close>): identifiers, creation, exit, reparenting, \<^verbatim>\<open>do_waitpid\<close>, halting.  The process tree stays well
    formed; exit wakes the parent.

  \<^item> \<open>Vfs\<close> (\<^verbatim>\<open>fs/namev.c\<close>, \<^verbatim>\<open>fs/open.c\<close>, \<^verbatim>\<open>fs/vfs_syscall.c\<close>): path resolution equals following components one by one; each call gives back the
    vnode references it takes, on every branch; descriptors and file references agree.

  \<^item> \<open>Vmmap\<close> (\<^verbatim>\<open>vm/vmmap.c\<close>): address spaces as sorted lists of areas, which implement a partial map from pages to areas; finding a range is
    first fit; removal, insertion and destruction balance the references to memory objects.

  \<^item> \<open>Usermem\<close> (\<^verbatim>\<open>api/access.c\<close>, \<^verbatim>\<open>vm/mmap.c\<close>, \<^verbatim>\<open>vm/brk.c\<close>, \<^verbatim>\<open>vm/pagefault.c\<close>): permission checks, copies from and to user memory, the memory
    calls and page faults.

  \<^item> \<open>Syscalls\<close> (\<^verbatim>\<open>api/syscall.c\<close>): the handlers of file and memory calls: error contract, and that no kernel buffer is lost.

  \<^item> \<open>Pframe\<close> (\<^verbatim>\<open>mm/pframe.c\<close>): the page cache, and its contract with memory objects as the locale \<open>memory_objects\<close>, in which cleaning all
    pages and paging out are proved.

  \<^item> \<open>Mmobj\<close> (\<^verbatim>\<open>vm/anon.c\<close>, \<^verbatim>\<open>vm/shadow.c\<close>, \<^verbatim>\<open>fs/vnode.c\<close>): the operations of the three kinds of memory object; they interpret the locale.

  \<^item> \<open>Shadow_Chains\<close>: what is seen through an object; getting a page keeps every view, and a lookup for writing copies first.

  \<^item> \<open>Reclaim\<close>: the last reference to an object, and the page-out daemon.

  \<^item> \<open>Fork\<close> (\<^verbatim>\<open>proc/fork.c\<close>): the child sees what the parent saw, writes of one are not seen by the other, and the child's thread returns 0.

  \<^item> \<open>Vnode\<close> (\<^verbatim>\<open>fs/vnode.c\<close>): the table of vnodes, special files, \<^verbatim>\<open>vfs_is_in_use\<close> and \<^verbatim>\<open>vnode_flush_all\<close>.

  \<^item> \<open>Dispatch\<close> (\<^verbatim>\<open>api/syscall.c\<close>): the trap handler, the dispatcher and the handlers of process calls, over the state of the whole kernel.  \<^verbatim>\<open>sys_execve\<close>
    frees what it copies on every path; a cancelled thread does not return to user mode.

  \<^item> \<open>Shutdown\<close> (\<^verbatim>\<open>mm/pframe.c\<close>): starting and stopping the page-out daemon, and the end of the page cache.

  \<^item> \<open>Boot\<close> (\<^verbatim>\<open>main/kmain.c\<close>): the first processes, the idle process and the init process; the loop in which init reaps its children ends.

  \<^item> \<open>Page_Cache\<close>: page frames, objects and vnodes as a transition system, well formed in every state the kernel reaches, the last reference to an
    object or a vnode included.

  \<^bold>\<open>Interfaces.\<close>  What one part promises another is a locale, interpreted on the model of the part that keeps the promise: \<open>cursor\<close> (walking a
  list, in \<open>My402List\<close>), \<open>fifo\<close> (thread queues, in \<open>Sched\<close>), \<open>page_map\<close> (address spaces as maps from pages, in \<open>Vmmap\<close>),
  \<open>memory_objects\<close> (stated in \<open>Pframe\<close> for the page cache, interpreted in \<open>Mmobj\<close> on anonymous, shadow and vnode objects) and \<open>giving_back\<close> (what
  the loops that free pages need of \<^verbatim>\<open>put\<close>, in \<open>Page_Cache\<close>, interpreted on every depth of its recursion).

  \<^bold>\<open>How the code is modelled.\<close>

  \<^item> Structures are records, pointers are identifiers into maps (\<open>threads\<close>, \<open>procs\<close>, \<open>mmobjs\<close>, \<open>frames\<close>, \<open>vnodes\<close>), and each function is a
    definition that takes and returns the state.  Page numbers, addresses and counters that may wrap are 32-bit words.

  \<^item> A failed \<^verbatim>\<open>KASSERT\<close>, a panic and a use of a null or uninitialised pointer are \<open>None\<close>.  Errors that the code returns are \<open>Inl\<close> values.  Theorems
    that an operation succeeds say so with \<open>Some\<close>.

  \<^item> A thread that sleeps leaves the operation it is in: the operation returns the state in which another thread runs, and the loop around
    the sleep is entered again when the thread is woken up.

  \<^item> Effects on parts that are not in the repository (page tables, the TLB, freed memory, user copies) are recorded as events.  So are the wake-ups of
    threads that wait for a page or a vnode (\<^verbatim>\<open>sched_broadcast_on\<close> in \<^verbatim>\<open>mm/pframe.c\<close> and \<^verbatim>\<open>fs/vnode.c\<close>): they are not performed on the run queue of
    \<open>Sched\<close>, and no theorem speaks of the run queue across these operations.

  \<^item> What the repository does not contain is an argument or a field of an environment: the memory layout (\<open>layout\<close>), the file systems
    (\<open>vfs_env\<close>, \<open>fs_config\<close>), devices and vnode allocation (\<open>vnode_env\<close>), page and slab allocators and the hash of pages (\<open>mm_env\<close>,
    \<open>map_env\<close>, \<open>proc_alloc\<close>, \<open>fork_env\<close>), system calls and start-up (\<open>sys_env\<close>, \<open>boot_env\<close>), kernel constants (\<open>kconfig\<close>), \<^verbatim>\<open>malloc\<close>, \<^verbatim>\<open>ctime\<close> and the contents of files for the sorter.  The
    hypotheses on them are their documented behaviour: allocators return unused memory (\<open>alloc_fresh\<close>, \<open>memory\<close>,
    \<open>vnode_env_ok\<close>), \<^verbatim>\<open>page_free_count\<close> counts them (\<open>frames_counted\<close>), \<^verbatim>\<open>fillpage\<close> fills a page (\<open>fs_reads\<close>), \<^verbatim>\<open>cleanpage\<close> succeeds (\<open>cleanable\<close>,
    \<open>flushable\<close>).  Each theorem with such a
    hypothesis has a witness on a concrete environment.

  \<^bold>\<open>Loops and bounds.\<close>  Loops over lists are structural recursions.  Loops that the code could run for ever (\<^verbatim>\<open>pframe_get\<close> on a busy page, the walk
    along shadow objects, \<^verbatim>\<open>pframe_clean_all\<close>, the page-out daemon, \<^verbatim>\<open>vnode_flush_all\<close>, \<^verbatim>\<open>_proc_getid\<close>, \<^verbatim>\<open>sys_getdents\<close>, the loop of the init process) are partial functions into
    \<open>option\<close>, with theorems that they end.  Two mutual recursions through the operations of memory objects have a bound as an argument: \<open>pframe_get\<close>,
    for which 2 is enough because filling a page of a shadow object gets at most one page below it, from an object that shadows
    nothing, and \<open>mmo_put\<close>, for which one more than the number of resident pages is enough, as each page gives back one reference.

  \<^bold>\<open>Not modelled.\<close>

  \<^item> Headers, drivers, file systems, memory allocators, page tables and context switches of Weenix are not in the repository.

  \<^item> Of \<^verbatim>\<open>main/kmain.c\<close>: \<^verbatim>\<open>kmain\<close>, which initialises hardware and allocators, and the commands of the test shell, which start user programs.

  \<^item> Of \<^verbatim>\<open>proc/proc.c\<close> and \<^verbatim>\<open>vm/vmmap.c\<close>: the functions
    that print debugging information; debugging output everywhere.  Of \<^verbatim>\<open>proc/kthread.c\<close>: the functions for several threads in a process,
    which are stubs.  Code under \<^verbatim>\<open>__MOUNTING__\<close>, \<^verbatim>\<open>__MTP__\<close> and \<^verbatim>\<open>__GETCWD__\<close>, which is not compiled.

  \<^item> \<^verbatim>\<open>do_execve\<close> and the kernel shell, which \<^verbatim>\<open>api/syscall.c\<close> calls, are not in the repository and are fields of \<open>sys_env\<close>.

  \<^item> \<^verbatim>\<open>procs-submit\<close> and \<^verbatim>\<open>vfs-submit\<close> are earlier stages of the files modelled from \<^verbatim>\<open>vm-submit\<close>; \<^verbatim>\<open>warmup2\<close> holds experiments with threads and
    copies of the files of \<^verbatim>\<open>warmup1\<close>.
\<close>

end
